(* ===== verification/Prelude.thy ===== *)
theory Prelude
  imports Main "HOL-Library.Word"
begin

text \<open>
  Shared by every component: the machine-integer types, the errors a run of the C code can
  end in and the result type that carries them, checked reads of arrays, \<open>memcmp\<close>, the
  fact collections the component proofs use, and the generic lemmas on lists and words.
\<close>

unbundle bit_operations_syntax

subsection \<open>Machine types\<close>

text \<open>The code is built for x86-64: \<open>unsigned long\<close> has 64 bits, \<open>unsigned int\<close> 32.\<close>

type_synonym u8 = "8 word"
type_synonym u32 = "32 word"
type_synonym u64 = "64 word"

subsection \<open>Results of C code\<close>

text \<open>
  Every way the modelled code stops without returning is a value: a failed \<open>assert\<close>, an
  access outside an object, a dereferenced NULL, a read of a variable that was never
  written, \<open>exit(1)\<close> (\<open>die()\<close> and the failed allocations of the hash table).
\<close>

datatype cerror = Assert_failed | Out_of_bounds | Null_deref | Uninit_read | Exit_failure

type_synonym 'a result = "cerror + 'a"

fun rbind :: "'a result \<Rightarrow> ('a \<Rightarrow> 'b result) \<Rightarrow> 'b result" where
  "rbind (Inl e) f = Inl e"
| "rbind (Inr x) f = f x"

definition rassert :: "bool \<Rightarrow> unit result" where
  "rassert b = (if b then Inr () else Inl Assert_failed)"

definition rd :: "'a list \<Rightarrow> nat \<Rightarrow> 'a result" where
  "rd xs i = (if i < length xs then Inr (xs ! i) else Inl Out_of_bounds)"

definition wr :: "'a list \<Rightarrow> nat \<Rightarrow> 'a \<Rightarrow> 'a list result" where
  "wr xs i v = (if i < length xs then Inr (xs[i := v]) else Inl Out_of_bounds)"

definition deref :: "'a option \<Rightarrow> 'a result" where
  "deref p = (case p of None \<Rightarrow> Inl Null_deref | Some x \<Rightarrow> Inr x)"

text \<open>\<open>!memcmp(p, q, n)\<close>: both objects must have \<open>n\<close> readable bytes.\<close>

definition memcmp_eq :: "u8 list \<Rightarrow> u8 list \<Rightarrow> nat \<Rightarrow> bool result" where
  "memcmp_eq p q n =
     (if n \<le> length p \<and> n \<le> length q then Inr (take n p = take n q) else Inl Out_of_bounds)"

named_theorems result_simps \<open>evaluation of the checked operations\<close>

declare rassert_def [result_simps] rd_def [result_simps] wr_def [result_simps]
  deref_def [result_simps] memcmp_eq_def [result_simps]

lemma rbind_Inr_iff [simp]: "rbind m f = Inr y \<longleftrightarrow> (\<exists>x. m = Inr x \<and> f x = Inr y)"
  by (cases m) auto

lemma rbind_Inr_right [simp]: "rbind m Inr = m"
  by (cases m) auto

lemma rbind_Inl_iff: "rbind m f = Inl e \<longleftrightarrow> m = Inl e \<or> (\<exists>x. m = Inr x \<and> f x = Inl e)"
  by (cases m) auto

lemma rbind_cong [fundef_cong]:
  "m = m' \<Longrightarrow> (\<And>x. m' = Inr x \<Longrightarrow> f x = f' x) \<Longrightarrow> rbind m f = rbind m' f'"
  by (cases m') auto

lemma rassert_Inr [simp]: "rassert b = Inr u \<longleftrightarrow> b"
  by (simp add: rassert_def)

lemma rassert_simps [simp]: "rassert True = Inr ()" "rassert False = Inl Assert_failed"
  by (simp_all add: rassert_def)

lemma rd_Inr [simp]: "rd xs i = Inr v \<longleftrightarrow> i < length xs \<and> v = xs ! i"
  by (auto simp: rd_def)

lemma wr_Inr [simp]: "wr xs i v = Inr ys \<longleftrightarrow> i < length xs \<and> ys = xs[i := v]"
  by (auto simp: wr_def)

lemma rd_ok: "i < length xs \<Longrightarrow> rd xs i = Inr (xs ! i)"
  by (simp add: rd_def)

lemma wr_ok: "i < length xs \<Longrightarrow> wr xs i v = Inr (xs[i := v])"
  by (simp add: wr_def)

lemma deref_simps [simp]: "deref None = Inl Null_deref" "deref (Some x) = Inr x"
  by (simp_all add: deref_def)

lemma deref_Inr [simp]: "deref p = Inr x \<longleftrightarrow> p = Some x"
  by (cases p) auto

lemma memcmp_eq_ok:
  "n \<le> length p \<Longrightarrow> n \<le> length q \<Longrightarrow> memcmp_eq p q n = Inr (take n p = take n q)"
  by (simp add: memcmp_eq_def)

lemma memcmp_eq_Inr [simp]:
  "memcmp_eq p q n = Inr b \<longleftrightarrow> n \<le> length p \<and> n \<le> length q \<and> b = (take n p = take n q)"
  by (auto simp: memcmp_eq_def)

subsection \<open>Words\<close>

lemma unat_u8_less [simp]: "unat (b :: u8) < 256"
  using unsigned_less [of b] by simp

lemma unat_u8_inj: "unat (a :: u8) = unat b \<Longrightarrow> a = b"
  by (simp add: word_unat_eq_iff)

lemma unat_ucast_u8_u64 [simp]: "unat (ucast (b :: u8) :: u64) = unat b"
proof -
  have "unat b < 2 ^ 64" by (rule less_trans [OF unat_u8_less]) simp
  then show ?thesis by (simp add: unsigned_ucast_eq take_bit_nat_eq_self)
qed

lemma unat_Suc_u64: "unat x < 2 ^ 64 - 1 \<Longrightarrow> unat (x + 1 :: u64) = Suc (unat x)"
  by (simp add: unat_word_ariths)

lemma unat_of_nat_u64: "n < 2 ^ 64 \<Longrightarrow> unat (of_nat n :: u64) = n"
  by (simp add: unat_of_nat take_bit_nat_eq_self)

lemma and_mask16_less: "(x :: u64) AND 65535 < 65536"
proof -
  have "x AND 65535 \<le> 65535" by (rule word_and_le1)
  then show ?thesis by (simp add: word_le_nat_alt word_less_nat_alt)
qed

lemma nat_and_mask16: "(n :: nat) AND 65535 = n mod 65536"
proof -
  have "mask 16 = (65535 :: nat)" by (simp add: mask_eq_exp_minus_1)
  moreover have "n AND mask 16 = n mod 2 ^ 16" by (simp add: take_bit_eq_mod flip: take_bit_eq_mask)
  ultimately show ?thesis by simp
qed

subsection \<open>Lists\<close>

lemma take_eq_take_le: "take n xs = take n ys \<Longrightarrow> m \<le> n \<Longrightarrow> take m xs = take m ys"
  by (metis min.absorb1 take_take)

lemma distinct_list_update_snoc:
  "distinct (take n xs) \<Longrightarrow> n < length xs \<Longrightarrow> x \<notin> set (take n xs) \<Longrightarrow>
   distinct (take (Suc n) (xs[n := x]))"
  by (simp add: take_Suc_conv_app_nth)

end
