(* ===== verification/Callstack.thy ===== *)
theory Callstack
  imports Prelude
begin

text \<open>
  The data every backend reads (\<open>callstack.h\<close>, \<open>data/data.h\<close>): callstack entries, the
  records of the input, the scan for the terminating entry that all three backends start
  with, the bytes of a stack as they lie in memory, and the counting allocator of
  \<open>ccalloc.c\<close> and \<open>zalloc.c\<close>.
\<close>

subsection \<open>Entries and records\<close>

record callstack_entry =
  ip :: u64
  cmap :: u64

record crecord =
  r_id :: u64
  r_stack :: "callstack_entry list"

definition MAX_STACK_ENTRIES :: nat where
  "MAX_STACK_ENTRIES = 256"

text \<open>
  The loop \<open>for (i = 0; i < MAX_STACK_ENTRIES; i++) if (!stack[i].ip) break;\<close> with the
  index it stops at, \<open>None\<close> when no entry ends the stack.
\<close>

fun scan_stack :: "nat \<Rightarrow> callstack_entry list \<Rightarrow> nat option" where
  "scan_stack 0 es = None"
| "scan_stack (Suc fuel) [] = None"
| "scan_stack (Suc fuel) (e # es) =
     (if ip e = 0 then Some 0 else map_option Suc (scan_stack fuel es))"

definition stack_end :: "callstack_entry list \<Rightarrow> nat option" where
  "stack_end stack = scan_stack MAX_STACK_ENTRIES stack"

lemma scan_stack_Some:
  "scan_stack k es = Some n \<Longrightarrow>
     n < k \<and> n < length es \<and> ip (es ! n) = 0 \<and> (\<forall>i<n. ip (es ! i) \<noteq> 0)"
proof (induction k es arbitrary: n rule: scan_stack.induct)
  case (3 fuel e es)
  then show ?case
    by (cases n) (auto simp: nth_Cons' less_Suc_eq_0_disj split: if_splits)
qed simp_all

lemma scan_stack_None:
  "scan_stack k es = None \<longleftrightarrow> (\<forall>i<min k (length es). ip (es ! i) \<noteq> 0)"
proof (induction k es rule: scan_stack.induct)
  case (3 fuel e es)
  then show ?case
    by (auto simp: less_Suc_eq_0_disj)
qed simp_all

lemma scan_stack_append:
  "length es < k \<Longrightarrow> \<forall>e \<in> set es. ip e \<noteq> 0 \<Longrightarrow> ip z = 0 \<Longrightarrow>
     scan_stack k (es @ z # rest) = Some (length es)"
proof (induction es arbitrary: k)
  case Nil
  then show ?case by (cases k) auto
next
  case (Cons e es)
  then show ?case by (cases k) auto
qed

subsection \<open>The bytes of a stack\<close>

text \<open>
  The ART and hash backends cast the entry array to bytes. x86-64 stores each
  \<open>unsigned long\<close> least significant byte first; an entry is \<open>ip\<close> then \<open>map\<close>.
\<close>

primrec low_bytes :: "nat \<Rightarrow> u64 \<Rightarrow> u8 list" where
  "low_bytes 0 w = []"
| "low_bytes (Suc n) w = ucast w # low_bytes n (drop_bit 8 w)"

definition le_bytes :: "u64 \<Rightarrow> u8 list" where
  "le_bytes w = low_bytes 8 w"

definition entry_bytes :: "callstack_entry \<Rightarrow> u8 list" where
  "entry_bytes e = le_bytes (ip e) @ le_bytes (cmap e)"

definition stack_bytes :: "callstack_entry list \<Rightarrow> u8 list" where
  "stack_bytes es = concat (map entry_bytes es)"

fun of_le_bytes :: "u8 list \<Rightarrow> u64" where
  "of_le_bytes [] = 0"
| "of_le_bytes (b # bs) = ucast b OR push_bit 8 (of_le_bytes bs)"

lemma length_low_bytes [simp]: "length (low_bytes n w) = n"
  by (induction n arbitrary: w) simp_all

lemma length_le_bytes [simp]: "length (le_bytes w) = 8"
  by (simp add: le_bytes_def)

lemma length_entry_bytes [simp]: "length (entry_bytes e) = 16"
  by (simp add: entry_bytes_def)

lemma entry_bytes_neq_Nil [simp]: "entry_bytes e \<noteq> []"
  by (metis length_entry_bytes list.size(3) zero_neq_numeral)

lemma length_stack_bytes [simp]: "length (stack_bytes es) = 16 * length es"
  by (induction es) (auto simp: stack_bytes_def)

lemma of_le_bytes_low_bytes: "of_le_bytes (low_bytes n w) = take_bit (8 * n) w"
proof (induction n arbitrary: w)
  case (Suc n)
  show ?case
    by (rule bit_word_eqI) (auto simp: Suc.IH bit_simps)
qed simp

lemma of_le_bytes_le_bytes [simp]: "of_le_bytes (le_bytes w) = w"
  by (simp add: le_bytes_def of_le_bytes_low_bytes take_bit_word_eq_self)

lemma le_bytes_inject [simp]: "le_bytes v = le_bytes w \<longleftrightarrow> v = w"
  by (metis of_le_bytes_le_bytes)

lemma entry_bytes_inject [simp]: "entry_bytes d = entry_bytes e \<longleftrightarrow> d = e"
  by (cases d; cases e) (simp add: entry_bytes_def)

lemma stack_bytes_Cons [simp]: "stack_bytes (e # es) = entry_bytes e @ stack_bytes es"
  by (simp add: stack_bytes_def)

lemma stack_bytes_Nil [simp]: "stack_bytes [] = []"
  by (simp add: stack_bytes_def)

lemma stack_bytes_append [simp]: "stack_bytes (es @ fs) = stack_bytes es @ stack_bytes fs"
  by (simp add: stack_bytes_def)

lemma stack_bytes_inject [simp]: "stack_bytes es = stack_bytes fs \<longleftrightarrow> es = fs"
proof (induction es arbitrary: fs)
  case Nil
  then show ?case by (cases fs) simp_all
next
  case (Cons e es)
  then show ?case by (cases fs) (auto simp: append_eq_append_conv)
qed

text \<open>The bytes of a prefix of the entries, the part of the array before the terminator.\<close>

lemma take_stack_bytes: "n \<le> length es \<Longrightarrow> take (16 * n) (stack_bytes es) = stack_bytes (take n es)"
proof (induction es arbitrary: n)
  case (Cons e es)
  then show ?case by (cases n) simp_all
qed simp

subsection \<open>The counting allocator\<close>

text \<open>
  \<open>num_allocs\<close>, \<open>num_frees\<close> and \<open>leaf_frees\<close> are the globals of \<open>ccalloc.c\<close>.
  Whether \<open>calloc\<close> finds memory is the environment's choice: \<open>plan\<close> holds the outcome
  of the coming calls, and calls beyond it succeed.
\<close>

record alloc_state =
  num_allocs :: u64
  num_frees :: u64
  leaf_frees :: u64
  plan :: "bool list"

definition calloc_ok :: "alloc_state \<Rightarrow> bool \<times> alloc_state" where
  "calloc_ok a = (case plan a of [] \<Rightarrow> (True, a) | b # bs \<Rightarrow> (b, a\<lparr>plan := bs\<rparr>))"

definition ccalloc :: "alloc_state \<Rightarrow> bool \<times> alloc_state" where
  "ccalloc a = (let (p, a') = calloc_ok a in (p, a'\<lparr>num_allocs := num_allocs a' + 1\<rparr>))"

definition cfree :: "bool \<Rightarrow> alloc_state \<Rightarrow> alloc_state" where
  "cfree leaf a =
     (let a' = a\<lparr>num_frees := num_frees a + 1\<rparr>
      in if leaf then a'\<lparr>leaf_frees := leaf_frees a' + 1\<rparr> else a')"

definition zalloc :: "alloc_state \<Rightarrow> bool \<times> alloc_state" where
  "zalloc a = calloc_ok (a\<lparr>num_allocs := num_allocs a + 1\<rparr>)"

definition zfree :: "alloc_state \<Rightarrow> 'a option \<Rightarrow> alloc_state \<times> 'a option" where
  "zfree a p = (a\<lparr>num_frees := num_frees a + 1\<rparr>, None)"

lemma ccalloc_num_allocs: "num_allocs (snd (ccalloc a)) = num_allocs a + 1"
  by (simp add: ccalloc_def calloc_ok_def split: list.split)

lemma ccalloc_plenty: "plan a = [] \<Longrightarrow> ccalloc a = (True, a\<lparr>num_allocs := num_allocs a + 1\<rparr>)"
  by (simp add: ccalloc_def calloc_ok_def)

lemma ccalloc_frame:
  "num_frees (snd (ccalloc a)) = num_frees a" "leaf_frees (snd (ccalloc a)) = leaf_frees a"
  by (simp_all add: ccalloc_def calloc_ok_def split: list.split)

lemma zalloc_ccalloc: "zalloc a = ccalloc a"
  by (simp add: zalloc_def ccalloc_def calloc_ok_def split: list.split)

text \<open>A stack that ends within the array is cut at its first entry with \<open>ip = 0\<close>.\<close>

lemma stack_end_Some:
  "stack_end stack = Some n \<Longrightarrow>
     n < 256 \<and> n < length stack \<and> ip (stack ! n) = 0 \<and> (\<forall>i<n. ip (stack ! i) \<noteq> 0)"
  using scan_stack_Some [of MAX_STACK_ENTRIES stack n]
  by (simp add: stack_end_def MAX_STACK_ENTRIES_def)

lemma stack_end_append:
  "length es < 256 \<Longrightarrow> \<forall>e \<in> set es. ip e \<noteq> 0 \<Longrightarrow> ip z = 0 \<Longrightarrow>
     stack_end (es @ z # rest) = Some (length es)"
  by (simp add: stack_end_def MAX_STACK_ENTRIES_def scan_stack_append)

end
