(* ===== verification/Jenkins.thy ===== *)
theory Jenkins
  imports Prelude
begin

text \<open>
  The hash functions of \<open>lib/hashtable\<close>: Bob Jenkins' \<open>mix\<close> and \<open>jhash\<close>
  (\<open>jenkins.c\<close>) and \<open>basic_hash\<close> and \<open>jenkins_hash\<close> (\<open>hashtable.c\<close>). A key is the list
  of bytes from \<open>begin\<close> to \<open>end\<close>. The type \<open>ub4\<close> is \<open>unsigned long int\<close>, 64 bits
  wide on x86-64, so all of \<open>jhash\<close> runs on 64-bit words.
\<close>

subsection \<open>mix\<close>

text \<open>One line of the macro, for the shifts \<open>s1\<close>, \<open>s2\<close>, \<open>s3\<close>: right, left, right.\<close>

definition mix_line :: "nat \<Rightarrow> nat \<Rightarrow> nat \<Rightarrow> u64 \<times> u64 \<times> u64 \<Rightarrow> u64 \<times> u64 \<times> u64" where
  "mix_line s1 s2 s3 t =
     (let (a, b, c) = t;
          a = a - b; a = a - c; a = a XOR drop_bit s1 c;
          b = b - c; b = b - a; b = b XOR push_bit s2 a;
          c = c - a; c = c - b; c = c XOR drop_bit s3 b
      in (a, b, c))"

definition mix :: "u64 \<times> u64 \<times> u64 \<Rightarrow> u64 \<times> u64 \<times> u64" where
  "mix t = mix_line 3 10 15 (mix_line 12 16 5 (mix_line 13 8 13 t))"

text \<open>The inverse the comment above the macro claims to exist.\<close>

definition unmix_line :: "nat \<Rightarrow> nat \<Rightarrow> nat \<Rightarrow> u64 \<times> u64 \<times> u64 \<Rightarrow> u64 \<times> u64 \<times> u64" where
  "unmix_line s1 s2 s3 t =
     (let (a, b, c) = t;
          c = c XOR drop_bit s3 b; c = c + b; c = c + a;
          b = b XOR push_bit s2 a; b = b + a; b = b + c;
          a = a XOR drop_bit s1 c; a = a + c; a = a + b
      in (a, b, c))"

definition unmix :: "u64 \<times> u64 \<times> u64 \<Rightarrow> u64 \<times> u64 \<times> u64" where
  "unmix t = unmix_line 13 8 13 (unmix_line 12 16 5 (unmix_line 3 10 15 t))"

lemma xor_xor_cancel [simp]: "((x :: u64) XOR y) XOR y = x"
  by (simp add: xor.assoc)

lemma unmix_line_mix_line [simp]: "unmix_line s1 s2 s3 (mix_line s1 s2 s3 t) = t"
  by (simp add: mix_line_def unmix_line_def Let_def split: prod.split)

lemma mix_line_unmix_line [simp]: "mix_line s1 s2 s3 (unmix_line s1 s2 s3 t) = t"
  by (simp add: mix_line_def unmix_line_def Let_def split: prod.split)

lemma unmix_mix [simp]: "unmix (mix t) = t"
  by (simp add: mix_def unmix_def)

lemma mix_unmix [simp]: "mix (unmix t) = t"
  by (simp add: mix_def unmix_def)

subsection \<open>jhash\<close>

text \<open>
  The word sums the code writes as \<open>k[0] + ((ub4)k[1] << 8) + ...\<close>: four bytes from
  position \<open>i\<close>, the first the least significant.
\<close>

definition word4 :: "u8 list \<Rightarrow> nat \<Rightarrow> u64" where
  "word4 k i =
     ucast (k ! i) + push_bit 8 (ucast (k ! (i + 1))) + push_bit 16 (ucast (k ! (i + 2)))
       + push_bit 24 (ucast (k ! (i + 3)))"

text \<open>The loop \<open>while (len >= 12)\<close>: the state and the rest of the key, \<open>len\<close> its length.\<close>

function jhash_loop :: "u64 \<times> u64 \<times> u64 \<Rightarrow> u8 list \<Rightarrow> (u64 \<times> u64 \<times> u64) \<times> u8 list" where
  "jhash_loop abc k =
     (if 12 \<le> length k then
        (case abc of (a, b, c) \<Rightarrow>
           jhash_loop (mix (a + word4 k 0, b + word4 k 4, c + word4 k 8)) (drop 12 k))
      else (abc, k))"
  by pat_completeness auto
termination
  by (relation "measure (\<lambda>(abc, k). length k)") auto

declare jhash_loop.simps [simp del]

text \<open>
  The \<open>switch (len)\<close>, whose cases fall through: the bytes at and after \<open>from\<close>, each at
  its own shift, for the bytes that are there. Byte 8 of \<open>c\<close> starts at bit 8, the low
  byte is kept for the length.
\<close>

definition tail_byte :: "u8 list \<Rightarrow> nat \<Rightarrow> nat \<Rightarrow> u64" where
  "tail_byte k i s = (if i < length k then push_bit s (ucast (k ! i)) else 0)"

definition jhash_tail :: "u64 \<times> u64 \<times> u64 \<Rightarrow> u8 list \<Rightarrow> u64 \<times> u64 \<times> u64" where
  "jhash_tail t k =
     (let (a, b, c) = t;
          c = c + tail_byte k 10 24; c = c + tail_byte k 9 16; c = c + tail_byte k 8 8;
          b = b + tail_byte k 7 24; b = b + tail_byte k 6 16; b = b + tail_byte k 5 8;
          b = b + tail_byte k 4 0;
          a = a + tail_byte k 3 24; a = a + tail_byte k 2 16; a = a + tail_byte k 1 8;
          a = a + tail_byte k 0 0
      in (a, b, c))"

definition jhash :: "u8 list \<Rightarrow> u64 \<Rightarrow> u64" where
  "jhash key initval =
     (let ((a, b, c), k) = jhash_loop (0x9e3779b9, 0x9e3779b9, initval) key;
          c = c + of_nat (length key);
          (a, b, c) = mix (jhash_tail (a, b, c) k)
      in c)"

definition jenkins_hash :: "u8 list \<Rightarrow> u64" where
  "jenkins_hash key = jhash key 0 AND 65535"

text \<open>The loop leaves fewer than 12 bytes: the \<open>switch\<close> has a case for every rest.\<close>

lemma jhash_loop_rest: "length (snd (jhash_loop abc k)) < 12"
proof (induction abc k rule: jhash_loop.induct)
  case (1 abc k)
  then show ?case
    by (subst jhash_loop.simps) (auto split: prod.split)
qed

text \<open>Evaluation of \<open>jhash\<close> on a short concrete key: the lets are taken one at a time.\<close>

lemma Let_neg_numeral: "Let (- numeral k :: 'a :: {neg_numeral}) f = f (- numeral k)"
  by (simp only: Let_def)

lemma jhash_loop_short: "length k < 12 \<Longrightarrow> jhash_loop abc k = (abc, k)"
  by (simp add: jhash_loop.simps)

lemma mix_line_eval:
  "mix_line s1 s2 s3 (a, b, c) =
     (let a = a - b - c; a = a XOR drop_bit s1 c; b = b - c - a; b = b XOR push_bit s2 a;
          c = c - a - b; c = c XOR drop_bit s3 b
      in (a, b, c))"
  by (simp add: mix_line_def Let_def)

lemmas jenkins_eval = jenkins_hash_def jhash_def jhash_loop_short jhash_tail_def tail_byte_def
  mix_def mix_line_eval Let_neg_numeral

subsection \<open>basic_hash\<close>

text \<open>
  \<open>h += (h + *k * exp) % m; exp = (exp * p) % m\<close> with \<open>p = 31\<close>, \<open>m = 1000000009\<close>, in
  64-bit arithmetic. The byte \<open>*k\<close> is promoted to \<open>unsigned long\<close>.
\<close>

fun basic_loop :: "u64 \<Rightarrow> u64 \<Rightarrow> u8 list \<Rightarrow> u64" where
  "basic_loop h e [] = h"
| "basic_loop h e (k # ks) =
     basic_loop (h + (h + ucast k * e) mod 1000000009) ((e * 31) mod 1000000009) ks"

definition basic_hash :: "u8 list \<Rightarrow> u64" where
  "basic_hash key = basic_loop 0 1 key AND 65535"

text \<open>The same loop on natural numbers, where nothing wraps.\<close>

fun basic_nat :: "nat \<Rightarrow> nat \<Rightarrow> nat list \<Rightarrow> nat" where
  "basic_nat h e [] = h"
| "basic_nat h e (k # ks) =
     basic_nat (h + (h + k * e) mod 1000000009) ((e * 31) mod 1000000009) ks"

lemma basic_loop_nat:
  "unat e < 1000000009 \<Longrightarrow> unat h + 1000000009 * length ks < 2 ^ 63 \<Longrightarrow>
     unat (basic_loop h e ks) = basic_nat (unat h) (unat e) (map unat ks)"
proof (induction ks arbitrary: h e)
  case (Cons k ks)
  let ?x = "h + ucast k * e" and ?e = "(e * 31) mod 1000000009"
  let ?h = "h + ?x mod 1000000009"
  have k: "unat k * unat e \<le> 255 * 1000000009"
    using Cons.prems(1) unat_u8_less [of k] by (intro mult_mono) linarith+
  have uk: "unat (ucast k * e) = unat k * unat e"
    using k by (simp add: unat_word_ariths)
  have ux: "unat ?x = unat h + unat k * unat e"
    using k uk Cons.prems(2) by (simp add: unat_word_ariths(1) [of h])
  have um: "unat (?x mod 1000000009) = (unat h + unat k * unat e) mod 1000000009"
    by (simp only: unat_mod_distrib ux) simp
  have uh: "unat ?h = unat h + (unat h + unat k * unat e) mod 1000000009"
    using Cons.prems(2) mod_less_divisor [of 1000000009 "unat h + unat k * unat e"]
    by (simp add: unat_word_ariths(1) [of h] um del: mod_less_divisor)
  have ue: "unat ?e = (unat e * 31) mod 1000000009"
    using Cons.prems(1) by (simp add: unat_mod_distrib unat_word_ariths(2))
  have "unat ?h + 1000000009 * length ks < 2 ^ 63"
    using Cons.prems(2) mod_less_divisor [of 1000000009 "unat h + unat k * unat e"]
    by (simp add: uh)
  moreover have "unat ?e < 1000000009" by (simp add: ue)
  ultimately show ?case
    using Cons.IH [of ?e ?h] by (simp add: uh ue)
qed simp

lemma jenkins_hash_less: "jenkins_hash k < 65536"
  by (simp add: jenkins_hash_def and_mask16_less)

lemma basic_hash_less: "basic_hash k < 65536"
  by (simp add: basic_hash_def and_mask16_less)

end
