(* ===== verification/Counting.thy ===== *)
theory Counting
  imports Prelude
begin

text \<open>
  The abstract contract of a counter of keys, which the program's backends are built to
  be: a list of keys with their counts in order of first arrival, and the interface of an
  insertion that adds one to the count of its key. The runs of insertions are proved once
  for the interface.
\<close>

subsection \<open>Counting lists\<close>

fun bump :: "'k \<Rightarrow> ('k \<times> nat) list \<Rightarrow> ('k \<times> nat) list" where
  "bump k [] = [(k, 1)]"
| "bump k ((k', n) # xs) = (if k = k' then (k', Suc n) # xs else (k', n) # bump k xs)"

lemma fst_bump: "fst ` set (bump k xs) = insert k (fst ` set xs)"
  by (induction k xs rule: bump.induct) auto

lemma distinct_bump: "distinct (map fst xs) \<Longrightarrow> distinct (map fst (bump k xs))"
  by (induction k xs rule: bump.induct) (auto simp: fst_bump)

lemma map_of_bump:
  "map_of (bump k xs) j =
     (if j = k then Some (case map_of xs k of None \<Rightarrow> 1 | Some n \<Rightarrow> Suc n) else map_of xs j)"
  by (induction k xs rule: bump.induct) (auto split: option.splits)

lemma bump_notin: "k \<notin> fst ` set xs \<Longrightarrow> bump k xs = xs @ [(k, 1)]"
  by (induction k xs rule: bump.induct) auto

lemma bump_nth:
  "distinct (map fst xs) \<Longrightarrow> i < length xs \<Longrightarrow> fst (xs ! i) = k \<Longrightarrow>
     bump k xs = xs[i := (k, Suc (snd (xs ! i)))]"
proof (induction k xs arbitrary: i rule: bump.induct)
  case (2 k k' n xs)
  show ?case
  proof (cases i)
    case 0
    with 2 show ?thesis by simp
  next
    case (Suc j)
    with 2 have "k \<in> fst ` set xs" "k' \<notin> fst ` set xs" by (auto intro: rev_image_eqI)
    then have "k \<noteq> k'" by auto
    with 2 Suc show ?thesis by simp
  qed
qed simp

lemma sum_bump: "sum_list (map snd (bump k xs)) = Suc (sum_list (map snd xs))"
  by (induction k xs rule: bump.induct) auto

lemma length_bump:
  "length (bump k xs) = (if k \<in> fst ` set xs then length xs else Suc (length xs))"
  by (induction k xs rule: bump.induct) (auto simp: image_iff)

lemma count_list_distinct: "distinct ks \<Longrightarrow> count_list ks k = (if k \<in> set ks then 1 else 0)"
  by (induction ks) auto

text \<open>The list after the keys \<open>ks\<close> have arrived.\<close>

definition tally :: "'k list \<Rightarrow> ('k \<times> nat) list" where
  "tally ks = fold bump ks []"

lemma map_of_fold_bump:
  "map_of (fold bump ks xs) j =
     (if j \<in> set ks
      then Some (count_list ks j + (case map_of xs j of None \<Rightarrow> 0 | Some n \<Rightarrow> n))
      else map_of xs j)"
proof (induction ks arbitrary: xs)
  case (Cons k ks)
  show ?case
    by (cases "map_of xs k") (auto simp: Cons.IH map_of_bump)
qed simp

lemma map_of_tally: "map_of (tally ks) j = (if j \<in> set ks then Some (count_list ks j) else None)"
  by (simp add: tally_def map_of_fold_bump)

lemma fst_fold_bump: "fst ` set (fold bump ks xs) = set ks \<union> fst ` set xs"
  by (induction ks arbitrary: xs) (auto simp: fst_bump)

lemma distinct_fold_bump: "distinct (map fst xs) \<Longrightarrow> distinct (map fst (fold bump ks xs))"
  by (induction ks arbitrary: xs) (auto simp: distinct_bump)

lemma sum_fold_bump:
  "sum_list (map snd (fold bump ks xs)) = length ks + sum_list (map snd xs)"
  by (induction ks arbitrary: xs) (auto simp: sum_bump)

lemma fst_tally: "fst ` set (tally ks) = set ks"
  by (simp add: tally_def fst_fold_bump)

lemma distinct_tally: "distinct (map fst (tally ks))"
  by (simp add: tally_def distinct_fold_bump)

lemma length_tally: "length (tally ks) = card (set ks)"
  using distinct_card [OF distinct_tally [of ks]] by (simp add: fst_tally)

lemma sum_tally: "sum_list (map snd (tally ks)) = length ks"
  by (simp add: tally_def sum_fold_bump)

lemma tally_snoc: "tally (ks @ [k]) = bump k (tally ks)"
  by (simp add: tally_def)

lemma seen_subset: "i < length xs \<Longrightarrow> insert (f (xs ! i)) (set (map f (take i xs))) \<subseteq> set (map f xs)"
  by (auto dest: in_set_takeD)

subsection \<open>Runs\<close>

fun run :: "('s \<Rightarrow> 'p \<Rightarrow> 's result) \<Rightarrow> 's \<Rightarrow> 'p list \<Rightarrow> 's result" where
  "run f s [] = Inr s"
| "run f s (p # ps) = rbind (f s p) (\<lambda>s. run f s ps)"

lemma run_append: "run f s (ps @ qs) = rbind (run f s ps) (\<lambda>s. run f s qs)"
proof (induction ps arbitrary: s)
  case (Cons p ps)
  then show ?case by (cases "f s p") simp_all
qed simp

lemma run_invariant:
  "run f s ps = Inr t \<Longrightarrow> I s \<Longrightarrow> (\<And>s p t. I s \<Longrightarrow> p \<in> set ps \<Longrightarrow> f s p = Inr t \<Longrightarrow> I t) \<Longrightarrow> I t"
proof (induction ps arbitrary: s)
  case (Cons p ps)
  from Cons.prems(1) obtain s' where s': "f s p = Inr s'" "run f s' ps = Inr t" by auto
  have "I s'" by (rule Cons.prems(3) [OF Cons.prems(2) _ s'(1)]) simp
  with s'(2) show ?case
    by (rule Cons.IH) (rule Cons.prems(3), simp_all)
qed (simp only: run.simps sum.inject)

subsection \<open>The interface\<close>

text \<open>
  \<open>rep s xs\<close>: state \<open>s\<close> stores the counting list \<open>xs\<close>. \<open>fits xs k\<close>: what the
  insertion asks of a key to do its work.
\<close>

locale key_counter =
  fixes ins :: "'s \<Rightarrow> 'p \<Rightarrow> 's result"
    and key :: "'p \<Rightarrow> 'k"
    and rep :: "'s \<Rightarrow> ('k \<times> nat) list \<Rightarrow> bool"
    and fits :: "('k \<times> nat) list \<Rightarrow> 'p \<Rightarrow> bool"
  assumes ins_bump: "rep s xs \<Longrightarrow> fits xs p \<Longrightarrow> \<exists>s'. ins s p = Inr s' \<and> rep s' (bump (key p) xs)"
begin

lemma run_bump:
  "rep s xs \<Longrightarrow> \<forall>i<length ps. fits (fold bump (map key (take i ps)) xs) (ps ! i) \<Longrightarrow>
     \<exists>s'. run ins s ps = Inr s' \<and> rep s' (fold bump (map key ps) xs)"
proof (induction ps arbitrary: s xs)
  case (Cons p ps)
  have "fits xs p" using Cons.prems(2) by (elim allE [of _ 0]) simp
  then obtain s1 where s1: "ins s p = Inr s1" "rep s1 (bump (key p) xs)"
    using ins_bump [OF Cons.prems(1)] by blast
  have "\<forall>i<length ps. fits (fold bump (map key (take i ps)) (bump (key p) xs)) (ps ! i)"
  proof (intro allI impI)
    fix i assume "i < length ps"
    then show "fits (fold bump (map key (take i ps)) (bump (key p) xs)) (ps ! i)"
      using Cons.prems(2) [rule_format, of "Suc i"] by simp
  qed
  with Cons.IH [OF s1(2)] s1(1) show ?case by simp
qed simp

lemma run_tally:
  "rep s [] \<Longrightarrow> \<forall>i<length ps. fits (tally (map key (take i ps))) (ps ! i) \<Longrightarrow>
     \<exists>s'. run ins s ps = Inr s' \<and> rep s' (tally (map key ps))"
  using run_bump [of s "[]" ps] by (simp add: tally_def)

end

text \<open>
  A counter that works while a guard on its state holds: the guard of an insertion is
  checked in the state the insertions before it have left.
\<close>

fun guarded :: "('s \<Rightarrow> 'p \<Rightarrow> 's result) \<Rightarrow> ('s \<Rightarrow> 'p \<Rightarrow> bool) \<Rightarrow> 's \<Rightarrow> 'p list \<Rightarrow> bool" where
  "guarded f g s [] \<longleftrightarrow> True"
| "guarded f g s (p # ps) \<longleftrightarrow>
     g s p \<and> (case f s p of Inl _ \<Rightarrow> True | Inr t \<Rightarrow> guarded f g t ps)"

locale guarded_counter =
  fixes ins :: "'s \<Rightarrow> 'p \<Rightarrow> 's result"
    and key :: "'p \<Rightarrow> 'k"
    and rep :: "'s \<Rightarrow> ('k \<times> nat) list \<Rightarrow> bool"
    and guard :: "'s \<Rightarrow> 'p \<Rightarrow> bool"
  assumes ins_guarded: "rep s xs \<Longrightarrow> guard s p \<Longrightarrow> \<exists>s'. ins s p = Inr s' \<and> rep s' (bump (key p) xs)"
begin

lemma run_guarded:
  "rep s xs \<Longrightarrow> guarded ins guard s ps \<Longrightarrow>
     \<exists>s'. run ins s ps = Inr s' \<and> rep s' (fold bump (map key ps) xs)"
proof (induction ps arbitrary: s xs)
  case (Cons p ps)
  then obtain s1 where s1: "ins s p = Inr s1" "rep s1 (bump (key p) xs)"
    using ins_guarded [of s xs p] by auto
  with Cons.prems(2) have "guarded ins guard s1 ps" by simp
  with Cons.IH [OF s1(2)] s1(1) show ?case by simp
qed simp

lemma run_guarded_tally:
  "rep s [] \<Longrightarrow> guarded ins guard s ps \<Longrightarrow> \<exists>s'. run ins s ps = Inr s' \<and> rep s' (tally (map key ps))"
  using run_guarded [of s "[]" ps] by (simp add: tally_def)

end

end
