(* ===== verification/Hashtable.thy ===== *)
theory Hashtable
  imports Callstack Jenkins Counting
begin

text \<open>
  The hash table of \<open>lib/hashtable/hashtable.c\<close> and the backend over it
  (\<open>lib/hashtable/callstack.c\<close>). A table starts with three inline buckets; the fourth
  different key moves it to an array of \<open>2 ^ 16\<close> bucket pointers indexed by hash.
  Buckets hold the address of the caller's \<open>struct stream\<close>, not a copy, so the streams
  live in a store of their own.
\<close>

subsection \<open>State\<close>

type_synonym sptr = nat

text \<open>\<open>s_mem\<close>: the bytes from \<open>begin\<close> to the end of its object; \<open>s_len\<close>: \<open>end - begin\<close>.\<close>

record hstream =
  s_mem :: "u8 list"
  s_len :: nat

type_synonym streams = "sptr \<Rightarrow> hstream"

record bucket =
  b_key :: "sptr option"
  b_count :: u64

definition NUM_INTERNAL :: nat where
  "NUM_INTERNAL = 3"

record hashtable =
  ht_bucket :: "bucket list"
  ht_map :: "nat \<Rightarrow> bucket option"
  num_internal :: u8
  unique :: u64
  hits :: u64

text \<open>The table with the globals its operations write.\<close>

record hworld =
  hw_table :: hashtable
  num_unique_entries :: u64
  hw_alloc :: alloc_state

definition empty_bucket :: bucket where
  "empty_bucket = \<lparr>b_key = None, b_count = 0\<rparr>"

subsection \<open>Operations\<close>

definition ht_alloc :: "alloc_state \<Rightarrow> alloc_state result" where
  "ht_alloc a = (case ccalloc a of (p, a') \<Rightarrow> if p then Inr a' else Inl Exit_failure)"

text \<open>\<open>alloc_table\<close>: two allocations, both zeroed.\<close>

definition alloc_table :: "alloc_state \<Rightarrow> (hashtable \<times> alloc_state) result" where
  "alloc_table a =
     rbind (ht_alloc a) (\<lambda>a. rbind (ht_alloc a) (\<lambda>a. Inr
       (\<lparr>ht_bucket = replicate NUM_INTERNAL empty_bucket, ht_map = (\<lambda>_. None),
         num_internal = 0, unique = 0, hits = 0\<rparr>, a)))"

definition update_unique :: "u64 \<Rightarrow> hworld \<Rightarrow> hworld" where
  "update_unique n w = (if num_unique_entries w < n then w\<lparr>num_unique_entries := n\<rparr> else w)"

text \<open>The bytes a hash function reads from a stream.\<close>

definition stream_key :: "hstream \<Rightarrow> u8 list result" where
  "stream_key s = (if s_len s \<le> length (s_mem s) then Inr (take (s_len s) (s_mem s))
                   else Inl Out_of_bounds)"

text \<open>\<open>table->map[h]\<close>, an array of \<open>2 ^ 16\<close> pointers.\<close>

definition slot_get :: "hashtable \<Rightarrow> nat \<Rightarrow> bucket option result" where
  "slot_get t h = (if h < 2 ^ 16 then Inr (ht_map t h) else Inl Out_of_bounds)"

definition slot_set :: "hashtable \<Rightarrow> nat \<Rightarrow> bucket \<Rightarrow> hashtable" where
  "slot_set t h b = t\<lparr>ht_map := (ht_map t)(h \<mapsto> b)\<rparr>"

text \<open>\<open>__hash_insert\<close>.\<close>

definition hash_insert_slow :: "streams \<Rightarrow> hworld \<Rightarrow> sptr \<Rightarrow> hworld result" where
  "hash_insert_slow st w p =
     rbind (stream_key (st p)) (\<lambda>k.
       let h = unat (jenkins_hash k) in
       rbind (slot_get (hw_table w) h) (\<lambda>bo. case bo of
         None \<Rightarrow>
           rbind (ht_alloc (hw_alloc w)) (\<lambda>a.
             let t = slot_set (hw_table w) h \<lparr>b_key = Some p, b_count = 0 + 1\<rparr>;
                 t = t\<lparr>unique := unique t + 1\<rparr>
             in Inr (update_unique (unique t) (w\<lparr>hw_table := t, hw_alloc := a\<rparr>)))
       | Some b \<Rightarrow>
           let t = (hw_table w)\<lparr>hits := hits (hw_table w) + 1\<rparr> in
           rbind (deref (b_key b)) (\<lambda>q.
             rbind (memcmp_eq (s_mem (st q)) (s_mem (st p)) (s_len (st p))) (\<lambda>eq.
               rbind (rassert eq) (\<lambda>_.
                 Inr (w\<lparr>hw_table := slot_set t h (b\<lparr>b_count := b_count b + 1\<rparr>)\<rparr>))))))"

text \<open>
  The search loop over the inline buckets, for the indices still to visit: \<open>Some i\<close> when
  bucket \<open>i\<close> matches. The code reads \<open>b->key->end\<close> before it tests \<open>!b->key\<close>, so an
  empty bucket is a NULL dereference and the branch under the test is never taken.
\<close>

fun scan_internal :: "streams \<Rightarrow> bucket list \<Rightarrow> nat list \<Rightarrow> hstream \<Rightarrow> nat option result" where
  "scan_internal st bs [] s = Inr None"
| "scan_internal st bs (i # is) s =
     rbind (rd bs i) (\<lambda>b.
       rbind (deref (b_key b)) (\<lambda>q.
         if s_len s \<noteq> s_len (st q) then scan_internal st bs is s
         else rbind (memcmp_eq (s_mem (st q)) (s_mem s) (s_len s)) (\<lambda>eq.
                if eq then Inr (Some i) else scan_internal st bs is s)))"

text \<open>The loop that moves the inline keys to the array.\<close>

fun reinsert :: "streams \<Rightarrow> hworld \<Rightarrow> bucket list \<Rightarrow> hworld result" where
  "reinsert st w [] = Inr w"
| "reinsert st w (b # bs) =
     rbind (deref (b_key b)) (\<lambda>q. rbind (hash_insert_slow st w q) (\<lambda>w. reinsert st w bs))"

definition hash_insert :: "streams \<Rightarrow> hworld \<Rightarrow> sptr \<Rightarrow> hworld result" where
  "hash_insert st w p =
     (let t = hw_table w; n = unat (num_internal t) in
      if n \<le> NUM_INTERNAL then
        rbind (scan_internal st (ht_bucket t) [0..<n] (st p)) (\<lambda>r. case r of
          Some i \<Rightarrow>
            rbind (rd (ht_bucket t) i) (\<lambda>b.
              Inr (w\<lparr>hw_table := t\<lparr>ht_bucket := (ht_bucket t)[i := b\<lparr>b_count := b_count b + 1\<rparr>],
                                 hits := hits t + 1\<rparr>\<rparr>))
        | None \<Rightarrow>
            if n < NUM_INTERNAL then
              rbind (rd (ht_bucket t) n) (\<lambda>b.
                let t = t\<lparr>ht_bucket := (ht_bucket t)[n := \<lparr>b_key = Some p, b_count = b_count b + 1\<rparr>],
                          num_internal := num_internal t + 1, unique := unique t + 1\<rparr>
                in Inr (update_unique (unique t) (w\<lparr>hw_table := t\<rparr>)))
            else
              rbind (rassert (n = NUM_INTERNAL)) (\<lambda>_.
                rbind (reinsert st (w\<lparr>hw_table := t\<lparr>num_internal := of_nat (NUM_INTERNAL + 1)\<rparr>\<rparr>)
                         (take NUM_INTERNAL (ht_bucket t))) (\<lambda>w.
                  hash_insert_slow st w p)))
      else hash_insert_slow st w p)"

text \<open>\<open>hash_lookup\<close>: an \<open>int\<close>, so the count is cut to 32 bits and read as signed.\<close>

definition int_of_count :: "u64 \<Rightarrow> int" where
  "int_of_count c = sint (ucast c :: u32)"

fun lookup_internal :: "streams \<Rightarrow> bucket list \<Rightarrow> nat list \<Rightarrow> hstream \<Rightarrow> int result" where
  "lookup_internal st bs [] s = Inr (- 1)"
| "lookup_internal st bs (i # is) s =
     rbind (rd bs i) (\<lambda>b. case b_key b of
       None \<Rightarrow> Inr (- 1)
     | Some q \<Rightarrow>
         if s_len s \<noteq> s_len (st q) then lookup_internal st bs is s
         else rbind (memcmp_eq (s_mem (st q)) (s_mem s) (s_len s)) (\<lambda>eq.
                if eq then Inr (int_of_count (b_count b)) else lookup_internal st bs is s))"

definition hash_lookup :: "streams \<Rightarrow> hashtable \<Rightarrow> sptr \<Rightarrow> int result" where
  "hash_lookup st t p =
     (if NUM_INTERNAL < unat (num_internal t) then
        rbind (stream_key (st p)) (\<lambda>k.
          rbind (slot_get t (unat (jenkins_hash k))) (\<lambda>bo.
            rbind (deref bo) (\<lambda>b. Inr (int_of_count (b_count b)))))
      else lookup_internal st (ht_bucket t) [0..<unat (num_internal t)] (st p))"

subsection \<open>The backend\<close>

text \<open>\<open>hash_new\<close>: the tree, its private part and the table; any failure ends the program.\<close>

definition hash_new :: "alloc_state \<Rightarrow> (hashtable \<times> alloc_state) result" where
  "hash_new a = rbind (ht_alloc a) (\<lambda>a. rbind (ht_alloc a) alloc_table)"

text \<open>
  \<open>insert\<close> keeps its \<open>struct stream s\<close> in its own stack frame and hands the table the
  address of that local; \<open>slot\<close> is that address, a parameter of the model since the
  compiler chooses it. When no entry ends the stack, \<open>s.end\<close> is never written.
\<close>

definition hash_tree_insert ::
  "sptr \<Rightarrow> streams \<times> hworld \<Rightarrow> callstack_entry list \<Rightarrow> (streams \<times> hworld) result" where
  "hash_tree_insert slot s stack =
     (case s of (st, w) \<Rightarrow> case stack_end stack of
        None \<Rightarrow> Inl Uninit_read
      | Some n \<Rightarrow>
          let st = st(slot := \<lparr>s_mem = stack_bytes stack, s_len = 16 * n\<rparr>) in
          rbind (hash_insert st w slot) (\<lambda>w. Inr (st, w)))"

definition hash_put :: "alloc_state \<Rightarrow> alloc_state" where
  "hash_put a = cfree False a"

text \<open>\<open>hash_stats\<close> prints two numbers and leaves \<open>struct stats\<close> alone.\<close>

definition hash_stats :: "hashtable \<Rightarrow> u64 \<times> u64" where
  "hash_stats t = (unique t, hits t)"

subsection \<open>What a hash function must give the table\<close>

text \<open>
  The table indexes its \<open>2 ^ 16\<close> pointers with the hash unchecked: its one demand on the
  hash function is a value below \<open>2 ^ 16\<close>. Both functions of the code meet it.
\<close>

locale hash16 =
  fixes hash :: "u8 list \<Rightarrow> u64"
  assumes hash_less: "hash k < 65536"
begin

lemma index_in_map: "unat (hash k) < 2 ^ 16"
  using hash_less [of k] by (simp add: word_less_nat_alt)

lemma slot_get_hash: "slot_get t (unat (hash k)) = Inr (ht_map t (unat (hash k)))"
  using index_in_map [of k] by (simp add: slot_get_def)

end

interpretation jenkins: hash16 jenkins_hash
  by unfold_locales (rule jenkins_hash_less)

interpretation basic: hash16 basic_hash
  by unfold_locales (rule basic_hash_less)

end
