(* ===== verification/Hashtable_Count.thy ===== *)
theory Hashtable_Count
  imports Hashtable
begin

text \<open>
  The hash table as a counter of keys: the representation of a counting list by the inline
  buckets and by the array, what each insertion does to it, and the step from the one to
  the other. The runs come from the interface \<open>key_counter\<close>.
\<close>

subsection \<open>Streams\<close>

definition content :: "streams \<Rightarrow> sptr \<Rightarrow> u8 list" where
  "content st p = take (s_len (st p)) (s_mem (st p))"

definition readable :: "streams \<Rightarrow> sptr \<Rightarrow> bool" where
  "readable st p \<longleftrightarrow> s_len (st p) \<le> length (s_mem (st p))"

definition key_slot :: "u8 list \<Rightarrow> nat" where
  "key_slot k = unat (jenkins_hash k)"

lemma key_slot_less: "key_slot k < 2 ^ 16"
  unfolding key_slot_def by (rule jenkins.index_in_map)

lemma slot_get_key: "slot_get t (key_slot k) = Inr (ht_map t (key_slot k))"
  unfolding key_slot_def by (rule jenkins.slot_get_hash)

lemma stream_key_readable: "readable st p \<Longrightarrow> stream_key (st p) = Inr (content st p)"
  by (simp add: stream_key_def readable_def content_def)

lemma content_eq_iff:
  "readable st p \<Longrightarrow> readable st q \<Longrightarrow>
     content st q = content st p \<longleftrightarrow>
       s_len (st p) = s_len (st q) \<and>
       take (s_len (st p)) (s_mem (st q)) = take (s_len (st p)) (s_mem (st p))"
proof -
  assume r: "readable st p" "readable st q"
  have "s_len (st p) = s_len (st q)" if "content st q = content st p"
    using arg_cong [OF that, of length] r by (simp add: content_def readable_def)
  then show ?thesis using r by (auto simp: content_def)
qed

lemma scan_step:
  assumes "i < length bs" "b_key (bs ! i) = Some q" "readable st p" "readable st q"
  shows "scan_internal st bs (i # is) (st p) =
           (if content st q = content st p then Inr (Some i) else scan_internal st bs is (st p))"
  using assms by (auto simp: content_eq_iff rd_ok memcmp_eq_ok readable_def)

lemma lookup_step:
  assumes "i < length bs" "b_key (bs ! i) = Some q" "readable st p" "readable st q"
  shows "lookup_internal st bs (i # is) (st p) =
           (if content st q = content st p then Inr (int_of_count (b_count (bs ! i)))
            else lookup_internal st bs is (st p))"
  using assms by (auto simp: content_eq_iff rd_ok memcmp_eq_ok readable_def)

subsection \<open>The inline table\<close>

text \<open>One bucket holds one pair of the counting list.\<close>

definition holds :: "streams \<Rightarrow> bucket \<Rightarrow> u8 list \<times> nat \<Rightarrow> bool" where
  "holds st b kn \<longleftrightarrow>
     (\<exists>q. b_key b = Some q \<and> readable st q \<and> content st q = fst kn) \<and> b_count b = of_nat (snd kn)"

definition inline_rep :: "streams \<Rightarrow> hworld \<Rightarrow> (u8 list \<times> nat) list \<Rightarrow> bool" where
  "inline_rep st w ks \<longleftrightarrow>
     (let t = hw_table w in
        length (ht_bucket t) = 3 \<and> length ks \<le> 3 \<and> distinct (map fst ks) \<and>
        num_internal t = of_nat (length ks) \<and>
        (\<forall>i<length ks. holds st (ht_bucket t ! i) (ks ! i)) \<and>
        (\<forall>i. length ks \<le> i \<and> i < 3 \<longrightarrow> ht_bucket t ! i = empty_bucket) \<and>
        ht_map t = (\<lambda>_. None) \<and> unique t = of_nat (length ks) \<and>
        hits t = of_nat (sum_list (map snd ks)) - of_nat (length ks) \<and>
        plan (hw_alloc w) = [])"

lemma unat_num_internal: "n \<le> 3 \<Longrightarrow> unat (of_nat n :: u8) = n"
  by (simp add: unat_of_nat take_bit_nat_eq_self)

definition find_key :: "(u8 list \<times> nat) list \<Rightarrow> u8 list \<Rightarrow> nat list \<Rightarrow> nat option" where
  "find_key ks k is = List.find (\<lambda>i. fst (ks ! i) = k) is"

lemma find_key_simps [simp]:
  "find_key ks k [] = None"
  "find_key ks k (i # is) = (if fst (ks ! i) = k then Some i else find_key ks k is)"
  by (simp_all add: find_key_def)

lemma find_key_None: "find_key ks k [0..<length ks] = None \<longleftrightarrow> k \<notin> fst ` set ks"
  by (auto simp: find_key_def find_None_iff in_set_conv_nth simp flip: set_map)

lemma find_key_Some:
  "find_key ks k [0..<length ks] = Some i \<Longrightarrow> i < length ks \<and> fst (ks ! i) = k"
  by (auto simp: find_key_def find_Some_iff)

lemma scan_holds:
  assumes "\<forall>i \<in> set is. i < length bs \<and> holds st (bs ! i) (ks ! i)" "readable st p"
  shows "scan_internal st bs is (st p) = Inr (find_key ks (content st p) is)"
  using assms
proof (induction "is")
  case (Cons i "is")
  then obtain q where "b_key (bs ! i) = Some q" "readable st q" "content st q = fst (ks ! i)"
    by (auto simp: holds_def)
  with Cons show ?case by (simp add: scan_step del: scan_internal.simps)
qed simp

lemma lookup_holds:
  assumes "\<forall>i \<in> set is. i < length bs \<and> holds st (bs ! i) (ks ! i)" "readable st p"
  shows "lookup_internal st bs is (st p) =
           Inr (case find_key ks (content st p) is of
                  None \<Rightarrow> - 1 | Some i \<Rightarrow> int_of_count (of_nat (snd (ks ! i))))"
  using assms
proof (induction "is")
  case (Cons i "is")
  then obtain q where "b_key (bs ! i) = Some q" "readable st q" "content st q = fst (ks ! i)"
    "b_count (bs ! i) = of_nat (snd (ks ! i))"
    by (auto simp: holds_def)
  with Cons show ?case by (simp add: lookup_step del: lookup_internal.simps)
qed simp

lemma inline_rep_scan:
  assumes "inline_rep st w ks" "readable st p"
  shows "scan_internal st (ht_bucket (hw_table w)) [0..<length ks] (st p) =
           Inr (find_key ks (content st p) [0..<length ks])"
  by (rule scan_holds) (use assms in \<open>auto simp: inline_rep_def Let_def\<close>)

lemma update_unique_simps [simp]:
  "hw_table (update_unique n w) = hw_table w" "hw_alloc (update_unique n w) = hw_alloc w"
  by (simp_all add: update_unique_def)

text \<open>A known key: its bucket counts one more, the table one more hit.\<close>

lemma inline_hit:
  assumes rep: "inline_rep st w ks" and p: "readable st p"
    and hit: "find_key ks (content st p) [0..<length ks] = Some i"
  shows "\<exists>w'. hash_insert st w p = Inr w' \<and> inline_rep st w' (bump (content st p) ks)"
proof -
  let ?t = "hw_table w"
  have i: "i < length ks" "fst (ks ! i) = content st p" using find_key_Some [OF hit] by auto
  have d: "distinct (map fst ks)" "length ks \<le> 3" "length (ht_bucket ?t) = 3"
    using rep by (auto simp: inline_rep_def Let_def)
  let ?w = "w\<lparr>hw_table := ?t\<lparr>ht_bucket := (ht_bucket ?t)
      [i := (ht_bucket ?t ! i)\<lparr>b_count := b_count (ht_bucket ?t ! i) + 1\<rparr>], hits := hits ?t + 1\<rparr>\<rparr>"
  have "hash_insert st w p = Inr ?w"
    using rep p i d hit
    by (simp add: hash_insert_def Let_def inline_rep_def unat_num_internal NUM_INTERNAL_def
        inline_rep_scan [OF rep p, unfolded Let_def] rd_ok)
  moreover have "inline_rep st ?w (bump (content st p) ks)"
    using rep d i sum_bump [of "content st p" ks] distinct_bump [OF d(1), of "content st p"]
    unfolding bump_nth [OF d(1) i]
    by (auto simp: inline_rep_def Let_def holds_def nth_list_update map_update
        list_update_id algebra_simps)
  ultimately show ?thesis by blast
qed

text \<open>A new key while an inline bucket is free: the next bucket takes it.\<close>

lemma inline_miss:
  assumes rep: "inline_rep st w ks" and p: "readable st p"
    and miss: "content st p \<notin> fst ` set ks" and room: "length ks < 3"
  shows "\<exists>w'. hash_insert st w p = Inr w' \<and> inline_rep st w' (bump (content st p) ks)"
proof -
  let ?t = "hw_table w" and ?n = "length ks"
  have d: "length (ht_bucket ?t) = 3" "num_internal ?t = of_nat ?n"
      "ht_bucket ?t ! ?n = empty_bucket"
    using rep room by (auto simp: inline_rep_def Let_def)
  let ?t' = "?t\<lparr>ht_bucket := (ht_bucket ?t)[?n := \<lparr>b_key = Some p, b_count = 1\<rparr>],
      num_internal := num_internal ?t + 1, unique := unique ?t + 1\<rparr>"
  let ?w = "update_unique (unique ?t') (w\<lparr>hw_table := ?t'\<rparr>)"
  have "hash_insert st w p = Inr ?w"
    using d room miss inline_rep_scan [OF rep p]
    by (simp add: hash_insert_def Let_def unat_num_internal NUM_INTERNAL_def
        find_key_None [THEN iffD2] rd_ok empty_bucket_def)
  moreover have "inline_rep st ?w (bump (content st p) ks)"
    using rep p miss room
    unfolding bump_notin [OF miss]
    by (auto simp: inline_rep_def Let_def holds_def nth_append nth_list_update less_Suc_eq)
  ultimately show ?thesis by blast
qed

definition inline_fits :: "streams \<Rightarrow> (u8 list \<times> nat) list \<Rightarrow> sptr \<Rightarrow> bool" where
  "inline_fits st ks p \<longleftrightarrow> readable st p \<and> (content st p \<in> fst ` set ks \<or> length ks < 3)"

interpretation inline: key_counter "hash_insert st" "content st" "inline_rep st" "inline_fits st"
  for st
proof unfold_locales
  fix w ks p
  assume rep: "inline_rep st w ks" and fits: "inline_fits st ks p"
  then have p: "readable st p" by (simp add: inline_fits_def)
  show "\<exists>w'. hash_insert st w p = Inr w' \<and> inline_rep st w' (bump (content st p) ks)"
  proof (cases "find_key ks (content st p) [0..<length ks]")
    case None
    with fits have "content st p \<notin> fst ` set ks" "length ks < 3"
      by (auto simp: inline_fits_def find_key_None)
    with inline_miss [OF rep p] show ?thesis by blast
  next
    case (Some i)
    with inline_hit [OF rep p] show ?thesis by blast
  qed
qed

definition fresh_world :: "hworld" where
  "fresh_world =
     \<lparr>hw_table = \<lparr>ht_bucket = replicate NUM_INTERNAL empty_bucket, ht_map = (\<lambda>_. None),
                  num_internal = 0, unique = 0, hits = 0\<rparr>,
      num_unique_entries = 0,
      hw_alloc = \<lparr>num_allocs = 2, num_frees = 0, leaf_frees = 0, plan = []\<rparr>\<rparr>"

lemma inline_rep_fresh: "inline_rep st fresh_world []"
  by (auto simp: inline_rep_def fresh_world_def NUM_INTERNAL_def nth_Cons' numeral_3_eq_3)

lemma inline_rep_lookup:
  assumes rep: "inline_rep st w ks" and p: "readable st p"
  shows "hash_lookup st (hw_table w) p =
           Inr (case map_of ks (content st p) of
                  None \<Rightarrow> - 1 | Some n \<Rightarrow> int_of_count (of_nat n))"
proof -
  have d: "distinct (map fst ks)" "length ks \<le> 3" "num_internal (hw_table w) = of_nat (length ks)"
    using rep by (auto simp: inline_rep_def Let_def)
  have "hash_lookup st (hw_table w) p =
      Inr (case find_key ks (content st p) [0..<length ks] of
             None \<Rightarrow> - 1 | Some i \<Rightarrow> int_of_count (of_nat (snd (ks ! i))))"
    unfolding hash_lookup_def using d
    by (simp add: unat_num_internal NUM_INTERNAL_def)
      (rule lookup_holds, use rep p in \<open>auto simp: inline_rep_def Let_def\<close>)
  also have "\<dots> = Inr (case map_of ks (content st p) of
      None \<Rightarrow> - 1 | Some n \<Rightarrow> int_of_count (of_nat n))"
  proof (cases "find_key ks (content st p) [0..<length ks]")
    case None
    then have "map_of ks (content st p) = None"
      by (simp add: find_key_None map_of_eq_None_iff)
    with None show ?thesis by simp
  next
    case (Some i)
    then have i: "i < length ks" "fst (ks ! i) = content st p" using find_key_Some by auto
    then have "(content st p, snd (ks ! i)) \<in> set ks" by (metis nth_mem surjective_pairing)
    with d(1) have "map_of ks (content st p) = Some (snd (ks ! i))" by simp
    with Some show ?thesis by simp
  qed
  finally show ?thesis .
qed

lemma int_of_count_small: "n < 2 ^ 31 \<Longrightarrow> int_of_count (of_nat n) = int n"
proof -
  assume n: "n < 2 ^ 31"
  have "(ucast (of_nat n :: u64) :: u32) = of_nat n" 
    using n by (intro word_unat_eq_iff [THEN iffD2])
      (simp add: unsigned_ucast_eq unat_of_nat take_bit_nat_eq_self)
  moreover have "sint (of_nat n :: u32) = int n"
    using n by (simp add: signed_of_nat signed_take_bit_int_eq_self)
  ultimately show ?thesis by (simp add: int_of_count_def)
qed

subsection \<open>The array\<close>

text \<open>
  The array holds the list when no two of its keys share a slot. \<open>u0\<close> and \<open>h0\<close> are the
  counters the table had when the array was started.
\<close>

definition slow_rep :: "streams \<Rightarrow> u64 \<Rightarrow> u64 \<Rightarrow> hworld \<Rightarrow> (u8 list \<times> nat) list \<Rightarrow> bool" where
  "slow_rep st u0 h0 w ks \<longleftrightarrow>
     (let t = hw_table w in
        distinct (map fst ks) \<and> inj_on key_slot (fst ` set ks) \<and> num_internal t = 4 \<and>
        (\<forall>kn \<in> set ks. \<exists>b. ht_map t (key_slot (fst kn)) = Some b \<and> holds st b kn) \<and>
        (\<forall>h b. ht_map t h = Some b \<longrightarrow> h \<in> key_slot ` fst ` set ks) \<and>
        unique t = u0 + of_nat (length ks) \<and>
        hits t = h0 + of_nat (sum_list (map snd ks)) - of_nat (length ks) \<and>
        plan (hw_alloc w) = [])"

definition slow_fits :: "streams \<Rightarrow> (u8 list \<times> nat) list \<Rightarrow> sptr \<Rightarrow> bool" where
  "slow_fits st ks p \<longleftrightarrow>
     readable st p \<and> inj_on key_slot (insert (content st p) (fst ` set ks))"

lemma slow_new:
  assumes rep: "slow_rep st u0 h0 w ks" and fits: "slow_fits st ks p"
    and new: "content st p \<notin> fst ` set ks"
  shows "\<exists>w'. hash_insert_slow st w p = Inr w' \<and> slow_rep st u0 h0 w' (bump (content st p) ks)"
proof -
  let ?t = "hw_table w" and ?k = "content st p"
  have p: "readable st p" and inj: "inj_on key_slot (insert ?k (fst ` set ks))"
    using fits by (auto simp: slow_fits_def)
  have fresh: "key_slot ?k \<notin> key_slot ` fst ` set ks"
    using inj new by (auto dest: inj_onD)
  then have none: "ht_map ?t (key_slot ?k) = None"
    using rep by (auto simp: slow_rep_def Let_def)
  let ?t' = "(slot_set ?t (key_slot ?k) \<lparr>b_key = Some p, b_count = 1\<rparr>)\<lparr>unique := unique ?t + 1\<rparr>"
  let ?a = "(hw_alloc w)\<lparr>num_allocs := num_allocs (hw_alloc w) + 1\<rparr>"
  let ?w = "update_unique (unique ?t') (w\<lparr>hw_table := ?t', hw_alloc := ?a\<rparr>)"
  have "hash_insert_slow st w p = Inr ?w"
    using rep p none
    by (simp add: hash_insert_slow_def Let_def stream_key_readable slot_get_key
        flip: key_slot_def)
      (simp add: slow_rep_def Let_def ht_alloc_def ccalloc_plenty slot_set_def)
  moreover have "slow_rep st u0 h0 ?w (bump ?k ks)"
    using rep p inj new fresh unfolding bump_notin [OF new]
    by (auto simp: slow_rep_def Let_def slot_set_def holds_def)
  ultimately show ?thesis by blast
qed

lemma slow_old:
  assumes rep: "slow_rep st u0 h0 w ks" and fits: "slow_fits st ks p"
    and old: "content st p \<in> fst ` set ks"
  shows "\<exists>w'. hash_insert_slow st w p = Inr w' \<and> slow_rep st u0 h0 w' (bump (content st p) ks)"
proof -
  let ?t = "hw_table w" and ?k = "content st p"
  have p: "readable st p" using fits by (auto simp: slow_fits_def)
  have d: "distinct (map fst ks)" "inj_on key_slot (fst ` set ks)"
    using rep by (auto simp: slow_rep_def Let_def)
  obtain i where i: "i < length ks" "fst (ks ! i) = ?k"
    using old by (auto simp: in_set_conv_nth)
  then have "ks ! i \<in> set ks" by simp
  then obtain b where b: "ht_map ?t (key_slot ?k) = Some b" "holds st b (ks ! i)"
    using rep i(2) by (auto simp: slow_rep_def Let_def)
  then obtain q where q: "b_key b = Some q" "readable st q" "content st q = ?k"
    using i(2) by (auto simp: holds_def)
  have len: "s_len (st p) = s_len (st q)" "take (s_len (st p)) (s_mem (st q)) =
      take (s_len (st p)) (s_mem (st p))"
    using content_eq_iff [OF p q(2)] q(3) by auto
  let ?t' = "slot_set (?t\<lparr>hits := hits ?t + 1\<rparr>) (key_slot ?k) (b\<lparr>b_count := b_count b + 1\<rparr>)"
  have "hash_insert_slow st w p = Inr (w\<lparr>hw_table := ?t'\<rparr>)"
    using p b(1) q(1,2) len
    by (simp add: hash_insert_slow_def Let_def stream_key_readable slot_get_key
        memcmp_eq_ok readable_def flip: key_slot_def)
  moreover have "slow_rep st u0 h0 (w\<lparr>hw_table := ?t'\<rparr>) (bump ?k ks)"
  proof -
    have slots: "key_slot (fst (ks ! j)) = key_slot ?k \<longleftrightarrow> j = i" if "j < length ks" for j
    proof -
      have "key_slot (fst (ks ! j)) = key_slot (fst (ks ! i)) \<longleftrightarrow> fst (ks ! j) = fst (ks ! i)"
        by (rule inj_on_eq_iff [OF d(2) imageI [OF nth_mem [OF that]] imageI [OF nth_mem [OF i(1)]]])
      then show ?thesis
        using that i nth_eq_iff_index_eq [OF d(1), of j i] by simp
    qed
    have "\<forall>j<length ks. \<exists>b'. ht_map ?t' (key_slot (fst (bump ?k ks ! j))) = Some b' \<and>
        holds st b' (bump ?k ks ! j)"
    proof (intro allI impI)
      fix j assume j: "j < length ks"
      show "\<exists>b'. ht_map ?t' (key_slot (fst (bump ?k ks ! j))) = Some b' \<and>
        holds st b' (bump ?k ks ! j)"
      proof (cases "j = i")
        case True
        then show ?thesis using i b(2) bump_nth [OF d(1) i]
          by (auto simp: slot_set_def holds_def)
      next
        case False
        then have "bump ?k ks ! j = ks ! j" using bump_nth [OF d(1) i] by simp
        moreover have "\<exists>b'. ht_map ?t (key_slot (fst (ks ! j))) = Some b' \<and> holds st b' (ks ! j)"
          using rep j by (auto simp: slow_rep_def Let_def)
        ultimately show ?thesis using False slots [OF j] by (simp add: slot_set_def)
      qed
    qed
    then have "\<forall>kn \<in> set (bump ?k ks). \<exists>b'. ht_map ?t' (key_slot (fst kn)) = Some b' \<and> holds st b' kn"
      using old unfolding all_set_conv_all_nth length_bump by simp
    moreover have "fst ` set (bump ?k ks) = fst ` set ks" using old by (auto simp: fst_bump)
    moreover have "\<forall>h b. ht_map ?t' h = Some b \<longrightarrow> h \<in> key_slot ` fst ` set ks"
      using rep old by (auto simp: slow_rep_def Let_def slot_set_def)
    ultimately show ?thesis
      using rep distinct_bump [OF d(1), of ?k] d(2) old sum_bump [of ?k ks]
      by (simp add: slow_rep_def Let_def length_bump) (simp add: slot_set_def algebra_simps)
  qed
  ultimately show ?thesis by blast
qed

interpretation slow: key_counter "hash_insert_slow st" "content st" "slow_rep st u0 h0" "slow_fits st"
  for st u0 h0
  by unfold_locales (metis slow_new slow_old)

lemma hash_insert_array: "num_internal (hw_table w) = 4 \<Longrightarrow> hash_insert st w p = hash_insert_slow st w p"
  by (simp add: hash_insert_def NUM_INTERNAL_def Let_def)

interpretation array: key_counter "hash_insert st" "content st" "slow_rep st u0 h0" "slow_fits st"
  for st u0 h0
proof unfold_locales
  fix w ks p
  assume rep: "slow_rep st u0 h0 w ks" and fits: "slow_fits st ks p"
  from rep have "num_internal (hw_table w) = 4" by (simp add: slow_rep_def Let_def)
  then show "\<exists>w'. hash_insert st w p = Inr w' \<and> slow_rep st u0 h0 w' (bump (content st p) ks)"
    using slow.ins_bump [OF rep fits] by (simp add: hash_insert_array)
qed

lemma slow_rep_lookup:
  assumes rep: "slow_rep st u0 h0 w ks" and p: "readable st p"
  shows "map_of ks (content st p) = Some n \<Longrightarrow>
           hash_lookup st (hw_table w) p = Inr (int_of_count (of_nat n))"
    and "key_slot (content st p) \<notin> key_slot ` fst ` set ks \<Longrightarrow>
           hash_lookup st (hw_table w) p = Inl Null_deref"
proof -
  have eq: "hash_lookup st (hw_table w) p =
      rbind (deref (ht_map (hw_table w) (key_slot (content st p)))) (\<lambda>b. Inr (int_of_count (b_count b)))"
    using rep p by (simp add: hash_lookup_def slow_rep_def Let_def NUM_INTERNAL_def
        stream_key_readable slot_get_key flip: key_slot_def)
  show "hash_lookup st (hw_table w) p = Inr (int_of_count (of_nat n))"
    if "map_of ks (content st p) = Some n"
    using map_of_SomeD [OF that] rep unfolding eq
    by (auto simp: slow_rep_def Let_def holds_def dest!: bspec)
  show "hash_lookup st (hw_table w) p = Inl Null_deref"
    if "key_slot (content st p) \<notin> key_slot ` fst ` set ks"
    using that rep unfolding eq
    by (cases "ht_map (hw_table w) (key_slot (content st p))")
      (auto simp: slow_rep_def Let_def)
qed

subsection \<open>The step from the buckets to the array\<close>

lemma reinsert_run:
  "\<forall>b \<in> set bs. b_key b \<noteq> None \<Longrightarrow>
     reinsert st w bs = run (hash_insert_slow st) w (map (\<lambda>b. the (b_key b)) bs)"
  by (induction bs arbitrary: w) auto

lemma tally_distinct: "distinct ks \<Longrightarrow> tally ks = map (\<lambda>k. (k, 1)) ks"
proof (induction ks rule: rev_induct)
  case (snoc k ks)
  then show ?case by (simp add: tally_snoc bump_notin image_iff)
qed (simp add: tally_def)

lemma set_take_3: "length xs = 3 \<Longrightarrow> take 3 xs = xs"
  by simp

text \<open>
  The fourth key empties the counts: every key comes back with one, and the three moved
  keys are counted as new once more.
\<close>

lemma expand_step:
  assumes rep: "inline_rep st w ks" and full: "length ks = 3"
    and p: "readable st p" and new: "content st p \<notin> fst ` set ks"
    and inj: "inj_on key_slot (insert (content st p) (fst ` set ks))"
  shows "\<exists>w'. hash_insert st w p = Inr w' \<and>
           slow_rep st 3 (hits (hw_table w)) w' (tally (map fst ks @ [content st p]))"
proof -
  let ?t = "hw_table w" and ?k = "content st p"
  let ?bs = "ht_bucket ?t" and ?w0 = "w\<lparr>hw_table := ?t\<lparr>num_internal := 4\<rparr>\<rparr>"
  let ?qs = "map (\<lambda>b. the (b_key b)) ?bs"
  have len: "length ?bs = 3" and d: "distinct (map fst ks)" and n: "num_internal ?t = 3"
    using rep full by (auto simp: inline_rep_def Let_def)
  have holds: "\<forall>i<3. holds st (?bs ! i) (ks ! i)"
    using rep full by (auto simp: inline_rep_def Let_def)
  then have keys: "\<forall>b \<in> set ?bs. b_key b \<noteq> None"
    using len by (fastforce simp: in_set_conv_nth holds_def)
  have conts: "map (content st) ?qs = map fst ks"
    using holds len full by (intro nth_equalityI) (auto simp: holds_def)
  have reads: "\<forall>i<3. readable st (?qs ! i)"
    using holds len by (auto simp: holds_def)
  have "slow_rep st 3 (hits ?t) ?w0 []"
    using rep full by (simp add: slow_rep_def inline_rep_def Let_def)
  moreover have "\<forall>i<length (?qs @ [p]).
      slow_fits st (tally (map (content st) (take i (?qs @ [p])))) ((?qs @ [p]) ! i)"
  proof (intro allI impI)
    fix i assume i: "i < length (?qs @ [p])"
    have all: "map (content st) (?qs @ [p]) = map fst ks @ [?k]" using conts by simp
    have "insert (content st ((?qs @ [p]) ! i)) (set (map (content st) (take i (?qs @ [p]))))
        \<subseteq> set (map (content st) (?qs @ [p]))"
      by (rule seen_subset [OF i])
    also have "\<dots> = insert ?k (fst ` set ks)" unfolding all by auto
    finally have "inj_on key_slot (insert (content st ((?qs @ [p]) ! i))
        (fst ` set (tally (map (content st) (take i (?qs @ [p]))))))"
      unfolding fst_tally by (rule inj_on_subset [OF inj])
    moreover have "readable st ((?qs @ [p]) ! i)"
      using i p reads len by (auto simp: nth_append less_Suc_eq)
    ultimately show "slow_fits st (tally (map (content st) (take i (?qs @ [p])))) ((?qs @ [p]) ! i)"
      by (simp add: slow_fits_def)
  qed
  ultimately obtain w' where w': "run (hash_insert_slow st) ?w0 (?qs @ [p]) = Inr w'"
    "slow_rep st 3 (hits ?t) w' (tally (map (content st) (?qs @ [p])))"
    using slow.run_tally by blast
  have miss: "find_key ks ?k [0..<3] = None"
    using new full find_key_None [of ks ?k] by simp
  have "hash_insert st w p = run (hash_insert_slow st) ?w0 (?qs @ [p])"
    using inline_rep_scan [OF rep p] n full len miss
    by (simp add: hash_insert_def NUM_INTERNAL_def Let_def run_append reinsert_run [OF keys]
        sum.case_eq_if)
  with w' conts show ?thesis by auto
qed

end
