(* ===== verification/Hashtable_Props.thy ===== *)
theory Hashtable_Props
  imports Hashtable_Count
begin

text \<open>The properties of the hash functions, the table and the hash backend.\<close>

subsection \<open>Hash functions\<close>

text \<open>C38. \<open>mix\<close> is reversible, as its comment says: \<open>unmix\<close> undoes it on either side,
  so it is a bijection of triples of 64-bit words and loses nothing of the state.\<close>

theorem mix_reversible: "unmix (mix t) = t \<and> mix (unmix t) = t \<and> bij mix"
  by (auto intro!: o_bij [of unmix mix] simp: fun_eq_iff)

text \<open>C39. The rolling hash never overflows its 64-bit accumulator: on keys of fewer than
  \<open>2 ^ 32\<close> bytes it is the low 16 bits of the same loop on natural numbers.\<close>

theorem basic_hash_no_overflow:
  "length key < 2 ^ 32 \<Longrightarrow> unat (basic_hash key) = basic_nat 0 1 (map unat key) mod 2 ^ 16"
proof -
  assume "length key < 2 ^ 32"
  then have "unat (basic_loop 0 1 key) = basic_nat 0 1 (map unat key)"
    using basic_loop_nat [of 1 0 key] by simp
  then show ?thesis
    unfolding basic_hash_def by (simp add: unsigned_and_eq nat_and_mask16)
qed

theorem basic_hash_no_overflow_witness:
  "unat (basic_hash [102, 117, 98, 97, 114]) = basic_nat 0 1 [102, 117, 98, 97, 114] mod 2 ^ 16"
  using basic_hash_no_overflow [of "[102, 117, 98, 97, 114]"] by simp

text \<open>The comment above \<open>jhash\<close> promises a 32-bit value; \<open>ub4\<close> is 64 bits wide and
  already the hash of the empty key does not fit into 32.\<close>

theorem jhash_exceeds_32_bits: "2 ^ 32 \<le> jhash [] 0"
  by (simp add: jenkins_eval)

subsection \<open>Counting\<close>

lemma inline_run_fits:
  assumes ps: "\<forall>p \<in> set ps. readable st p" and few: "card (content st ` set ps) \<le> 3"
  shows "\<forall>i<length ps. inline_fits st (tally (map (content st) (take i ps))) (ps ! i)"
proof (intro allI impI)
  fix i assume i: "i < length ps"
  let ?seen = "set (map (content st) (take i ps))"
  have "length (tally (map (content st) (take i ps))) < 3" if "content st (ps ! i) \<notin> ?seen"
  proof -
    have "card (insert (content st (ps ! i)) ?seen) \<le> card (set (map (content st) ps))"
      by (rule card_mono [OF _ seen_subset [OF i]]) simp
    then show ?thesis using that few by (simp add: length_tally)
  qed
  then show "inline_fits st (tally (map (content st) (take i ps))) (ps ! i)"
    using ps i unfolding inline_fits_def fst_tally by (metis nth_mem)
qed

lemma inline_run:
  assumes "\<forall>p \<in> set ps. readable st p" "card (content st ` set ps) \<le> 3"
  shows "\<exists>w. run (hash_insert st) fresh_world ps = Inr w \<and>
             inline_rep st w (tally (map (content st) ps))"
  by (rule inline.run_tally [OF inline_rep_fresh inline_run_fits [OF assms]])

lemma inline_counters:
  assumes "inline_rep st w (tally ks)"
  shows "unique (hw_table w) = of_nat (card (set ks))"
    and "hits (hw_table w) = of_nat (length ks - card (set ks))"
  using assms card_length [of ks]
  by (simp_all add: inline_rep_def Let_def length_tally sum_tally)

text \<open>C23. While at most three different keys have arrived, the table counts exactly: after
  any sequence of insertions into a fresh table, \<open>hash_lookup\<close> returns the number of
  insertions of the key (\<open>-1\<close> for a key never inserted), \<open>unique\<close> the number of different
  keys and \<open>hits\<close> the number of repeated ones.\<close>

theorem hash_inline_counts:
  assumes "\<forall>p \<in> set ps. readable st p" "card (content st ` set ps) \<le> 3"
    and "readable st q" "length ps < 2 ^ 31"
  shows "\<exists>w. run (hash_insert st) fresh_world ps = Inr w \<and>
    hash_lookup st (hw_table w) q =
      Inr (if content st q \<in> content st ` set ps
           then int (count_list (map (content st) ps) (content st q)) else - 1) \<and>
    unique (hw_table w) = of_nat (card (content st ` set ps)) \<and>
    hits (hw_table w) = of_nat (length ps - card (content st ` set ps))"
proof -
  let ?ks = "map (content st) ps"
  obtain w where w: "run (hash_insert st) fresh_world ps = Inr w" "inline_rep st w (tally ?ks)"
    using inline_run [OF assms(1,2)] by blast
  have "count_list ?ks (content st q) < 2 ^ 31"
    using count_le_length [of ?ks "content st q"] assms(4) by simp
  then have "hash_lookup st (hw_table w) q =
      Inr (if content st q \<in> content st ` set ps
           then int (count_list ?ks (content st q)) else - 1)"
    using inline_rep_lookup [OF w(2) assms(3)] by (simp add: map_of_tally int_of_count_small)
  with w(1) inline_counters [OF w(2)] show ?thesis by simp
qed

text \<open>Streams for the witnesses: the keys of \<open>test.c\<close>, at addresses 0 to 3.\<close>

definition key_fubar :: "u8 list" where "key_fubar = [102, 117, 98, 97, 114]"
definition key_foobar :: "u8 list" where "key_foobar = [102, 111, 111, 98, 97, 114]"
definition key_fibar :: "u8 list" where "key_fibar = [102, 105, 98, 97, 114]"
definition key_fabar :: "u8 list" where "key_fabar = [102, 97, 98, 97, 114]"

definition test_streams :: streams where
  "test_streams p =
     (let k = (if p = 0 then key_fubar else if p = 1 then key_foobar
               else if p = 2 then key_fibar else key_fabar)
      in \<lparr>s_mem = k @ [0], s_len = length k\<rparr>)"

lemma test_readable: "readable test_streams p"
  by (simp add: readable_def test_streams_def Let_def)

lemma test_content:
  "content test_streams 0 = key_fubar" "content test_streams 1 = key_foobar"
  "content test_streams (Suc 0) = key_foobar"
  "content test_streams 2 = key_fibar" "content test_streams 3 = key_fabar"
  by (simp_all add: content_def test_streams_def Let_def)

lemmas test_keys = key_fubar_def key_foobar_def key_fibar_def key_fabar_def

theorem hash_inline_counts_witness:
  "\<exists>w. run (hash_insert test_streams) fresh_world [0, 1, 0] = Inr w \<and>
    hash_lookup test_streams (hw_table w) 0 = Inr 2 \<and>
    unique (hw_table w) = 2 \<and> hits (hw_table w) = 1"
  using hash_inline_counts [of "[0, 1, 0]" test_streams 0]
  by (simp add: test_readable test_content test_keys insert_commute)

text \<open>C24. The fourth different key moves the table to its array and forgets every count so
  far: whatever the sequence \<open>ps\<close> with three different keys, after a fourth key \<open>p\<close> and any
  further keys \<open>qs\<close> (all slots different) a lookup returns one for a key of \<open>ps\<close> plus its
  insertions since, and \<open>unique\<close> counts the three moved keys twice.\<close>

theorem hash_counts_after_expansion:
  assumes ps: "\<forall>q \<in> set ps. readable st q" "card (content st ` set ps) = 3"
    and p: "readable st p" "content st p \<notin> content st ` set ps"
    and qs: "\<forall>q \<in> set qs. readable st q"
    and inj: "inj_on key_slot (content st ` set (ps @ p # qs))"
    and q: "q \<in> set (ps @ p # qs)" "length qs < 2 ^ 31 - 2"
  shows "\<exists>w. run (hash_insert st) fresh_world (ps @ p # qs) = Inr w \<and>
    hash_lookup st (hw_table w) q =
      Inr ((if content st q \<in> content st ` set ps then 1 else 0) +
           int (count_list (map (content st) (p # qs)) (content st q))) \<and>
    unique (hw_table w) = 3 + of_nat (card (content st ` set (ps @ p # qs)))"
proof -
  let ?ks = "tally (map (content st) ps)" and ?c = "content st"
  let ?k1 = "map fst ?ks @ [?c p]"
  obtain w1 where w1: "run (hash_insert st) fresh_world ps = Inr w1" "inline_rep st w1 ?ks"
    using inline_run [of ps st] ps by auto
  have keys: "fst ` set ?ks = ?c ` set ps" by (simp add: fst_tally)
  have dk1: "distinct ?k1" using distinct_tally [of "map ?c ps"] p(2) keys by (simp flip: set_map)
  have inj1: "inj_on key_slot (insert (?c p) (fst ` set ?ks))"
    unfolding keys by (rule inj_on_subset [OF inj]) auto
  have "\<exists>w2. hash_insert st w1 p = Inr w2 \<and>
      slow_rep st 3 (hits (hw_table w1)) w2 (tally ?k1)"
    by (rule expand_step [OF w1(2) _ p(1) _ inj1])
      (use ps(2) p(2) in \<open>simp_all add: length_tally keys\<close>)
  then obtain w2 where w2: "hash_insert st w1 p = Inr w2"
    "slow_rep st 3 (hits (hw_table w1)) w2 (tally ?k1)" by blast
  have "\<forall>i<length qs. slow_fits st (fold bump (map ?c (take i qs)) (tally ?k1)) (qs ! i)"
  proof (intro allI impI)
    fix i assume i: "i < length qs"
    have "insert (?c (qs ! i)) (fst ` set (fold bump (map ?c (take i qs)) (tally ?k1)))
        \<subseteq> ?c ` set (ps @ p # qs)"
      using i by (auto simp: fst_fold_bump fst_tally keys dest: in_set_takeD)
    with inj have "inj_on key_slot (insert (?c (qs ! i))
        (fst ` set (fold bump (map ?c (take i qs)) (tally ?k1))))"
      by (rule inj_on_subset)
    then show "slow_fits st (fold bump (map ?c (take i qs)) (tally ?k1)) (qs ! i)"
      using qs nth_mem [OF i] unfolding slow_fits_def by blast
  qed
  from array.run_bump [OF w2(2) this] obtain w3 where w3: "run (hash_insert st) w2 qs = Inr w3"
    "slow_rep st 3 (hits (hw_table w1)) w3 (fold bump (map ?c qs) (tally ?k1))" by blast
  let ?final = "fold bump (map ?c qs) (tally ?k1)"
  have rq: "readable st q" using q(1) ps(1) p(1) qs by auto
  have sk1: "set ?k1 = insert (?c p) (?c ` set ps)" using keys by auto
  have one: "count_list ?k1 k = (if k \<in> set ?k1 then 1 else 0)" for k
    by (rule count_list_distinct [OF dk1])
  let ?n = "(if ?c q \<in> ?c ` set ps then 1 else 0) + count_list (map ?c (p # qs)) (?c q)"
  have "map_of ?final (?c q) = Some ?n"
    using q(1) p(2) one [of "?c q"] unfolding map_of_fold_bump map_of_tally sk1
    by (auto simp: count_list_0_iff image_iff)
  moreover have "?n < 2 ^ 31"
    using count_le_length [of "map ?c qs" "?c q"] q(2) by auto
  ultimately have "hash_lookup st (hw_table w3) q = Inr (int ?n)"
    using slow_rep_lookup(1) [OF w3(2) rq] by (simp add: int_of_count_small)
  moreover have "unique (hw_table w3) = 3 + of_nat (card (?c ` set (ps @ p # qs)))"
  proof -
    have "length ?final = card (fst ` set ?final)"
      using distinct_card [OF distinct_fold_bump [OF distinct_tally [of ?k1]], of "map ?c qs"]
      by simp
    also have "fst ` set ?final = ?c ` set (ps @ p # qs)"
      unfolding fst_fold_bump fst_tally sk1 by auto
    finally show ?thesis using w3(2) by (simp add: slow_rep_def Let_def)
  qed
  moreover have "run (hash_insert st) fresh_world (ps @ p # qs) = Inr w3"
    using w1(1) w2(1) w3(1) by (simp add: run_append)
  ultimately show ?thesis by auto
qed

lemma test_slots:
  "key_slot key_fubar = 53634" "key_slot key_foobar = 32886"
  "key_slot key_fibar = 49449" "key_slot key_fabar = 48140"
  by (simp_all add: key_slot_def test_keys jenkins_eval)

theorem hash_counts_after_expansion_witness:
  "\<exists>w. run (hash_insert test_streams) fresh_world [0, 0, 0, 1, 2, 3, 0] = Inr w \<and>
    hash_lookup test_streams (hw_table w) 0 = Inr 2 \<and> unique (hw_table w) = 7"
proof -
  have c: "content test_streams ` set [0, 0, 0, 1, 2] = {key_fubar, key_foobar, key_fibar}"
    by (auto simp: test_content)
  have d: "content test_streams ` set ([0, 0, 0, 1, 2] @ 3 # [0]) =
      {key_fubar, key_foobar, key_fibar, key_fabar}"
    by (auto simp: test_content)
  have n: "card {key_fubar, key_foobar, key_fibar} = 3"
      "card {key_fubar, key_foobar, key_fibar, key_fabar} = 4"
    by (simp_all add: test_keys)
  have "key_fabar \<notin> {key_fubar, key_foobar, key_fibar}" by (simp add: test_keys)
  moreover have "inj_on key_slot {key_fubar, key_foobar, key_fibar, key_fabar}"
    by (simp add: inj_on_def test_slots)
  ultimately show ?thesis
    using hash_counts_after_expansion [of "[0, 0, 0, 1, 2]" test_streams 3 "[0]" 0]
    unfolding c d by (simp add: n test_readable test_content test_keys)
qed



definition clash_world :: hworld where
  "clash_world = fresh_world\<lparr>hw_table := (hw_table fresh_world)
     \<lparr>num_internal := 4, ht_map := [38941 \<mapsto> \<lparr>b_key = Some 0, b_count = 1\<rparr>]\<rparr>\<rparr>"


text \<open>Once the array is in use, looking up a key whose slot is empty dereferences NULL;
  the inline search returns \<open>-1\<close> there.\<close>

theorem hash_lookup_empty_slot:
  assumes "num_internal (hw_table w) = 4" "readable st p"
    and "ht_map (hw_table w) (key_slot (content st p)) = None"
  shows "hash_lookup st (hw_table w) p = Inl Null_deref"
  using assms
  by (simp add: hash_lookup_def NUM_INTERNAL_def stream_key_readable slot_get_key flip: key_slot_def)

theorem hash_lookup_empty_slot_witness:
  "hash_lookup test_streams (hw_table clash_world) 0 = Inl Null_deref"
  by (rule hash_lookup_empty_slot) (simp_all add: test_readable test_content test_slots clash_world_def)

subsection \<open>The backend\<close>

text \<open>What the table holds once the backend has inserted \<open>n + 1\<close> stacks from one frame.\<close>

definition one_key :: "sptr \<Rightarrow> hworld \<Rightarrow> nat \<Rightarrow> bool" where
  "one_key slot w n \<longleftrightarrow>
     (let t = hw_table w in
        num_internal t = 1 \<and> length (ht_bucket t) = 3 \<and>
        ht_bucket t ! 0 = \<lparr>b_key = Some slot, b_count = of_nat (Suc n)\<rparr> \<and>
        unique t = 1 \<and> hits t = of_nat n)"

lemma one_key_first:
  "stack_end stack = Some m \<Longrightarrow>
     \<exists>s'. hash_tree_insert slot (st, fresh_world) stack = Inr s' \<and> one_key slot (snd s') 0"
  by (simp add: hash_tree_insert_def hash_insert_def fresh_world_def NUM_INTERNAL_def rd_ok
      one_key_def update_unique_def empty_bucket_def)

lemma one_key_next:
  assumes "one_key slot (snd s) n" "stack_end stack = Some m"
  shows "\<exists>s'. hash_tree_insert slot s stack = Inr s' \<and> one_key slot (snd s') (Suc n)"
proof -
  have "16 * m \<le> length (stack_bytes stack)" using stack_end_Some [OF assms(2)] by simp
  then show ?thesis
    using assms
    by (cases s) (simp add: hash_tree_insert_def hash_insert_def NUM_INTERNAL_def one_key_def
        Let_def rd_ok memcmp_eq_ok del: length_stack_bytes)
qed

lemma one_key_run:
  "one_key slot (snd s) n \<Longrightarrow> \<forall>stack \<in> set stacks. stack_end stack \<noteq> None \<Longrightarrow>
     \<exists>s'. run (hash_tree_insert slot) s stacks = Inr s' \<and> one_key slot (snd s') (n + length stacks)"
proof (induction stacks arbitrary: s n)
  case (Cons stack stacks)
  then obtain m where "stack_end stack = Some m" by auto
  with one_key_next [OF Cons.prems(1)] obtain s1 where
    s1: "hash_tree_insert slot s stack = Inr s1" "one_key slot (snd s1) (Suc n)" by blast
  with Cons.IH [OF s1(2)] Cons.prems(2) show ?case by simp
qed simp

text \<open>C26. The hash backend tells no two stacks apart. Its insert stores the address of its own
  local \<open>struct stream\<close>; the next call from the same place reuses that frame slot, so the
  stored key is by then the new stack and always matches. Whatever stacks that end are inserted,
  the table ends with one key and counts every later stack as a hit on it.\<close>

theorem hash_backend_single_key:
  assumes "\<forall>stack \<in> set stacks. stack_end stack \<noteq> None" "stacks \<noteq> []"
  shows "\<exists>st' w'. run (hash_tree_insert slot) (st, fresh_world) stacks = Inr (st', w') \<and>
           hash_stats (hw_table w') = (1, of_nat (length stacks - 1))"
proof -
  obtain stack rest where s: "stacks = stack # rest" using assms(2) by (cases stacks) auto
  obtain m where "stack_end stack = Some m" using assms(1) s by auto
  from one_key_first [OF this] obtain s1 where
    s1: "hash_tree_insert slot (st, fresh_world) stack = Inr s1" "one_key slot (snd s1) 0" by blast
  with one_key_run [OF s1(2), of rest] assms(1) s obtain st' w' where
    "run (hash_tree_insert slot) (st, fresh_world) stacks = Inr (st', w')"
    "one_key slot w' (length rest)" by auto
  then show ?thesis using s
    by (intro exI [of _ st'] exI [of _ w']) (simp add: one_key_def Let_def hash_stats_def)
qed

definition stop :: callstack_entry where "stop = \<lparr>ip = 0, cmap = 0\<rparr>"

theorem hash_backend_single_key_witness:
  "\<exists>st' w'. run (hash_tree_insert 7) (test_streams, fresh_world)
      [[\<lparr>ip = 1, cmap = 2\<rparr>, stop], [\<lparr>ip = 3, cmap = 4\<rparr>, stop], [stop]] = Inr (st', w') \<and>
    hash_stats (hw_table w') = (1, 2)"
  using hash_backend_single_key [of "[[\<lparr>ip = 1, cmap = 2\<rparr>, stop], [\<lparr>ip = 3, cmap = 4\<rparr>, stop], [stop]]"
      7 test_streams]
  by (simp add: stack_end_def MAX_STACK_ENTRIES_def stop_def numeral_eq_Suc del: run.simps)

end
