(* ===== verification/Art.thy ===== *)
theory Art
  imports Callstack
begin

text \<open>
  The adaptive radix tree of \<open>lib/art/art.c\<close> and its backend \<open>lib/art/ops.c\<close>. Every
  node is one \<open>struct radix_tree_node\<close>; a child pointer is an optional subtree, so
  replacing \<open>*_node\<close> is returning the new subtree to the parent. A leaf's key is a pointer
  into the caller's buffer, hence the whole buffer with \<open>key_len\<close> the key's length.
  \<open>art.c\<close> does not test the result of \<open>calloc\<close> but writes through it, so every function that
  allocates takes the allocator and gives it back, and stops in \<open>Null_deref\<close> when a call fails.
\<close>

subsection \<open>Streams\<close>

text \<open>\<open>st_data\<close>: the bytes from \<open>data\<close> to the end of its object; \<open>st_end\<close>: \<open>end - data\<close>.\<close>

record art_stream =
  st_data :: "u8 list"
  st_end :: nat
  st_pos :: u32

definition stream_init :: "art_stream \<Rightarrow> u8 list \<Rightarrow> art_stream" where
  "stream_init s d = s\<lparr>st_pos := 0, st_data := d\<rparr>"

definition stream_at_end :: "art_stream \<Rightarrow> bool" where
  "stream_at_end s \<longleftrightarrow> st_end s \<le> unat (st_pos s)"

definition stream_size :: "art_stream \<Rightarrow> nat" where
  "stream_size s = st_end s"

definition stream_advance :: "art_stream \<Rightarrow> u32 \<Rightarrow> art_stream" where
  "stream_advance s n = s\<lparr>st_pos := st_pos s + n\<rparr>"

definition stream_remaining :: "art_stream \<Rightarrow> u32" where
  "stream_remaining s = of_nat (st_end s) - st_pos s"

definition stream_get :: "art_stream \<Rightarrow> nat \<Rightarrow> u8 result" where
  "stream_get s i = rd (st_data s) i"

definition stream_next :: "art_stream \<Rightarrow> (u8 \<times> art_stream) result" where
  "stream_next s =
     rbind (rd (st_data s) (unat (st_pos s))) (\<lambda>b. Inr (b, s\<lparr>st_pos := st_pos s + 1\<rparr>))"

text \<open>\<open>memcpy\<close> out of the stream: \<open>n\<close> bytes from \<open>off\<close>.\<close>

definition stream_slice :: "art_stream \<Rightarrow> nat \<Rightarrow> nat \<Rightarrow> u8 list result" where
  "stream_slice s off n =
     (if off + n \<le> length (st_data s) then Inr (take n (drop off (st_data s)))
      else Inl Out_of_bounds)"

subsection \<open>Nodes\<close>

abbreviation NODE_FLAGS_LEAF :: u32 where "NODE_FLAGS_LEAF \<equiv> 1"
abbreviation NODE_FLAGS_INNER_4 :: u32 where "NODE_FLAGS_INNER_4 \<equiv> 2"
abbreviation NODE_FLAGS_INNER_16 :: u32 where "NODE_FLAGS_INNER_16 \<equiv> 4"
abbreviation NODE_FLAGS_INNER_48 :: u32 where "NODE_FLAGS_INNER_48 \<equiv> 8"
abbreviation NODE_FLAGS_INNER_256 :: u32 where "NODE_FLAGS_INNER_256 \<equiv> 16"
abbreviation NODE_INITIAL_SIZE :: u32 where "NODE_INITIAL_SIZE \<equiv> NODE_FLAGS_INNER_4"
abbreviation EMPTY :: u8 where "EMPTY \<equiv> 255"

definition PREFIX_SIZE :: nat where
  "PREFIX_SIZE = 128"

record art_hdr =
  key_len :: nat
  key :: "u8 list"
  flags :: u32
  count :: u64
  prefix_len :: nat
  prefix :: "u8 list"

text \<open>\<open>arr\<close> is the array of child pointers, kept next to the other fields.\<close>

datatype art_node = ANode (hdr: art_hdr) (arr: "art_node option list")

definition node_size :: "u32 \<Rightarrow> nat result" where
  "node_size f =
     (if f = NODE_FLAGS_LEAF then Inl Exit_failure
      else if f = NODE_FLAGS_INNER_4 then Inr 4
      else if f = NODE_FLAGS_INNER_16 then Inr 16
      else if f = NODE_FLAGS_INNER_48 then Inr 48
      else if f = NODE_FLAGS_INNER_256 then Inr 256
      else Inl Exit_failure)"

text \<open>\<open>ccalloc\<close>, here a macro for \<open>calloc\<close> (\<open>art.h\<close>), hands out zeroed memory; \<open>alloc_node\<close> writes at
  least \<open>node->flags\<close> whatever the call has returned.\<close>

definition node_calloc :: "alloc_state \<Rightarrow> alloc_state result" where
  "node_calloc a = (case calloc_ok a of (p, a') \<Rightarrow> if p then Inr a' else Inl Null_deref)"

definition blank_hdr :: "u32 \<Rightarrow> u8 list \<Rightarrow> art_hdr" where
  "blank_hdr f k =
     \<lparr>key_len = 0, key = k, flags = f, count = 0, prefix_len = 0, prefix = replicate PREFIX_SIZE 0\<rparr>"

definition alloc_node :: "u32 \<Rightarrow> alloc_state \<Rightarrow> (art_node \<times> alloc_state) result" where
  "alloc_node f a =
     (if f AND NODE_FLAGS_LEAF \<noteq> 0 then rbind (node_calloc a) (\<lambda>a. Inr (ANode (blank_hdr f []) [], a))
      else if f = NODE_FLAGS_INNER_4 \<or> f = NODE_FLAGS_INNER_16 then
        rbind (node_size f) (\<lambda>n. rbind (node_calloc a) (\<lambda>a.
          Inr (ANode (blank_hdr f (replicate n 0)) (replicate n None), a)))
      else if f = NODE_FLAGS_INNER_48 then
        rbind (node_size f) (\<lambda>n. rbind (node_calloc a) (\<lambda>a.
          Inr (ANode (blank_hdr f (replicate 256 EMPTY)) (replicate n None), a)))
      else if f = NODE_FLAGS_INNER_256 then
        rbind (node_size f) (\<lambda>n. rbind (node_calloc a) (\<lambda>a.
          Inr (ANode (blank_hdr f []) (replicate n None), a)))
      else Inl Exit_failure)"

text \<open>\<open>free_node\<close>, as the number of objects it frees.\<close>

definition free_node :: "art_hdr \<Rightarrow> nat result" where
  "free_node h =
     (if flags h = NODE_FLAGS_LEAF then Inr 2
      else if flags h = NODE_FLAGS_INNER_4 \<or> flags h = NODE_FLAGS_INNER_16 \<or>
              flags h = NODE_FLAGS_INNER_48 \<or> flags h = NODE_FLAGS_INNER_256 then Inr 1
      else Inl Exit_failure)"

definition is_leaf :: "art_hdr \<Rightarrow> bool" where
  "is_leaf h \<longleftrightarrow> flags h AND NODE_FLAGS_LEAF \<noteq> 0"

definition is_full :: "art_hdr \<Rightarrow> bool result" where
  "is_full h = (if is_leaf h then Inr True else rbind (node_size (flags h)) (\<lambda>n. Inr (key_len h = n)))"

subsection \<open>Children\<close>

text \<open>The scan \<open>for (i = 0; i < key_len; i++) if (key[i] == k) return &arr[i]\<close>.\<close>

fun scan_keys :: "u8 list \<Rightarrow> nat list \<Rightarrow> u8 \<Rightarrow> nat option result" where
  "scan_keys ks [] k = Inr None"
| "scan_keys ks (i # is) k = rbind (rd ks i) (\<lambda>b. if b = k then Inr (Some i) else scan_keys ks is k)"

definition find_child_16 :: "art_hdr \<Rightarrow> u8 \<Rightarrow> nat option result" where
  "find_child_16 h k = scan_keys (key h) [0..<key_len h] k"

text \<open>\<open>find_child\<close> returns the address of a child slot: the slot's index here.\<close>

definition find_child :: "art_hdr \<Rightarrow> u8 \<Rightarrow> nat option result" where
  "find_child h k =
     (if flags h = NODE_FLAGS_INNER_4 then scan_keys (key h) [0..<key_len h] k
      else if flags h = NODE_FLAGS_INNER_16 then find_child_16 h k
      else if flags h = NODE_FLAGS_INNER_48 then
        rbind (rd (key h) (unat k)) (\<lambda>i. Inr (if i = EMPTY then None else Some (unat i)))
      else if flags h = NODE_FLAGS_INNER_256 then Inr (Some (unat k))
      else Inl Exit_failure)"

text \<open>\<open>*next\<close> for a slot that was found; no slot is no child.\<close>

definition child_at :: "art_node option list \<Rightarrow> nat option \<Rightarrow> (nat \<times> art_node) option result" where
  "child_at cs slot =
     (case slot of None \<Rightarrow> Inr None
      | Some i \<Rightarrow> rbind (rd cs i) (\<lambda>c. Inr (map_option (Pair i) c)))"

text \<open>The assertions of \<open>add_child\<close> that the key is not in the node yet.\<close>

definition key_absent :: "art_hdr \<Rightarrow> art_node option list \<Rightarrow> u8 \<Rightarrow> bool result" where
  "key_absent h cs k =
     (if flags h = NODE_FLAGS_INNER_4 \<or> flags h = NODE_FLAGS_INNER_16 then
        rbind (scan_keys (key h) [0..<key_len h] k) (\<lambda>r. Inr (r = None))
      else if flags h = NODE_FLAGS_INNER_48 then rbind (rd (key h) (unat k)) (\<lambda>i. Inr (i = EMPTY))
      else if flags h = NODE_FLAGS_INNER_256 then rbind (rd cs (unat k)) (\<lambda>c. Inr (c = None))
      else Inr True)"

definition add_child :: "art_node \<Rightarrow> u8 \<Rightarrow> art_node \<Rightarrow> art_node result" where
  "add_child node k child =
     (let h = hdr node; cs = arr node in
      rbind (is_full h) (\<lambda>full. rbind (rassert (\<not> full)) (\<lambda>_.
      rbind (key_absent h cs k) (\<lambda>ok. rbind (rassert ok) (\<lambda>_.
        if flags h = NODE_FLAGS_INNER_4 \<or> flags h = NODE_FLAGS_INNER_16 then
          rbind (wr (key h) (key_len h) k) (\<lambda>ks.
          rbind (wr cs (key_len h) (Some child)) (\<lambda>cs.
            Inr (ANode (h\<lparr>key := ks, key_len := key_len h + 1\<rparr>) cs)))
        else if flags h = NODE_FLAGS_INNER_48 then
          rbind (wr (key h) (unat k) (of_nat (key_len h))) (\<lambda>ks.
          rbind (wr cs (key_len h) (Some child)) (\<lambda>cs.
            Inr (ANode (h\<lparr>key := ks, key_len := key_len h + 1\<rparr>) cs)))
        else if flags h = NODE_FLAGS_INNER_256 then
          rbind (wr cs (unat k) (Some child)) (\<lambda>cs. Inr (ANode h cs))
        else Inl Exit_failure)))))"

subsection \<open>Prefixes\<close>

fun count_match :: "u8 list \<Rightarrow> art_stream \<Rightarrow> nat \<Rightarrow> nat \<Rightarrow> nat \<Rightarrow> nat result" where
  "count_match p s depth i 0 = Inr i"
| "count_match p s depth i (Suc n) =
     rbind (rd p i) (\<lambda>a. rbind (stream_get s (depth + i)) (\<lambda>b.
       if a \<noteq> b then Inr i else count_match p s depth (Suc i) n))"

text \<open>The subtraction \<open>(unsigned int)stream_size(stream) - depth\<close> is one of 32-bit words.\<close>

definition check_prefix :: "art_hdr \<Rightarrow> art_stream \<Rightarrow> nat \<Rightarrow> nat result" where
  "check_prefix h s depth =
     (let min_len = min (prefix_len h) (unat (of_nat (stream_size s) - of_nat depth :: u32)) in
      rbind (memcmp_eq (prefix h) (drop depth (st_data s)) min_len) (\<lambda>eq.
        if eq then Inr min_len else count_match (prefix h) s depth 0 min_len))"

subsection \<open>Growing a node\<close>

text \<open>The copy loops of \<open>grow\<close>: 16 keys into an index of 256, then 48 children to their bytes.\<close>

fun grow_index :: "art_node \<Rightarrow> nat list \<Rightarrow> art_node \<Rightarrow> art_node result" where
  "grow_index old [] new = Inr new"
| "grow_index old (i # is) new =
     rbind (rd (key (hdr old)) i) (\<lambda>k.
     rbind (wr (key (hdr new)) (unat k) (of_nat i)) (\<lambda>ks.
     rbind (rd (arr old) i) (\<lambda>c.
     rbind (wr (arr new) i c) (\<lambda>cs.
       grow_index old is (ANode ((hdr new)\<lparr>key := ks\<rparr>) cs)))))"

fun grow_direct :: "art_node \<Rightarrow> nat list \<Rightarrow> art_node \<Rightarrow> art_node result" where
  "grow_direct old [] new = Inr new"
| "grow_direct old (i # is) new =
     rbind (rd (key (hdr old)) i) (\<lambda>index.
       if index = EMPTY then grow_direct old is new
       else rbind (rd (arr old) (unat index)) (\<lambda>c.
            rbind (wr (arr new) i c) (\<lambda>cs. grow_direct old is (ANode (hdr new) cs))))"

definition grow_type :: "u32 \<Rightarrow> u32 result" where
  "grow_type f =
     (if f = NODE_FLAGS_INNER_4 then Inr NODE_FLAGS_INNER_16
      else if f = NODE_FLAGS_INNER_16 then Inr NODE_FLAGS_INNER_48
      else if f = NODE_FLAGS_INNER_48 then Inr NODE_FLAGS_INNER_256
      else Inl Assert_failed)"

text \<open>The new node has the keys and the children; its \<open>prefix\<close> and \<open>count\<close> stay zero.\<close>

definition grow :: "art_node \<Rightarrow> alloc_state \<Rightarrow> (art_node \<times> alloc_state) result" where
  "grow node a =
     (let f = flags (hdr node) in
      rbind (is_full (hdr node)) (\<lambda>full. rbind (rassert full) (\<lambda>_.
      rbind (grow_type f) (\<lambda>t.
      rbind (alloc_node t a) (\<lambda>(new, a).
      rbind (node_size f) (\<lambda>entries.
      rbind (if f = NODE_FLAGS_INNER_4 then
               Inr (ANode ((hdr new)\<lparr>key := take entries (key (hdr node)) @ drop entries (key (hdr new))\<rparr>)
                      (take entries (arr node) @ drop entries (arr new)))
             else if f = NODE_FLAGS_INNER_16 then grow_index node [0..<entries] new
             else if f = NODE_FLAGS_INNER_48 then grow_direct node [0..<256] new
             else Inl Exit_failure) (\<lambda>new.
      rbind (free_node (hdr node)) (\<lambda>_.
        Inr (ANode ((hdr new)\<lparr>key_len := entries\<rparr>) (arr new), a)))))))))"

subsection \<open>Leaves\<close>

definition make_leaf :: "art_stream \<Rightarrow> alloc_state \<Rightarrow> (art_node \<times> alloc_state) result" where
  "make_leaf s a =
     rbind (alloc_node NODE_FLAGS_LEAF a) (\<lambda>(l, a).
       Inr (ANode ((hdr l)\<lparr>key_len := stream_size s, key := st_data s\<rparr>) (arr l), a))"

text \<open>The loop of \<open>do_leaf\<close> that finds the end of the common part, from \<open>m\<close>.\<close>

function leaf_match :: "art_hdr \<Rightarrow> art_stream \<Rightarrow> nat \<Rightarrow> nat result" where
  "leaf_match h s m =
     (if m < key_len h \<and> m < stream_size s then
        rbind (rd (key h) m) (\<lambda>a. rbind (stream_get s m) (\<lambda>b.
          if a = b then leaf_match h s (m + 1) else Inr m))
      else Inr m)"
  by pat_completeness auto
termination
  by (relation "measure (\<lambda>(h, s, m). key_len h - m)") auto

declare leaf_match.simps [simp del]

text \<open>
  The loop that chains inner nodes for a common part longer than one prefix: the finished
  outer nodes (each with the next as its only child), the node being filled, and what is
  left of the common part. The stored byte is \<open>data[depth + j * 128 + 1]\<close>, and the node
  filled last keeps no prefix of its own when the rest fits into it: the code after the
  loop overwrites it.
\<close>

function chain_loop ::
  "art_stream \<Rightarrow> nat \<Rightarrow> nat \<Rightarrow> nat \<Rightarrow> art_hdr list \<Rightarrow> art_hdr \<Rightarrow> alloc_state \<Rightarrow>
     ((art_hdr list \<times> art_hdr \<times> nat) \<times> alloc_state) result"
where
  "chain_loop s depth j rem outers new a =
     (if PREFIX_SIZE < rem then
        rbind (stream_slice s (depth + j * PREFIX_SIZE) PREFIX_SIZE) (\<lambda>p.
          let new = new\<lparr>prefix := p, prefix_len := PREFIX_SIZE\<rparr>; rem = rem - PREFIX_SIZE in
          if PREFIX_SIZE < rem then
            rbind (alloc_node NODE_INITIAL_SIZE a) (\<lambda>(chain, a).
            rbind (stream_get s (depth + j * PREFIX_SIZE + 1)) (\<lambda>k.
            rbind (wr (key new) 0 k) (\<lambda>ks.
              chain_loop s depth (j + 1) (rem - 1) (outers @ [new\<lparr>key := ks, key_len := 1\<rparr>])
                (hdr chain) a)))
          else chain_loop s depth (j + 1) rem outers new a)
      else Inr ((outers, new, rem), a))"
  by pat_completeness auto
termination
  by (relation "measure (\<lambda>(s, depth, j, rem, outers, new, a). rem)") (auto simp: PREFIX_SIZE_def)

declare chain_loop.simps [simp del]

text \<open>An outer node of the chain with the rest as child 0.\<close>

definition link_outer :: "art_hdr \<Rightarrow> art_node \<Rightarrow> art_node" where
  "link_outer h inner = ANode h ((replicate 4 None)[0 := Some inner])"

text \<open>
  The part of \<open>do_leaf\<close> after the loop for the match: split the leaf at \<open>m\<close>. The lengths
  are \<open>unsigned int\<close>.
\<close>

definition split_leaf :: "art_node \<Rightarrow> art_stream \<Rightarrow> nat \<Rightarrow> nat \<Rightarrow> alloc_state \<Rightarrow> (art_node \<times> alloc_state) result" where
  "split_leaf node s depth m a =
     (let h = hdr node;
          stream_len = (of_nat (stream_size s) - of_nat depth :: u32);
          leaf_len = (of_nat (key_len h) - of_nat depth :: u32);
          plen = m - depth in
      rbind (alloc_node NODE_INITIAL_SIZE a) (\<lambda>(new, a).
      rbind (chain_loop s depth 0 plen [] (hdr new) a) (\<lambda>((outers, nh, rem), a).
      rbind (if 0 < rem then
               rbind (stream_slice s (depth + plen - rem) rem) (\<lambda>p.
                 Inr (nh\<lparr>prefix := p @ drop rem (prefix nh), prefix_len := rem\<rparr>))
             else Inr nh) (\<lambda>nh.
      let new = ANode nh (arr new) in
      rbind (if 0 < leaf_len - of_nat plen then
               rbind (rd (key h) (depth + plen)) (\<lambda>k. add_child new k node)
             else Inr new) (\<lambda>new.
      rbind (if 0 < stream_len - of_nat plen then
               rbind (make_leaf s a) (\<lambda>(other, a).
               rbind (rd (key (hdr other)) (depth + plen)) (\<lambda>k.
               rbind (add_child new k other) (\<lambda>new. Inr (new, a))))
             else Inr (new, a)) (\<lambda>(new, a).
        Inr (foldr link_outer outers new, a)))))))"

text \<open>
  \<open>do_leaf\<close>. The guard \<open>if (stream_size <= 0) return;\<close> compares the function's address,
  which is never at most NULL, so it never returns. The final \<open>memcmp\<close> compares \<open>match\<close>
  bytes from \<open>depth\<close> on, that is \<open>depth\<close> bytes past the ends of both keys.
\<close>

definition do_leaf :: "art_node \<Rightarrow> art_stream \<Rightarrow> nat \<Rightarrow> alloc_state \<Rightarrow> (art_node \<times> alloc_state) result" where
  "do_leaf node s depth a =
     (let h = hdr node in
      rbind (rassert (is_leaf h)) (\<lambda>_.
      rbind (leaf_match h s depth) (\<lambda>m.
        if m = stream_size s \<and> m = key_len h then
          rbind (memcmp_eq (drop depth (key h)) (drop depth (st_data s)) m) (\<lambda>eq.
            if eq then Inr (ANode (h\<lparr>count := count h + 1\<rparr>) (arr node), a)
            else split_leaf node s depth m a)
        else split_leaf node s depth m a)))"

subsection \<open>Insertion\<close>

text \<open>The branch of \<open>insert\<close> for a prefix that differs at \<open>m\<close>: a new parent for both.\<close>

definition split_prefix :: "art_node \<Rightarrow> art_stream \<Rightarrow> nat \<Rightarrow> nat \<Rightarrow> alloc_state \<Rightarrow> (art_node \<times> alloc_state) result" where
  "split_prefix node s depth m a =
     (let h = hdr node in
      rbind (alloc_node NODE_INITIAL_SIZE a) (\<lambda>(new, a).
      rbind (make_leaf s a) (\<lambda>(leaf, a).
      rbind (stream_get s (depth + m)) (\<lambda>k.
      rbind (add_child new k leaf) (\<lambda>new.
      rbind (rd (prefix h) m) (\<lambda>k.
      let n = prefix_len h - (m + 1);
          rest = ANode (h\<lparr>prefix_len := n,
                         prefix := take n (drop (m + 1) (prefix h)) @ drop n (prefix h)\<rparr>) (arr node) in
      rbind (add_child new k rest) (\<lambda>new.
      rbind (rassert (m \<le> PREFIX_SIZE)) (\<lambda>_.
        Inr (ANode ((hdr new)\<lparr>prefix_len := m,
                      prefix := take m (prefix h) @ drop m (prefix (hdr new))\<rparr>) (arr new), a)))))))))"

text \<open>The branch for a byte the node has no child for: grow a full node, add a leaf.\<close>

definition add_leaf :: "art_node \<Rightarrow> art_stream \<Rightarrow> nat \<Rightarrow> alloc_state \<Rightarrow> (art_node \<times> alloc_state) result" where
  "add_leaf node s depth a =
     rbind (is_full (hdr node)) (\<lambda>full.
     rbind (if full then grow node a else Inr (node, a)) (\<lambda>(node, a).
     rbind (make_leaf s a) (\<lambda>(leaf, a).
     rbind (stream_get s depth) (\<lambda>k.
     rbind (add_child node k leaf) (\<lambda>node. Inr (node, a))))))"

lemma child_at_size:
  "child_at cs slot = Inr (Some (i, c)) \<Longrightarrow> size c < Suc (size_list (size_option size) cs)"
proof -
  assume "child_at cs slot = Inr (Some (i, c))"
  then have "Some c \<in> set cs" by (auto simp: child_at_def split: option.splits dest: nth_mem)
  then have "size_option size (Some c) \<le> size_list (size_option size) cs"
    by (rule size_list_estimation') simp
  then show ?thesis by simp
qed

text \<open>The loop of \<open>insert\<close> from a node at \<open>depth\<close>, with the subtree that replaces the node.\<close>

function art_insert_at :: "art_node \<Rightarrow> art_stream \<Rightarrow> nat \<Rightarrow> alloc_state \<Rightarrow> ((art_node \<times> art_stream) \<times> alloc_state) result" where
  "art_insert_at (ANode h cs) s depth a =
     (if is_leaf h then rbind (do_leaf (ANode h cs) s depth a) (\<lambda>(n, a). Inr ((n, s), a))
      else rbind (check_prefix h s depth) (\<lambda>m.
        if m \<noteq> prefix_len h then rbind (split_prefix (ANode h cs) s depth m a) (\<lambda>(n, a). Inr ((n, s), a))
        else let depth = depth + prefix_len h in
          if stream_size s \<le> depth then Inr ((ANode (h\<lparr>count := count h + 1\<rparr>) cs, s), a)
          else
            rbind (stream_get s depth) (\<lambda>k.
            rbind (find_child h k) (\<lambda>slot.
            rbind (child_at cs slot) (\<lambda>next. case next of
              Some (i, c) \<Rightarrow>
                rbind (art_insert_at c (stream_advance s 1) (depth + 1) a) (\<lambda>((c, s), a).
                  Inr ((ANode h (cs[i := Some c]), s), a))
            | None \<Rightarrow> rbind (add_leaf (ANode h cs) s depth a) (\<lambda>(n, a). Inr ((n, s), a)))))))"
  by pat_completeness auto
termination
  by (relation "measure (\<lambda>(n, s, d, a). size n)") (auto dest: child_at_size)

declare art_insert_at.simps [simp del]

definition art_insert ::
  "art_node option \<Rightarrow> art_stream \<Rightarrow> alloc_state \<Rightarrow> ((art_node option \<times> art_stream) \<times> alloc_state) result" where
  "art_insert root s a =
     (case root of
        None \<Rightarrow> rbind (make_leaf s a) (\<lambda>(l, a). Inr ((Some l, s), a))
      | Some n \<Rightarrow> rbind (art_insert_at n s 0 a) (\<lambda>((n, s), a). Inr ((Some n, s), a)))"

subsection \<open>Search\<close>

definition leaf_matches :: "art_hdr \<Rightarrow> art_stream \<Rightarrow> bool result" where
  "leaf_matches h s =
     (if key_len h \<noteq> stream_size s then Inr False
      else memcmp_eq (key h) (st_data s) (key_len h))"

function art_search_at :: "art_node \<Rightarrow> art_stream \<Rightarrow> nat \<Rightarrow> art_node option result" where
  "art_search_at (ANode h cs) s depth =
     (if is_leaf h then
        rbind (leaf_matches h s) (\<lambda>eq. Inr (if eq then Some (ANode h cs) else None))
      else rbind (check_prefix h s depth) (\<lambda>m.
        if m \<noteq> prefix_len h then Inr None
        else let depth = depth + prefix_len h in
          if depth = stream_size s then Inr (Some (ANode h cs))
          else
            rbind (stream_get s depth) (\<lambda>k.
            rbind (find_child h k) (\<lambda>slot.
            rbind (child_at cs slot) (\<lambda>next. case next of
              None \<Rightarrow> Inr None
            | Some (i, c) \<Rightarrow> art_search_at c s (depth + 1))))))"
  by pat_completeness auto
termination
  by (relation "measure (\<lambda>(n, s, d). size n)") (auto dest: child_at_size)

declare art_search_at.simps [simp del]

definition art_search :: "art_node option \<Rightarrow> art_stream \<Rightarrow> art_node option result" where
  "art_search root s = (case root of None \<Rightarrow> Inr None | Some n \<Rightarrow> art_search_at n s 0)"

subsection \<open>The backend\<close>

text \<open>
  \<open>art_tree_new\<close>: the callstack tree and its private part. \<open>art.h\<close> makes \<open>ccalloc\<close> a macro for
  \<open>calloc\<close>, so the counters stay as they are.
\<close>

definition art_calloc :: "alloc_state \<Rightarrow> alloc_state result" where
  "art_calloc a = (case calloc_ok a of (p, a') \<Rightarrow> if p then Inr a' else Inl Exit_failure)"

definition art_tree_new :: "alloc_state \<Rightarrow> (art_node option \<times> alloc_state) result" where
  "art_tree_new a = rbind (art_calloc a) (\<lambda>a. rbind (art_calloc a) (\<lambda>a. Inr (None, a)))"

text \<open>
  \<open>art_tree_insert\<close>: the stream is the entry array, cut at the first entry with \<open>ip = 0\<close>;
  without one, \<open>stream->end\<close> is never written.
\<close>

definition art_tree_insert ::
  "art_node option \<Rightarrow> callstack_entry list \<Rightarrow> alloc_state \<Rightarrow> (art_node option \<times> alloc_state) result" where
  "art_tree_insert root stack a =
     (case stack_end stack of
        None \<Rightarrow> Inl Uninit_read
      | Some n \<Rightarrow>
          rbind (art_insert root
                   (stream_init \<lparr>st_data = [], st_end = 16 * n, st_pos = 0\<rparr> (stack_bytes stack)) a)
            (\<lambda>((root, s), a). Inr (root, a)))"

definition art_tree_put :: "alloc_state \<Rightarrow> alloc_state" where
  "art_tree_put a = a"

end
