(* ===== verification/Art_Lasting.thy ===== *)
theory Art_Lasting
  imports Art
begin

text \<open>
  Insertion into the radix tree while memory lasts: the same functions without the allocator.
  Every function of \<open>Art\<close> that allocates does what its counterpart here does, or dereferences the
  NULL of a failed call: the allocations have no other effect. The theories after this one study
  the counterparts; the properties are about the functions of \<open>Art\<close>.
\<close>

subsection \<open>Counterparts\<close>

definition lasting_alloc_node :: "u32 \<Rightarrow> art_node result" where
  "lasting_alloc_node f =
     (if f AND NODE_FLAGS_LEAF \<noteq> 0 then Inr (ANode (blank_hdr f []) [])
      else if f = NODE_FLAGS_INNER_4 \<or> f = NODE_FLAGS_INNER_16 then
        rbind (node_size f) (\<lambda>n. Inr (ANode (blank_hdr f (replicate n 0)) (replicate n None)))
      else if f = NODE_FLAGS_INNER_48 then
        rbind (node_size f) (\<lambda>n. Inr (ANode (blank_hdr f (replicate 256 EMPTY)) (replicate n None)))
      else if f = NODE_FLAGS_INNER_256 then
        rbind (node_size f) (\<lambda>n. Inr (ANode (blank_hdr f []) (replicate n None)))
      else Inl Exit_failure)"

definition lasting_grow :: "art_node \<Rightarrow> art_node result" where
  "lasting_grow node =
     (let f = flags (hdr node) in
      rbind (is_full (hdr node)) (\<lambda>full. rbind (rassert full) (\<lambda>_.
      rbind (grow_type f) (\<lambda>t.
      rbind (lasting_alloc_node t) (\<lambda>new.
      rbind (node_size f) (\<lambda>entries.
      rbind (if f = NODE_FLAGS_INNER_4 then
               Inr (ANode ((hdr new)\<lparr>key := take entries (key (hdr node)) @ drop entries (key (hdr new))\<rparr>)
                      (take entries (arr node) @ drop entries (arr new)))
             else if f = NODE_FLAGS_INNER_16 then grow_index node [0..<entries] new
             else if f = NODE_FLAGS_INNER_48 then grow_direct node [0..<256] new
             else Inl Exit_failure) (\<lambda>new.
      rbind (free_node (hdr node)) (\<lambda>_.
        Inr (ANode ((hdr new)\<lparr>key_len := entries\<rparr>) (arr new))))))))))"

definition lasting_make_leaf :: "art_stream \<Rightarrow> art_node result" where
  "lasting_make_leaf s =
     rbind (lasting_alloc_node NODE_FLAGS_LEAF) (\<lambda>l.
       Inr (ANode ((hdr l)\<lparr>key_len := stream_size s, key := st_data s\<rparr>) (arr l)))"

function lasting_chain_loop ::
  "art_stream \<Rightarrow> nat \<Rightarrow> nat \<Rightarrow> nat \<Rightarrow> art_hdr list \<Rightarrow> art_hdr \<Rightarrow> (art_hdr list \<times> art_hdr \<times> nat) result"
where
  "lasting_chain_loop s depth j rem outers new =
     (if PREFIX_SIZE < rem then
        rbind (stream_slice s (depth + j * PREFIX_SIZE) PREFIX_SIZE) (\<lambda>p.
          let new = new\<lparr>prefix := p, prefix_len := PREFIX_SIZE\<rparr>; rem = rem - PREFIX_SIZE in
          if PREFIX_SIZE < rem then
            rbind (lasting_alloc_node NODE_INITIAL_SIZE) (\<lambda>chain.
            rbind (stream_get s (depth + j * PREFIX_SIZE + 1)) (\<lambda>k.
            rbind (wr (key new) 0 k) (\<lambda>ks.
              lasting_chain_loop s depth (j + 1) (rem - 1) (outers @ [new\<lparr>key := ks, key_len := 1\<rparr>])
                (hdr chain))))
          else lasting_chain_loop s depth (j + 1) rem outers new)
      else Inr (outers, new, rem))"
  by pat_completeness auto
termination
  by (relation "measure (\<lambda>(s, depth, j, rem, outers, new). rem)") (auto simp: PREFIX_SIZE_def)

declare lasting_chain_loop.simps [simp del]

definition lasting_split_leaf :: "art_node \<Rightarrow> art_stream \<Rightarrow> nat \<Rightarrow> nat \<Rightarrow> art_node result" where
  "lasting_split_leaf node s depth m =
     (let h = hdr node;
          stream_len = (of_nat (stream_size s) - of_nat depth :: u32);
          leaf_len = (of_nat (key_len h) - of_nat depth :: u32);
          plen = m - depth in
      rbind (lasting_alloc_node NODE_INITIAL_SIZE) (\<lambda>new.
      rbind (lasting_chain_loop s depth 0 plen [] (hdr new)) (\<lambda>(outers, nh, rem).
      rbind (if 0 < rem then
               rbind (stream_slice s (depth + plen - rem) rem) (\<lambda>p.
                 Inr (nh\<lparr>prefix := p @ drop rem (prefix nh), prefix_len := rem\<rparr>))
             else Inr nh) (\<lambda>nh.
      let new = ANode nh (arr new) in
      rbind (if 0 < leaf_len - of_nat plen then
               rbind (rd (key h) (depth + plen)) (\<lambda>k. add_child new k node)
             else Inr new) (\<lambda>new.
      rbind (if 0 < stream_len - of_nat plen then
               rbind (lasting_make_leaf s) (\<lambda>other.
               rbind (rd (key (hdr other)) (depth + plen)) (\<lambda>k. add_child new k other))
             else Inr new) (\<lambda>new.
        Inr (foldr link_outer outers new)))))))"

definition lasting_do_leaf :: "art_node \<Rightarrow> art_stream \<Rightarrow> nat \<Rightarrow> art_node result" where
  "lasting_do_leaf node s depth =
     (let h = hdr node in
      rbind (rassert (is_leaf h)) (\<lambda>_.
      rbind (leaf_match h s depth) (\<lambda>m.
        if m = stream_size s \<and> m = key_len h then
          rbind (memcmp_eq (drop depth (key h)) (drop depth (st_data s)) m) (\<lambda>eq.
            if eq then Inr (ANode (h\<lparr>count := count h + 1\<rparr>) (arr node))
            else lasting_split_leaf node s depth m)
        else lasting_split_leaf node s depth m)))"

definition lasting_split_prefix :: "art_node \<Rightarrow> art_stream \<Rightarrow> nat \<Rightarrow> nat \<Rightarrow> art_node result" where
  "lasting_split_prefix node s depth m =
     (let h = hdr node in
      rbind (lasting_alloc_node NODE_INITIAL_SIZE) (\<lambda>new.
      rbind (lasting_make_leaf s) (\<lambda>leaf.
      rbind (stream_get s (depth + m)) (\<lambda>k.
      rbind (add_child new k leaf) (\<lambda>new.
      rbind (rd (prefix h) m) (\<lambda>k.
      let n = prefix_len h - (m + 1);
          rest = ANode (h\<lparr>prefix_len := n,
                         prefix := take n (drop (m + 1) (prefix h)) @ drop n (prefix h)\<rparr>) (arr node) in
      rbind (add_child new k rest) (\<lambda>new.
      rbind (rassert (m \<le> PREFIX_SIZE)) (\<lambda>_.
        Inr (ANode ((hdr new)\<lparr>prefix_len := m,
                      prefix := take m (prefix h) @ drop m (prefix (hdr new))\<rparr>) (arr new))))))))))"

definition lasting_add_leaf :: "art_node \<Rightarrow> art_stream \<Rightarrow> nat \<Rightarrow> art_node result" where
  "lasting_add_leaf node s depth =
     rbind (is_full (hdr node)) (\<lambda>full.
     rbind (if full then lasting_grow node else Inr node) (\<lambda>node.
     rbind (lasting_make_leaf s) (\<lambda>leaf.
     rbind (stream_get s depth) (\<lambda>k. add_child node k leaf))))"

function lasting_insert_at :: "art_node \<Rightarrow> art_stream \<Rightarrow> nat \<Rightarrow> (art_node \<times> art_stream) result" where
  "lasting_insert_at (ANode h cs) s depth =
     (if is_leaf h then rbind (lasting_do_leaf (ANode h cs) s depth) (\<lambda>n. Inr (n, s))
      else rbind (check_prefix h s depth) (\<lambda>m.
        if m \<noteq> prefix_len h then rbind (lasting_split_prefix (ANode h cs) s depth m) (\<lambda>n. Inr (n, s))
        else let depth = depth + prefix_len h in
          if stream_size s \<le> depth then Inr (ANode (h\<lparr>count := count h + 1\<rparr>) cs, s)
          else
            rbind (stream_get s depth) (\<lambda>k.
            rbind (find_child h k) (\<lambda>slot.
            rbind (child_at cs slot) (\<lambda>next. case next of
              Some (i, c) \<Rightarrow>
                rbind (lasting_insert_at c (stream_advance s 1) (depth + 1)) (\<lambda>(c, s).
                  Inr (ANode h (cs[i := Some c]), s))
            | None \<Rightarrow> rbind (lasting_add_leaf (ANode h cs) s depth) (\<lambda>n. Inr (n, s)))))))"
  by pat_completeness auto
termination
  by (relation "measure (\<lambda>(n, s, d). size n)") (auto dest: child_at_size)

declare lasting_insert_at.simps [simp del]

definition lasting_insert :: "art_node option \<Rightarrow> art_stream \<Rightarrow> (art_node option \<times> art_stream) result" where
  "lasting_insert root s =
     (case root of
        None \<Rightarrow> rbind (lasting_make_leaf s) (\<lambda>l. Inr (Some l, s))
      | Some n \<Rightarrow> rbind (lasting_insert_at n s 0) (\<lambda>(n, s). Inr (Some n, s)))"

definition lasting_tree_insert :: "art_node option \<Rightarrow> callstack_entry list \<Rightarrow> art_node option result" where
  "lasting_tree_insert root stack =
     (case stack_end stack of
        None \<Rightarrow> Inl Uninit_read
      | Some n \<Rightarrow>
          rbind (lasting_insert root
                   (stream_init \<lparr>st_data = [], st_end = 16 * n, st_pos = 0\<rparr> (stack_bytes stack)))
            (\<lambda>(root, s). Inr root))"

subsection \<open>What an allocation can change\<close>

text \<open>\<open>grants a r p\<close>: started with the allocator \<open>a\<close>, the run \<open>r\<close> ends as \<open>p\<close>, with the coming outcomes
  that it used up, all of them successes, taken off the plan, or at a call that failed.\<close>

definition grants :: "alloc_state \<Rightarrow> ('x \<times> alloc_state) result \<Rightarrow> 'x result \<Rightarrow> bool" where
  "grants a r p \<longleftrightarrow> r = Inl Null_deref \<and> False \<in> set (plan a) \<or>
     (\<exists>j. False \<notin> set (take j (plan a)) \<and> r = rbind p (\<lambda>x. Inr (x, a\<lparr>plan := drop j (plan a)\<rparr>)))"

lemma grants_Inr [intro]: "grants a (Inr (x, a)) (Inr x)"
  by (auto simp: grants_def intro: exI [of _ 0])

lemma grants_Inl [intro, simp]: "grants a (Inl e) (Inl e)"
  by (auto simp: grants_def intro: exI [of _ 0])

lemma grants_node_calloc: "grants a (rbind (node_calloc a) (\<lambda>a. Inr (x, a))) (Inr x)"
proof (cases "plan a")
  case Nil
  then show ?thesis by (auto simp: node_calloc_def calloc_ok_def)
next
  case (Cons b bs)
  then show ?thesis by (auto simp: node_calloc_def calloc_ok_def grants_def intro: exI [of _ 1])
qed

lemma grants_rbind: "(\<And>x. grants a (f x) (g x)) \<Longrightarrow> grants a (rbind m f) (rbind m g)"
  by (cases m) auto

lemma grants_then:
  assumes "grants a r p" "\<And>x b. grants b (f x b) (g x)"
  shows "grants a (rbind r (\<lambda>(x, b). f x b)) (rbind p g)"
  using assms(1) unfolding grants_def
proof (elim disjE exE conjE)
  fix j assume j: "False \<notin> set (take j (plan a))" and r: "r = rbind p (\<lambda>x. Inr (x, a\<lparr>plan := drop j (plan a)\<rparr>))"
  show "rbind r (\<lambda>(x, b). f x b) = Inl Null_deref \<and> False \<in> set (plan a) \<or>
     (\<exists>j. False \<notin> set (take j (plan a)) \<and>
        rbind r (\<lambda>(x, b). f x b) = rbind (rbind p g) (\<lambda>x. Inr (x, a\<lparr>plan := drop j (plan a)\<rparr>)))"
  proof (cases p)
    case (Inr x)
    let ?b = "a\<lparr>plan := drop j (plan a)\<rparr>"
    have "grants ?b (f x ?b) (g x)" by (rule assms(2))
    then consider "f x ?b = Inl Null_deref" "False \<in> set (drop j (plan a))"
      | i where "False \<notin> set (take i (drop j (plan a)))" "f x ?b = rbind (g x) (\<lambda>x. Inr (x, a\<lparr>plan := drop (i + j) (plan a)\<rparr>))"
      by (auto simp: grants_def)
    then show ?thesis
    proof cases
      case 1
      then show ?thesis unfolding r Inr by (auto dest: in_set_dropD)
    next
      case 2
      have "False \<notin> set (take (i + j) (plan a))" using 2(1) j by (simp add: take_add add.commute [of i])
      then show ?thesis unfolding r Inr using 2(2) by auto
    qed
  qed (use r in \<open>auto intro: exI [of _ 0]\<close>)
qed simp

lemma grants_if: "(b \<Longrightarrow> grants a r p) \<Longrightarrow> (\<not> b \<Longrightarrow> grants a r' p') \<Longrightarrow> grants a (if b then r else r') (if b then p else p')"
  by simp

lemma grants_map: "grants a r p \<Longrightarrow> grants a (rbind r (\<lambda>(x, b). Inr (f x, b))) (rbind p (\<lambda>x. Inr (f x)))"
  by (rule grants_then) auto

lemma grants_map2: "grants a r p \<Longrightarrow>
  grants a (rbind r (\<lambda>((x, y), b). Inr (f x y, b))) (rbind p (\<lambda>(x, y). Inr (f x y)))"
  using grants_map [of a r p "\<lambda>(x, y). f x y"] by (simp add: split_def)

lemma grants_rbind_value: "(\<And>x. m = Inr x \<Longrightarrow> grants a (f x) (g x)) \<Longrightarrow> grants a (rbind m f) (rbind m g)"
  by (cases m) auto

lemma grants_lasting:
  assumes "grants a r p" "plan a = []"
  shows "r = rbind p (\<lambda>x. Inr (x, a))"
proof -
  have a: "a\<lparr>plan := []\<rparr> = a" using assms(2) by (cases a) simp
  from assms obtain j where "r = rbind p (\<lambda>x. Inr (x, a\<lparr>plan := drop j (plan a)\<rparr>))"
    by (auto simp: grants_def)
  then show ?thesis unfolding assms(2) drop_Nil a .
qed

subsection \<open>The operations\<close>

lemma grants_alloc_node: "grants a (alloc_node f a) (lasting_alloc_node f)"
  unfolding alloc_node_def lasting_alloc_node_def
  by (intro grants_if grants_rbind grants_node_calloc grants_Inl)

lemma grants_make_leaf: "grants a (make_leaf s a) (lasting_make_leaf s)"
  unfolding make_leaf_def lasting_make_leaf_def by (rule grants_map [OF grants_alloc_node])

lemma grants_grow: "grants a (grow node a) (lasting_grow node)"
  unfolding grow_def lasting_grow_def Let_def
  by (intro grants_rbind grants_then [OF grants_alloc_node] grants_Inr)

lemma grants_chain_loop: "grants a (chain_loop s depth j rem outers new a) (lasting_chain_loop s depth j rem outers new)"
proof (induction rem arbitrary: a j outers new rule: less_induct)
  case (less rem)
  have "rem - PREFIX_SIZE - 1 < rem" "rem - PREFIX_SIZE < rem" if "PREFIX_SIZE < rem"
    using that by (simp_all add: PREFIX_SIZE_def)
  then show ?case
    unfolding chain_loop.simps [of s depth j rem outers new] lasting_chain_loop.simps [of s depth j rem outers new] Let_def
    by (intro grants_if grants_rbind grants_then [OF grants_alloc_node] grants_Inr less) auto
qed

lemma grants_split_leaf: "grants a (split_leaf node s depth m a) (lasting_split_leaf node s depth m)"
proof -
  have last: "grants a
      (rbind (if b then rbind (make_leaf s a) (\<lambda>(other, a). rbind (k other) (\<lambda>k. rbind (add_child new k other) (\<lambda>new. Inr (new, a))))
             else Inr (new, a)) (\<lambda>(new, a). Inr (f new, a)))
      (rbind (if b then rbind (lasting_make_leaf s) (\<lambda>other. rbind (k other) (\<lambda>k. add_child new k other)) else Inr new) (\<lambda>new. Inr (f new)))"
    for a b k new and f :: "art_node \<Rightarrow> art_node"
  proof (rule grants_map, rule grants_if)
    have "grants b (rbind (k other) (\<lambda>k. rbind (add_child new k other) (\<lambda>new. Inr (new, b))))
        (rbind (k other) (\<lambda>k. rbind (add_child new k other) Inr))" for b other
      by (intro grants_rbind grants_Inr)
    then have "grants b (rbind (k other) (\<lambda>k. rbind (add_child new k other) (\<lambda>new. Inr (new, b))))
        (rbind (k other) (\<lambda>k. add_child new k other))" for b other
      by (simp only: rbind_Inr_right)
    then show "grants a (rbind (make_leaf s a) (\<lambda>(other, a). rbind (k other) (\<lambda>k. rbind (add_child new k other) (\<lambda>new. Inr (new, a)))))
        (rbind (lasting_make_leaf s) (\<lambda>other. rbind (k other) (\<lambda>k. add_child new k other)))"
      by (rule grants_then [OF grants_make_leaf])
  qed (rule grants_Inr)
  show ?thesis unfolding split_leaf_def lasting_split_leaf_def Let_def split_def
    apply (rule grants_then [OF grants_alloc_node, unfolded split_def])
    apply (rule grants_then [OF grants_chain_loop, unfolded split_def])
    apply (rule grants_rbind)+
    apply (rule last [unfolded split_def])
    done
qed

lemma grants_do_leaf: "grants a (do_leaf node s depth a) (lasting_do_leaf node s depth)"
  unfolding do_leaf_def lasting_do_leaf_def Let_def
  by (intro grants_rbind grants_if grants_split_leaf grants_Inr)

lemma grants_split_prefix: "grants a (split_prefix node s depth m a) (lasting_split_prefix node s depth m)"
  unfolding split_prefix_def lasting_split_prefix_def Let_def
  by (intro grants_rbind grants_then [OF grants_alloc_node] grants_then [OF grants_make_leaf] grants_Inr)

lemma grants_add_child: "grants a (rbind (add_child node k c) (\<lambda>n. Inr (n, a))) (add_child node k c)"
  using grants_rbind [of a "\<lambda>n. Inr (n, a)" Inr "add_child node k c"] by (auto simp only: rbind_Inr_right)

lemma grants_add_leaf: "grants a (add_leaf node s depth a) (lasting_add_leaf node s depth)"
proof -
  have full: "grants a (if b then grow node a else Inr (node, a)) (if b then lasting_grow node else Inr node)" for b
    by (intro grants_if grants_grow grants_Inr)
  show ?thesis unfolding add_leaf_def lasting_add_leaf_def
    by (intro grants_rbind grants_then [OF full] grants_then [OF grants_make_leaf] grants_add_child)
qed

lemma grants_insert_at: "grants a (art_insert_at n s depth a) (lasting_insert_at n s depth)"
proof (induction "size n" arbitrary: a n s depth rule: less_induct)
  case less
  obtain h cs where n: "n = ANode h cs" by (cases n)
  have IH: "grants b (art_insert_at c t d b) (lasting_insert_at c t d)"
    if "child_at cs slot = Inr (Some (i, c))" for slot i c b t d
    using less child_at_size [OF that] n by simp
  have child: "grants b
      (case x of Some (i, c) \<Rightarrow> rbind (art_insert_at c t d b) (\<lambda>((c, s), a). Inr ((ANode h (cs[i := Some c]), s), a))
         | None \<Rightarrow> rbind (add_leaf (ANode h cs) s e b) (\<lambda>(n, a). Inr ((n, s), a)))
      (case x of Some (i, c) \<Rightarrow> rbind (lasting_insert_at c t d) (\<lambda>(c, s). Inr (ANode h (cs[i := Some c]), s))
         | None \<Rightarrow> rbind (lasting_add_leaf (ANode h cs) s e) (\<lambda>n. Inr (n, s)))"
    if "child_at cs slot = Inr x" for slot x b t d e
  proof (cases x)
    case None
    then show ?thesis by (simp add: grants_map [OF grants_add_leaf])
  next
    case (Some ic)
    obtain i c where ic: "ic = (i, c)" by (cases ic)
    show ?thesis unfolding Some ic option.case prod.case
      by (rule grants_map2 [OF IH [OF that [unfolded Some ic]]])
  qed
  show ?case
    unfolding n art_insert_at.simps [of h cs s depth] lasting_insert_at.simps [of h cs s depth] Let_def
    by (intro grants_if grants_map [OF grants_do_leaf] grants_map [OF grants_split_prefix]
        grants_rbind_value child grants_Inr) assumption
qed

lemma grants_insert: "grants a (art_insert root s a) (lasting_insert root s)"
proof (cases root)
  case None
  then show ?thesis unfolding art_insert_def lasting_insert_def
    by (simp add: grants_map [OF grants_make_leaf])
next
  case (Some n)
  then show ?thesis unfolding art_insert_def lasting_insert_def
    by (simp add: grants_map2 [OF grants_insert_at])
qed

lemma grants_tree_insert: "grants a (art_tree_insert root stack a) (lasting_tree_insert root stack)"
proof (cases "stack_end stack")
  case (Some n)
  then show ?thesis unfolding art_tree_insert_def lasting_tree_insert_def
    by (simp add: split_def grants_map [OF grants_insert, unfolded split_def])
qed (simp add: art_tree_insert_def lasting_tree_insert_def)

text \<open>While memory lasts: the same result, and the allocator as it was.\<close>

lemmas insert_lasts = grants_insert [THEN grants_lasting]

lemmas tree_insert_lasts = grants_tree_insert [THEN grants_lasting]

lemmas do_leaf_lasts = grants_do_leaf [THEN grants_lasting]

lemmas grow_lasts = grants_grow [THEN grants_lasting]

text \<open>With no failure to come there is none, and the outcomes that are left are of the same kind.\<close>

lemma grants_sure: "grants a r p \<Longrightarrow> False \<notin> set (plan a) \<Longrightarrow> p \<noteq> Inl e \<Longrightarrow> r \<noteq> Inl e"
  by (cases p) (auto simp: grants_def)

lemma grants_plan: "grants a r p \<Longrightarrow> r = Inr (x, b) \<Longrightarrow> set (plan b) \<subseteq> set (plan a)"
  by (cases p) (auto simp: grants_def dest: in_set_dropD)

lemmas tree_insert_sure = grants_tree_insert [THEN grants_sure]

lemmas tree_insert_plan = grants_tree_insert [THEN grants_plan]

text \<open>A run that returns has the result of its counterpart.\<close>

lemma grants_returns: "grants a r p \<Longrightarrow> r = Inr (x, b) \<Longrightarrow> p = Inr x"
  by (cases p) (auto simp: grants_def)

lemmas tree_insert_returns = grants_tree_insert [THEN grants_returns]

text \<open>An allocator with enough memory, for the witnesses.\<close>

definition enough :: alloc_state where
  "enough = \<lparr>num_allocs = 0, num_frees = 0, leaf_frees = 0, plan = []\<rparr>"

lemma plan_enough [simp]: "plan enough = []"
  by (simp add: enough_def)

end
