(* ===== verification/Art_Layout.thy ===== *)
theory Art_Layout
  imports Art_Lasting
begin

text \<open>
  The four layouts of an inner node as one map from bytes to children. The interface
  \<open>child_layout\<close> states what a layout owes \<open>find_child\<close>, \<open>add_child\<close> and the in-place
  replacement of a child; it is interpreted for the lists of 4 and 16 keys, the index of 48
  children and the direct array of 256. \<open>grow\<close> moves a full node to the next layout
  with the same map.
\<close>

subsection \<open>The child map\<close>

definition slot_of :: "art_hdr \<Rightarrow> u8 \<Rightarrow> nat option" where
  "slot_of h k =
     (if flags h = NODE_FLAGS_INNER_4 \<or> flags h = NODE_FLAGS_INNER_16
      then List.find (\<lambda>i. key h ! i = k) [0..<key_len h]
      else if flags h = NODE_FLAGS_INNER_48
      then (if key h ! unat k = EMPTY then None else Some (unat (key h ! unat k)))
      else Some (unat k))"

definition kids :: "art_hdr \<Rightarrow> art_node option list \<Rightarrow> u8 \<Rightarrow> art_node option" where
  "kids h cs k = (case slot_of h k of None \<Rightarrow> None | Some i \<Rightarrow> cs ! i)"

text \<open>What adding a child leaves alone; the number of keys goes up by at most one.\<close>

definition same_path :: "art_hdr \<Rightarrow> art_hdr \<Rightarrow> bool" where
  "same_path h h' \<longleftrightarrow>
     flags h' = flags h \<and> count h' = count h \<and> prefix_len h' = prefix_len h \<and>
     prefix h' = prefix h \<and> key_len h' \<le> Suc (key_len h)"

lemma same_path_refl [simp]: "same_path h h"
  by (simp add: same_path_def)

lemma same_path_upd [simp]: "same_path h (h\<lparr>key := ks, key_len := Suc (key_len h)\<rparr>)"
  by (simp add: same_path_def)

locale child_layout =
  fixes ok :: "art_hdr \<Rightarrow> art_node option list \<Rightarrow> bool"
  assumes inner_node: "ok h cs \<Longrightarrow> \<not> is_leaf h"
    and find_slot: "ok h cs \<Longrightarrow> find_child h k = Inr (slot_of h k)"
    and slot_bound: "ok h cs \<Longrightarrow> slot_of h k = Some i \<Longrightarrow> i < length cs"
    and slot_inj: "ok h cs \<Longrightarrow> slot_of h j = Some i \<Longrightarrow> slot_of h k = Some i \<Longrightarrow> j = k"
    and put_ok: "ok h cs \<Longrightarrow> slot_of h k = Some i \<Longrightarrow> ok h (cs[i := Some c])"
    and add_new: "ok h cs \<Longrightarrow> is_full h = Inr False \<Longrightarrow> kids h cs k = None \<Longrightarrow>
      \<exists>h' cs'. add_child (ANode h cs) k c = Inr (ANode h' cs') \<and> ok h' cs' \<and> same_path h h' \<and>
        kids h' cs' = (kids h cs)(k := Some c)"
begin

lemma child_at_kids:
  "ok h cs \<Longrightarrow>
     child_at cs (slot_of h k) =
       Inr (case slot_of h k of None \<Rightarrow> None | Some i \<Rightarrow> map_option (Pair i) (kids h cs k))"
  by (auto simp: child_at_def kids_def rd_ok slot_bound split: option.split)

lemma kids_Some: "ok h cs \<Longrightarrow> kids h cs k = Some c \<Longrightarrow> Some c \<in> set cs"
  by (auto simp: kids_def dest!: slot_bound split: option.splits) (metis nth_mem)

lemma kids_put:
  assumes "ok h cs" "slot_of h k = Some i"
  shows "kids h (cs[i := Some c]) = (kids h cs)(k := Some c)"
proof
  fix j
  have i: "i < length cs" by (rule slot_bound [OF assms])
  show "kids h (cs[i := Some c]) j = ((kids h cs)(k := Some c)) j"
  proof (cases "j = k")
    case True
    then show ?thesis using i assms(2) by (simp add: kids_def)
  next
    case False
    then have "slot_of h j \<noteq> Some i" using slot_inj [OF assms(1) _ assms(2)] by auto
    then show ?thesis using False by (auto simp: kids_def split: option.split)
  qed
qed

end

text \<open>A node in either of two layouts is again in a layout: the laws go by cases.\<close>

lemma child_layout_either:
  assumes "child_layout ok1" "child_layout ok2"
  shows "child_layout (\<lambda>h cs. ok1 h cs \<or> ok2 h cs)"
proof
  fix h cs
  assume ok: "ok1 h cs \<or> ok2 h cs"
  show "\<not> is_leaf h"
    using ok assms [THEN child_layout.inner_node] by blast
  show "find_child h k = Inr (slot_of h k)" for k
    using ok assms [THEN child_layout.find_slot] by blast
  show "i < length cs" if "slot_of h k = Some i" for k i
    using ok that assms [THEN child_layout.slot_bound] by blast
  show "j = k" if "slot_of h j = Some i" "slot_of h k = Some i" for j k i
    using ok that assms [THEN child_layout.slot_inj] by blast
  show "ok1 h (cs[i := Some c]) \<or> ok2 h (cs[i := Some c])" if "slot_of h k = Some i" for k i c
    using ok that assms [THEN child_layout.put_ok] by blast
  show "\<exists>h' cs'. add_child (ANode h cs) k c = Inr (ANode h' cs') \<and> (ok1 h' cs' \<or> ok2 h' cs') \<and>
      same_path h h' \<and> kids h' cs' = (kids h cs)(k := Some c)"
    if n: "is_full h = Inr False" "kids h cs k = None" for k c
    using ok child_layout.add_new [OF assms(1) _ n, of c] child_layout.add_new [OF assms(2) _ n, of c]
    by meson
qed

definition on_flags ::
  "u32 \<Rightarrow> (art_hdr \<Rightarrow> art_node option list \<Rightarrow> bool) \<Rightarrow> art_hdr \<Rightarrow> art_node option list \<Rightarrow> bool"
where
  "on_flags f ok h cs \<longleftrightarrow> flags h = f \<and> ok h cs"

lemma on_flags_add:
  assumes "\<exists>h' cs'. add_child (ANode h cs) k c = Inr (ANode h' cs') \<and> ok h' cs' \<and> same_path h h' \<and>
      kids h' cs' = (kids h cs)(k := Some c)" and "flags h = f"
  shows "\<exists>h' cs'. add_child (ANode h cs) k c = Inr (ANode h' cs') \<and> on_flags f ok h' cs' \<and>
    same_path h h' \<and> kids h' cs' = (kids h cs)(k := Some c)"
  using assms by (fastforce simp: on_flags_def same_path_def)

subsection \<open>Lists of keys\<close>

lemma nth_list_update_Some: "xs ! j \<noteq> None \<Longrightarrow> xs[i := Some x] ! j \<noteq> None"
  by (cases "i = j"; cases "i < length xs") (auto simp: not_less list_update_beyond)

definition list_ok :: "nat \<Rightarrow> art_hdr \<Rightarrow> art_node option list \<Rightarrow> bool" where
  "list_ok n h cs \<longleftrightarrow>
     length (key h) = n \<and> length cs = n \<and> key_len h \<le> n \<and> distinct (take (key_len h) (key h)) \<and>
     (\<forall>i<key_len h. cs ! i \<noteq> None)"

lemma scan_keys_find:
  "\<forall>i \<in> set is. i < length ks \<Longrightarrow> scan_keys ks is k = Inr (List.find (\<lambda>i. ks ! i = k) is)"
  by (induction "is") (auto simp: rd_ok)

lemma find_upt_Some:
  "List.find P [0..<n] = Some i \<Longrightarrow> i < n \<and> P i"
  by (auto simp: find_Some_iff)

lemma find_upt_None: "List.find P [0..<n] = None \<longleftrightarrow> (\<forall>i<n. \<not> P i)"
  by (auto simp: find_None_iff)

lemma distinct_take_nth:
  "distinct (take n xs) \<Longrightarrow> n \<le> length xs \<Longrightarrow> i < n \<Longrightarrow> j < n \<Longrightarrow> xs ! i = xs ! j \<Longrightarrow> i = j"
  using nth_eq_iff_index_eq [of "take n xs" i j] by simp

lemma find_append:
  "List.find P (xs @ ys) = (case List.find P xs of None \<Rightarrow> List.find P ys | Some i \<Rightarrow> Some i)"
  by (induction xs) auto

lemma find_upt_Suc:
  "List.find P [0..<Suc n] =
     (case List.find P [0..<n] of Some i \<Rightarrow> Some i | None \<Rightarrow> if P n then Some n else None)"
  by (simp add: find_append split: option.split)

lemma find_upt_cong:
  "(\<And>i. i < n \<Longrightarrow> P i = Q i) \<Longrightarrow> List.find P [0..<n] = List.find Q [0..<n]"
  by (rule find_cong) auto

lemma slot_of_list:
  "flags h = NODE_FLAGS_INNER_4 \<or> flags h = NODE_FLAGS_INNER_16 \<Longrightarrow>
     slot_of h k = List.find (\<lambda>i. key h ! i = k) [0..<key_len h]"
  by (auto simp: slot_of_def)

lemma list_slot_Some:
  "flags h = NODE_FLAGS_INNER_4 \<or> flags h = NODE_FLAGS_INNER_16 \<Longrightarrow> slot_of h k = Some i \<Longrightarrow>
     i < key_len h \<and> key h ! i = k"
  using find_upt_Some [of "\<lambda>i. key h ! i = k" "key_len h" i] by (simp add: slot_of_list)

lemma list_add:
  assumes f: "flags h = NODE_FLAGS_INNER_4 \<and> n = 4 \<or> flags h = NODE_FLAGS_INNER_16 \<and> n = 16"
    and ok: "list_ok n h cs" and room: "is_full h = Inr False" and new: "kids h cs k = None"
  shows "\<exists>h' cs'. add_child (ANode h cs) k c = Inr (ANode h' cs') \<and> list_ok n h' cs' \<and>
    same_path h h' \<and> kids h' cs' = (kids h cs)(k := Some c)"
proof -
  let ?l = "key_len h"
  let ?h = "h\<lparr>key := (key h)[?l := k], key_len := ?l + 1\<rparr>" and ?cs = "cs[?l := Some c]"
  have f': "flags h = NODE_FLAGS_INNER_4 \<or> flags h = NODE_FLAGS_INNER_16" using f by blast
  have "?l \<noteq> n" using f room by (auto simp: is_full_def is_leaf_def node_size_def)
  then have len: "length (key h) = n" "length cs = n" "?l < n"
    using ok by (auto simp: list_ok_def)
  have slot: "slot_of h k = None"
  proof (cases "slot_of h k")
    case (Some i)
    then have "cs ! i \<noteq> None" using list_slot_Some [OF f' Some] ok by (simp add: list_ok_def)
    then show ?thesis using new Some by (simp add: kids_def)
  qed
  then have none: "\<forall>i<?l. key h ! i \<noteq> k" by (simp add: slot_of_list [OF f'] find_upt_None)
  then have absent: "key_absent h cs k = Inr True"
    using f' len by (simp add: key_absent_def scan_keys_find find_upt_None)
  have add: "add_child (ANode h cs) k c = Inr (ANode ?h ?cs)"
    using f' len by (simp add: add_child_def room absent wr_ok)
  have "k \<notin> set (take ?l (key h))"
    using none len by (auto simp: in_set_conv_nth)
  moreover have "\<forall>i<Suc ?l. ?cs ! i \<noteq> None"
    using ok len by (auto simp: list_ok_def less_Suc_eq)
  ultimately have okl: "list_ok n ?h ?cs"
    using ok len by (simp add: list_ok_def distinct_list_update_snoc)
  have "kids ?h ?cs j = ((kids h cs)(k := Some c)) j" for j
  proof -
    have "List.find (\<lambda>i. (key h)[?l := k] ! i = j) [0..<?l] = List.find (\<lambda>i. key h ! i = j) [0..<?l]"
      by (rule find_upt_cong) simp
    then have s: "slot_of ?h j =
        (case slot_of h j of Some i \<Rightarrow> Some i | None \<Rightarrow> if k = j then Some ?l else None)"
      using f' len by (simp add: slot_of_list find_upt_Suc del: upt_Suc)
    show ?thesis
    proof (cases "slot_of h j")
      case None
      then show ?thesis using s len by (auto simp: kids_def)
    next
      case (Some i)
      with slot have "j \<noteq> k" by auto
      moreover have "i \<noteq> ?l" using list_slot_Some [OF f' Some] by simp
      ultimately show ?thesis using s Some by (simp add: kids_def)
    qed
  qed
  then show ?thesis using add okl by (intro exI conjI) (auto simp: fun_eq_iff)
qed

lemma list_slot:
  assumes f: "flags h = NODE_FLAGS_INNER_4 \<or> flags h = NODE_FLAGS_INNER_16"
    and ok: "list_ok n h cs"
  shows "find_child h k = Inr (slot_of h k)"
    and "slot_of h k = Some i \<Longrightarrow> i < length cs"
    and "slot_of h j = Some i \<Longrightarrow> slot_of h k = Some i \<Longrightarrow> j = k"
    and "slot_of h k = Some i \<Longrightarrow> list_ok n h (cs[i := Some c])"
proof -
  show "find_child h k = Inr (slot_of h k)"
    using f ok by (auto simp: find_child_def find_child_16_def slot_of_list list_ok_def scan_keys_find)
  show "slot_of h k = Some i \<Longrightarrow> i < length cs"
    using list_slot_Some [OF f, of k i] ok by (simp add: list_ok_def)
  show "slot_of h j = Some i \<Longrightarrow> slot_of h k = Some i \<Longrightarrow> j = k"
    using list_slot_Some [OF f] by blast
  show "slot_of h k = Some i \<Longrightarrow> list_ok n h (cs[i := Some c])"
    using ok by (auto simp: list_ok_def nth_list_update_Some)
qed

lemma list_layout:
  assumes f: "f = NODE_FLAGS_INNER_4 \<and> n = 4 \<or> f = NODE_FLAGS_INNER_16 \<and> n = 16"
  shows "child_layout (on_flags f (list_ok n))"
proof
  fix h cs
  assume ok: "on_flags f (list_ok n) h cs"
  then have f': "flags h = NODE_FLAGS_INNER_4 \<or> flags h = NODE_FLAGS_INNER_16"
    and o: "list_ok n h cs" and h: "flags h = f"
    using f by (auto simp: on_flags_def)
  show "\<not> is_leaf h" using f' by (auto simp: is_leaf_def)
  show "find_child h k = Inr (slot_of h k)" for k by (rule list_slot(1) [OF f' o])
  show "i < length cs" if "slot_of h k = Some i" for k i by (rule list_slot(2) [OF f' o that])
  show "j = k" if "slot_of h j = Some i" "slot_of h k = Some i" for j k i
    by (rule list_slot(3) [OF f' o that])
  show "on_flags f (list_ok n) h (cs[i := Some c])" if "slot_of h k = Some i" for k i c
    using list_slot(4) [OF f' o that] h by (simp add: on_flags_def)
  show "\<exists>h' cs'. add_child (ANode h cs) k c = Inr (ANode h' cs') \<and> on_flags f (list_ok n) h' cs' \<and>
      same_path h h' \<and> kids h' cs' = (kids h cs)(k := Some c)"
    if "is_full h = Inr False" "kids h cs k = None" for k c
    by (rule on_flags_add [OF list_add [OF _ o that] h]) (use f h in simp)
qed

interpretation inner4: child_layout "on_flags NODE_FLAGS_INNER_4 (list_ok 4)"
  by (rule list_layout) simp

interpretation inner16: child_layout "on_flags NODE_FLAGS_INNER_16 (list_ok 16)"
  by (rule list_layout) simp

subsection \<open>The index of 48\<close>

definition index_ok :: "art_hdr \<Rightarrow> art_node option list \<Rightarrow> bool" where
  "index_ok h cs \<longleftrightarrow>
     length (key h) = 256 \<and> length cs = 48 \<and> key_len h \<le> 48 \<and>
     (\<forall>j<256. key h ! j \<noteq> EMPTY \<longrightarrow> unat (key h ! j) < key_len h) \<and>
     (\<forall>j<256. \<forall>k<256. key h ! j \<noteq> EMPTY \<longrightarrow> key h ! j = key h ! k \<longrightarrow> j = k) \<and>
     (\<forall>i<key_len h. cs ! i \<noteq> None)"

lemma index_add:
  assumes f: "flags h = NODE_FLAGS_INNER_48" and ok: "index_ok h cs"
    and room: "is_full h = Inr False" and new: "kids h cs k = None"
  shows "\<exists>h' cs'. add_child (ANode h cs) k c = Inr (ANode h' cs') \<and> index_ok h' cs' \<and>
    same_path h h' \<and> kids h' cs' = (kids h cs)(k := Some c)"
proof -
  let ?l = "key_len h"
  let ?h = "h\<lparr>key := (key h)[unat k := of_nat ?l], key_len := ?l + 1\<rparr>" and ?cs = "cs[?l := Some c]"
  have len: "length (key h) = 256" "length cs = 48" "?l < 48"
    using f ok room by (auto simp: index_ok_def is_full_def is_leaf_def node_size_def)
  have ul: "unat (of_nat ?l :: u8) = ?l"
    using len by (simp add: unat_of_nat take_bit_nat_eq_self)
  then have nl: "(of_nat ?l :: u8) \<noteq> EMPTY" using len by (auto simp: word_unat_eq_iff)
  have bound: "unat (key h ! j) < ?l" if "j < 256" "key h ! j \<noteq> EMPTY" for j
    using ok that by (simp add: index_ok_def)
  have ek: "key h ! unat k = EMPTY"
  proof (rule ccontr)
    assume e: "key h ! unat k \<noteq> EMPTY"
    then have "cs ! unat (key h ! unat k) \<noteq> None"
      using ok bound [of "unat k"] by (simp add: index_ok_def)
    then show False using new f e by (simp add: kids_def slot_of_def)
  qed
  have add: "add_child (ANode h cs) k c = Inr (ANode ?h ?cs)"
    using f len room ek by (simp add: add_child_def key_absent_def rd_ok wr_ok)
  have ne: "key h ! j \<noteq> of_nat ?l" if "j < 256" for j
    using bound [OF that] ul nl by (cases "key h ! j = EMPTY") auto
  have "index_ok ?h ?cs"
    using ok len ul nl bound ne
    by (auto simp: index_ok_def nth_list_update less_Suc_eq dest: sym)
  moreover have "kids ?h ?cs = (kids h cs)(k := Some c)"
    using f len ul nl bound ek
    by (auto simp: fun_eq_iff kids_def slot_of_def nth_list_update dest: unat_u8_inj
        bound [OF unat_u8_less])
  ultimately show ?thesis using add by (intro exI conjI) simp_all
qed

lemma index_slot_Some:
  "flags h = NODE_FLAGS_INNER_48 \<Longrightarrow> slot_of h k = Some i \<longleftrightarrow>
     key h ! unat k \<noteq> EMPTY \<and> i = unat (key h ! unat k)"
  by (auto simp: slot_of_def)

lemma index_inj:
  assumes "index_ok h cs" "key h ! unat (j :: u8) \<noteq> EMPTY" "key h ! unat j = key h ! unat (k :: u8)"
  shows "j = k"
  using assms by (intro unat_u8_inj) (simp add: index_ok_def)

lemma index_bound: "index_ok h cs \<Longrightarrow> key h ! unat (k :: u8) \<noteq> EMPTY \<Longrightarrow> unat (key h ! unat k) < 48"
  unfolding index_ok_def using unat_u8_less [of k] by (meson less_le_trans)

interpretation inner48: child_layout "on_flags NODE_FLAGS_INNER_48 index_ok"
proof
  fix h cs
  assume "on_flags NODE_FLAGS_INNER_48 index_ok h cs"
  then have f: "flags h = NODE_FLAGS_INNER_48" and ok: "index_ok h cs" by (auto simp: on_flags_def)
  show "\<not> is_leaf h" using f by (simp add: is_leaf_def)
  show "find_child h k = Inr (slot_of h k)" for k
    using f ok by (simp add: find_child_def slot_of_def index_ok_def rd_ok)
  show "i < length cs" if "slot_of h k = Some i" for k i
    using f ok that index_bound [of h cs k] by (simp add: index_slot_Some) (simp add: index_ok_def)
  show "j = k" if "slot_of h j = Some i" "slot_of h k = Some i" for j k i
  proof (rule index_inj [OF ok])
    show "key h ! unat j \<noteq> EMPTY" using f that by (simp add: index_slot_Some)
    have "unat (key h ! unat j) = unat (key h ! unat k)" using f that by (simp add: index_slot_Some)
    then show "key h ! unat j = key h ! unat k" by (rule unat_u8_inj)
  qed
  show "on_flags NODE_FLAGS_INNER_48 index_ok h (cs[i := Some c])" for i c
    using f ok by (simp add: on_flags_def index_ok_def nth_list_update_Some del: not_None_eq)
  show "\<exists>h' cs'. add_child (ANode h cs) k c = Inr (ANode h' cs') \<and>
      on_flags NODE_FLAGS_INNER_48 index_ok h' cs' \<and> same_path h h' \<and>
      kids h' cs' = (kids h cs)(k := Some c)"
    if "is_full h = Inr False" "kids h cs k = None" for k c
    by (rule on_flags_add [OF index_add [OF f ok that] f])
qed

subsection \<open>The direct array\<close>

definition direct_ok :: "art_hdr \<Rightarrow> art_node option list \<Rightarrow> bool" where
  "direct_ok h cs \<longleftrightarrow> length cs = 256 \<and> key_len h \<noteq> 256"

lemma direct_slot: "flags h = NODE_FLAGS_INNER_256 \<Longrightarrow> slot_of h k = Some (unat k)"
  by (simp add: slot_of_def)

lemma direct_add:
  assumes f: "flags h = NODE_FLAGS_INNER_256" and ok: "direct_ok h cs"
    and room: "is_full h = Inr False" and new: "kids h cs k = None"
  shows "\<exists>h' cs'. add_child (ANode h cs) k c = Inr (ANode h' cs') \<and> direct_ok h' cs' \<and>
    same_path h h' \<and> kids h' cs' = (kids h cs)(k := Some c)"
proof -
  have "add_child (ANode h cs) k c = Inr (ANode h (cs[unat k := Some c]))"
    using f ok room new
    by (simp add: add_child_def key_absent_def kids_def direct_slot direct_ok_def rd_ok wr_ok)
  moreover have "kids h (cs[unat k := Some c]) = (kids h cs)(k := Some c)"
    using f ok
    by (auto simp: fun_eq_iff kids_def direct_slot direct_ok_def nth_list_update dest: unat_u8_inj)
  moreover have "direct_ok h (cs[unat k := Some c])" using ok by (simp add: direct_ok_def)
  ultimately show ?thesis by (intro exI conjI) simp_all
qed

interpretation inner256: child_layout "on_flags NODE_FLAGS_INNER_256 direct_ok"
proof
  fix h cs
  assume "on_flags NODE_FLAGS_INNER_256 direct_ok h cs"
  then have f: "flags h = NODE_FLAGS_INNER_256" and ok: "direct_ok h cs" by (auto simp: on_flags_def)
  show "\<not> is_leaf h" using f by (simp add: is_leaf_def)
  show "find_child h k = Inr (slot_of h k)" for k using f by (simp add: find_child_def direct_slot)
  show "i < length cs" if "slot_of h k = Some i" for k i
    using f ok that unat_u8_less [of k] by (simp add: direct_slot direct_ok_def)
  show "j = k" if "slot_of h j = Some i" "slot_of h k = Some i" for j k i
    using f that by (simp add: direct_slot unat_u8_inj)
  show "on_flags NODE_FLAGS_INNER_256 direct_ok h (cs[i := Some c])" for i c
    using f ok by (simp add: on_flags_def direct_ok_def)
  show "\<exists>h' cs'. add_child (ANode h cs) k c = Inr (ANode h' cs') \<and>
      on_flags NODE_FLAGS_INNER_256 direct_ok h' cs' \<and> same_path h h' \<and>
      kids h' cs' = (kids h cs)(k := Some c)"
    if "is_full h = Inr False" "kids h cs k = None" for k c
    by (rule on_flags_add [OF direct_add [OF f ok that] f])
qed

subsection \<open>Any layout\<close>

definition layout_ok :: "art_hdr \<Rightarrow> art_node option list \<Rightarrow> bool" where
  "layout_ok h cs \<longleftrightarrow>
     (on_flags NODE_FLAGS_INNER_4 (list_ok 4) h cs \<or> on_flags NODE_FLAGS_INNER_16 (list_ok 16) h cs) \<or>
     (on_flags NODE_FLAGS_INNER_48 index_ok h cs \<or> on_flags NODE_FLAGS_INNER_256 direct_ok h cs)"

interpretation inner: child_layout layout_ok
  unfolding layout_ok_def [abs_def]
  by (intro child_layout_either inner4.child_layout_axioms inner16.child_layout_axioms
      inner48.child_layout_axioms inner256.child_layout_axioms)

end
