(* ===== verification/Art_Grow.thy ===== *)
theory Art_Grow
  imports Art_Layout
begin

text \<open>
  \<open>grow\<close> moves a full node to the next larger layout: the map from bytes to children stays
  the same, the new node has room, and it starts without a prefix and without a count.
\<close>

subsection \<open>The copy loops\<close>

lemma grow_index_fold:
  "\<forall>i \<in> set is. i < length (key (hdr old)) \<and> i < length (arr old) \<and> i < length cs \<Longrightarrow>
   length (key h) = 256 \<Longrightarrow>
     grow_index old is (ANode h cs) =
       Inr (ANode (h\<lparr>key := fold (\<lambda>i ks. ks[unat (key (hdr old) ! i) := of_nat i]) is (key h)\<rparr>)
              (fold (\<lambda>i cs. cs[i := arr old ! i]) is cs))"
  by (induction "is" arbitrary: h cs) (simp_all add: rd_ok wr_ok)

lemma grow_direct_fold:
  "\<forall>i \<in> set is. i < length (key h0) \<and> i < length cs \<and>
     (key h0 ! i \<noteq> EMPTY \<longrightarrow> unat (key h0 ! i) < length cs0) \<Longrightarrow>
     grow_direct (ANode h0 cs0) is (ANode h cs) =
       Inr (ANode h
              (fold (\<lambda>i cs. if key h0 ! i = EMPTY then cs else cs[i := cs0 ! unat (key h0 ! i)]) is cs))"
  by (induction "is" arbitrary: h cs) (simp_all add: rd_ok wr_ok)

lemma length_fold_update [simp]:
  "length (fold (\<lambda>i ks. ks[f i := g i]) is xs) = length xs"
  by (induction "is" arbitrary: xs) simp_all

lemma nth_fold_index:
  fixes ks :: "u8 list"
  assumes "distinct (take n ks)" "n \<le> length ks" "n \<le> 48" "length xs = 256"
  shows "fold (\<lambda>i xs. xs[unat (ks ! i) := of_nat i]) [0..<n] xs ! unat (k :: u8) =
    (case List.find (\<lambda>i. ks ! i = k) [0..<n] of None \<Rightarrow> xs ! unat k | Some i \<Rightarrow> of_nat i)"
  using assms
proof (induction n)
  case (Suc n)
  have d: "distinct (take n ks)" and nin: "ks ! n \<notin> set (take n ks)"
    using Suc.prems by (auto simp: take_Suc_conv_app_nth)
  note IH = Suc.IH [OF d]
  show ?case
  proof (cases "ks ! n = k")
    case True
    have "ks ! i \<noteq> k" if "i < n" for i
      using nin True that Suc.prems(2) by (auto simp: in_set_conv_nth)
    then have "List.find (\<lambda>i. ks ! i = k) [0..<n] = None" by (simp add: find_upt_None)
    then show ?thesis using True Suc.prems by (simp add: find_append)
  next
    case False
    then have "unat (ks ! n) \<noteq> unat k" by (auto dest: unat_u8_inj)
    then show ?thesis
      using False IH Suc.prems by (simp add: find_append split: option.split)
  qed
qed simp

lemma nth_fold_copy:
  "n \<le> length xs \<Longrightarrow> j < length xs \<Longrightarrow>
     fold (\<lambda>i xs. xs[i := f i]) [0..<n] xs ! j = (if j < n then f j else xs ! j)"
  by (induction n) (auto simp: nth_list_update less_Suc_eq)

lemma length_fold_copy_if [simp]:
  "length (fold (\<lambda>i xs. if P i then xs else xs[i := f i]) is xs) = length xs"
  by (induction "is" arbitrary: xs) simp_all

lemma nth_fold_copy_if:
  "n \<le> length xs \<Longrightarrow> j < length xs \<Longrightarrow>
     fold (\<lambda>i xs. if P i then xs else xs[i := f i]) [0..<n] xs ! j =
       (if j < n \<and> \<not> P j then f j else xs ! j)"
  by (induction n) (auto simp: nth_list_update less_Suc_eq)

subsection \<open>Growing\<close>

definition grown :: "art_hdr \<Rightarrow> art_node option list \<Rightarrow> art_node \<Rightarrow> bool" where
  "grown h cs node \<longleftrightarrow>
     layout_ok (hdr node) (arr node) \<and> is_full (hdr node) = Inr False \<and>
     kids (hdr node) (arr node) = kids h cs \<and>
     count (hdr node) = 0 \<and> prefix_len (hdr node) = 0 \<and> prefix (hdr node) = replicate PREFIX_SIZE 0"

lemma grow_4:
  assumes f: "flags h = NODE_FLAGS_INNER_4" and ok: "list_ok 4 h cs" and full: "is_full h = Inr True"
  shows "\<exists>node. lasting_grow (ANode h cs) = Inr node \<and> grown h cs node"
proof -
  let ?h = "(blank_hdr NODE_FLAGS_INNER_16 (key h @ replicate 12 0))\<lparr>key_len := 4\<rparr>"
  let ?cs = "cs @ replicate 12 None"
  have len: "key_len h = 4" "length (key h) = 4" "length cs = 4"
    using f ok full by (auto simp: list_ok_def is_full_def is_leaf_def node_size_def)
  have g: "lasting_grow (ANode h cs) = Inr (ANode ?h ?cs)"
    using f len full
    by (simp add: lasting_grow_def grow_type_def lasting_alloc_node_def node_size_def free_node_def blank_hdr_def)
  have ok': "list_ok 16 ?h ?cs"
    using ok len by (auto simp: list_ok_def blank_hdr_def nth_append)
  have "kids ?h ?cs k = kids h cs k" for k
  proof -
    have "List.find (\<lambda>i. (key h @ replicate 12 0) ! i = k) [0..<4] = List.find (\<lambda>i. key h ! i = k) [0..<4]"
      by (rule find_upt_cong) (simp add: nth_append len)
    then have s: "slot_of ?h k = slot_of h k"
      using f len by (simp add: slot_of_list blank_hdr_def)
    have "i < 4" if "slot_of h k = Some i" for i using list_slot_Some [OF _ that] f len by simp
    then show ?thesis using s len by (auto simp: kids_def nth_append split: option.split)
  qed
  then have "kids ?h ?cs = kids h cs" by (rule ext)
  moreover have "layout_ok ?h ?cs" using ok' by (simp add: layout_ok_def on_flags_def blank_hdr_def)
  ultimately show ?thesis using g
    by (intro exI [of _ "ANode ?h ?cs"]) (simp add: grown_def blank_hdr_def is_full_def is_leaf_def node_size_def)
qed

lemma grow_16:
  assumes f: "flags h = NODE_FLAGS_INNER_16" and ok: "list_ok 16 h cs" and full: "is_full h = Inr True"
  shows "\<exists>node. lasting_grow (ANode h cs) = Inr node \<and> grown h cs node"
proof -
  let ?ks = "fold (\<lambda>i ks. ks[unat (key h ! i) := of_nat i]) [0..<16] (replicate 256 EMPTY)"
  let ?cs = "fold (\<lambda>i xs. xs[i := cs ! i]) [0..<16] (replicate 48 None)"
  let ?h = "(blank_hdr NODE_FLAGS_INNER_48 ?ks)\<lparr>key_len := 16\<rparr>"
  have len: "key_len h = 16" "length (key h) = 16" "length cs = 16"
    using f ok full by (auto simp: list_ok_def is_full_def is_leaf_def node_size_def)
  have d: "distinct (take 16 (key h))" using ok len by (simp add: list_ok_def)
  have "grow_index (ANode h cs) [0..<16]
      (ANode (blank_hdr NODE_FLAGS_INNER_48 (replicate 256 EMPTY)) (replicate 48 None)) =
    Inr (ANode (blank_hdr NODE_FLAGS_INNER_48 ?ks) ?cs)"
    using len by (subst grow_index_fold) (simp_all add: blank_hdr_def)
  then have g: "lasting_grow (ANode h cs) = Inr (ANode ?h ?cs)"
    using f full
    by (simp add: lasting_grow_def grow_type_def lasting_alloc_node_def node_size_def free_node_def del: upt_rec_numeral)
  have ks: "?ks ! unat k = (case slot_of h k of None \<Rightarrow> EMPTY | Some i \<Rightarrow> of_nat i)" for k :: u8
    using nth_fold_index [OF d, of "replicate 256 EMPTY" k] f len
    by (simp add: slot_of_list split: option.split)
  have cs: "?cs ! i = cs ! i" if "i < 16" for i
    using that nth_fold_copy [of 16 "replicate 48 None" i "(!) cs"] by simp
  have b: "i < 16" if "slot_of h k = Some i" for k i using list_slot_Some [OF _ that] f len by simp
  have u: "unat (of_nat i :: u8) = i" "of_nat i \<noteq> EMPTY" if "i < 16" for i
  proof -
    show "unat (of_nat i :: u8) = i" using that by (simp add: unat_of_nat take_bit_nat_eq_self)
    then show "of_nat i \<noteq> EMPTY" using that by (auto simp: word_unat_eq_iff)
  qed
  have slot: "slot_of ?h k = slot_of h k" for k
  proof -
    have s: "slot_of ?h k = (if ?ks ! unat k = EMPTY then None else Some (unat (?ks ! unat k)))"
      by (simp add: slot_of_def blank_hdr_def del: upt_rec_numeral)
    show ?thesis unfolding s ks using u b [of k] by (auto split: option.split)
  qed
  have "kids ?h ?cs k = kids h cs k" for k
    using slot cs b [of k] by (auto simp: kids_def split: option.split)
  then have kids: "kids ?h ?cs = kids h cs" by (rule ext)
  have some: "\<exists>i<16. slot_of h (of_nat j) = Some i \<and> ?ks ! j = of_nat i"
    if "j < 256" "?ks ! j \<noteq> EMPTY" for j
  proof -
    have j: "unat (of_nat j :: u8) = j" using that by (simp add: unat_of_nat take_bit_nat_eq_self)
    show ?thesis using that(2) ks [of "of_nat j"] b [of "of_nat j"] unfolding j
      by (auto split: option.splits)
  qed
  have "index_ok ?h ?cs"
    unfolding index_ok_def
  proof (intro conjI allI impI)
    fix j assume "j < 256" "key ?h ! j \<noteq> EMPTY"
    then show "unat (key ?h ! j) < key_len ?h" using some [of j] u by (auto simp: blank_hdr_def)
  next
    fix j k assume a: "j < 256" "k < 256" "key ?h ! j \<noteq> EMPTY" "key ?h ! j = key ?h ! k"
    then obtain i l where il: "i < 16" "l < 16" "slot_of h (of_nat j) = Some i"
        "slot_of h (of_nat k) = Some l" "?ks ! j = of_nat i" "?ks ! k = of_nat l"
      using some [of j] some [of k] by (auto simp: blank_hdr_def)
    then have "(of_nat i :: u8) = of_nat l" using a by (simp add: blank_hdr_def)
    then have "i = l" using u(1) il by metis
    then have "(of_nat j :: u8) = of_nat k"
      using list_slot_Some [of h "of_nat j" i] list_slot_Some [of h "of_nat k" i] il f by simp
    then have "unat (of_nat j :: u8) = unat (of_nat k :: u8)" by (rule arg_cong)
    then show "j = k" using a(1,2) by (simp add: unat_of_nat take_bit_nat_eq_self)
  next
    fix i assume "i < key_len ?h"
    then show "?cs ! i \<noteq> None" using ok cs len by (simp add: blank_hdr_def list_ok_def del: upt_rec_numeral)
  qed (simp_all add: blank_hdr_def del: upt_rec_numeral)
  then have "layout_ok ?h ?cs" by (simp add: layout_ok_def on_flags_def blank_hdr_def del: upt_rec_numeral)
  with g kids show ?thesis
    by (intro exI [of _ "ANode ?h ?cs"])
      (simp add: grown_def blank_hdr_def is_full_def is_leaf_def node_size_def del: upt_rec_numeral)
qed

lemma grow_48:
  assumes f: "flags h = NODE_FLAGS_INNER_48" and ok: "index_ok h cs" and full: "is_full h = Inr True"
  shows "\<exists>node. lasting_grow (ANode h cs) = Inr node \<and> grown h cs node"
proof -
  let ?cs = "fold (\<lambda>i xs. if key h ! i = EMPTY then xs else xs[i := cs ! unat (key h ! i)])
    [0..<256] (replicate 256 None)"
  let ?h = "(blank_hdr NODE_FLAGS_INNER_256 [])\<lparr>key_len := 48\<rparr>"
  have len: "key_len h = 48" "length (key h) = 256" "length cs = 48"
    using f ok full by (auto simp: index_ok_def is_full_def is_leaf_def node_size_def)
  have "grow_direct (ANode h cs) [0..<256]
      (ANode (blank_hdr NODE_FLAGS_INNER_256 []) (replicate 256 None)) =
    Inr (ANode (blank_hdr NODE_FLAGS_INNER_256 []) ?cs)"
    using grow_direct_fold [of "[0..<256]" h "replicate 256 None" cs] ok len
    by (simp add: index_ok_def del: upt_rec_numeral)
  then have g: "lasting_grow (ANode h cs) = Inr (ANode ?h ?cs)"
    using f full
    by (simp add: lasting_grow_def grow_type_def lasting_alloc_node_def node_size_def free_node_def del: upt_rec_numeral)
  have cs: "?cs ! unat k = (if key h ! unat k = EMPTY then None else cs ! unat (key h ! unat k))"
    for k :: u8
    using nth_fold_copy_if [of 256 "replicate 256 None" "unat k" "\<lambda>i. key h ! i = EMPTY"
        "\<lambda>i. cs ! unat (key h ! i)"] by (simp del: upt_rec_numeral)
  have "kids ?h ?cs k = kids h cs k" for k
    using f cs [of k] by (simp add: kids_def slot_of_def blank_hdr_def del: upt_rec_numeral)
  then have "kids ?h ?cs = kids h cs" by (rule ext)
  moreover have "layout_ok ?h ?cs"
    by (simp add: layout_ok_def on_flags_def direct_ok_def blank_hdr_def del: upt_rec_numeral)
  ultimately show ?thesis using g
    by (intro exI [of _ "ANode ?h ?cs"])
      (simp add: grown_def blank_hdr_def is_full_def is_leaf_def node_size_def del: upt_rec_numeral)
qed

theorem grow_kids:
  assumes ok: "layout_ok h cs" and full: "is_full h = Inr True"
  shows "\<exists>node. lasting_grow (ANode h cs) = Inr node \<and> grown h cs node"
proof -
  have "\<not> on_flags NODE_FLAGS_INNER_256 direct_ok h cs"
    using full by (auto simp: on_flags_def direct_ok_def is_full_def is_leaf_def node_size_def)
  then show ?thesis
    using ok grow_4 [OF _ _ full] grow_16 [OF _ _ full] grow_48 [OF _ _ full]
    by (auto simp: layout_ok_def on_flags_def)
qed

end
