(* ===== verification/Art_Correct.thy ===== *)
theory Art_Correct
  imports Art_Grow
begin

text \<open>
  What a tree means: \<open>sem\<close> gives the count stored for a key, \<open>art_wf\<close> says that every
  node holds only keys of its own path. Searching computes \<open>sem\<close> on every well-formed
  tree. Inserting counts its key and keeps the counts of all other keys in the situations
  \<open>safe_at\<close> describes; outside of them the code loses keys or counts.
\<close>

subsection \<open>The count of a key\<close>

definition skey :: "art_stream \<Rightarrow> u8 list" where
  "skey s = take (st_end s) (st_data s)"

definition stream_ok :: "art_stream \<Rightarrow> bool" where
  "stream_ok s \<longleftrightarrow> st_end s \<le> length (st_data s) \<and> st_end s < 2 ^ 31"

function sem :: "art_node \<Rightarrow> nat \<Rightarrow> u8 list \<Rightarrow> u64 option" where
  "sem (ANode h cs) d k =
     (if is_leaf h then (if k = take (key_len h) (key h) then Some (count h) else None)
      else let n = prefix_len h in
        if length k < d + n \<or> take n (drop d k) \<noteq> take n (prefix h) then None
        else if length k = d + n then Some (count h)
        else case child_at cs (slot_of h (k ! (d + n))) of
               Inr (Some (i, c)) \<Rightarrow> sem c (d + n + 1) k
             | _ \<Rightarrow> None)"
  by pat_completeness auto
termination
  by (relation "measure (\<lambda>(n, d, k). size n)") (auto dest: child_at_size)

declare sem.simps [simp del]

inductive art_wf :: "u8 list \<Rightarrow> art_node \<Rightarrow> bool" where
  wf_leaf: "is_leaf h \<Longrightarrow> key_len h \<le> length (key h) \<Longrightarrow> key_len h < 2 ^ 31 \<Longrightarrow>
     take (length p) (take (key_len h) (key h)) = p \<Longrightarrow> art_wf p (ANode h cs)"
| wf_inner: "layout_ok h cs \<Longrightarrow> prefix_len h \<le> PREFIX_SIZE \<Longrightarrow> length (prefix h) = PREFIX_SIZE \<Longrightarrow>
     (\<And>k c. kids h cs k = Some c \<Longrightarrow> art_wf (p @ take (prefix_len h) (prefix h) @ [k]) c) \<Longrightarrow>
     art_wf p (ANode h cs)"

inductive_cases art_wf_elim: "art_wf p (ANode h cs)"

lemma art_wf_leafD:
  assumes "art_wf p (ANode h cs)" "is_leaf h"
  shows "key_len h \<le> length (key h)" "key_len h < 2 ^ 31" "take (length p) (take (key_len h) (key h)) = p"
  using assms by (auto elim: art_wf_elim dest: inner.inner_node)

lemma art_wf_innerD:
  assumes "art_wf p (ANode h cs)" "\<not> is_leaf h"
  shows "layout_ok h cs" "prefix_len h \<le> 128" "length (prefix h) = 128"
    and "kids h cs k = Some c \<Longrightarrow> art_wf (p @ take (prefix_len h) (prefix h) @ [k]) c"
  using assms by (auto elim: art_wf_elim simp: PREFIX_SIZE_def)

lemma sem_leaf: "is_leaf h \<Longrightarrow> sem (ANode h cs) d k = (if k = take (key_len h) (key h) then Some (count h) else None)"
  by (simp add: sem.simps)

lemma sem_inner:
  assumes "layout_ok h cs"
  shows "sem (ANode h cs) d k =
    (let n = prefix_len h in
     if length k < d + n \<or> take n (drop d k) \<noteq> take n (prefix h) then None
     else if length k = d + n then Some (count h)
     else case kids h cs (k ! (d + n)) of None \<Rightarrow> None | Some c \<Rightarrow> sem c (d + n + 1) k)"
proof -
  have "(case child_at cs (slot_of h b) of Inr (Some (i, c)) \<Rightarrow> sem c (d + n + 1) k | _ \<Rightarrow> None) =
      (case kids h cs b of None \<Rightarrow> None | Some c \<Rightarrow> sem c (d + n + 1) k)" for b n
    unfolding inner.child_at_kids [OF assms] by (auto simp: kids_def split: option.split)
  then show ?thesis
    by (simp only: sem.simps [of h cs] inner.inner_node [OF assms] if_False Let_def)
qed

subsection \<open>Matching\<close>

lemma leaf_match_spec:
  "key_len h \<le> length (key h) \<Longrightarrow> st_end s \<le> length (st_data s) \<Longrightarrow> m \<le> key_len h \<Longrightarrow> m \<le> st_end s \<Longrightarrow>
     \<exists>m'. leaf_match h s m = Inr m' \<and> m \<le> m' \<and> m' \<le> key_len h \<and> m' \<le> st_end s \<and>
       (\<forall>i. m \<le> i \<and> i < m' \<longrightarrow> key h ! i = st_data s ! i) \<and>
       (m' < key_len h \<and> m' < st_end s \<longrightarrow> key h ! m' \<noteq> st_data s ! m')"
proof (induction h s m rule: leaf_match.induct)
  case (1 h s m)
  show ?case
  proof (cases "m < key_len h \<and> m < st_end s \<and> key h ! m = st_data s ! m")
    case True
    with 1 have "\<exists>m'. leaf_match h s (m + 1) = Inr m' \<and> m + 1 \<le> m' \<and> m' \<le> key_len h \<and> m' \<le> st_end s \<and>
        (\<forall>i. m + 1 \<le> i \<and> i < m' \<longrightarrow> key h ! i = st_data s ! i) \<and>
        (m' < key_len h \<and> m' < st_end s \<longrightarrow> key h ! m' \<noteq> st_data s ! m')"
      by (intro "1.IH") (auto simp: stream_size_def stream_get_def)
    then obtain m' where m': "leaf_match h s (m + 1) = Inr m'" "m + 1 \<le> m'" "m' \<le> key_len h" "m' \<le> st_end s"
        "\<forall>i. m + 1 \<le> i \<and> i < m' \<longrightarrow> key h ! i = st_data s ! i"
        "m' < key_len h \<and> m' < st_end s \<longrightarrow> key h ! m' \<noteq> st_data s ! m'" by blast
    have "leaf_match h s m = Inr m'"
      using True m'(1) "1.prems" by (subst leaf_match.simps) (simp add: stream_size_def stream_get_def rd_ok)
    moreover have "key h ! i = st_data s ! i" if "m \<le> i" "i < m'" for i
      using that m'(5) True by (cases "i = m") auto
    ultimately show ?thesis using m' by (intro exI [of _ m']) auto
  next
    case False
    then have "leaf_match h s m = Inr m"
      using "1.prems" by (subst leaf_match.simps) (auto simp: stream_size_def stream_get_def rd_ok)
    then show ?thesis using False "1.prems" by (intro exI [of _ m]) auto
  qed
qed

lemma count_match_spec:
  "i + n \<le> length p \<Longrightarrow> d + i + n \<le> length (st_data s) \<Longrightarrow>
     \<exists>m. count_match p s d i n = Inr m \<and> i \<le> m \<and> m \<le> i + n \<and>
       (\<forall>j. i \<le> j \<and> j < m \<longrightarrow> p ! j = st_data s ! (d + j)) \<and>
       (m < i + n \<longrightarrow> p ! m \<noteq> st_data s ! (d + m))"
proof (induction n arbitrary: i)
  case (Suc n)
  show ?case
  proof (cases "p ! i = st_data s ! (d + i)")
    case True
    obtain m where "count_match p s d (Suc i) n = Inr m" "Suc i \<le> m" "m \<le> Suc i + n"
        "\<forall>j. Suc i \<le> j \<and> j < m \<longrightarrow> p ! j = st_data s ! (d + j)"
        "m < Suc i + n \<longrightarrow> p ! m \<noteq> st_data s ! (d + m)"
      using Suc.IH [of "Suc i"] Suc.prems by auto
    moreover from this True have "p ! j = st_data s ! (d + j)" if "i \<le> j" "j < m" for j
      using that by (cases "i = j") auto
    ultimately show ?thesis using True Suc.prems
      by (intro exI [of _ m]) (auto simp: rd_ok stream_get_def)
  next
    case False
    then show ?thesis using Suc.prems by (intro exI [of _ i]) (auto simp: rd_ok stream_get_def)
  qed
qed auto

lemma word_diff_u32: "d \<le> n \<Longrightarrow> n < 2 ^ 32 \<Longrightarrow> unat (of_nat n - of_nat d :: u32) = n - d"
  by (simp add: unat_of_nat take_bit_nat_eq_self flip: of_nat_diff)

lemma check_prefix_spec:
  assumes "stream_ok s" "d \<le> st_end s" "prefix_len h \<le> length (prefix h)"
  shows "\<exists>m. check_prefix h s d = Inr m \<and> m \<le> prefix_len h \<and> d + m \<le> st_end s \<and>
    (\<forall>j<m. prefix h ! j = st_data s ! (d + j)) \<and>
    (m < prefix_len h \<and> d + m < st_end s \<longrightarrow> prefix h ! m \<noteq> st_data s ! (d + m))"
proof -
  let ?n = "min (prefix_len h) (st_end s - d)"
  have n: "min (prefix_len h) (unat (of_nat (stream_size s) - of_nat d :: u32)) = ?n"
    using assms by (simp add: stream_size_def stream_ok_def word_diff_u32)
  have l: "?n \<le> length (prefix h)" "?n \<le> length (drop d (st_data s))"
    using assms by (auto simp: stream_ok_def)
  have "d \<le> length (st_data s)" using assms by (simp add: stream_ok_def)
  then have d: "d + 0 + ?n \<le> length (st_data s)"
    using l(2) by simp
  show ?thesis
  proof (cases "take ?n (prefix h) = take ?n (drop d (st_data s))")
    case True
    then have "check_prefix h s d = Inr ?n" unfolding check_prefix_def Let_def n
      using l by (simp only: memcmp_eq_ok rbind.simps simp_thms if_True)
    moreover have "prefix h ! j = st_data s ! (d + j)" if "j < ?n" for j
      using arg_cong [OF True, of "\<lambda>xs. xs ! j"] that l assms by (simp add: stream_ok_def)
    ultimately show ?thesis using assms by (intro exI [of _ ?n]) auto
  next
    case False
    obtain m where m: "count_match (prefix h) s d 0 ?n = Inr m" "m \<le> ?n"
        "\<forall>j<m. prefix h ! j = st_data s ! (d + j)" "m < ?n \<longrightarrow> prefix h ! m \<noteq> st_data s ! (d + m)"
      using count_match_spec [of 0 ?n "prefix h" d s] l(1) d by (simp only: add_0 add_0_right) blast
    have "check_prefix h s d = Inr m" unfolding check_prefix_def Let_def n
      using l False m(1) by (simp only: memcmp_eq_ok rbind.simps if_False)
    then show ?thesis using m assms by (intro exI [of _ m]) auto
  qed
qed

lemma length_skey [simp]: "stream_ok s \<Longrightarrow> length (skey s) = st_end s"
  by (simp add: skey_def stream_ok_def)

lemma skey_nth [simp]: "i < st_end s \<Longrightarrow> skey s ! i = st_data s ! i"
  by (simp add: skey_def)

lemma skey_advance [simp]: "skey (stream_advance s n) = skey s" "stream_ok (stream_advance s n) = stream_ok s"
  by (simp_all add: skey_def stream_ok_def stream_advance_def)

lemma take_eq_iff_nth:
  "n \<le> length xs \<Longrightarrow> n \<le> length ys \<Longrightarrow> take n xs = take n ys \<longleftrightarrow> (\<forall>i<n. xs ! i = ys ! i)"
  by (auto simp: list_eq_iff_nth_eq)

lemma check_prefix_sem:
  assumes "stream_ok s" "d \<le> st_end s" "prefix_len h \<le> length (prefix h)"
  shows "\<exists>m. check_prefix h s d = Inr m \<and> m \<le> prefix_len h \<and> d + m \<le> st_end s \<and>
    take m (drop d (skey s)) = take m (prefix h) \<and>
    (m < prefix_len h \<and> d + m < st_end s \<longrightarrow> prefix h ! m \<noteq> skey s ! (d + m)) \<and>
    (m = prefix_len h \<longleftrightarrow>
      \<not> (length (skey s) < d + prefix_len h \<or>
         take (prefix_len h) (drop d (skey s)) \<noteq> take (prefix_len h) (prefix h)))"
proof -
  obtain m where m: "check_prefix h s d = Inr m" "m \<le> prefix_len h" "d + m \<le> st_end s"
      "\<forall>j<m. prefix h ! j = st_data s ! (d + j)"
      "m < prefix_len h \<and> d + m < st_end s \<longrightarrow> prefix h ! m \<noteq> st_data s ! (d + m)"
    using check_prefix_spec [OF assms] by blast
  have len: "length (skey s) = st_end s" using assms(1) by simp
  have t: "take n (drop d (skey s)) = take n (prefix h) \<longleftrightarrow> (\<forall>j<n. prefix h ! j = st_data s ! (d + j))"
    if "n \<le> prefix_len h" "d + n \<le> st_end s" for n
    using that assms len by (subst take_eq_iff_nth) auto
  have "m = prefix_len h" if "d + prefix_len h \<le> st_end s"
      "take (prefix_len h) (drop d (skey s)) = take (prefix_len h) (prefix h)"
  proof (rule ccontr)
    assume "m \<noteq> prefix_len h"
    then show False using m that t [of "prefix_len h"] by force
  qed
  then have "m = prefix_len h \<longleftrightarrow>
      \<not> (length (skey s) < d + prefix_len h \<or>
         take (prefix_len h) (drop d (skey s)) \<noteq> take (prefix_len h) (prefix h))"
    using m t [of m] len by (metis not_le)
  then show ?thesis using m t [of m] by (intro exI [of _ m]) auto
qed

subsection \<open>Search\<close>

lemma search_at_sem:
  "art_wf p n \<Longrightarrow> stream_ok s \<Longrightarrow> d \<le> st_end s \<Longrightarrow>
     \<exists>r. art_search_at n s d = Inr r \<and> map_option (\<lambda>n. count (hdr n)) r = sem n d (skey s)"
proof (induction p n arbitrary: d rule: art_wf.induct)
  case (wf_leaf h p cs)
  have "take (key_len h) (key h) = take (key_len h) (st_data s) \<longleftrightarrow> skey s = take (key_len h) (key h)"
    if "key_len h = st_end s" using that by (auto simp: skey_def)
  moreover have "skey s \<noteq> take (key_len h) (key h)" if "key_len h \<noteq> st_end s"
    using that wf_leaf length_skey [of s] by (metis length_take min.absorb2)
  ultimately show ?case using wf_leaf
    by (auto simp: art_search_at.simps leaf_matches_def stream_size_def sem_leaf memcmp_eq_ok stream_ok_def)
next
  case (wf_inner h cs p)
  obtain m where m: "check_prefix h s d = Inr m" "d + m \<le> st_end s"
      "m = prefix_len h \<longleftrightarrow>
        \<not> (length (skey s) < d + prefix_len h \<or>
           take (prefix_len h) (drop d (skey s)) \<noteq> take (prefix_len h) (prefix h))"
    using check_prefix_sem [OF wf_inner.prems, of h] wf_inner.hyps by auto
  note code = art_search_at.simps [of h cs] inner.inner_node [OF wf_inner.hyps(1)]
    sem_inner [OF wf_inner.hyps(1)] inner.find_slot [OF wf_inner.hyps(1)]
    inner.child_at_kids [OF wf_inner.hyps(1)]
  consider "m \<noteq> prefix_len h" | "m = prefix_len h" "d + m = st_end s" | "m = prefix_len h" "d + m < st_end s"
    using m(2) by linarith
  then show ?case
  proof cases
    case 1
    then show ?thesis using m by (simp add: code)
  next
    case 2
    then show ?thesis using m wf_inner.prems by (simp add: code stream_size_def)
  next
    case 3
    let ?b = "st_data s ! (d + m)"
    have get: "stream_get s (d + m) = Inr ?b"
      using 3 wf_inner.prems by (simp add: stream_get_def rd_ok stream_ok_def)
    show ?thesis
    proof (cases "kids h cs ?b")
      case None
      then show ?thesis using m 3 get wf_inner.prems
        by (simp add: code stream_size_def Let_def split: option.split)
    next
      case (Some c)
      then obtain i where i: "slot_of h ?b = Some i" by (auto simp: kids_def split: option.splits)
      have "\<exists>r. art_search_at c s (d + m + 1) = Inr r \<and>
          map_option (\<lambda>n. count (hdr n)) r = sem c (d + m + 1) (skey s)"
        using wf_inner.IH [OF Some wf_inner.prems(1), of "d + m + 1"] 3 by simp
      then show ?thesis using m 3 get i Some wf_inner.prems by (simp add: code stream_size_def)
    qed
  qed
qed

end
