(* ===== verification/Art_Insert.thy ===== *)
theory Art_Insert
  imports Art_Correct
begin

text \<open>
  Insertion counts its key and keeps the other counts. Nodes are described by what \<open>sem\<close>
  sees of them (\<open>inner_with\<close>); every branch of the insertion returns such a node.
\<close>

subsection \<open>Inner nodes by their parts\<close>

definition inner_with ::
  "art_node \<Rightarrow> u8 list \<Rightarrow> u64 \<Rightarrow> (u8 \<Rightarrow> art_node option) \<Rightarrow> bool" where
  "inner_with n P c f \<longleftrightarrow>
     layout_ok (hdr n) (arr n) \<and> length (prefix (hdr n)) = PREFIX_SIZE \<and>
     prefix_len (hdr n) \<le> PREFIX_SIZE \<and> take (prefix_len (hdr n)) (prefix (hdr n)) = P \<and>
     count (hdr n) = c \<and> kids (hdr n) (arr n) = f"

lemma inner_with_self:
  assumes "art_wf p (ANode h cs)" "\<not> is_leaf h"
  shows "inner_with (ANode h cs) (take (prefix_len h) (prefix h)) (count h) (kids h cs)"
  using art_wf_innerD [OF assms] by (simp add: inner_with_def PREFIX_SIZE_def)

lemma wf_inner_with:
  assumes "inner_with n P c f" "\<And>k ch. f k = Some ch \<Longrightarrow> art_wf (p @ P @ [k]) ch"
  shows "art_wf p n"
  using assms by (cases n) (auto simp: inner_with_def intro!: wf_inner)

lemma sem_inner_with:
  assumes "inner_with n P c f"
  shows "sem n d k =
    (if length k < d + length P \<or> take (length P) (drop d k) \<noteq> P then None
     else if length k = d + length P then Some c
     else case f (k ! (d + length P)) of None \<Rightarrow> None | Some ch \<Rightarrow> sem ch (d + length P + 1) k)"
proof -
  obtain h cs where n: "n = ANode h cs" by (cases n)
  have L: "prefix_len h = length P" and ok: "layout_ok h cs"
    and eqs: "take (length P) (prefix h) = P" "count h = c" "kids h cs = f"
    using assms by (auto simp: inner_with_def n)
  show ?thesis by (simp only: n sem_inner [OF ok] Let_def L eqs)
qed

lemma add_child_with:
  assumes "inner_with n P c f" "is_full (hdr n) = Inr False" "f k = None"
  shows "\<exists>n'. add_child n k ch = Inr n' \<and> inner_with n' P c (f(k := Some ch)) \<and>
    flags (hdr n') = flags (hdr n) \<and> key_len (hdr n') \<le> Suc (key_len (hdr n))"
proof -
  have "layout_ok (hdr n) (arr n)" "kids (hdr n) (arr n) k = None"
    using assms by (auto simp: inner_with_def)
  then obtain h' cs' where "add_child n k ch = Inr (ANode h' cs')" "layout_ok h' cs'"
      "same_path (hdr n) h'" "kids h' cs' = (kids (hdr n) (arr n))(k := Some ch)"
    using inner.add_new [OF _ assms(2), of "arr n" k ch] by auto
  then show ?thesis using assms(1)
    by (intro exI [of _ "ANode h' cs'"]) (simp add: inner_with_def same_path_def)
qed

lemma full_4: "flags h = NODE_FLAGS_INNER_4 \<Longrightarrow> is_full h = Inr (key_len h = 4)"
  by (simp add: is_full_def is_leaf_def node_size_def)

text \<open>The node both splits start from.\<close>

lemma fresh_inner_4:
  "lasting_alloc_node NODE_FLAGS_INNER_4 =
     Inr (ANode (blank_hdr NODE_FLAGS_INNER_4 (replicate 4 0)) (replicate 4 None))"
  by (simp add: lasting_alloc_node_def node_size_def)

lemma blank_with:
  assumes "length q = PREFIX_SIZE" "n \<le> PREFIX_SIZE"
  shows "inner_with
    (ANode ((blank_hdr NODE_FLAGS_INNER_4 (replicate 4 0))\<lparr>prefix_len := n, prefix := q\<rparr>) (replicate 4 None))
    (take n q) 0 (\<lambda>_. None)"
  using assms by (auto simp: inner_with_def layout_ok_def on_flags_def list_ok_def blank_hdr_def
      kids_def slot_of_list)

definition leaf_of :: "art_stream \<Rightarrow> art_node" where
  "leaf_of s = ANode ((blank_hdr NODE_FLAGS_LEAF [])\<lparr>key_len := st_end s, key := st_data s\<rparr>) []"

lemma make_leaf_eq: "lasting_make_leaf s = Inr (leaf_of s)"
  by (simp add: lasting_make_leaf_def lasting_alloc_node_def leaf_of_def stream_size_def)

lemma leaf_of_hdr [simp]:
  "is_leaf (hdr (leaf_of s))" "key (hdr (leaf_of s)) = st_data s" "key_len (hdr (leaf_of s)) = st_end s"
  by (simp_all add: leaf_of_def is_leaf_def blank_hdr_def)

lemma sem_leaf_of [simp]: "sem (leaf_of s) d k = (if k = skey s then Some 0 else None)"
  by (simp add: leaf_of_def sem_leaf is_leaf_def blank_hdr_def skey_def)

lemma wf_leaf_of: "stream_ok s \<Longrightarrow> take (length p) (skey s) = p \<Longrightarrow> art_wf p (leaf_of s)"
  by (simp add: leaf_of_def stream_ok_def skey_def is_leaf_def blank_hdr_def wf_leaf)

subsection \<open>Splitting a leaf\<close>

lemma word_gt_0_diff:
  assumes "d \<le> m" "m \<le> n" "n < 2 ^ 31"
  shows "0 < (of_nat n - of_nat d - of_nat (m - d) :: u32) \<longleftrightarrow> m < n"
proof -
  have "of_nat n - of_nat d - of_nat (m - d) = (of_nat (n - m) :: u32)"
    using assms by (simp add: of_nat_diff)
  moreover have "unat (of_nat (n - m) :: u32) = n - m"
    using assms word_diff_u32 [of m n] by (simp only: of_nat_diff) simp
  ultimately show ?thesis by (simp only: word_less_nat_alt) simp
qed

lemma chain_loop_short: "rem \<le> PREFIX_SIZE \<Longrightarrow> lasting_chain_loop s d j rem outers h = Inr (outers, h, rem)"
  by (simp add: lasting_chain_loop.simps)

definition split_kids :: "art_node \<Rightarrow> art_stream \<Rightarrow> nat \<Rightarrow> u8 \<Rightarrow> art_node option" where
  "split_kids leaf s m =
     (let f = (if m < key_len (hdr leaf) then [key (hdr leaf) ! m \<mapsto> leaf] else Map.empty)
      in if m < st_end s then f(st_data s ! m \<mapsto> leaf_of s) else f)"

lemma split_leaf_with:
  assumes leaf: "key_len h \<le> length (key h)" "key_len h < 2 ^ 31" and s: "stream_ok s"
    and m: "d \<le> m" "m \<le> key_len h" "m \<le> st_end s" "m - d \<le> PREFIX_SIZE"
    and ne: "m < key_len h \<Longrightarrow> m < st_end s \<Longrightarrow> key h ! m \<noteq> st_data s ! m"
  shows "\<exists>n. lasting_split_leaf (ANode h cs) s d m = Inr n \<and>
    inner_with n (take (m - d) (drop d (skey s))) 0 (split_kids (ANode h cs) s m)"
proof -
  let ?B = "blank_hdr NODE_FLAGS_INNER_4 (replicate 4 0)"
  let ?P = "take (m - d) (drop d (skey s))"
  let ?n0 = "ANode (?B\<lparr>prefix_len := m - d, prefix := ?P @ drop (m - d) (prefix ?B)\<rparr>) (replicate 4 None)"
  have lenP: "length ?P = m - d" using m s by simp
  have P: "?P = take (m - d) (drop d (st_data s))"
    using m by (simp add: skey_def drop_take min_def)
  have n0: "inner_with ?n0 ?P 0 Map.empty"
    using blank_with [of "?P @ drop (m - d) (prefix ?B)" "m - d"] m lenP by (simp add: blank_hdr_def)
  define f where "f = (if m < key_len h then [key h ! m \<mapsto> ANode h cs] else Map.empty)"
  have sk: "split_kids (ANode h cs) s m = (if m < st_end s then f(st_data s ! m \<mapsto> leaf_of s) else f)"
    by (simp only: split_kids_def f_def Let_def art_node.sel)
  obtain n1 where n1: "(if m < key_len h then rbind (rd (key h) m) (\<lambda>k. add_child ?n0 k (ANode h cs))
        else Inr ?n0) = Inr n1" "inner_with n1 ?P 0 f"
      "flags (hdr n1) = NODE_FLAGS_INNER_4" "key_len (hdr n1) \<le> 1"
  proof (cases "m < key_len h")
    case True
    then show ?thesis
      using add_child_with [OF n0 _ , of "key h ! m" "ANode h cs"] leaf that
      by (auto simp: full_4 rd_ok f_def blank_hdr_def)
  next
    case False
    then show ?thesis using n0 that by (auto simp: f_def blank_hdr_def)
  qed
  obtain n2 where n2: "(if m < st_end s then rbind (lasting_make_leaf s) (\<lambda>other.
        rbind (rd (key (hdr other)) m) (\<lambda>k. add_child n1 k other)) else Inr n1) = Inr n2"
      "inner_with n2 ?P 0 (split_kids (ANode h cs) s m)"
  proof (cases "m < st_end s")
    case True
    then have "f (st_data s ! m) = None" using ne [THEN not_sym] by (simp add: f_def)
    then show ?thesis
      using add_child_with [OF n1(2), of "st_data s ! m" "leaf_of s"] n1(3,4) True s that
      by (auto simp: full_4 rd_ok make_leaf_eq sk stream_ok_def)
  next
    case False
    then show ?thesis using n1 that by (auto simp: sk)
  qed
  have "lasting_split_leaf (ANode h cs) s d m = Inr n2"
  proof -
    have w: "0 < (of_nat (key_len h) - of_nat d - of_nat (m - d) :: u32) \<longleftrightarrow> m < key_len h"
      "0 < (of_nat (st_end s) - of_nat d - of_nat (m - d) :: u32) \<longleftrightarrow> m < st_end s"
      using word_gt_0_diff [OF m(1,2) leaf(2)] word_gt_0_diff [OF m(1,3)] s by (simp_all add: stream_ok_def)
    have pre: "(if 0 < m - d then rbind (stream_slice s (m - (m - d)) (m - d)) (\<lambda>p.
          Inr (?B\<lparr>prefix := p @ drop (m - d) (prefix ?B), prefix_len := m - d\<rparr>)) else Inr ?B) =
        Inr (?B\<lparr>prefix_len := m - d, prefix := ?P @ drop (m - d) (prefix ?B)\<rparr>)"
      using m s P by (auto simp: stream_slice_def blank_hdr_def stream_ok_def)
    show ?thesis
      unfolding lasting_split_leaf_def fresh_inner_4 rbind.simps Let_def stream_size_def art_node.sel
        chain_loop_short [OF m(4)] prod.case pre w le_add_diff_inverse [OF m(1)]
      by (simp only: n1(1) n2(1) rbind.simps foldr.simps id_apply)
  qed
  with n2(2) show ?thesis by blast
qed

subsection \<open>Splitting a prefix and adding a leaf\<close>

lemma split_prefix_with:
  assumes wf: "art_wf p (ANode h cs)" "\<not> is_leaf h" and s: "stream_ok s"
    and m: "m < prefix_len h" "d + m < st_end s" and ne: "prefix h ! m \<noteq> st_data s ! (d + m)"
  shows "\<exists>n rest. lasting_split_prefix (ANode h cs) s d m = Inr n \<and>
    inner_with rest (drop (m + 1) (take (prefix_len h) (prefix h))) (count h) (kids h cs) \<and>
    inner_with n (take m (prefix h)) 0 [st_data s ! (d + m) \<mapsto> leaf_of s, prefix h ! m \<mapsto> rest]"
proof -
  let ?B = "blank_hdr NODE_FLAGS_INNER_4 (replicate 4 0)"
  let ?n = "prefix_len h - (m + 1)"
  let ?h = "h\<lparr>prefix_len := ?n, prefix := take ?n (drop (m + 1) (prefix h)) @ drop ?n (prefix h)\<rparr>"
  let ?rest = "ANode ?h cs"
  note w = art_wf_innerD [OF wf]
  have "layout_ok ?h cs" "kids ?h cs = kids h cs"
    using w(1) by (auto simp: layout_ok_def on_flags_def list_ok_def index_ok_def direct_ok_def
        kids_def slot_of_def fun_eq_iff cong: option.case_cong)
  moreover have "take ?n (prefix ?h) = drop (m + 1) (take (prefix_len h) (prefix h))"
    using w(2,3) m by (simp add: drop_take)
  ultimately have rest: "inner_with ?rest (drop (m + 1) (take (prefix_len h) (prefix h))) (count h) (kids h cs)"
    using w(2,3) m by (simp add: inner_with_def PREFIX_SIZE_def)
  have n0: "inner_with (ANode ?B (replicate 4 None)) [] 0 Map.empty"
    using blank_with [of "prefix ?B" 0] by (simp add: blank_hdr_def)
  obtain n1 where n1: "add_child (ANode ?B (replicate 4 None)) (st_data s ! (d + m)) (leaf_of s) = Inr n1"
      "inner_with n1 [] 0 [st_data s ! (d + m) \<mapsto> leaf_of s]"
      "flags (hdr n1) = NODE_FLAGS_INNER_4" "key_len (hdr n1) \<le> 1"
    using add_child_with [OF n0, of "st_data s ! (d + m)" "leaf_of s"]
    by (auto simp: full_4 blank_hdr_def)
  obtain n2 where n2: "add_child n1 (prefix h ! m) ?rest = Inr n2"
      "inner_with n2 [] 0 [st_data s ! (d + m) \<mapsto> leaf_of s, prefix h ! m \<mapsto> ?rest]"
    using add_child_with [OF n1(2), of "prefix h ! m" ?rest] n1(3,4) ne by (auto simp: full_4)
  let ?n3 = "ANode ((hdr n2)\<lparr>prefix_len := m, prefix := take m (prefix h) @ drop m (prefix (hdr n2))\<rparr>) (arr n2)"
  have "layout_ok (hdr n2) (arr n2)" using n2(2) by (simp add: inner_with_def)
  then have "layout_ok (hdr ?n3) (arr ?n3)"
    by (auto simp: layout_ok_def on_flags_def list_ok_def index_ok_def direct_ok_def)
  moreover have "kids (hdr ?n3) (arr ?n3) = kids (hdr n2) (arr n2)"
    by (auto simp: kids_def slot_of_def fun_eq_iff cong: option.case_cong)
  ultimately have "inner_with ?n3 (take m (prefix h)) 0
      [st_data s ! (d + m) \<mapsto> leaf_of s, prefix h ! m \<mapsto> ?rest]"
    using n2(2) w(2,3) m by (simp add: inner_with_def PREFIX_SIZE_def)
  moreover have "lasting_split_prefix (ANode h cs) s d m = Inr ?n3"
    using m w(2,3) s n1(1) n2(1)
    by (simp add: lasting_split_prefix_def fresh_inner_4 make_leaf_eq stream_get_def rd_ok stream_ok_def PREFIX_SIZE_def)
  ultimately show ?thesis using rest by blast
qed

lemma add_leaf_with:
  assumes wf: "art_wf p (ANode h cs)" "\<not> is_leaf h" and s: "stream_ok s" "d < st_end s"
    and new: "kids h cs (st_data s ! d) = None"
    and full: "is_full h = Inr True \<Longrightarrow> prefix_len h = 0 \<and> count h = 0"
  shows "\<exists>n. lasting_add_leaf (ANode h cs) s d = Inr n \<and>
    inner_with n (take (prefix_len h) (prefix h)) (count h) ((kids h cs)(st_data s ! d \<mapsto> leaf_of s))"
proof -
  note self = inner_with_self [OF wf]
  have get: "stream_get s d = Inr (st_data s ! d)" using s by (simp add: stream_get_def rd_ok stream_ok_def)
  obtain b where b: "is_full h = Inr b"
    using art_wf_innerD(1) [OF wf] by (auto simp: layout_ok_def on_flags_def is_full_def node_size_def is_leaf_def)
  show ?thesis
  proof (cases b)
    case True
    with b obtain n where n: "lasting_grow (ANode h cs) = Inr n" "grown h cs n"
      using grow_kids [OF art_wf_innerD(1) [OF wf]] by auto
    then have "inner_with n (take (prefix_len h) (prefix h)) (count h) (kids h cs)"
      "is_full (hdr n) = Inr False"
      using full b True by (auto simp: grown_def inner_with_def PREFIX_SIZE_def)
    from add_child_with [OF this new, of "leaf_of s"]
    show ?thesis using n(1) b True get by (auto simp: lasting_add_leaf_def make_leaf_eq)
  next
    case False
    then have "is_full (hdr (ANode h cs)) = Inr False" using b by simp
    from add_child_with [OF self this new, of "leaf_of s"]
    show ?thesis using b False get by (auto simp: lasting_add_leaf_def make_leaf_eq)
  qed
qed

end
