(* ===== verification/Art_Count.thy ===== *)
theory Art_Count
  imports Art_Insert
begin

text \<open>
  The counting contract of the tree: an insertion that meets none of the losing situations
  adds one to the count of its key (or creates it with count 0) and changes no other count.
\<close>

subsection \<open>Counting one key\<close>

text \<open>
  How an insertion changes the counts of the keys below a path: the key's own count goes
  up, a new key starts at 0, and a branch point may appear as a key with count 0.
\<close>

definition next_count :: "u64 option \<Rightarrow> u64" where
  "next_count c = (case c of None \<Rightarrow> 0 | Some n \<Rightarrow> n + 1)"

definition counted ::
  "u8 list \<Rightarrow> u8 list \<Rightarrow> (u8 list \<Rightarrow> u64 option) \<Rightarrow> (u8 list \<Rightarrow> u64 option) \<Rightarrow> bool" where
  "counted p k g g' \<longleftrightarrow>
     g' k = Some (next_count (g k)) \<and>
     (\<forall>j. take (length p) j = p \<and> j \<noteq> k \<longrightarrow> g' j = g j \<or> g j = None \<and> g' j = Some 0)"

lemma counted_kid:
  assumes n: "inner_with n P c f" and n': "inner_with n' P c (f(b := Some ch'))"
    and k: "take d k = p" "length p = d" "d + length P < length k" "take (length P) (drop d k) = P"
      "k ! (d + length P) = b"
    and ch: "counted (p @ P @ [b]) k (\<lambda>j. case f b of None \<Rightarrow> None | Some c \<Rightarrow> sem c (d + length P + 1) j)
      (sem ch' (d + length P + 1))"
  shows "counted p k (sem n d) (sem n' d)"
  unfolding counted_def
proof (intro conjI allI impI)
  let ?D = "d + length P"
  show "sem n' d k = Some (next_count (sem n d k))"
    using ch k by (simp add: sem_inner_with [OF n] sem_inner_with [OF n'] counted_def)
  fix j assume j: "take (length p) j = p \<and> j \<noteq> k"
  show "sem n' d j = sem n d j \<or> sem n d j = None \<and> sem n' d j = Some 0"
  proof (cases "?D < length j \<and> take (length P) (drop d j) = P \<and> j ! ?D = b")
    case True
    have "take (Suc ?D) j = take ?D j @ [j ! ?D]" using True by (simp add: take_Suc_conv_app_nth)
    also have "take ?D j = p @ P" using True j k by (simp add: take_add)
    finally have "take (length (p @ P @ [b])) j = p @ P @ [b]" using True k by simp
    then show ?thesis using True j ch
      by (auto simp: sem_inner_with [OF n] sem_inner_with [OF n'] counted_def)
  next
    case False
    then show ?thesis by (auto simp: sem_inner_with [OF n] sem_inner_with [OF n'])
  qed
qed

lemma counted_leaf_of: "counted p (skey s) (\<lambda>_. None) (sem (leaf_of s) d)"
  by (simp add: counted_def next_count_def)

lemma take_split:
  assumes "take d j = take d k" "d \<le> m" "m \<le> length k"
  shows "m \<le> length j \<and> take (m - d) (drop d j) = take (m - d) (drop d k) \<longleftrightarrow> take m j = take m k"
proof -
  have t: "take m x = take d x @ take (m - d) (drop d x)" for x :: "'a list"
    using take_add [of d "m - d" x] assms(2) by simp
  have "take m j = take m k \<longleftrightarrow> take (m - d) (drop d j) = take (m - d) (drop d k)"
    by (simp only: t [of j] t [of k] assms(1) same_append_eq)
  moreover have "m \<le> length j" if "take m j = take m k"
    using arg_cong [OF that, of length] assms(3) by simp
  ultimately show ?thesis by blast
qed

lemma counted_here:
  assumes n: "inner_with n P c f" and n': "inner_with n' P (c + 1) f"
    and k: "take d k = p" "length p = d" "length k = d + length P" "take (length P) (drop d k) = P"
  shows "counted p k (sem n d) (sem n' d)"
proof -
  have "sem n' d j = sem n d j" if j: "j \<noteq> k" "take (length p) j = p" for j
  proof -
    have "j = k" if "length j = d + length P" "take (length P) (drop d j) = P"
    proof -
      have "take d j = take d k" using j(2) k(1,2) by simp
      then have "take (d + length P) j = take (d + length P) k"
        using take_split [of d j k "d + length P"] that k by simp
      then show ?thesis using that k by simp
    qed
    then show ?thesis using j(1) by (auto simp: sem_inner_with [OF n] sem_inner_with [OF n'])
  qed
  then show ?thesis
    using k by (auto simp: counted_def next_count_def sem_inner_with [OF n] sem_inner_with [OF n'])
qed

subsection \<open>Leaves\<close>

lemma case_kid:
  "(case if B then Some x else if C then Some y else None of None \<Rightarrow> None | Some z \<Rightarrow> F z) =
     (if B then F x else if C then F y else None)"
  by simp

lemma split_leaf_counts:
  assumes leaf: "is_leaf h" "art_wf p (ANode h cs)" and s: "stream_ok s" "take (length p) (skey s) = p"
    and m: "length p \<le> m" "m \<le> key_len h" "m \<le> st_end s" "m - length p \<le> PREFIX_SIZE"
    and eq: "take m (key h) = take m (skey s)"
    and ne: "m < key_len h \<Longrightarrow> m < st_end s \<Longrightarrow> key h ! m \<noteq> st_data s ! m"
    and diff: "\<not> (m = st_end s \<and> m = key_len h)" and lose: "m < key_len h \<or> count h = 0"
  shows "\<exists>n. lasting_split_leaf (ANode h cs) s (length p) m = Inr n \<and> art_wf p n \<and>
    counted p (skey s) (sem (ANode h cs) (length p)) (sem n (length p))"
proof -
  let ?d = "length p" and ?k = "skey s" and ?old = "take (key_len h) (key h)"
  note w = art_wf_leafD [OF leaf(2,1)]
  have "\<exists>n. lasting_split_leaf (ANode h cs) s ?d m = Inr n \<and>
      inner_with n (take (m - ?d) (drop ?d ?k)) 0 (split_kids (ANode h cs) s m)"
    by (rule split_leaf_with [OF w(1,2) s(1) m]) (rule ne)
  then obtain n where n: "lasting_split_leaf (ANode h cs) s ?d m = Inr n"
      "inner_with n (take (m - ?d) (drop ?d ?k)) 0 (split_kids (ANode h cs) s m)" by blast
  have len: "length ?k = st_end s" "length ?old = key_len h" using s(1) w(1) by simp_all
  have lenP: "length (take (m - ?d) (drop ?d ?k)) = m - ?d" using len m by simp
  have eq0: "take m ?old = take m ?k" using eq m by simp
  have k0_nth: "?old ! i = key h ! i" if "i < key_len h" for i using that by simp
  have old: "sem (ANode h cs) ?d j = (if j = ?old then Some (count h) else None)" for j
    using leaf by (simp add: sem_leaf)
  have kid: "split_kids (ANode h cs) s m b =
      (if m < st_end s \<and> b = ?k ! m then Some (leaf_of s)
       else if m < key_len h \<and> b = ?old ! m then Some (ANode h cs) else None)" for b
    using m by (simp add: split_kids_def Let_def)
  have new: "sem n ?d j =
      (if take m j \<noteq> take m ?k then None
       else if length j = m then Some 0
       else if m < st_end s \<and> j ! m = ?k ! m then (if j = ?k then Some 0 else None)
       else if m < key_len h \<and> j ! m = ?old ! m then sem (ANode h cs) (Suc m) j else None)"
    if j: "take ?d j = p" for j
  proof -
    have "take ?d j = take ?d ?k" using j s(2) by simp
    note t = take_split [OF this m(1)]
    have c: "length j < m \<or> take (m - ?d) (drop ?d j) \<noteq> take (m - ?d) (drop ?d ?k) \<longleftrightarrow>
        take m j \<noteq> take m ?k"
      using t len m(3) not_less by metis
    have dm: "?d + (m - ?d) = m" using m(1) by simp
    show ?thesis unfolding sem_inner_with [OF n(2)] lenP dm c kid case_kid sem_leaf_of Suc_eq_plus1
      by (rule refl)
  qed
  have ne': "?k ! m \<noteq> ?old ! m" if "m < st_end s" "m < key_len h" using ne that by auto
  have wf: "art_wf p n"
  proof (rule wf_inner_with [OF n(2)])
    fix b ch assume b: "split_kids (ANode h cs) s m b = Some ch"
    have pP: "p @ take (m - ?d) (drop ?d x) @ [x ! m] = take (Suc m) x"
      if "take ?d x = p" "m < length x" for x :: "u8 list"
    proof -
      have "take (?d + (m - ?d)) x = p @ take (m - ?d) (drop ?d x)"
        by (simp only: take_add that(1))
      then have "take m x = p @ take (m - ?d) (drop ?d x)" using m(1) by simp
      then show ?thesis using that(2) by (simp only: take_Suc_conv_app_nth append_assoc)
    qed
    show "art_wf (p @ take (m - ?d) (drop ?d ?k) @ [b]) ch"
    proof (cases "m < st_end s \<and> b = ?k ! m")
      case True
      then have "p @ take (m - ?d) (drop ?d ?k) @ [b] = take (Suc m) ?k" "ch = leaf_of s"
        using pP [OF s(2)] len b by (simp_all add: kid)
      moreover have "art_wf (take (Suc m) ?k) (leaf_of s)" using s(1) True len by (intro wf_leaf_of) simp_all
      ultimately show ?thesis by simp
    next
      case False
      then have c: "ch = ANode h cs" "m < key_len h" "b = ?old ! m"
        using b by (auto simp: kid split: if_splits)
      have "take (m - ?d) (drop ?d ?k) = take (m - ?d) (drop ?d ?old)"
        using eq0 by (metis drop_take)
      then have "p @ take (m - ?d) (drop ?d ?k) @ [b] = take (Suc m) ?old"
        using pP [OF w(3)] c len by simp
      moreover have "art_wf (take (Suc m) ?old) (ANode h cs)"
        using leaf w c by (intro wf_leaf) (simp_all add: min_def)
      ultimately show ?thesis using c by simp
    qed
  qed
  have k0: "?old \<noteq> ?k" using diff eq0 len ne' m
    by (metis le_neq_implies_less)
  have "counted p ?k (sem (ANode h cs) ?d) (sem n ?d)"
    unfolding counted_def
  proof (intro conjI allI impI)
    show "sem n ?d ?k = Some (next_count (sem (ANode h cs) ?d ?k))"
      using s(2) k0 len m by (auto simp: new old next_count_def)
    fix j assume j: "take ?d j = p \<and> j \<noteq> ?k"
    show "sem n ?d j = sem (ANode h cs) ?d j \<or> sem (ANode h cs) ?d j = None \<and> sem n ?d j = Some 0"
    proof (cases "j = ?old")
      case True
      then have jm: "take m j = take m ?k" "length j = key_len h" "j ! m = ?old ! m"
        using eq0 len by simp_all
      show ?thesis
      proof (cases "m < key_len h")
        case True
        then show ?thesis using jm j ne' new [of j] by (auto simp: sem_leaf [OF leaf(1)])
      next
        case False
        then have "length j = m" "count h = 0" using jm m(2) lose by simp_all
        then show ?thesis using jm j new [of j] \<open>j = ?old\<close> by (simp add: old)
      qed
    next
      case False
      then show ?thesis using j by (simp add: new old sem_leaf [OF leaf(1)])
    qed
  qed
  with n wf show ?thesis by blast
qed

subsection \<open>The situations the code handles\<close>

text \<open>
  A leaf: an equal key whose over-read bytes are equal too; otherwise a split that keeps the
  leaf (or drops one without a count) and needs no chain. A prefix: it differs before the key
  ends. A byte without a child: a full node loses its prefix and its count, so it has none.
\<close>

definition safe_leaf :: "art_hdr \<Rightarrow> art_stream \<Rightarrow> nat \<Rightarrow> bool" where
  "safe_leaf h s d =
     (case leaf_match h s d of Inl _ \<Rightarrow> False | Inr m \<Rightarrow>
        if m = st_end s \<and> m = key_len h
        then memcmp_eq (drop d (key h)) (drop d (st_data s)) m = Inr True
        else (m < key_len h \<or> count h = 0) \<and> m - d \<le> PREFIX_SIZE)"

function safe_at :: "art_node \<Rightarrow> art_stream \<Rightarrow> nat \<Rightarrow> bool" where
  "safe_at (ANode h cs) s d =
     (if is_leaf h then safe_leaf h s d
      else case check_prefix h s d of Inl _ \<Rightarrow> False | Inr m \<Rightarrow>
        if m \<noteq> prefix_len h then d + m < st_end s
        else let d = d + prefix_len h in
          if st_end s \<le> d then True
          else (case child_at cs (slot_of h (st_data s ! d)) of
                  Inr (Some (i, c)) \<Rightarrow> safe_at c (stream_advance s 1) (d + 1)
                | _ \<Rightarrow> is_full h = Inr True \<longrightarrow> prefix_len h = 0 \<and> count h = 0))"
  by pat_completeness auto
termination
  by (relation "measure (\<lambda>(n, s, d). size n)") (auto dest: child_at_size)

declare safe_at.simps [simp del]

lemma do_leaf_counts:
  assumes leaf: "is_leaf h" "art_wf p (ANode h cs)" and s: "stream_ok s" "take (length p) (skey s) = p"
    and safe: "safe_leaf h s (length p)"
  shows "\<exists>n. lasting_do_leaf (ANode h cs) s (length p) = Inr n \<and> art_wf p n \<and>
    counted p (skey s) (sem (ANode h cs) (length p)) (sem n (length p))"
proof -
  let ?d = "length p" and ?k = "skey s" and ?old = "take (key_len h) (key h)"
  note w = art_wf_leafD [OF leaf(2,1)]
  have len: "length ?k = st_end s" "length ?old = key_len h" using s(1) w(1) by simp_all
  have d: "?d \<le> key_len h" "?d \<le> st_end s"
    using arg_cong [OF w(3), of length] arg_cong [OF s(2), of length] len by auto
  obtain m where m: "leaf_match h s ?d = Inr m" "?d \<le> m" "m \<le> key_len h" "m \<le> st_end s"
      "\<forall>i. ?d \<le> i \<and> i < m \<longrightarrow> key h ! i = st_data s ! i"
      "m < key_len h \<Longrightarrow> m < st_end s \<Longrightarrow> key h ! m \<noteq> st_data s ! m"
    using leaf_match_spec [OF w(1) _ d] s(1) by (auto simp: stream_ok_def)
  have "key h ! i = ?k ! i" if "i < m" for i
  proof (cases "i < ?d")
    case True
    then have "?old ! i = ?k ! i" using w(3) s(2) by (metis nth_take)
    then show ?thesis using True d by simp
  next
    case False
    then show ?thesis using m(4,5) that by simp
  qed
  then have eq: "take m (key h) = take m ?k" using m w(1) len by (simp add: take_eq_iff_nth)
  show ?thesis
  proof (cases "m = st_end s \<and> m = key_len h")
    case True
    let ?n = "ANode (h\<lparr>count := count h + 1\<rparr>) cs"
    have "memcmp_eq (drop ?d (key h)) (drop ?d (st_data s)) m = Inr True"
      using safe True by (simp add: safe_leaf_def m(1))
    then have code: "lasting_do_leaf (ANode h cs) s ?d = Inr ?n"
      using leaf(1) True by (simp add: lasting_do_leaf_def m(1) stream_size_def del: memcmp_eq_Inr)
    have "is_leaf (h\<lparr>count := count h + 1\<rparr>)" using leaf(1) by (simp add: is_leaf_def)
    moreover from this have "art_wf p ?n" using w by (intro wf_leaf) simp_all
    moreover have "?old = ?k" using eq True len by (metis take_all order_refl)
    ultimately show ?thesis using code leaf(1)
      by (intro exI [of _ ?n]) (simp add: counted_def next_count_def sem_leaf)
  next
    case False
    then have "m < key_len h \<or> count h = 0" "m - ?d \<le> PREFIX_SIZE"
      using safe by (simp_all add: safe_leaf_def m(1) split: if_splits)
    from split_leaf_counts [OF leaf s m(2,3,4) this(2) eq m(6) False this(1)]
    obtain n where "lasting_split_leaf (ANode h cs) s ?d m = Inr n" "art_wf p n"
        "counted p ?k (sem (ANode h cs) ?d) (sem n ?d)" by blast
    moreover have "lasting_do_leaf (ANode h cs) s ?d = lasting_split_leaf (ANode h cs) s ?d m"
      by (simp only: lasting_do_leaf_def Let_def art_node.sel leaf(1) rassert_simps m(1) rbind.simps
          stream_size_def False if_False)
    ultimately show ?thesis by auto
  qed
qed

subsection \<open>Prefixes\<close>

lemma take_take_nth: "m < n \<Longrightarrow> n \<le> length x \<Longrightarrow> take n x = take m x @ x ! m # take (n - Suc m) (drop (Suc m) x)"
  using id_take_nth_drop [of m "take n x"] by (simp add: drop_take min_def)

lemma split_prefix_counts:
  assumes wf: "art_wf p (ANode h cs)" "\<not> is_leaf h" and s: "stream_ok s" "take (length p) (skey s) = p"
    and m: "m < prefix_len h" "length p + m < st_end s"
    and eq: "take m (drop (length p) (skey s)) = take m (prefix h)"
    and ne: "prefix h ! m \<noteq> skey s ! (length p + m)"
  shows "\<exists>n. lasting_split_prefix (ANode h cs) s (length p) m = Inr n \<and> art_wf p n \<and>
    counted p (skey s) (sem (ANode h cs) (length p)) (sem n (length p))"
proof -
  let ?d = "length p" and ?k = "skey s"
  let ?P = "take (prefix_len h) (prefix h)" and ?b = "?k ! (?d + m)" and ?a = "prefix h ! m"
  have b: "st_data s ! (?d + m) = ?b" using m by simp
  note w = art_wf_innerD [OF wf]
  have len: "length ?k = st_end s" using s by simp
  obtain n rest where n: "lasting_split_prefix (ANode h cs) s ?d m = Inr n"
      "inner_with rest (drop (m + 1) ?P) (count h) (kids h cs)"
      "inner_with n (take m (prefix h)) 0 [?b \<mapsto> leaf_of s, ?a \<mapsto> rest]"
    using split_prefix_with [OF wf s(1) m] ne unfolding b by blast
  have lenP: "length (take m (prefix h)) = m" "length (drop (m + 1) ?P) = prefix_len h - (m + 1)"
      "length ?P = prefix_len h"
    using m w(2,3) by simp_all
  have P: "?P = take m (prefix h) @ ?a # drop (m + 1) ?P"
    using take_take_nth [of m "prefix_len h" "prefix h"] m w(2,3) by (simp add: drop_take)
  have rest_sem: "sem rest (?d + m + 1) j = sem (ANode h cs) ?d j"
    if j: "take m (drop ?d j) = take m (prefix h)" "j ! (?d + m) = ?a" "?d + m < length j" for j
  proof -
    have "take (prefix_len h) (drop ?d j) = ?P \<longleftrightarrow>
        take (prefix_len h - (m + 1)) (drop (?d + m + 1) j) = drop (m + 1) ?P"
      if "?d + prefix_len h \<le> length j"
    proof -
      have "take (prefix_len h) (drop ?d j) =
          take m (prefix h) @ ?a # take (prefix_len h - (m + 1)) (drop (?d + m + 1) j)"
        using take_take_nth [of m "prefix_len h" "drop ?d j"] that m j by (simp add: add.commute)
      then show ?thesis using P by (metis same_append_eq list.inject)
    qed
    moreover have e: "?d + m + 1 + (prefix_len h - (m + 1)) = ?d + prefix_len h" using m by simp
    ultimately show ?thesis
      unfolding sem_inner_with [OF n(2)] sem_inner_with [OF inner_with_self [OF wf]] lenP e
      by (cases "?d + prefix_len h \<le> length j") (simp_all only: not_le simp_thms if_True)
  qed
  have old_None: "sem (ANode h cs) ?d j = None"
    if "\<not> (?d + m < length j \<and> take m (drop ?d j) = take m (prefix h) \<and> j ! (?d + m) = ?a)" for j
  proof -
    have "?d + m < length j \<and> take m (drop ?d j) = take m (prefix h) \<and> j ! (?d + m) = ?a"
      if p: "?d + prefix_len h \<le> length j" "take (prefix_len h) (drop ?d j) = ?P"
    proof (intro conjI)
      show "?d + m < length j" using p m by simp
      show "take m (drop ?d j) = take m (prefix h)" using take_eq_take_le [OF p(2), of m] m by simp
      have "take (prefix_len h) (drop ?d j) ! m = ?P ! m" by (simp only: p(2))
      then show "j ! (?d + m) = ?a" using m p(1) by simp
    qed
    then have "length j < ?d + prefix_len h \<or> take (prefix_len h) (drop ?d j) \<noteq> ?P"
      using that not_less by blast
    then show ?thesis unfolding sem_inner_with [OF inner_with_self [OF wf]] lenP
      by (simp only: simp_thms if_True)
  qed
  have "[?b \<mapsto> leaf_of s, ?a \<mapsto> rest] x =
      (if x = ?a then Some rest else if x = ?b then Some (leaf_of s) else None)" for x by simp
  then have new: "sem n ?d j =
      (if length j < ?d + m \<or> take m (drop ?d j) \<noteq> take m (prefix h) then None
       else if length j = ?d + m then Some 0
       else if j ! (?d + m) = ?a then sem rest (?d + m + 1) j
       else if j ! (?d + m) = ?b then (if j = ?k then Some 0 else None) else None)" for j
    by (simp only: sem_inner_with [OF n(3)] lenP case_kid sem_leaf_of)
  have kd: "take (?d + m + 1) ?k = p @ take m (prefix h) @ [?b]"
    using m len s(2) eq by (simp add: take_Suc_conv_app_nth take_add)
  have "art_wf p n"
  proof (rule wf_inner_with [OF n(3)])
    fix k ch assume k: "[?b \<mapsto> leaf_of s, ?a \<mapsto> rest] k = Some ch"
    show "art_wf (p @ take m (prefix h) @ [k]) ch"
    proof (cases "k = ?a")
      case True
      have "art_wf (p @ take m (prefix h) @ [?a]) rest"
      proof (rule wf_inner_with [OF n(2)])
        fix k' c assume "kids h cs k' = Some c"
        then have "art_wf (p @ ?P @ [k']) c" by (rule w(4))
        then show "art_wf ((p @ take m (prefix h) @ [?a]) @ drop (m + 1) ?P @ [k']) c"
          by (subst (asm) P) simp
      qed
      then show ?thesis using True k by simp
    next
      case False
      then have "k = ?b" "ch = leaf_of s" using k by (auto split: if_splits)
      moreover have "length (p @ take m (prefix h) @ [?b]) = ?d + m + 1" using lenP by simp
      then have "art_wf (p @ take m (prefix h) @ [?b]) (leaf_of s)"
        using kd by (intro wf_leaf_of [OF s(1)]) (simp only:)
      ultimately show ?thesis by simp
    qed
  qed
  moreover have "counted p ?k (sem (ANode h cs) ?d) (sem n ?d)"
    unfolding counted_def
  proof (intro conjI allI impI)
    show "sem n ?d ?k = Some (next_count (sem (ANode h cs) ?d ?k))"
      using ne len m eq old_None [of ?k] by (auto simp: new next_count_def)
    fix j assume j: "take ?d j = p \<and> j \<noteq> ?k"
    show "sem n ?d j = sem (ANode h cs) ?d j \<or> sem (ANode h cs) ?d j = None \<and> sem n ?d j = Some 0"
    proof (cases "?d + m < length j \<and> take m (drop ?d j) = take m (prefix h) \<and> j ! (?d + m) = ?a")
      case True
      then show ?thesis using rest_sem [of j] by (simp add: new)
    next
      case False
      then show ?thesis using old_None [OF False] j by (auto simp: new)
    qed
  qed
  ultimately show ?thesis using n(1) by blast
qed

subsection \<open>Insertion\<close>

lemma insert_at_counts:
  "art_wf p n \<Longrightarrow> stream_ok s \<Longrightarrow> take (length p) (skey s) = p \<Longrightarrow> safe_at n s (length p) \<Longrightarrow>
     \<exists>n' s'. lasting_insert_at n s (length p) = Inr (n', s') \<and> art_wf p n' \<and>
       counted p (skey s) (sem n (length p)) (sem n' (length p))"
proof (induction p n arbitrary: s rule: art_wf.induct)
  case (wf_leaf h p cs)
  have "art_wf p (ANode h cs)" using wf_leaf.hyps by (rule art_wf.wf_leaf)
  moreover have "safe_leaf h s (length p)" using wf_leaf by (simp add: safe_at.simps)
  ultimately show ?case
    using do_leaf_counts [of h p cs s] wf_leaf by (auto simp: lasting_insert_at.simps)
next
  case (wf_inner h cs p)
  let ?d = "length p" and ?k = "skey s" and ?P = "take (prefix_len h) (prefix h)"
  have wf: "art_wf p (ANode h cs)"
    by (rule art_wf.wf_inner) (use wf_inner.hyps in auto)
  have nl: "\<not> is_leaf h" by (rule inner.inner_node [OF wf_inner.hyps(1)])
  note s = wf_inner.prems(1,2)
  have len: "length ?k = st_end s" using s by simp
  have d: "?d \<le> st_end s" using arg_cong [OF s(2), of length] len by auto
  have plen: "prefix_len h \<le> length (prefix h)" using wf_inner.hyps by simp
  then have lenP: "length ?P = prefix_len h" by simp
  obtain m where m: "check_prefix h s ?d = Inr m" "m \<le> prefix_len h" "?d + m \<le> st_end s"
      "take m (drop ?d ?k) = take m (prefix h)"
      "m < prefix_len h \<and> ?d + m < st_end s \<longrightarrow> prefix h ! m \<noteq> ?k ! (?d + m)"
    using check_prefix_sem [OF s(1) d plen] by blast
  note self = inner_with_self [OF wf nl]
  consider "m \<noteq> prefix_len h" | "m = prefix_len h" "st_end s \<le> ?d + m"
    | "m = prefix_len h" "?d + m < st_end s" by linarith
  then show ?case
  proof cases
    case 1
    then have "?d + m < st_end s"
      using wf_inner.prems(3) nl by (simp add: safe_at.simps m(1))
    then obtain n where "lasting_split_prefix (ANode h cs) s ?d m = Inr n" "art_wf p n"
        "counted p ?k (sem (ANode h cs) ?d) (sem n ?d)"
      using split_prefix_counts [OF wf nl s _ _ m(4)] m 1 by auto
    then show ?thesis using 1 nl by (auto simp: lasting_insert_at.simps m(1))
  next
    case 2
    let ?n = "ANode (h\<lparr>count := count h + 1\<rparr>) cs"
    have n': "inner_with ?n ?P (count h + 1) (kids h cs)"
      using self by (auto simp: inner_with_def layout_ok_def on_flags_def list_ok_def index_ok_def
          direct_ok_def kids_def slot_of_def fun_eq_iff cong: option.case_cong)
    have "art_wf p ?n" by (rule wf_inner_with [OF n']) (rule art_wf_innerD(4) [OF wf nl])
    moreover have "counted p ?k (sem (ANode h cs) ?d) (sem ?n ?d)"
      by (rule counted_here [OF self n' s(2) refl]) (use 2 m lenP len in simp_all)
    ultimately show ?thesis using 2 m(1) nl
      by (auto simp: lasting_insert_at.simps stream_size_def)
  next
    case 3
    let ?b = "?k ! (?d + prefix_len h)"
    have b: "st_data s ! (?d + prefix_len h) = ?b" using 3 by simp
    have get: "stream_get s (?d + prefix_len h) = Inr ?b"
      using 3 s(1) by (simp add: stream_get_def rd_ok stream_ok_def)
    note code = lasting_insert_at.simps [of h cs] m(1) nl stream_size_def get inner.find_slot [OF wf_inner.hyps(1)]
    have kd: "take (length (p @ ?P @ [?b])) ?k = p @ ?P @ [?b]"
      using 3 m(4) s(2) len lenP by (simp add: take_Suc_conv_app_nth take_add)
    show ?thesis
    proof (cases "kids h cs ?b")
      case None
      have at: "child_at cs (slot_of h ?b) = Inr None"
        using inner.child_at_kids [OF wf_inner.hyps(1), of ?b] None
        by (cases "slot_of h ?b") simp_all
      have "is_full h = Inr True \<Longrightarrow> prefix_len h = 0 \<and> count h = 0"
        using wf_inner.prems(3) unfolding safe_at.simps m(1) Let_def b at
        using nl 3 by simp
      then obtain n where n: "lasting_add_leaf (ANode h cs) s (?d + prefix_len h) = Inr n"
          "inner_with n ?P (count h) ((kids h cs)(?b \<mapsto> leaf_of s))"
        using add_leaf_with [OF wf nl s(1), of "?d + prefix_len h"] 3 None unfolding b by blast
      have "art_wf p n"
        by (rule wf_inner_with [OF n(2)])
          (metis art_wf_innerD(4) [OF wf nl] wf_leaf_of [OF s(1) kd] fun_upd_apply option.inject)
      moreover have "counted p ?k (sem (ANode h cs) ?d) (sem n ?d)"
        by (rule counted_kid [OF self n(2) s(2) refl])
          (use 3 m(4) lenP len None in \<open>simp_all add: counted_leaf_of\<close>)
      moreover have "lasting_insert_at (ANode h cs) s ?d = Inr (n, s)"
        using 3 by (simp add: code Let_def b at n(1) del: skey_nth)
      ultimately show ?thesis by blast
    next
      case (Some c)
      then obtain i where i: "slot_of h ?b = Some i" by (auto simp: kids_def split: option.splits)
      have at: "child_at cs (slot_of h ?b) = Inr (Some (i, c))"
        using inner.child_at_kids [OF wf_inner.hyps(1), of ?b] Some i by simp
      have "safe_at c (stream_advance s 1) (?d + prefix_len h + 1)"
        using wf_inner.prems(3) unfolding safe_at.simps m(1) Let_def b at
        using nl 3 by simp
      then obtain c' s' where c: "lasting_insert_at c (stream_advance s 1) (?d + prefix_len h + 1) = Inr (c', s')"
          "art_wf (p @ ?P @ [?b]) c'"
          "counted (p @ ?P @ [?b]) ?k (sem c (?d + prefix_len h + 1)) (sem c' (?d + prefix_len h + 1))"
        using wf_inner.IH [OF Some, of "stream_advance s 1"] s kd plen by auto
      let ?n = "ANode h (cs[i := Some c'])"
      have n: "inner_with ?n ?P (count h) ((kids h cs)(?b \<mapsto> c'))"
        using self inner.put_ok [OF wf_inner.hyps(1) i, of c'] inner.kids_put [OF wf_inner.hyps(1) i, of c']
        by (simp add: inner_with_def)
      have "art_wf p ?n"
        by (rule wf_inner_with [OF n])
          (metis art_wf_innerD(4) [OF wf nl] c(2) fun_upd_apply option.inject)
      moreover have "counted p ?k (sem (ANode h cs) ?d) (sem ?n ?d)"
        by (rule counted_kid [OF self n s(2) refl]) (use 3 m(4) lenP len Some c(3) in simp_all)
      moreover have "lasting_insert_at (ANode h cs) s ?d = Inr (?n, s')"
        using 3 c(1) by (simp add: code Let_def b at del: skey_nth)
      ultimately show ?thesis by blast
    qed
  qed
qed

end
