(* ===== verification/Art_Props.thy ===== *)
theory Art_Props
  imports Art_Count Counting
begin

text \<open>
  The properties of the adaptive radix tree and its backend: what searching and inserting
  compute, what a run of insertions leaves, and the inputs on which the code loses keys or
  counts or stops.
\<close>

subsection \<open>Trees\<close>

definition root_wf :: "art_node option \<Rightarrow> bool" where
  "root_wf root \<longleftrightarrow> (case root of None \<Rightarrow> True | Some n \<Rightarrow> art_wf [] n)"

definition root_sem :: "art_node option \<Rightarrow> u8 list \<Rightarrow> u64 option" where
  "root_sem root k = (case root of None \<Rightarrow> None | Some n \<Rightarrow> sem n 0 k)"

definition root_safe :: "art_node option \<Rightarrow> art_stream \<Rightarrow> bool" where
  "root_safe root s \<longleftrightarrow> (case root of None \<Rightarrow> True | Some n \<Rightarrow> safe_at n s 0)"

lemma root_simps [simp]:
  "root_wf None" "root_wf (Some n) = art_wf [] n" "root_sem None k = None" "root_sem (Some n) k = sem n 0 k"
  "root_safe None s" "root_safe (Some n) s = safe_at n s 0"
  by (simp_all add: root_wf_def root_sem_def root_safe_def)

lemma root_search:
  "root_wf root \<Longrightarrow> stream_ok s \<Longrightarrow>
     \<exists>r. art_search root s = Inr r \<and> map_option (\<lambda>n. count (hdr n)) r = root_sem root (skey s)"
  using search_at_sem [of "[]" _ s 0] by (cases root) (auto simp: art_search_def)

lemma root_insert:
  assumes "root_wf root" "stream_ok s" "root_safe root s"
  shows "\<exists>n s'. lasting_insert root s = Inr (Some n, s') \<and> art_wf [] n \<and>
    counted [] (skey s) (root_sem root) (sem n 0)"
proof (cases root)
  case None
  then show ?thesis using assms(2) wf_leaf_of [of s "[]"]
    by (auto simp: lasting_insert_def make_leaf_eq counted_def next_count_def)
next
  case (Some n)
  then show ?thesis using insert_at_counts [of "[]" n s] assms
    by (auto simp: lasting_insert_def counted_def)
qed

subsection \<open>Stacks\<close>

text \<open>The stream \<open>art_tree_insert\<close> makes of an entry array, and the key it stands for.\<close>

definition stack_stream :: "callstack_entry list \<Rightarrow> nat \<Rightarrow> art_stream" where
  "stack_stream stack n = stream_init \<lparr>st_data = [], st_end = 16 * n, st_pos = 0\<rparr> (stack_bytes stack)"

definition stack_key :: "callstack_entry list \<Rightarrow> callstack_entry list" where
  "stack_key stack = (case stack_end stack of None \<Rightarrow> [] | Some n \<Rightarrow> take n stack)"

lemma stack_stream_ok:
  assumes "stack_end stack = Some n"
  shows "stream_ok (stack_stream stack n)" "skey (stack_stream stack n) = stack_bytes (stack_key stack)"
  using stack_end_Some [OF assms] assms
  by (simp_all add: stack_stream_def stream_init_def stream_ok_def skey_def stack_key_def take_stack_bytes)

definition stack_safe :: "art_node option \<Rightarrow> callstack_entry list \<Rightarrow> bool" where
  "stack_safe root stack \<longleftrightarrow>
     (case stack_end stack of None \<Rightarrow> False | Some n \<Rightarrow> root_safe root (stack_stream stack n))"

text \<open>
  The tree stores the counting list \<open>xs\<close> of stacks: a count is the number of arrivals, or
  one less, for the first arrival creates a key with count 0 unless it was a branch point.
\<close>

definition art_rep :: "art_node option \<Rightarrow> (callstack_entry list \<times> nat) list \<Rightarrow> bool" where
  "art_rep root xs \<longleftrightarrow> root_wf root \<and>
     (\<forall>k. let a = (case map_of xs k of None \<Rightarrow> 0 | Some n \<Rightarrow> n) in
       case root_sem root (stack_bytes k) of
         None \<Rightarrow> a = 0
       | Some c \<Rightarrow> c = of_nat a \<or> 0 < a \<and> c = of_nat (a - 1))"

lemma tree_insert_stream:
  "stack_end stack = Some n \<Longrightarrow>
     lasting_tree_insert root stack = rbind (lasting_insert root (stack_stream stack n)) (\<lambda>(r, s). Inr r)"
  by (simp add: lasting_tree_insert_def stack_stream_def)

lemma art_rep_insert:
  assumes rep: "art_rep root xs" and safe: "stack_safe root stack"
  shows "\<exists>root'. lasting_tree_insert root stack = Inr root' \<and> art_rep root' (bump (stack_key stack) xs)"
proof -
  obtain n where n: "stack_end stack = Some n" "root_safe root (stack_stream stack n)"
    using safe by (auto simp: stack_safe_def split: option.splits)
  note s = stack_stream_ok [OF n(1)]
  have wf: "root_wf root" using rep by (simp add: art_rep_def)
  obtain t s' where t: "lasting_insert root (stack_stream stack n) = Inr (Some t, s')" "art_wf [] t"
      "counted [] (stack_bytes (stack_key stack)) (root_sem root) (sem t 0)"
    using root_insert [OF wf s(1) n(2)] unfolding s(2) by blast
  have "let a = (case map_of (bump (stack_key stack) xs) k of None \<Rightarrow> 0 | Some n \<Rightarrow> n) in
       case sem t 0 (stack_bytes k) of
         None \<Rightarrow> a = 0
       | Some c \<Rightarrow> c = of_nat a \<or> 0 < a \<and> c = of_nat (a - 1)" for k
  proof -
    have old: "let a = (case map_of xs k of None \<Rightarrow> 0 | Some n \<Rightarrow> n) in
       case root_sem root (stack_bytes k) of
         None \<Rightarrow> a = 0
       | Some c \<Rightarrow> c = of_nat a \<or> 0 < a \<and> c = of_nat (a - 1)"
      using rep by (simp add: art_rep_def)
    show ?thesis
    proof (cases "k = stack_key stack")
      case True
      then have "sem t 0 (stack_bytes k) = Some (next_count (root_sem root (stack_bytes k)))"
        using t(3) by (simp add: counted_def)
      then show ?thesis using old True
        by (auto simp: map_of_bump next_count_def Let_def gr0_conv_Suc split: option.splits)
    next
      case False
      then have "sem t 0 (stack_bytes k) = root_sem root (stack_bytes k) \<or>
          root_sem root (stack_bytes k) = None \<and> sem t 0 (stack_bytes k) = Some 0"
        using t(3) by (simp add: counted_def)
      then show ?thesis using old False by (auto simp: map_of_bump Let_def)
    qed
  qed
  then show ?thesis using t(1,2)
    by (simp add: tree_insert_stream [OF n(1)] art_rep_def)
qed

text \<open>The same for the insertion of the code, as a step on the tree and the allocator, while memory
  lasts.\<close>

definition art_step ::
  "art_node option \<times> alloc_state \<Rightarrow> callstack_entry list \<Rightarrow> (art_node option \<times> alloc_state) result" where
  "art_step s stack = (case s of (t, a) \<Rightarrow> art_tree_insert t stack a)"

definition step_safe :: "art_node option \<times> alloc_state \<Rightarrow> callstack_entry list \<Rightarrow> bool" where
  "step_safe s stack \<longleftrightarrow> stack_safe (fst s) stack"

definition step_rep :: "art_node option \<times> alloc_state \<Rightarrow> (callstack_entry list \<times> nat) list \<Rightarrow> bool" where
  "step_rep s xs \<longleftrightarrow> art_rep (fst s) xs \<and> plan (snd s) = []"

lemma step_rep_insert:
  "step_rep s xs \<Longrightarrow> step_safe s stack \<Longrightarrow>
    \<exists>s'. art_step s stack = Inr s' \<and> step_rep s' (bump (stack_key stack) xs)"
  using art_rep_insert [of "fst s" xs stack]
  by (auto simp: step_rep_def step_safe_def art_step_def tree_insert_lasts split: prod.splits)

interpretation art: guarded_counter art_step stack_key step_rep step_safe
  by unfold_locales (rule step_rep_insert)

subsection \<open>Children\<close>

definition lookup_child :: "art_node \<Rightarrow> u8 \<Rightarrow> art_node option result" where
  "lookup_child n k =
     rbind (find_child (hdr n) k) (\<lambda>slot.
     rbind (child_at (arr n) slot) (\<lambda>r. Inr (map_option snd r)))"

lemma lookup_child_kids:
  "layout_ok (hdr n) (arr n) \<Longrightarrow> lookup_child n k = Inr (kids (hdr n) (arr n) k)"
  by (auto simp: lookup_child_def inner.find_slot inner.child_at_kids option.map_comp option.map_ident o_def kids_def
      split: option.split)

text \<open>Inputs for the witnesses: the keys AB and AC, and two stacks.\<close>

definition stream_AB :: art_stream where
  "stream_AB = \<lparr>st_data = [65, 66, 0], st_end = 2, st_pos = 0\<rparr>"

definition stream_AC :: art_stream where
  "stream_AC = \<lparr>st_data = [65, 67, 0], st_end = 2, st_pos = 0\<rparr>"

definition stack_a :: "callstack_entry list" where
  "stack_a = [\<lparr>ip = 1, cmap = 2\<rparr>, \<lparr>ip = 0, cmap = 0\<rparr>]"

definition stack_b :: "callstack_entry list" where
  "stack_b = [\<lparr>ip = 1, cmap = 3\<rparr>, \<lparr>ip = 0, cmap = 0\<rparr>]"

definition node_4 :: "u8 list \<Rightarrow> art_node" where
  "node_4 ks = ANode ((blank_hdr NODE_FLAGS_INNER_4 (ks @ replicate (4 - length ks) 0))
     \<lparr>key_len := length ks\<rparr>) (map (\<lambda>_. Some (leaf_of stream_AB)) ks @ replicate (4 - length ks) None)"

lemma stream_ok_AB: "stream_ok stream_AB" "stream_ok stream_AC" "art_wf [] (leaf_of stream_AB)"
  by (simp_all add: stream_ok_def stream_AB_def stream_AC_def wf_leaf_of)

text \<open>In each of the four layouts a child added under a new byte is found under that
  byte, and every other byte still finds what it found before.\<close>

theorem art_add_child_lookup:
  assumes "layout_ok (hdr n) (arr n)" "is_full (hdr n) = Inr False" "lookup_child n k = Inr None"
  shows "\<exists>n'. add_child n k c = Inr n' \<and> layout_ok (hdr n') (arr n') \<and>
    (\<forall>j. lookup_child n' j = (if j = k then Inr (Some c) else lookup_child n j))"
proof -
  have "kids (hdr n) (arr n) k = None" using assms(1,3) by (simp add: lookup_child_kids)
  from inner.add_new [OF assms(1,2) this, of c]
  obtain h' cs' where "add_child n k c = Inr (ANode h' cs')" "layout_ok h' cs'"
      "kids h' cs' = (kids (hdr n) (arr n))(k := Some c)" by auto
  then show ?thesis using assms(1)
    by (intro exI [of _ "ANode h' cs'"]) (simp add: lookup_child_kids)
qed

theorem art_add_child_lookup_witness:
  "\<exists>n'. add_child (node_4 [1, 2]) 3 (leaf_of stream_AC) = Inr n' \<and> layout_ok (hdr n') (arr n') \<and>
    (\<forall>j. lookup_child n' j = (if j = 3 then Inr (Some (leaf_of stream_AC)) else lookup_child (node_4 [1, 2]) j))"
  by (rule art_add_child_lookup) code_simp+

text \<open>C22. With memory for the new node, growing a full node of 4, 16 or 48 children keeps every child under its byte and
  makes room, but the new node has no prefix and the count 0.\<close>

theorem art_grow_lookup:
  assumes "layout_ok (hdr n) (arr n)" "is_full (hdr n) = Inr True" "plan a = []"
  shows "\<exists>n'. grow n a = Inr (n', a) \<and> layout_ok (hdr n') (arr n') \<and> is_full (hdr n') = Inr False \<and>
    (\<forall>k. lookup_child n' k = lookup_child n k) \<and> prefix_len (hdr n') = 0 \<and> count (hdr n') = 0"
proof -
  obtain n' where "lasting_grow (ANode (hdr n) (arr n)) = Inr n'" "grown (hdr n) (arr n) n'"
    using grow_kids [OF assms(1,2)] by blast
  then show ?thesis using assms(1) by (simp add: grow_lasts [OF assms(3)] grown_def lookup_child_kids)
qed

theorem art_grow_lookup_witness:
  "\<exists>n'. grow (node_4 [1, 2, 3, 4]) enough = Inr (n', enough) \<and> layout_ok (hdr n') (arr n') \<and> is_full (hdr n') = Inr False \<and>
    (\<forall>k. lookup_child n' k = lookup_child (node_4 [1, 2, 3, 4]) k) \<and> prefix_len (hdr n') = 0 \<and> count (hdr n') = 0"
  by (rule art_grow_lookup) code_simp+

subsection \<open>Searching and inserting\<close>

text \<open>C21. Search computes the count of the key on every well-formed tree: it returns a node
  exactly when the key is stored, and the node has the key's count.\<close>

theorem art_search_correct:
  assumes "root_wf root" "stream_ok s"
  shows "\<exists>r. art_search root s = Inr r \<and> map_option (\<lambda>n. count (hdr n)) r = root_sem root (skey s)"
  using assms by (rule root_search)

theorem art_search_correct_witness:
  "\<exists>r. art_search (Some (leaf_of stream_AB)) stream_AB = Inr r \<and>
    map_option (\<lambda>n. count (hdr n)) r = root_sem (Some (leaf_of stream_AB)) (skey stream_AB)"
  by (rule art_search_correct) (simp_all add: stream_ok_AB)

text \<open>C18. While memory lasts, an insertion outside the losing situations returns a well-formed tree in which the
  key's count is one more (0 for a new key); every other count is unchanged, but a branch
  point may have become a key with count 0.\<close>

theorem art_insert_correct:
  assumes "root_wf root" "stream_ok s" "root_safe root s" "plan a = []"
  shows "\<exists>n s'. art_insert root s a = Inr ((Some n, s'), a) \<and> root_wf (Some n) \<and>
    root_sem (Some n) (skey s) = Some (next_count (root_sem root (skey s))) \<and>
    (\<forall>k. k \<noteq> skey s \<longrightarrow> root_sem (Some n) k = root_sem root k \<or>
       root_sem root k = None \<and> root_sem (Some n) k = Some 0)"
  using root_insert [OF assms(1-3)] by (auto simp: counted_def insert_lasts [OF assms(4)])

theorem art_insert_correct_witness:
  "\<exists>n s'. art_insert (Some (leaf_of stream_AB)) stream_AC enough = Inr ((Some n, s'), enough) \<and> root_wf (Some n) \<and>
    root_sem (Some n) (skey stream_AC) = Some (next_count (root_sem (Some (leaf_of stream_AB)) (skey stream_AC))) \<and>
    (\<forall>k. k \<noteq> skey stream_AC \<longrightarrow> root_sem (Some n) k = root_sem (Some (leaf_of stream_AB)) k \<or>
       root_sem (Some (leaf_of stream_AB)) k = None \<and> root_sem (Some n) k = Some 0)"
proof (rule art_insert_correct)
  show "root_safe (Some (leaf_of stream_AB)) stream_AC" by code_simp
qed (simp_all add: stream_ok_AB)

text \<open>C28. An insertion with any outcomes of its allocations: it does what it does with enough memory and
  uses up successes only, or it dereferences the NULL of a failed call, which the code does not
  test. The leaf of the first stack of a tree is such a call.\<close>

theorem art_insert_any_memory:
  assumes "stack_end first \<noteq> None"
  shows "(art_tree_insert root stack a = Inl Null_deref \<and> False \<in> set (plan a) \<or>
      (\<exists>j. False \<notin> set (take j (plan a)) \<and>
         art_tree_insert root stack a = rbind (art_tree_insert root stack (a\<lparr>plan := []\<rparr>))
           (\<lambda>(t, b). Inr (t, a\<lparr>plan := drop j (plan a)\<rparr>)))) \<and>
    art_tree_insert None first (a\<lparr>plan := False # outcomes\<rparr>) = Inl Null_deref"
proof
  have "rbind (art_tree_insert root stack (a\<lparr>plan := []\<rparr>)) (\<lambda>(t, b). Inr (t, a\<lparr>plan := drop j (plan a)\<rparr>)) =
      rbind (lasting_tree_insert root stack) (\<lambda>t. Inr (t, a\<lparr>plan := drop j (plan a)\<rparr>))" for j
    by (cases "lasting_tree_insert root stack") (simp_all add: tree_insert_lasts)
  then show "art_tree_insert root stack a = Inl Null_deref \<and> False \<in> set (plan a) \<or>
      (\<exists>j. False \<notin> set (take j (plan a)) \<and>
         art_tree_insert root stack a = rbind (art_tree_insert root stack (a\<lparr>plan := []\<rparr>))
           (\<lambda>(t, b). Inr (t, a\<lparr>plan := drop j (plan a)\<rparr>)))"
    using grants_tree_insert [of a root stack] by (simp only: grants_def)
  show "art_tree_insert None first (a\<lparr>plan := False # outcomes\<rparr>) = Inl Null_deref"
    using assms by (auto simp: art_tree_insert_def art_insert_def make_leaf_def alloc_node_def node_calloc_def calloc_ok_def)
qed

theorem art_insert_any_memory_witness:
  "(art_tree_insert (Some (leaf_of stream_AB)) stack_b (enough\<lparr>plan := [True, False]\<rparr>) = Inl Null_deref \<and>
        False \<in> set (plan (enough\<lparr>plan := [True, False]\<rparr>)) \<or>
      (\<exists>j. False \<notin> set (take j (plan (enough\<lparr>plan := [True, False]\<rparr>))) \<and>
         art_tree_insert (Some (leaf_of stream_AB)) stack_b (enough\<lparr>plan := [True, False]\<rparr>) =
           rbind (art_tree_insert (Some (leaf_of stream_AB)) stack_b (enough\<lparr>plan := [True, False]\<rparr>\<lparr>plan := []\<rparr>))
             (\<lambda>(t, b). Inr (t, enough\<lparr>plan := drop j (plan (enough\<lparr>plan := [True, False]\<rparr>))\<rparr>)))) \<and>
    art_tree_insert None stack_a (enough\<lparr>plan := [False, True]\<rparr>) = Inl Null_deref"
proof -
  have "stack_end stack_a \<noteq> None" by code_simp
  from art_insert_any_memory [OF this, of "Some (leaf_of stream_AB)" stack_b "enough\<lparr>plan := [True, False]\<rparr>" "[True]"]
  show ?thesis by simp
qed

text \<open>C20. After a run of insertions into an empty tree, with enough memory and each of them outside the losing
  situations when it comes, every stack that arrived is found, with the number of its
  arrivals or one less as its count; a stack that never arrived has no count or 0.\<close>

theorem art_counts:
  assumes "guarded art_step step_safe (None, a) stacks" "plan a = []"
  shows "\<exists>root b. run art_step (None, a) stacks = Inr (root, b) \<and> root_wf root \<and>
    (\<forall>k. let a = count_list (map stack_key stacks) k in
      case root_sem root (stack_bytes k) of
        None \<Rightarrow> a = 0
      | Some c \<Rightarrow> c = of_nat a \<or> 0 < a \<and> c = of_nat (a - 1))"
proof -
  have "step_rep (None, a) []" by (simp add: art_rep_def step_rep_def assms(2))
  then obtain root b where root: "run art_step (None, a) stacks = Inr (root, b)"
      "art_rep root (tally (map stack_key stacks))"
    using art.run_guarded_tally [of "(None, a)" stacks] assms(1) by (auto simp: step_rep_def)
  have "(case map_of (tally (map stack_key stacks)) k of None \<Rightarrow> 0 | Some n \<Rightarrow> n) =
      count_list (map stack_key stacks) k" for k
    by (simp add: map_of_tally count_list_0_iff)
  then show ?thesis using root by (auto simp: art_rep_def)
qed

theorem art_counts_witness:
  "\<exists>root b. run art_step (None, enough) [stack_a, stack_a, stack_b, stack_a, stack_b] = Inr (root, b) \<and> root_wf root \<and>
    (\<forall>k. let a = count_list (map stack_key [stack_a, stack_a, stack_b, stack_a, stack_b]) k in
      case root_sem root (stack_bytes k) of
        None \<Rightarrow> a = 0
      | Some c \<Rightarrow> c = of_nat a \<or> 0 < a \<and> c = of_nat (a - 1))"
proof (rule art_counts)
  show "guarded art_step step_safe (None, enough) [stack_a, stack_a, stack_b, stack_a, stack_b]" by code_simp
qed simp

end
