(* ===== verification/Art_Faults.thy ===== *)
theory Art_Faults
  imports Art_Props
begin

text \<open>
  The situations \<open>safe_at\<close> leaves out, each with what the code does there: a count that is
  reset, keys that can no longer be found, an assertion that fails.
\<close>

subsection \<open>Common parts longer than one prefix\<close>

lemma long_prefix_root:
  assumes leaf: "is_leaf h" "key_len h \<le> length (key h)" "key_len h < 2 ^ 31" and s: "stream_ok s"
    and m: "128 < m" "m \<le> 256" "m < key_len h" "m < st_end s"
    and eq: "take m (key h) = take m (skey s)" and ne: "key h ! m \<noteq> skey s ! m"
  shows "\<exists>n. lasting_insert (Some (ANode h cs)) s = Inr (Some n, s) \<and>
    inner_with n (take (m - 128) (drop 128 (skey s))) 0
      [key h ! m \<mapsto> ANode h cs, skey s ! m \<mapsto> leaf_of s]"
proof -
  let ?B = "blank_hdr NODE_FLAGS_INNER_4 (replicate 4 0)" and ?r = "m - 128"
  let ?P = "take ?r (drop 128 (skey s))"
  let ?q = "take 128 (st_data s)"
  let ?h = "?B\<lparr>prefix := ?P @ drop ?r ?q, prefix_len := ?r\<rparr>"
  have data: "st_end s \<le> length (st_data s)" "st_end s < 2 ^ 31" using s by (auto simp: stream_ok_def)
  have nth: "key h ! i = st_data s ! i" if "i < m" for i
    using arg_cong [OF eq, of "\<lambda>xs. xs ! i"] that m by simp
  obtain m' where m': "leaf_match h s 0 = Inr m'" "m' \<le> key_len h" "m' \<le> st_end s"
      "\<forall>i. i < m' \<longrightarrow> key h ! i = st_data s ! i"
      "m' < key_len h \<and> m' < st_end s \<longrightarrow> key h ! m' \<noteq> st_data s ! m'"
    using leaf_match_spec [OF leaf(2) data(1), of 0] by auto
  have "\<not> m < m'" using m' ne m by auto
  moreover have "\<not> m' < m" using m' nth m by auto
  ultimately have mm: "leaf_match h s 0 = Inr m" using m'(1) by simp
  have chain: "lasting_chain_loop s 0 0 m [] ?B = Inr ([], ?B\<lparr>prefix := ?q, prefix_len := 128\<rparr>, ?r)"
    using m data by (simp add: lasting_chain_loop.simps PREFIX_SIZE_def stream_slice_def Let_def)
  have P: "stream_slice s 128 ?r = Inr ?P"
    using m data by (simp add: stream_slice_def skey_def drop_take min_def)
  have lenP: "length ?P = ?r" using m s by simp
  have n0: "inner_with (ANode ?h (replicate 4 None)) ?P 0 Map.empty"
    using blank_with [of "?P @ drop ?r ?q" ?r] m data lenP by (simp add: PREFIX_SIZE_def blank_hdr_def)
  obtain n1 where n1: "add_child (ANode ?h (replicate 4 None)) (key h ! m) (ANode h cs) = Inr n1"
      "inner_with n1 ?P 0 [key h ! m \<mapsto> ANode h cs]" "flags (hdr n1) = NODE_FLAGS_INNER_4"
      "key_len (hdr n1) \<le> 1"
    using add_child_with [OF n0, of "key h ! m" "ANode h cs"] by (auto simp: full_4 blank_hdr_def)
  obtain n2 where n2: "add_child n1 (st_data s ! m) (leaf_of s) = Inr n2"
      "inner_with n2 ?P 0 [key h ! m \<mapsto> ANode h cs, st_data s ! m \<mapsto> leaf_of s]"
    using add_child_with [OF n1(2), of "st_data s ! m" "leaf_of s"] n1(3,4) ne m
    by (auto simp: full_4)
  have w: "0 < (of_nat (key_len h) - of_nat m :: u32)" "0 < (of_nat (st_end s) - of_nat m :: u32)"
    using word_gt_0_diff [of 0 m "key_len h"] word_gt_0_diff [of 0 m "st_end s"] m leaf(3) data(2)
    by simp_all
  have "lasting_split_leaf (ANode h cs) s 0 m = Inr n2"
    using m data leaf(2) w n1(1) n2(1)
    by (simp add: lasting_split_leaf_def fresh_inner_4 chain P make_leaf_eq rd_ok stream_size_def Let_def)
  then show ?thesis using n2(2) m leaf(1) mm
    by (auto simp: lasting_insert_def lasting_insert_at.simps lasting_do_leaf_def stream_size_def)
qed

text \<open>Two keys of 130 bytes that differ in the last.\<close>

definition long_stream :: "u8 \<Rightarrow> art_stream" where
  "long_stream b = \<lparr>st_data = 1 # replicate 128 2 @ [b, 0], st_end = 130, st_pos = 0\<rparr>"

text \<open>C29. When the first two keys share between 129 and 256 bytes, the chain loop stores only
  the part of the common bytes after the first 128, at depth 0: neither key is found any
  more (unless the common part happens to repeat itself with period 128).\<close>

theorem art_long_prefix_lost:
  assumes "is_leaf h" "key_len h \<le> length (key h)" "key_len h < 2 ^ 31" "stream_ok s"
    and m: "128 < m" "m \<le> 256" "m < key_len h" "m < st_end s"
    and eq: "take m (key h) = take m (skey s)" "key h ! m \<noteq> skey s ! m"
    and new: "take (m - 128) (skey s) \<noteq> take (m - 128) (drop 128 (skey s))"
    and mem: "plan a = []"
  shows "\<exists>n. art_insert (Some (ANode h cs)) s a = Inr ((Some n, s), a) \<and>
    root_sem (Some n) (skey s) = None \<and> root_sem (Some n) (take (key_len h) (key h)) = None"
proof -
  obtain n where n: "lasting_insert (Some (ANode h cs)) s = Inr (Some n, s)"
      "inner_with n (take (m - 128) (drop 128 (skey s))) 0 [key h ! m \<mapsto> ANode h cs, skey s ! m \<mapsto> leaf_of s]"
    using long_prefix_root [OF assms(1-4) m eq] by blast
  have len: "length (take (m - 128) (drop 128 (skey s))) = m - 128" using m assms(4) by simp
  have "sem n 0 k = None" if "take m k = take m (skey s)" for k
  proof -
    have "take (m - 128) k = take (m - 128) (skey s)" using take_eq_take_le [OF that] by simp
    then have "take (m - 128) (drop 0 k) \<noteq> take (m - 128) (drop 128 (skey s))" using new by simp
    then show ?thesis unfolding sem_inner_with [OF n(2)] len by (simp only: simp_thms if_True)
  qed
  then show ?thesis using n(1) eq(1) m by (simp add: insert_lasts [OF mem])
qed

theorem art_long_prefix_lost_witness:
  "\<exists>n. art_insert (Some (leaf_of (long_stream 3))) (long_stream 4) enough = Inr ((Some n, long_stream 4), enough) \<and>
    root_sem (Some n) (skey (long_stream 4)) = None \<and>
    root_sem (Some n) (take 130 (st_data (long_stream 3))) = None"
  using art_long_prefix_lost [of "hdr (leaf_of (long_stream 3))" "long_stream 4" 129 enough "[]"]
  by (simp add: leaf_of_def long_stream_def skey_def stream_ok_def is_leaf_def blank_hdr_def nth_append
      numeral_eq_Suc [of "num.Bit1 num.One"])

subsection \<open>Keys that extend a leaf's key\<close>

lemma leaf_match_root:
  assumes "key_len h \<le> length (key h)" "stream_ok s" "key_len h \<le> st_end s"
    "take (key_len h) (skey s) = take (key_len h) (key h)"
  shows "leaf_match h s 0 = Inr (key_len h)"
proof -
  have data: "st_end s \<le> length (st_data s)" using assms(2) by (simp add: stream_ok_def)
  obtain m where m: "leaf_match h s 0 = Inr m" "m \<le> key_len h"
      "m < key_len h \<and> m < st_end s \<longrightarrow> key h ! m \<noteq> st_data s ! m"
    using leaf_match_spec [OF assms(1) data, of 0] by auto
  have "key h ! m = st_data s ! m" if "m < key_len h"
    using arg_cong [OF assms(4), of "\<lambda>xs. xs ! m"] that assms(3) by simp
  then have "\<not> m < key_len h" using m(3) assms(3) by auto
  then have "m = key_len h" using m(2) by linarith
  then show ?thesis using m(1) by simp
qed

text \<open>C31. Inserting a key that extends the key of a leaf replaces the leaf by an inner node:
  the count the leaf had is gone, whatever it was, and its key starts again at 0.\<close>

theorem art_extension_resets_count:
  assumes "is_leaf h" "key_len h \<le> length (key h)" "key_len h \<le> 128" "stream_ok s"
    and ext: "key_len h < st_end s" "take (key_len h) (skey s) = take (key_len h) (key h)"
    and mem: "plan a = []"
  shows "\<exists>n. art_insert (Some (ANode h cs)) s a = Inr ((Some n, s), a) \<and>
    root_sem (Some n) (take (key_len h) (key h)) = Some 0"
proof -
  let ?m = "key_len h"
  have lm: "leaf_match h s 0 = Inr ?m" using leaf_match_root assms by simp
  have "\<exists>n. lasting_split_leaf (ANode h cs) s 0 ?m = Inr n \<and>
      inner_with n (take (?m - 0) (drop 0 (skey s))) 0 (split_kids (ANode h cs) s ?m)"
    by (rule split_leaf_with) (use assms in \<open>simp_all add: PREFIX_SIZE_def\<close>)
  then obtain n where n: "lasting_split_leaf (ANode h cs) s 0 ?m = Inr n"
      "inner_with n (take ?m (key h)) 0 (split_kids (ANode h cs) s ?m)"
    using ext(2) by auto
  have len: "length (take ?m (key h)) = ?m" using assms(2) by simp
  have "sem n 0 (take ?m (key h)) = Some 0"
    unfolding sem_inner_with [OF n(2)] len by (simp add: assms(2))
  moreover have "lasting_insert (Some (ANode h cs)) s = Inr (Some n, s)"
    using assms(1) ext(1) n(1)
    by (simp add: lasting_insert_def lasting_insert_at.simps lasting_do_leaf_def lm stream_size_def)
  ultimately show ?thesis by (simp add: insert_lasts [OF mem])
qed

theorem art_extension_resets_count_witness:
  "\<exists>n. art_insert (Some (ANode ((blank_hdr 1 [65])\<lparr>key_len := 1, count := 7\<rparr>) [])) stream_AB enough = Inr ((Some n, stream_AB), enough) \<and>
    root_sem (Some n) [65] = Some 0"
  using art_extension_resets_count [of "(blank_hdr 1 [65])\<lparr>key_len := 1, count := 7\<rparr>" stream_AB enough "[]"]
  by (simp add: is_leaf_def blank_hdr_def skey_def stream_AB_def stream_ok_def)

subsection \<open>Equal keys in different buffers\<close>

text \<open>C32. The comparison that confirms a match starts at the depth of the leaf but compares as
  many bytes as the whole key has, so it reads past both keys. When those bytes differ, the
  second arrival of a key resets its count to 0.\<close>

theorem art_overread_resets_count:
  assumes leaf: "is_leaf h" "art_wf p (ANode h cs)" and s: "stream_ok s"
    and same: "skey s = take (key_len h) (key h)" and short: "st_end s - length p \<le> 128"
    and over: "memcmp_eq (drop (length p) (key h)) (drop (length p) (st_data s)) (st_end s) = Inr False"
    and mem: "plan a = []"
  shows "\<exists>n. do_leaf (ANode h cs) s (length p) a = Inr (n, a) \<and> sem n (length p) (skey s) = Some 0"
proof -
  let ?d = "length p"
  note w = art_wf_leafD [OF leaf(2,1)]
  have len: "key_len h = st_end s"
    using arg_cong [OF same, of length] w(1) s by simp
  have d: "?d \<le> st_end s" using arg_cong [OF w(3), of length] w(1) len by auto
  have data: "st_end s \<le> length (st_data s)" using s by (simp add: stream_ok_def)
  obtain m where m: "leaf_match h s ?d = Inr m" "m \<le> st_end s"
      "m < st_end s \<longrightarrow> key h ! m \<noteq> st_data s ! m"
    using leaf_match_spec [OF w(1) data, of ?d] d len by auto
  have "key h ! m = st_data s ! m" if "m < st_end s"
    using arg_cong [OF same, of "\<lambda>xs. xs ! m"] that len by simp
  then have "m = st_end s" using m(2,3) by (metis le_less)
  then have lm: "leaf_match h s ?d = Inr (st_end s)" using m(1) by simp
  have "\<exists>n. lasting_split_leaf (ANode h cs) s ?d (st_end s) = Inr n \<and>
      inner_with n (take (st_end s - ?d) (drop ?d (skey s))) 0 (split_kids (ANode h cs) s (st_end s))"
    by (rule split_leaf_with) (use w s d len short in \<open>simp_all add: PREFIX_SIZE_def\<close>)
  then obtain n where n: "lasting_split_leaf (ANode h cs) s ?d (st_end s) = Inr n"
      "inner_with n (take (st_end s - ?d) (drop ?d (skey s))) 0 (split_kids (ANode h cs) s (st_end s))"
    by blast
  have l: "length (take (st_end s - ?d) (drop ?d (skey s))) = st_end s - ?d" using s by simp
  have "sem n ?d (skey s) = Some 0"
    unfolding sem_inner_with [OF n(2)] l using d s by simp
  moreover have "lasting_do_leaf (ANode h cs) s ?d = Inr n"
    using leaf(1) over n(1) by (simp add: lasting_do_leaf_def lm stream_size_def len del: memcmp_eq_Inr)
  ultimately show ?thesis by (simp add: do_leaf_lasts [OF mem])
qed

theorem art_overread_resets_count_witness:
  "\<exists>n. do_leaf (ANode ((blank_hdr 1 [65, 66, 1])\<lparr>key_len := 2, count := 7\<rparr>) []) stream_AB (length [65 :: u8]) enough = Inr (n, enough) \<and>
    sem n (length [65 :: u8]) (skey stream_AB) = Some 0"
proof (rule art_overread_resets_count)
  show "art_wf [65] (ANode ((blank_hdr 1 [65, 66, 1])\<lparr>key_len := 2, count := 7\<rparr>) [])"
    by (rule wf_leaf) (simp_all add: is_leaf_def blank_hdr_def)
qed (simp_all add: is_leaf_def blank_hdr_def skey_def stream_AB_def stream_ok_def memcmp_eq_def)

subsection \<open>Growing\<close>

text \<open>C30. A full node with a prefix that has to grow loses the prefix and its count: its own
  key and the key just inserted are no longer found, unless a child happens to sit under
  the first byte of the lost prefix.\<close>

theorem art_grow_loses_keys:
  assumes wf: "root_wf (Some (ANode h cs))" and full: "\<not> is_leaf h" "is_full h = Inr True"
    and s: "stream_ok s" "prefix_len h < st_end s"
    and p: "take (prefix_len h) (skey s) = take (prefix_len h) (prefix h)" "0 < prefix_len h"
    and b: "kids h cs (skey s ! prefix_len h) = None"
    and a: "kids h cs (prefix h ! 0) = None" "prefix h ! 0 \<noteq> skey s ! prefix_len h"
    and mem: "plan a = []"
  shows "root_sem (Some (ANode h cs)) (take (prefix_len h) (prefix h)) = Some (count h) \<and>
    (\<exists>n. art_insert (Some (ANode h cs)) s a = Inr ((Some n, s), a) \<and>
       root_sem (Some n) (take (prefix_len h) (prefix h)) = None \<and> root_sem (Some n) (skey s) = None)"
proof -
  let ?P = "take (prefix_len h) (prefix h)" and ?b = "skey s ! prefix_len h"
  have wf': "art_wf [] (ANode h cs)" using wf by simp
  note w = art_wf_innerD [OF wf' full(1)]
  note self = inner_with_self [OF wf' full(1)]
  have lenP: "length ?P = prefix_len h" using w(2,3) by simp
  have old: "sem (ANode h cs) 0 ?P = Some (count h)"
    unfolding sem_inner_with [OF self] lenP by (simp add: w(2,3))
  obtain m where m: "check_prefix h s 0 = Inr m"
      "m = prefix_len h \<longleftrightarrow> \<not> (length (skey s) < 0 + prefix_len h \<or>
         take (prefix_len h) (drop 0 (skey s)) \<noteq> take (prefix_len h) (prefix h))"
    using check_prefix_sem [OF s(1), of 0 h] w(2,3) by auto
  then have cp: "check_prefix h s 0 = Inr (prefix_len h)" using s p(1) by simp
  have sb: "st_data s ! prefix_len h = ?b" using s(2) by simp
  have get: "stream_get s (prefix_len h) = Inr ?b"
    using s by (simp add: stream_get_def rd_ok stream_ok_def)
  have at: "child_at cs (slot_of h ?b) = Inr None"
    using inner.child_at_kids [OF w(1), of ?b] b by (cases "slot_of h ?b") simp_all
  obtain g where g: "lasting_grow (ANode h cs) = Inr g" "grown h cs g"
    using grow_kids [OF w(1) full(2)] by blast
  then have "inner_with g [] 0 (kids h cs)" "is_full (hdr g) = Inr False"
    by (auto simp: grown_def inner_with_def PREFIX_SIZE_def)
  from add_child_with [OF this b, of "leaf_of s"]
  obtain n where n: "add_child g ?b (leaf_of s) = Inr n" "inner_with n [] 0 ((kids h cs)(?b \<mapsto> leaf_of s))"
    by auto
  have "lasting_add_leaf (ANode h cs) s (prefix_len h) = Inr n"
    by (simp add: lasting_add_leaf_def full(2) g(1) make_leaf_eq get n(1))
  then have code: "lasting_insert (Some (ANode h cs)) s = Inr (Some n, s)"
    using full(1) cp s(2)
    by (simp add: lasting_insert_def lasting_insert_at.simps stream_size_def get inner.find_slot [OF w(1)] at
        Let_def del: skey_nth)
  have lost: "sem n 0 k = None" if "k ! 0 = prefix h ! 0" "k \<noteq> []" for k
    using that a by (simp add: sem_inner_with [OF n(2)])
  have "?P ! 0 = prefix h ! 0" "?P \<noteq> []" using p(2) w(2,3) by auto
  moreover have "skey s ! 0 = prefix h ! 0"
    using arg_cong [OF p(1), of "\<lambda>xs. xs ! 0"] p(2) s by simp
  moreover have "skey s \<noteq> []" using s by (metis length_skey list.size(3) not_less_zero)
  ultimately show ?thesis using code old lost by (simp add: insert_lasts [OF mem])
qed

text \<open>A full node of 4 with the prefix A and the count 7.\<close>

definition full_node :: art_node where
  "full_node = ANode
     ((blank_hdr NODE_FLAGS_INNER_4 [1, 2, 3, 4])
       \<lparr>key_len := 4, prefix_len := 1, prefix := 65 # replicate 127 0, count := 7\<rparr>)
     (map (\<lambda>k. Some (leaf_of \<lparr>st_data = [65, k], st_end = 2, st_pos = 0\<rparr>)) [1, 2, 3, 4])"

lemma full_node_kids:
  assumes "kids (hdr full_node) (arr full_node) k = Some c"
  shows "k \<in> {1, 2, 3, 4} \<and> c = leaf_of \<lparr>st_data = [65, k], st_end = 2, st_pos = 0\<rparr>"
proof -
  obtain i where "i < 4" "[1, 2, 3, 4] ! i = k"
      "map (\<lambda>k. Some (leaf_of \<lparr>st_data = [65, k], st_end = 2, st_pos = 0\<rparr>)) [1, 2, 3, 4] ! i = Some c"
    using assms
    by (auto simp: kids_def slot_of_list full_node_def blank_hdr_def simp del: upt_rec_numeral
        split: option.splits dest: find_upt_Some)
  then show ?thesis by (auto simp: numeral_eq_Suc less_Suc_eq)
qed

lemma full_node_no_kid: "k \<notin> {1, 2, 3, 4} \<Longrightarrow> kids (hdr full_node) (arr full_node) k = None"
  using full_node_kids [of k] by (cases "kids (hdr full_node) (arr full_node) k") auto

lemma full_node_wf: "art_wf [] full_node"
proof -
  have "art_wf [] (ANode (hdr full_node) (arr full_node))"
  proof (rule wf_inner)
    fix k c assume "kids (hdr full_node) (arr full_node) k = Some c"
    then show "art_wf ([] @ take (prefix_len (hdr full_node)) (prefix (hdr full_node)) @ [k]) c"
      using full_node_kids [of k c]
      by (auto intro!: wf_leaf_of simp: stream_ok_def skey_def full_node_def blank_hdr_def)
  qed code_simp+
  then show ?thesis by simp
qed

theorem art_grow_loses_keys_witness:
  "root_sem (Some (ANode (hdr full_node) (arr full_node))) [65] = Some 7 \<and>
    (\<exists>n. art_insert (Some (ANode (hdr full_node) (arr full_node))) stream_AB enough = Inr ((Some n, stream_AB), enough) \<and>
       root_sem (Some n) [65] = None \<and> root_sem (Some n) (skey stream_AB) = None)"
proof -
  have p: "take (prefix_len (hdr full_node)) (prefix (hdr full_node)) = [65]" "count (hdr full_node) = 7"
    by code_simp+
  show ?thesis
  proof (rule art_grow_loses_keys [of "hdr full_node" "arr full_node" stream_AB, unfolded p])
    show "root_wf (Some (ANode (hdr full_node) (arr full_node)))" using full_node_wf by simp
    show "\<not> is_leaf (hdr full_node)" by code_simp
    show "is_full (hdr full_node) = Inr True" by code_simp
    show "stream_ok stream_AB" by (rule stream_ok_AB)
    show "prefix_len (hdr full_node) < st_end stream_AB" by code_simp
    show "take (prefix_len (hdr full_node)) (skey stream_AB) = [65]" by code_simp
    show "0 < prefix_len (hdr full_node)" by code_simp
    show "kids (hdr full_node) (arr full_node) (skey stream_AB ! prefix_len (hdr full_node)) = None"
      by (rule full_node_no_kid) code_simp
    show "kids (hdr full_node) (arr full_node) (prefix (hdr full_node) ! 0) = None"
      by (rule full_node_no_kid) code_simp
    show "prefix (hdr full_node) ! 0 \<noteq> skey stream_AB ! prefix_len (hdr full_node)" by code_simp
  qed simp
qed

subsection \<open>Keys that end inside a prefix\<close>

text \<open>C33. A key that ends inside the prefix of an inner node makes the code read the byte
  after the key. When that byte continues the prefix, both new children get the same byte
  and the assertion of \<open>add_child\<close> stops the program.\<close>

theorem art_prefix_key_aborts:
  assumes inner: "\<not> is_leaf h" "prefix_len h \<le> length (prefix h)"
    and s: "st_end s < prefix_len h" "st_end s < 2 ^ 31" "st_end s < length (st_data s)"
    and p: "skey s = take (st_end s) (prefix h)"
    and after: "st_data s ! st_end s = prefix h ! st_end s"
    and mem: "plan a = []"
  shows "art_insert (Some (ANode h cs)) s a = Inl Assert_failed"
proof -
  let ?k = "prefix h ! st_end s"
  have ok: "stream_ok s" using s by (simp add: stream_ok_def)
  obtain m where m: "check_prefix h s 0 = Inr m" "m \<le> st_end s"
      "m < prefix_len h \<and> m < st_end s \<longrightarrow> prefix h ! m \<noteq> skey s ! m"
    using check_prefix_sem [OF ok, of 0 h] inner(2) by auto
  have "prefix h ! m = skey s ! m" if "m < st_end s"
    using arg_cong [OF p, of "\<lambda>xs. xs ! m"] that by simp
  then have "m = st_end s" using m(2,3) s(1) by (metis le_less less_trans)
  then have cp: "check_prefix h s 0 = Inr (st_end s)" using m(1) by simp
  let ?n0 = "ANode (blank_hdr NODE_FLAGS_INNER_4 (replicate 4 0)) (replicate 4 None)"
  have n0: "inner_with ?n0 [] 0 Map.empty"
    using blank_with [of "prefix (hdr ?n0)" 0] by (simp add: blank_hdr_def)
  have full: "is_full (hdr ?n0) = Inr False" by (simp add: full_4 blank_hdr_def)
  obtain n1 where n1: "add_child ?n0 ?k (leaf_of s) = Inr n1" "inner_with n1 [] 0 [?k \<mapsto> leaf_of s]"
      "flags (hdr n1) = NODE_FLAGS_INNER_4" "key_len (hdr n1) \<le> 1"
    using add_child_with [OF n0 full, of ?k "leaf_of s"] by (auto simp: full_4 blank_hdr_def)
  have "add_child n1 ?k c = Inl Assert_failed" for c
  proof -
    have l: "layout_ok (hdr n1) (arr n1)" "kids (hdr n1) (arr n1) ?k = Some (leaf_of s)"
      using n1(2) by (auto simp: inner_with_def)
    then obtain i where i: "slot_of (hdr n1) ?k = Some i" by (auto simp: kids_def split: option.splits)
    have "list_ok 4 (hdr n1) (arr n1)" using l(1) n1(3) by (auto simp: layout_ok_def on_flags_def)
    then have "scan_keys (key (hdr n1)) [0..<key_len (hdr n1)] ?k = Inr (Some i)"
      using i n1(3) by (simp add: scan_keys_find list_ok_def slot_of_list)
    then show ?thesis using n1(3,4)
      by (simp add: add_child_def full_4 key_absent_def Let_def)
  qed
  then show ?thesis
    using inner cp s n1(1)
    by (simp add: insert_lasts [OF mem] lasting_insert_def lasting_insert_at.simps lasting_split_prefix_def fresh_inner_4 make_leaf_eq
        stream_get_def rd_ok after Let_def)
qed

theorem art_prefix_key_aborts_witness:
  "art_insert (Some (ANode ((blank_hdr 2 (replicate 4 0))\<lparr>prefix_len := 3, prefix := 65 # 66 # replicate 126 0\<rparr>)
     (replicate 4 None))) stream_AB enough = Inl Assert_failed"
  by (rule art_prefix_key_aborts)
    (simp_all add: is_leaf_def blank_hdr_def skey_def stream_AB_def)

end
