(* ===== verification/Art_Type.thy ===== *)
theory Art_Type
  imports Art_Props
begin

text \<open>
  The radix tree stays well-formed whatever is inserted: also the insertions that lose or
  miscount keys only build nodes of one of the five kinds, with arrays of their kind's size.
\<close>

subsection \<open>Well-formed nodes\<close>

inductive art_typed :: "art_node \<Rightarrow> bool" where
  leaf: "flags h = NODE_FLAGS_LEAF \<Longrightarrow> key_len h \<le> length (key h) \<Longrightarrow> art_typed (ANode h cs)"
| inner: "layout_ok h cs \<Longrightarrow> prefix_len h \<le> PREFIX_SIZE \<Longrightarrow> length (prefix h) = PREFIX_SIZE \<Longrightarrow>
    (\<And>k c. kids h cs k = Some c \<Longrightarrow> art_typed c) \<Longrightarrow> art_typed (ANode h cs)"

inductive_simps art_typed_ANode: "art_typed (ANode h cs)"

lemma typed_leaf_iff: "is_leaf h \<Longrightarrow> art_typed (ANode h cs) \<longleftrightarrow> flags h = NODE_FLAGS_LEAF \<and> key_len h \<le> length (key h)"
  using inner.inner_node by (auto simp: art_typed_ANode)

lemma typed_inner_iff:
  "\<not> is_leaf h \<Longrightarrow> art_typed (ANode h cs) \<longleftrightarrow>
     layout_ok h cs \<and> prefix_len h \<le> PREFIX_SIZE \<and> length (prefix h) = PREFIX_SIZE \<and> (\<forall>k c. kids h cs k = Some c \<longrightarrow> art_typed c)"
  by (auto simp: art_typed_ANode is_leaf_def)

lemma leaf_of_typed: "st_end s \<le> length (st_data s) \<Longrightarrow> art_typed (leaf_of s)"
  unfolding leaf_of_def by (rule art_typed.leaf) (simp_all add: blank_hdr_def)

subsection \<open>Children\<close>

lemma key_absent_kids:
  assumes "layout_ok h cs" "key_absent h cs k = Inr True"
  shows "kids h cs k = None"
proof -
  consider "flags h = NODE_FLAGS_INNER_4 \<or> flags h = NODE_FLAGS_INNER_16" "key_len h \<le> length (key h)"
    | "flags h = NODE_FLAGS_INNER_48" | "flags h = NODE_FLAGS_INNER_256"
    using assms(1) by (auto simp: layout_ok_def on_flags_def list_ok_def)
  then show ?thesis
  proof cases
    case 1
    then have "scan_keys (key h) [0..<key_len h] k = Inr (slot_of h k)"
      by (simp add: scan_keys_find slot_of_list)
    then show ?thesis using assms(2) 1(1) by (auto simp: key_absent_def kids_def)
  qed (use assms(2) in \<open>auto simp: key_absent_def kids_def slot_of_def\<close>)
qed

lemma add_child_typed:
  assumes "art_typed m" "\<not> is_leaf (hdr m)" "art_typed c" "add_child m k c = Inr n"
  shows "art_typed n" "\<not> is_leaf (hdr n)"
proof -
  obtain h cs where m: "m = ANode h cs" using art_node.exhaust by blast
  have ok: "layout_ok h cs" using assms(1,2) by (simp add: m typed_inner_iff)
  have "is_full h = Inr False" "key_absent h cs k = Inr True" using assms(4) by (auto simp: add_child_def m)
  from inner.add_new [OF ok this(1) key_absent_kids [OF ok this(2)], of c] obtain h' cs' where
    n: "n = ANode h' cs'" "layout_ok h' cs'" "same_path h h'" "kids h' cs' = (kids h cs)(k := Some c)"
    using assms(4) by (auto simp: m)
  then show leaf: "\<not> is_leaf (hdr n)" by (simp add: inner.inner_node)
  show "art_typed n"
    using n leaf assms(1-3) by (auto simp: m typed_inner_iff same_path_def)
qed

lemma put_typed:
  assumes "art_typed (ANode h cs)" "\<not> is_leaf h" "slot_of h k = Some i" "art_typed c"
  shows "art_typed (ANode h (cs[i := Some c]))"
  using assms inner.put_ok [of h cs k i c] inner.kids_put [of h cs k i c] by (auto simp: typed_inner_iff)

lemma grow_typed:
  assumes "art_typed (ANode h cs)" "\<not> is_leaf h" "is_full h = Inr True" "lasting_grow (ANode h cs) = Inr n"
  shows "art_typed n" "\<not> is_leaf (hdr n)"
proof -
  have ok: "layout_ok h cs" using assms(1,2) by (simp add: typed_inner_iff)
  from grow_kids [OF ok assms(3)] have g: "grown h cs n" using assms(4) by auto
  then show "\<not> is_leaf (hdr n)" using inner.inner_node unfolding grown_def by blast
  then show "art_typed n" using g assms(1,2)
    by (cases n) (auto simp: grown_def typed_inner_iff)
qed

lemma add_leaf_typed:
  assumes "art_typed (ANode h cs)" "\<not> is_leaf h" "st_end s \<le> length (st_data s)" "lasting_add_leaf (ANode h cs) s d = Inr n"
  shows "art_typed n"
proof -
  obtain full m k where m: "is_full h = Inr full" "(if full then lasting_grow (ANode h cs) else Inr (ANode h cs)) = Inr m"
      "add_child m k (leaf_of s) = Inr n"
    using assms(4) by (auto simp: lasting_add_leaf_def make_leaf_eq)
  have "art_typed m" "\<not> is_leaf (hdr m)"
    using m(1,2) grow_typed [OF assms(1,2)] assms(1,2) by (auto split: if_splits)
  then show ?thesis by (rule add_child_typed(1) [OF _ _ leaf_of_typed [OF assms(3)] m(3)])
qed

subsection \<open>Splits\<close>

text \<open>Headers of the inner nodes that the splits make, with \<open>n\<close> keys.\<close>

definition new_hdr :: "nat \<Rightarrow> art_hdr \<Rightarrow> bool" where
  "new_hdr n h \<longleftrightarrow> flags h = NODE_FLAGS_INNER_4 \<and> length (key h) = 4 \<and> key_len h = n \<and>
     length (prefix h) = PREFIX_SIZE \<and> prefix_len h \<le> PREFIX_SIZE"

lemma new_hdr_blank: "new_hdr 0 (blank_hdr NODE_FLAGS_INNER_4 (replicate 4 0))"
  by (simp add: new_hdr_def blank_hdr_def)

lemma new_hdr_typed: "new_hdr 0 h \<Longrightarrow> art_typed (ANode h (replicate 4 None)) \<and> \<not> is_leaf h"
  by (auto simp: new_hdr_def is_leaf_def layout_ok_def on_flags_def list_ok_def kids_def slot_of_list
      intro!: art_typed.inner)

lemma link_outer_typed:
  assumes "new_hdr 1 h" "art_typed n"
  shows "art_typed (link_outer h n)"
proof -
  have h: "flags h = NODE_FLAGS_INNER_4" "key_len h = 1" using assms(1) by (simp_all add: new_hdr_def)
  have "c = n" if "kids h ((replicate 4 None)[0 := Some n]) k = Some c" for k c
  proof -
    obtain i where i: "slot_of h k = Some i" "(replicate 4 None)[0 := Some n] ! i = Some c"
      using \<open>kids h ((replicate 4 None)[0 := Some n]) k = Some c\<close> unfolding kids_def by (cases "slot_of h k") auto
    have "i = 0" using list_slot_Some [OF _ i(1)] h by simp
    then show ?thesis using i(2) by simp
  qed
  moreover have "layout_ok h ((replicate 4 None)[0 := Some n])"
  proof -
    have "distinct (take 1 (key h))" by (cases "key h") simp_all
    then have "list_ok 4 h ((replicate 4 None)[0 := Some n])"
      using assms(1) by (simp add: new_hdr_def list_ok_def)
    then show ?thesis using h(1) by (simp add: layout_ok_def on_flags_def)
  qed
  ultimately show ?thesis using assms unfolding link_outer_def
    by (intro art_typed.inner) (auto simp: new_hdr_def)
qed

lemma chain_loop_typed:
  "lasting_chain_loop s d j rem outers new = Inr (outers', new', rem') \<Longrightarrow> \<forall>h \<in> set outers. new_hdr 1 h \<Longrightarrow> new_hdr 0 new \<Longrightarrow>
     (\<forall>h \<in> set outers'. new_hdr 1 h) \<and> new_hdr 0 new' \<and> rem' \<le> PREFIX_SIZE"
proof (induction s d j rem outers new rule: lasting_chain_loop.induct)
  case (1 s d j rem outers new)
  show ?case
  proof (cases "PREFIX_SIZE < rem")
    case False
    then have "lasting_chain_loop s d j rem outers new = Inr (outers, new, rem)" by (simp add: lasting_chain_loop.simps)
    then show ?thesis using "1.prems" False by auto
  next
    case True
    then obtain p where p: "stream_slice s (d + j * PREFIX_SIZE) PREFIX_SIZE = Inr p" "length p = PREFIX_SIZE"
      using "1.prems"(1) by (subst (asm) lasting_chain_loop.simps) (auto simp: stream_slice_def Let_def split: if_splits)
    let ?new = "new\<lparr>prefix := p, prefix_len := PREFIX_SIZE\<rparr>" and ?rem = "rem - PREFIX_SIZE"
    have new: "new_hdr 0 ?new" using "1.prems"(3) p(2) by (simp add: new_hdr_def)
    note run = "1.prems"(1) [unfolded lasting_chain_loop.simps [of s d j rem outers new], simplified True p(1) if_True rbind.simps Let_def]
    show ?thesis
    proof (cases "PREFIX_SIZE < ?rem")
      case more: True
      obtain k where k: "stream_get s (d + j * PREFIX_SIZE + 1) = Inr k" "wr (key ?new) 0 k = Inr ((key new)[0 := k])"
          "lasting_chain_loop s d (j + 1) (?rem - 1) (outers @ [?new\<lparr>key := (key new)[0 := k], key_len := 1\<rparr>])
            (blank_hdr NODE_FLAGS_INNER_4 (replicate 4 0)) = Inr (outers', new', rem')"
        using run more by (auto simp: fresh_inner_4)
      have "\<forall>h \<in> set (outers @ [?new\<lparr>key := (key new)[0 := k], key_len := 1\<rparr>]). new_hdr 1 h"
        using "1.prems"(2) new by (auto simp: new_hdr_def)
      then show ?thesis
        using "1.IH"(1) [OF True p(1) refl refl more fresh_inner_4 k(1,2)] k(3) new_hdr_blank by simp
    next
      case False
      then show ?thesis using "1.IH"(2) [OF True p(1) refl refl False _ "1.prems"(2) new] run by simp
    qed
  qed
qed

lemma foldr_link: "\<forall>h \<in> set outers. new_hdr 1 h \<Longrightarrow> art_typed n \<Longrightarrow> art_typed (foldr link_outer outers n)"
  by (induction outers) (auto intro: link_outer_typed)

lemma split_leaf_typed:
  assumes "art_typed node" "st_end s \<le> length (st_data s)" "lasting_split_leaf node s d m = Inr n"
  shows "art_typed n"
proof -
  let ?h = "hdr node" and ?p = "m - d"
  obtain outers nh rem nh' n1 n2 where r: "lasting_chain_loop s d 0 ?p [] (blank_hdr NODE_FLAGS_INNER_4 (replicate 4 0)) = Inr (outers, nh, rem)"
      "(if 0 < rem then rbind (stream_slice s (d + ?p - rem) rem) (\<lambda>p. Inr (nh\<lparr>prefix := p @ drop rem (prefix nh), prefix_len := rem\<rparr>))
        else Inr nh) = Inr nh'"
      "(if 0 < (of_nat (key_len ?h) - of_nat d :: u32) - of_nat ?p then rbind (rd (key ?h) (d + ?p)) (\<lambda>k. add_child (ANode nh' (replicate 4 None)) k node)
        else Inr (ANode nh' (replicate 4 None))) = Inr n1"
      "(if 0 < (of_nat (stream_size s) - of_nat d :: u32) - of_nat ?p then
          rbind (lasting_make_leaf s) (\<lambda>other. rbind (rd (key (hdr other)) (d + ?p)) (\<lambda>k. add_child n1 k other))
        else Inr n1) = Inr n2"
      "foldr link_outer outers n2 = n"
    using assms(3) [unfolded lasting_split_leaf_def fresh_inner_4 Let_def rbind.simps art_node.sel rbind_Inr_iff split_paired_Ex prod.case sum.inject]
    by (elim exE conjE) (rule that; assumption)
  have c: "\<forall>h \<in> set outers. new_hdr 1 h" "new_hdr 0 nh" "rem \<le> PREFIX_SIZE"
    using chain_loop_typed [OF r(1) _ new_hdr_blank] by simp_all
  have "new_hdr 0 nh'"
    using r(2) c by (auto simp: new_hdr_def stream_slice_def split: if_splits)
  then have f: "art_typed (ANode nh' (replicate 4 None))" "\<not> is_leaf (hdr (ANode nh' (replicate 4 None)))"
    using new_hdr_typed by simp_all
  have "n1 = ANode nh' (replicate 4 None) \<or> (\<exists>k. add_child (ANode nh' (replicate 4 None)) k node = Inr n1)"
    using r(3) by (simp split: if_splits) blast+
  then have t1: "art_typed n1" "\<not> is_leaf (hdr n1)"
    using f add_child_typed [OF f assms(1)] by blast+
  have "n2 = n1 \<or> (\<exists>k. add_child n1 k (leaf_of s) = Inr n2)"
    using r(4) by (simp add: make_leaf_eq split: if_splits) blast+
  then have "art_typed n2" using t1 add_child_typed(1) [OF t1 leaf_of_typed [OF assms(2)]] by blast
  then have "art_typed (foldr link_outer outers n2)" by (rule foldr_link [OF c(1)])
  then show ?thesis unfolding r(5) .
qed

lemma count_match_le: "count_match p s d i n = Inr m \<Longrightarrow> m \<le> i + n"
  by (induction p s d i n rule: count_match.induct) (auto split: if_splits)

lemma check_prefix_le: "check_prefix h s d = Inr m \<Longrightarrow> m \<le> prefix_len h"
  by (auto simp: check_prefix_def Let_def split: if_splits dest!: count_match_le)

lemma path_fields [simp]:
  "layout_ok (h\<lparr>prefix_len := n, prefix := q\<rparr>) cs = layout_ok h cs" "kids (h\<lparr>prefix_len := n, prefix := q\<rparr>) cs = kids h cs"
  "layout_ok (h\<lparr>count := x\<rparr>) cs = layout_ok h cs" "kids (h\<lparr>count := x\<rparr>) cs = kids h cs"
  by (simp_all add: layout_ok_def on_flags_def list_ok_def index_ok_def direct_ok_def kids_def slot_of_def fun_eq_iff)

lemma split_prefix_typed:
  assumes "art_typed (ANode h cs)" "\<not> is_leaf h" "st_end s \<le> length (st_data s)" "m < prefix_len h"
    and r: "lasting_split_prefix (ANode h cs) s d m = Inr n"
  shows "art_typed n"
proof -
  let ?fresh = "ANode (blank_hdr NODE_FLAGS_INNER_4 (replicate 4 0)) (replicate 4 None)"
  let ?n = "prefix_len h - (m + 1)"
  let ?rest = "ANode (h\<lparr>prefix_len := ?n, prefix := take ?n (drop (m + 1) (prefix h)) @ drop ?n (prefix h)\<rparr>) cs"
  obtain k n1 k' n2 where a: "add_child ?fresh k (leaf_of s) = Inr n1" "add_child n1 k' ?rest = Inr n2" "m \<le> PREFIX_SIZE"
    "ANode ((hdr n2)\<lparr>prefix_len := m, prefix := take m (prefix h) @ drop m (prefix (hdr n2))\<rparr>) (arr n2) = n"
    using r [unfolded lasting_split_prefix_def fresh_inner_4 make_leaf_eq Let_def rbind.simps art_node.sel rbind_Inr_iff split_paired_Ex
        prod.case sum.inject rassert_Inr] by (elim exE conjE) (rule that; assumption)
  have h: "layout_ok h cs" "prefix_len h \<le> PREFIX_SIZE" "length (prefix h) = PREFIX_SIZE"
      "\<And>k c. kids h cs k = Some c \<Longrightarrow> art_typed c"
    using assms(1,2) by (simp_all add: typed_inner_iff)
  have rest: "art_typed ?rest"
    by (rule art_typed.inner) (use h assms(4) in \<open>simp_all add: h(4)\<close>)
  have t: "art_typed ?fresh" "\<not> is_leaf (hdr ?fresh)" using new_hdr_typed [OF new_hdr_blank] by simp_all
  note n1 = add_child_typed [OF t leaf_of_typed [OF assms(3)] a(1)]
  note n2 = add_child_typed [OF n1 rest a(2)]
  have g: "layout_ok (hdr n2) (arr n2)" "length (prefix (hdr n2)) = PREFIX_SIZE"
      "\<And>k c. kids (hdr n2) (arr n2) k = Some c \<Longrightarrow> art_typed c"
    using n2 typed_inner_iff [of "hdr n2" "arr n2"] by simp_all
  let ?h = "(hdr n2)\<lparr>prefix_len := m, prefix := take m (prefix h) @ drop m (prefix (hdr n2))\<rparr>"
  have "art_typed (ANode ?h (arr n2))"
    by (rule art_typed.inner) (use a(3) g h(3) in \<open>simp_all add: g(3)\<close>)
  then show ?thesis unfolding a(4) .
qed

subsection \<open>Insertion\<close>

lemma do_leaf_typed:
  assumes "art_typed (ANode h cs)" "is_leaf h" "st_end s \<le> length (st_data s)" "lasting_do_leaf (ANode h cs) s d = Inr n"
  shows "art_typed n"
proof -
  have "art_typed (ANode (h\<lparr>count := count h + 1\<rparr>) cs)"
    using assms(1,2) by (simp add: typed_leaf_iff is_leaf_def)
  then show ?thesis
    using assms(4) split_leaf_typed [OF assms(1,3)] by (auto simp: lasting_do_leaf_def Let_def split: if_splits)
qed

lemma stream_advance_data [simp]: "st_end (stream_advance s n) = st_end s" "st_data (stream_advance s n) = st_data s"
  by (simp_all add: stream_advance_def)

lemma insert_at_typed:
  "art_typed n \<Longrightarrow> st_end s \<le> length (st_data s) \<Longrightarrow> lasting_insert_at n s d = Inr (n', s') \<Longrightarrow> art_typed n'"
proof (induction n s d arbitrary: n' s' rule: lasting_insert_at.induct)
  case (1 h cs s d)
  note run = "1.prems"(3) [unfolded lasting_insert_at.simps [of h cs s d]]
  show ?case
  proof (cases "is_leaf h")
    case True
    then show ?thesis using run do_leaf_typed [OF "1.prems"(1) True "1.prems"(2)] by auto
  next
    case False
    then obtain m where m: "check_prefix h s d = Inr m" using run by (cases "check_prefix h s d") auto
    show ?thesis
    proof (cases "m = prefix_len h")
      case diff: False
      then have "m < prefix_len h" using check_prefix_le [OF m] by simp
      then show ?thesis using run False m diff split_prefix_typed [OF "1.prems"(1) False "1.prems"(2)] by auto
    next
      case same: True
      let ?d = "d + prefix_len h"
      show ?thesis
      proof (cases "stream_size s \<le> ?d")
        case True
        have "is_leaf (h\<lparr>count := count h + 1\<rparr>) = is_leaf h" by (simp add: is_leaf_def)
        then have "art_typed (ANode (h\<lparr>count := count h + 1\<rparr>) cs)"
          using "1.prems"(1) False by (simp add: typed_inner_iff)
        then show ?thesis using run False m same True by (simp add: Let_def)
      next
        case go: False
        have ok: "layout_ok h cs" using "1.prems"(1) False by (simp add: typed_inner_iff)
        obtain k where k: "stream_get s ?d = Inr k" using run False m same go by (cases "stream_get s ?d") auto
        have f: "find_child h k = Inr (slot_of h k)" by (rule inner.find_slot [OF ok])
        note c = inner.child_at_kids [OF ok, of k]
        show ?thesis
        proof (cases "child_at cs (slot_of h k)")
          case (Inl e)
          then show ?thesis using c by simp
        next
          case (Inr r)
          show ?thesis
          proof (cases r)
            case None
            then have "lasting_add_leaf (ANode h cs) s ?d = Inr n'" using run False m same go k f Inr by auto
            then show ?thesis by (rule add_leaf_typed [OF "1.prems"(1) False "1.prems"(2)])
          next
            case (Some ic)
            obtain i x where ic: "ic = (i, x)" by (cases ic)
            have ix: "slot_of h k = Some i" "kids h cs k = Some x"
              using c unfolding Inr Some ic by (cases "slot_of h k"; cases "kids h cs k"; simp)+
            have x: "art_typed x" using ix(2) "1.prems"(1) False by (simp add: typed_inner_iff)
            obtain x' where x': "lasting_insert_at x (stream_advance s 1) (?d + 1) = Inr (x', s')" "n' = ANode h (cs[i := Some x'])"
              using run False m same go k f Inr Some ic by auto
            have "\<not> m \<noteq> prefix_len h" using same by simp
            moreover have "st_end (stream_advance s 1) \<le> length (st_data (stream_advance s 1))" using "1.prems"(2) by simp
            ultimately have "art_typed x'"
              using "1.IH" [OF False m _ refl go k f Inr Some ic [symmetric] x _ x'(1)] by blast
            then show ?thesis using put_typed [OF "1.prems"(1) False ix(1)] x'(2) by simp
          qed
        qed
      qed
    qed
  qed
qed

definition tree_typed :: "art_node option \<Rightarrow> bool" where
  "tree_typed t \<longleftrightarrow> (\<forall>n. t = Some n \<longrightarrow> art_typed n)"

lemma tree_insert_typed:
  assumes r: "tree_typed r" and ins: "lasting_tree_insert r stack = Inr r'"
  shows "tree_typed r'"
proof -
  obtain n where n: "stack_end stack = Some n" using ins by (auto simp: lasting_tree_insert_def split: option.splits)
  then obtain s' where i: "lasting_insert r (stack_stream stack n) = Inr (r', s')"
    using ins by (auto simp: tree_insert_stream)
  have s: "st_end (stack_stream stack n) \<le> length (st_data (stack_stream stack n))"
    using stack_stream_ok(1) [OF n] by (simp add: stream_ok_def)
  show ?thesis
  proof (cases r)
    case None
    then show ?thesis using i leaf_of_typed [OF s] by (auto simp: tree_typed_def lasting_insert_def make_leaf_eq)
  next
    case (Some t)
    then show ?thesis using i insert_at_typed [OF _ s] r by (auto simp: tree_typed_def lasting_insert_def)
  qed
qed

lemma art_step_typed: "tree_typed (fst s) \<Longrightarrow> art_step s stack = Inr s' \<Longrightarrow> tree_typed (fst s')"
  by (cases s; cases s') (auto simp: art_step_def intro: tree_insert_typed dest: tree_insert_returns)

text \<open>C19. Whatever stacks the backend is given, also those whose keys it loses or miscounts, and
  whatever the allocations answer, a tree it returns is well-formed: every node is a leaf whose key
  lies inside its buffer or an inner node of one of the four kinds, with arrays of its kind's size,
  keys that are distinct, indices inside the array of children and a prefix of at most 128 bytes.\<close>

theorem art_tree_typed:
  assumes "run art_step (None, a) stacks = Inr (root, b)"
  shows "\<forall>n. root = Some n \<longrightarrow> art_typed n"
proof -
  have "tree_typed (fst (None, a))" by (simp add: tree_typed_def)
  from run_invariant [where I = "\<lambda>s. tree_typed (fst s)", OF assms this art_step_typed]
  show ?thesis by (simp add: tree_typed_def)
qed

definition two_stacks :: "callstack_entry list list" where
  "two_stacks = [[\<lparr>ip = 1, cmap = 2\<rparr>, \<lparr>ip = 0, cmap = 0\<rparr>], [\<lparr>ip = 1, cmap = 3\<rparr>, \<lparr>ip = 0, cmap = 0\<rparr>]]"

theorem art_tree_typed_witness:
  "case run art_step (None, enough) two_stacks of Inr (Some n, b) \<Rightarrow> \<not> is_leaf (hdr n) \<and> art_typed n | _ \<Rightarrow> False"
proof -
  have "case run art_step (None, enough) two_stacks of Inr (Some n, b) \<Rightarrow> \<not> is_leaf (hdr n) | _ \<Rightarrow> False"
    by code_simp
  then show ?thesis using art_tree_typed [of enough two_stacks] by (auto split: sum.splits option.splits)
qed

end
