(* ===== verification/Test_Support.thy ===== *)
theory Test_Support
  imports Prelude
begin

text \<open>What the test programs of \<open>lib/art\<close> and \<open>lib/hashtable\<close> share: string literals and assertions.\<close>

definition literal :: "string \<Rightarrow> u8 list" where
  "literal s = map of_char s @ [0]"

fun asserts :: "bool result list \<Rightarrow> unit result" where
  "asserts [] = Inr ()"
| "asserts (b # bs) = rbind b (\<lambda>b. rbind (rassert b) (\<lambda>_. asserts bs))"

end
