(* ===== verification/Art_Test.thy ===== *)
theory Art_Test
  imports Art_Type Test_Support
begin

text \<open>
  The tests of \<open>lib/art/test.c\<close>, run on the model. A test is what its assertions and the
  operations it calls give; the bytes that follow a string literal in memory are an argument.
\<close>

subsection \<open>What the tests use\<close>

text \<open>\<open>max_height\<close> follows the children of nodes with four slots only.\<close>

function max_height :: "art_node option \<Rightarrow> u32 \<Rightarrow> u32 result"
  and max_kids :: "art_node option list \<Rightarrow> nat \<Rightarrow> u32 \<Rightarrow> u32 \<Rightarrow> u32 result" where
  "max_height None hi = Inr hi"
| "max_height (Some (ANode h cs)) hi =
     (if flags h = NODE_FLAGS_INNER_4 then max_kids cs (key_len h) (hi + 1) (hi + 1) else Inr (hi + 1))"
| "max_kids cs 0 m hi = Inr hi"
| "max_kids [] (Suc n) m hi = Inl Out_of_bounds"
| "max_kids (c # cs) (Suc n) m hi =
     rbind (max_height c m) (\<lambda>count. max_kids cs n m (if hi < count then count else hi))"
  by pat_completeness auto
termination
  by (relation "measure (\<lambda>x. case x of Inl (c, _) \<Rightarrow> size_option size c | Inr (cs, _) \<Rightarrow> size_list (size_option size) cs)") auto

text \<open>\<open>!strcmp(p, q)\<close>.\<close>

fun strcmp_eq :: "u8 list \<Rightarrow> u8 list \<Rightarrow> bool result" where
  "strcmp_eq (a # p) (b # q) = (if a \<noteq> b then Inr False else if a = 0 then Inr True else strcmp_eq p q)"
| "strcmp_eq p q = Inl Out_of_bounds"

definition stream_entry :: "u8 list \<Rightarrow> string \<Rightarrow> art_stream" where
  "stream_entry pad s = \<lparr>st_data = literal s @ pad, st_end = length s, st_pos = 0\<rparr>"

fun insert_all ::
  "art_node option \<Rightarrow> art_stream list \<Rightarrow> alloc_state \<Rightarrow> ((art_node option \<times> art_stream list) \<times> alloc_state) result" where
  "insert_all root [] a = Inr ((root, []), a)"
| "insert_all root (s # ss) a =
     rbind (art_insert root s a) (\<lambda>((root, s), a).
     rbind (insert_all root ss a) (\<lambda>((root, ss), a). Inr ((root, s # ss), a)))"

definition key_is :: "art_hdr \<Rightarrow> nat \<Rightarrow> char \<Rightarrow> bool result" where
  "key_is h i c = rbind (rd (key h) i) (\<lambda>b. Inr (b = of_char c))"

definition height_is :: "art_node option \<Rightarrow> u32 \<Rightarrow> bool result" where
  "height_is root n = rbind (max_height root 0) (\<lambda>m. Inr (m = n))"

subsection \<open>The tests\<close>

text \<open>A test gives the allocator back; \<open>checks\<close> are its assertions.\<close>

definition checks :: "bool result list \<Rightarrow> alloc_state \<Rightarrow> alloc_state result" where
  "checks bs a = rbind (asserts bs) (\<lambda>_. Inr a)"

definition test1 :: "u8 list \<Rightarrow> alloc_state \<Rightarrow> alloc_state result" where
  "test1 pad a =
     rbind (insert_all None (map (stream_entry pad) [''foobar'', ''fubar'']) a) (\<lambda>((root, s), a).
     rbind (deref root) (\<lambda>n. let h = hdr n in
       checks [Inr (flags h = NODE_FLAGS_INNER_4), Inr (key_len h = 2), key_is h 0 CHR ''o'', key_is h 1 CHR ''u'',
         Inr (prefix_len h = 1), rbind (rd (prefix h) 0) (\<lambda>b. Inr (b = of_char CHR ''f'')), height_is root 2] a))"

definition test2 :: "u8 list \<Rightarrow> string list \<Rightarrow> alloc_state \<Rightarrow> alloc_state result" where
  "test2 pad ks a =
     rbind (insert_all None (map (stream_entry pad) ks) a) (\<lambda>((root, s), a).
     rbind (deref root) (\<lambda>n.
     rbind (checks [Inr (flags (hdr n) = NODE_FLAGS_INNER_4), strcmp_eq (prefix (hdr n)) (literal ''ABCDE'')] a) (\<lambda>a.
     rbind (art_insert root (stream_entry pad ''ABCDEH'') a) (\<lambda>((root, s2), a).
     rbind (deref root) (\<lambda>n. let h = hdr n in
       checks [Inr (flags h = NODE_FLAGS_INNER_4), strcmp_eq (prefix h) (literal ''ABCDE''),
         key_is h 0 CHR ''F'', key_is h 1 CHR ''H''] a)))))"

definition test2a :: "u8 list \<Rightarrow> alloc_state \<Rightarrow> alloc_state result" where
  "test2a pad = test2 pad [''ABCDEFG'', ''ABCDE'']"

definition test2b :: "u8 list \<Rightarrow> alloc_state \<Rightarrow> alloc_state result" where
  "test2b pad = test2 pad [''ABCDE'', ''ABCDEFG'']"

definition test3 :: "u8 list \<Rightarrow> alloc_state \<Rightarrow> alloc_state result" where
  "test3 pad a =
     rbind (insert_all None (map (stream_entry pad) [''ABCDEFG'', ''ABCDEFG'', ''ABCDEFG'']) a) (\<lambda>((root, s), a).
     rbind (deref root) (\<lambda>n.
       checks [Inr (flags (hdr n) = NODE_FLAGS_LEAF), Inr (key_len (hdr n) = length ''ABCDEFG''), height_is root 1] a))"

definition test4 :: "u8 list \<Rightarrow> alloc_state \<Rightarrow> alloc_state result" where
  "test4 pad a =
     rbind (insert_all None (map (\<lambda>n. stream_entry pad (take n ''ABCDEFGHIJKLMNOPQRSTUVWXYZ'')) [1..<27]) a) (\<lambda>((root, s), a).
     rbind (deref root) (\<lambda>n.
       checks [Inr (flags (hdr n) = NODE_FLAGS_INNER_4), Inr (key_len (hdr n) = length ''A''), height_is root 26] a))"

definition test5 :: "u8 list \<Rightarrow> alloc_state \<Rightarrow> alloc_state result" where
  "test5 pad a =
     rbind (insert_all None (map (stream_entry pad) [''ABC'', ''DEF'']) a) (\<lambda>((root, s), a).
     rbind (deref root) (\<lambda>n.
       checks [Inr (flags (hdr n) = NODE_FLAGS_INNER_4), Inr (key_len (hdr n) = 2), height_is root 2] a))"

text \<open>The two keys of \<open>test6a\<close> and \<open>test6b\<close> are built in memory of exactly their size, which the
  tests allocate and write to without a look at the result.\<close>

definition built_key :: "u8 list \<Rightarrow> art_stream" where
  "built_key bs = \<lparr>st_data = bs, st_end = length bs, st_pos = 0\<rparr>"

definition two_callocs :: "alloc_state \<Rightarrow> alloc_state result" where
  "two_callocs a =
     (case calloc_ok a of (p, a) \<Rightarrow> case calloc_ok a of (q, a) \<Rightarrow> if p \<and> q then Inr a else Inl Null_deref)"

definition test6a :: "u8 list \<Rightarrow> alloc_state \<Rightarrow> alloc_state result" where
  "test6a pad a =
     (let key = (\<lambda>c. built_key (replicate (2 * PREFIX_SIZE + 1) (of_char CHR ''A'') @ replicate (PREFIX_SIZE - 1) (of_char c))) in
      rbind (two_callocs a) (\<lambda>a.
      rbind (insert_all None [key CHR ''X'', key CHR ''Y''] a) (\<lambda>((r, s), a).
      rbind (deref r) (\<lambda>n.
      rbind (checks [Inr (flags (hdr n) = NODE_FLAGS_INNER_4), height_is r 3] a) (\<lambda>a.
      rbind (art_insert r (stream_entry pad ''AAAAAAB'') a) (\<lambda>((r, s2), a).
      rbind (deref r) (\<lambda>n.
        checks [height_is r 4, Inr (key_len (hdr n) = 2), Inr (prefix_len (hdr n) = length ''AAAAAA'')] a)))))))"

definition test6b :: "u8 list \<Rightarrow> alloc_state \<Rightarrow> alloc_state result" where
  "test6b pad a =
     (let key = (\<lambda>c. built_key (replicate PREFIX_SIZE (of_char CHR ''A'') @ [of_char c])) in
      rbind (two_callocs a) (\<lambda>a.
      rbind (insert_all None [key CHR ''B'', key CHR ''C''] a) (\<lambda>((r, s), a).
      rbind (deref r) (\<lambda>n. checks [Inr (flags (hdr n) = NODE_FLAGS_INNER_4), height_is r 2] a))))"

definition test7 :: "u8 list \<Rightarrow> alloc_state \<Rightarrow> alloc_state result" where
  "test7 pad a =
     rbind (insert_all None (map (\<lambda>c. stream_entry pad [c]) ''ABCDE'') a) (\<lambda>((r, s), a).
     rbind (deref r) (\<lambda>n.
     rbind (checks [Inr (flags (hdr n) = NODE_FLAGS_INNER_16), Inr (key_len (hdr n) = 5)] a) (\<lambda>a.
     rbind (insert_all r (map (\<lambda>c. stream_entry pad [c]) ''FGHIJKLMNOPQ'') a) (\<lambda>((r, s2), a).
     rbind (deref r) (\<lambda>n.
       checks [Inr (flags (hdr n) = NODE_FLAGS_INNER_48), Inr (key_len (hdr n) = 17)] a)))))"

text \<open>\<open>count\<close> of the test: the count of the node that is found, else 0.\<close>

definition key_count :: "art_node option \<Rightarrow> art_stream \<Rightarrow> u64 result" where
  "key_count root s =
     rbind (art_search root s) (\<lambda>entry. Inr (case entry of None \<Rightarrow> 0 | Some n \<Rightarrow> count (hdr n)))"

fun insert_rounds ::
  "nat \<Rightarrow> art_node option \<Rightarrow> art_stream list \<Rightarrow> alloc_state \<Rightarrow> ((art_node option \<times> art_stream list) \<times> alloc_state) result" where
  "insert_rounds 0 r s a = Inr ((r, s), a)"
| "insert_rounds (Suc n) r s a = rbind (insert_all r s a) (\<lambda>((r, s), a). insert_rounds n r s a)"

definition test8 :: "u8 list \<Rightarrow> alloc_state \<Rightarrow> alloc_state result" where
  "test8 pad a =
     (let N = 5 in
      rbind (insert_rounds (N + 1) None (map (stream_entry pad) [''ABC'', ''DEF'', ''DGH'', ''DEFZKS'', ''Z'', ''SKJ'']) a)
        (\<lambda>((r, s), a). checks (map (\<lambda>sp. rbind (key_count r sp) (\<lambda>c. Inr (c = of_nat N))) s) a))"

text \<open>Insert a key, search it, compare the key of the node that is found.\<close>

definition insert_and_find ::
  "u8 list \<Rightarrow> art_node option \<Rightarrow> string \<Rightarrow> alloc_state \<Rightarrow> (art_node option \<times> alloc_state) result" where
  "insert_and_find pad r k a =
     rbind (art_insert r (stream_entry pad k) a) (\<lambda>((r, s), a).
     rbind (art_search r s) (\<lambda>n.
     rbind (rassert (n \<noteq> None)) (\<lambda>_.
     rbind (deref n) (\<lambda>n.
     rbind (asserts [strcmp_eq (key (hdr n)) (literal k)]) (\<lambda>_. Inr (r, a))))))"

definition test9 :: "u8 list \<Rightarrow> alloc_state \<Rightarrow> alloc_state result" where
  "test9 pad a = rbind (insert_and_find pad None ''foo'' a) (\<lambda>(_, a). Inr a)"

definition test10 :: "u8 list \<Rightarrow> alloc_state \<Rightarrow> alloc_state result" where
  "test10 pad a =
     rbind (insert_and_find pad None ''DEF'' a) (\<lambda>(r, a).
     rbind (insert_and_find pad r ''DGH'' a) (\<lambda>(r, a).
     rbind (insert_and_find pad r ''DEFGZ'' a) (\<lambda>(_, a). Inr a)))"

subsection \<open>The test program\<close>

definition art_tests :: "(u8 list \<Rightarrow> alloc_state \<Rightarrow> alloc_state result) list" where
  "art_tests = [test1, test2a, test2b, test3, test4, test5, test6a, test6b, test7, test8, test9, test10]"

text \<open>\<open>main\<close>: the tests in order, with the number of tests it prints.\<close>

fun run_tests :: "(u8 list \<Rightarrow> alloc_state \<Rightarrow> alloc_state result) list \<Rightarrow> u8 list \<Rightarrow> alloc_state \<Rightarrow> nat \<Rightarrow> nat result" where
  "run_tests [] pad a n = Inr n"
| "run_tests (t # ts) pad a n = rbind (t pad a) (\<lambda>a. run_tests ts pad a (n + 1))"

lemma tests_keys: "test1 [a, b, c] enough = Inr enough" "test2a [a, b, c] enough = Inr enough"
  "test2b [a, b, c] enough = Inr enough" "test3 [a, b, c] enough = Inr enough"
  "test5 [a, b, c] enough = Inr enough" "test9 [a, b, c] enough = Inr enough" "test10 [a, b, c] enough = Inr enough"
  by code_simp+

lemma tests_alphabet: "test4 [a, b, c] enough = Inr enough"
  by code_simp

lemma tests_prefix: "test6a [a, b, c] enough = Inr enough" "test6b [a, b, c] enough = Inr enough"
  by code_simp+

lemma tests_grow: "test7 [a, b, c] enough = Inr enough"
  by code_simp

lemma tests_count: "test8 [a, b, c] enough = Inr enough" "test8 [a, b] enough = Inl Out_of_bounds"
  by code_simp+

text \<open>The model runs the test program to its end, with the 12 tests counted, when three bytes
  follow each string literal in memory; with two bytes, \<open>test8\<close> reads past the object of a literal,
  because the comparison of \<open>do_leaf\<close> starts at the depth and still compares the whole length.\<close>

lemma art_tests_pass:
  "run_tests art_tests [a, b, c] enough 0 = Inr 12 \<and> test8 [a, b] enough = Inl Out_of_bounds"
  by (simp add: art_tests_def tests_keys tests_alphabet tests_prefix tests_grow tests_count)

end
