(* ===== verification/Hash_Test.thy ===== *)
theory Hash_Test
  imports Hashtable_Props Test_Support
begin

text \<open>
  The tests of \<open>lib/hashtable/test.c\<close>, run on the model. \<open>pad\<close> are the bytes that follow a string
  literal in memory; the tests thread the globals: \<open>num_unique_entries\<close> and the allocator.
\<close>

definition literal_streams :: "u8 list \<Rightarrow> string list \<Rightarrow> streams" where
  "literal_streams pad ss p =
     (if p < length ss then \<lparr>s_mem = literal (ss ! p) @ pad, s_len = length (ss ! p)\<rparr> else \<lparr>s_mem = [], s_len = 0\<rparr>)"

type_synonym hash_globals = "u64 \<times> alloc_state"

definition with_table :: "hash_globals \<Rightarrow> (hworld \<Rightarrow> hworld result) \<Rightarrow> hash_globals result" where
  "with_table g f =
     rbind (alloc_table (snd g)) (\<lambda>(t, a).
     rbind (f \<lparr>hw_table = t, num_unique_entries = fst g, hw_alloc = a\<rparr>) (\<lambda>w.
       Inr (num_unique_entries w, hw_alloc w)))"

definition lookup_is :: "streams \<Rightarrow> hworld \<Rightarrow> sptr \<Rightarrow> int \<Rightarrow> bool result" where
  "lookup_is st w p n = rbind (hash_lookup st (hw_table w) p) (\<lambda>c. Inr (c = n))"

definition hash_test0 :: "u8 list \<Rightarrow> hash_globals \<Rightarrow> hash_globals result" where
  "hash_test0 pad g =
     (let st = literal_streams pad [''foobar'', ''fubar''] in
      rbind (stream_key (st 0)) (\<lambda>k0. rbind (stream_key (st 1)) (\<lambda>k1.
      rbind (asserts [Inr (basic_hash k0 = basic_hash k0), Inr (basic_hash k0 \<noteq> basic_hash k1)]) (\<lambda>_. Inr g))))"

definition hash_test1 :: "u8 list \<Rightarrow> hash_globals \<Rightarrow> hash_globals result" where
  "hash_test1 pad g =
     (let st = literal_streams pad [''foobar''] in
      with_table g (\<lambda>w. rbind (hash_insert st w 0) (\<lambda>w. rbind (asserts [lookup_is st w 0 1]) (\<lambda>_. Inr w))))"

definition hash_test2 :: "u8 list \<Rightarrow> hash_globals \<Rightarrow> hash_globals result" where
  "hash_test2 pad g =
     (let st = literal_streams pad [''foobar''] in with_table g (\<lambda>w. run (hash_insert st) w [0, 0, 0, 0]))"

definition hash_test3 :: "u8 list \<Rightarrow> hash_globals \<Rightarrow> hash_globals result" where
  "hash_test3 pad g =
     (let st = literal_streams pad [''fubar'', ''foobar'', ''fibar'', ''fabar''] in
      with_table g (\<lambda>w. rbind (run (hash_insert st) w [0, 1, 2, 3]) (\<lambda>w.
        rbind (asserts [lookup_is st w 0 1, lookup_is st w 1 1, lookup_is st w 2 1, lookup_is st w 3 1]) (\<lambda>_. Inr w))))"

text \<open>\<open>main\<close>: the tests in order, with the number of tests it prints.\<close>

fun run_hash_tests :: "(u8 list \<Rightarrow> hash_globals \<Rightarrow> hash_globals result) list \<Rightarrow> u8 list \<Rightarrow> hash_globals \<Rightarrow> u32 \<Rightarrow> u32 result" where
  "run_hash_tests [] pad g n = Inr n"
| "run_hash_tests (t # ts) pad g n = rbind (t pad g) (\<lambda>g. run_hash_tests ts pad g (n + 1))"

definition hash_tests :: "(u8 list \<Rightarrow> hash_globals \<Rightarrow> hash_globals result) list" where
  "hash_tests = [hash_test0, hash_test1, hash_test2, hash_test3]"

subsection \<open>The tests pass\<close>

lemma literals [simp]: "literal ''foobar'' = [102, 111, 111, 98, 97, 114, 0]" "literal ''fubar'' = [102, 117, 98, 97, 114, 0]"
  "literal ''fibar'' = [102, 105, 98, 97, 114, 0]" "literal ''fabar'' = [102, 97, 98, 97, 114, 0]"
  by code_simp+

lemma with_fresh_table:
  assumes "plan a = []"
  shows "\<exists>w. with_table (u, a) f = rbind (f w) (\<lambda>w. Inr (num_unique_entries w, hw_alloc w)) \<and> (\<forall>st. inline_rep st w [])"
proof -
  let ?w = "\<lparr>hw_table = \<lparr>ht_bucket = replicate NUM_INTERNAL empty_bucket, ht_map = (\<lambda>_. None), num_internal = 0, unique = 0, hits = 0\<rparr>,
    num_unique_entries = u, hw_alloc = a\<lparr>num_allocs := num_allocs a + 1 + 1\<rparr>\<rparr>"
  have "with_table (u, a) f = rbind (f ?w) (\<lambda>w. Inr (num_unique_entries w, hw_alloc w))"
    using assms by (simp add: with_table_def alloc_table_def ht_alloc_def ccalloc_plenty)
  moreover have "inline_rep st ?w []" for st
    using assms by (auto simp: inline_rep_def NUM_INTERNAL_def nth_Cons' numeral_3_eq_3)
  ultimately show ?thesis by blast
qed

text \<open>Inserting and looking up while the inline buckets last.\<close>

lemma inline_inserts:
  assumes "inline_rep st w []" "\<forall>p \<in> set ps. readable st p" "card (content st ` set ps) \<le> 3"
  shows "\<exists>w'. run (hash_insert st) w ps = Inr w' \<and> inline_rep st w' (tally (map (content st) ps))"
  by (rule inline.run_tally [OF assms(1) inline_run_fits [OF assms(2,3)]])

lemma inline_plan: "inline_rep st w ks \<Longrightarrow> plan (hw_alloc w) = []"
  by (simp add: inline_rep_def Let_def)

lemma hash_test0_ok: "hash_test0 pad g = Inr g"
  by (simp add: hash_test0_def literal_streams_def stream_key_def basic_hash_def)

lemma one_stream: "readable (literal_streams pad [''foobar'']) 0"
  by (simp add: readable_def literal_streams_def)

lemma hash_test1_ok:
  assumes "plan a = []"
  shows "\<exists>u' a'. hash_test1 pad (u, a) = Inr (u', a') \<and> plan a' = []"
proof -
  let ?st = "literal_streams pad [''foobar'']"
  let ?f = "\<lambda>w. rbind (hash_insert ?st w 0) (\<lambda>w. rbind (asserts [lookup_is ?st w 0 1]) (\<lambda>_. Inr w))"
  obtain w where w: "with_table (u, a) ?f = rbind (?f w) (\<lambda>w. Inr (num_unique_entries w, hw_alloc w))" "inline_rep ?st w []"
    using with_fresh_table [OF assms, of u ?f] by blast
  obtain w1 where w1: "hash_insert ?st w 0 = Inr w1" "inline_rep ?st w1 (tally [content ?st 0])"
    using inline_inserts [OF w(2), of "[0]"] one_stream by auto
  have "hash_lookup ?st (hw_table w1) 0 = Inr 1"
    using inline_rep_lookup [OF w1(2) one_stream] int_of_count_small [of 1] by (simp add: map_of_tally)
  then show ?thesis using w(1) w1(1) inline_plan [OF w1(2)] by (simp add: hash_test1_def lookup_is_def)
qed

lemma hash_test2_ok:
  assumes "plan a = []"
  shows "\<exists>u' a'. hash_test2 pad (u, a) = Inr (u', a') \<and> plan a' = []"
proof -
  let ?st = "literal_streams pad [''foobar'']"
  let ?f = "\<lambda>w. run (hash_insert ?st) w [0, 0, 0, 0]"
  obtain w where w: "with_table (u, a) ?f = rbind (?f w) (\<lambda>w. Inr (num_unique_entries w, hw_alloc w))" "inline_rep ?st w []"
    using with_fresh_table [OF assms, of u ?f] by blast
  obtain w1 where "?f w = Inr w1" "inline_rep ?st w1 (tally (map (content ?st) [0, 0, 0, 0]))"
    using inline_inserts [OF w(2), of "[0, 0, 0, 0]"] one_stream by auto
  then show ?thesis using w(1) inline_plan by (simp add: hash_test2_def del: run.simps)
qed

text \<open>The fourth key moves the table to its array, where every key has one again.\<close>

definition four :: "u8 list \<Rightarrow> streams" where
  "four pad = literal_streams pad [''fubar'', ''foobar'', ''fibar'', ''fabar'']"

lemma four_keys: "content (four pad) 0 = key_fubar" "content (four pad) 1 = key_foobar" "content (four pad) (Suc 0) = key_foobar"
  "content (four pad) 2 = key_fibar" "content (four pad) 3 = key_fabar" "readable (four pad) p"
  by (simp_all add: content_def four_def readable_def literal_streams_def test_keys)
    (auto simp: literal_def)

lemma hash_test3_ok:
  assumes "plan a = []"
  shows "\<exists>u' a'. hash_test3 pad (u, a) = Inr (u', a') \<and> plan a' = []"
proof -
  let ?st = "four pad" and ?ks = "tally [key_fubar, key_foobar, key_fibar]"
  let ?f = "\<lambda>w. rbind (run (hash_insert ?st) w [0, 1, 2, 3]) (\<lambda>w.
    rbind (asserts [lookup_is ?st w 0 1, lookup_is ?st w 1 1, lookup_is ?st w 2 1, lookup_is ?st w 3 1]) (\<lambda>_. Inr w))"
  obtain w where w: "with_table (u, a) ?f = rbind (?f w) (\<lambda>w. Inr (num_unique_entries w, hw_alloc w))" "inline_rep ?st w []"
    using with_fresh_table [OF assms, of u ?f] by blast
  have "card (content ?st ` set [0, 1, 2]) \<le> 3" using card_image_le [of "set [0, 1, 2]" "content ?st"] by simp
  then obtain w1 where w1: "run (hash_insert ?st) w [0, 1, 2] = Inr w1" "inline_rep ?st w1 ?ks"
    using inline_inserts [OF w(2), of "[0, 1, 2]"] four_keys by auto
  have fs: "fst ` set ?ks = {key_fubar, key_foobar, key_fibar}" by (simp add: fst_tally)
  have keys: "key_fabar \<notin> fst ` set ?ks" "length ?ks = 3" "inj_on key_slot (insert key_fabar (fst ` set ?ks))"
    unfolding fs by (simp_all add: length_tally test_keys) (simp add: inj_on_def test_slots flip: test_keys)
  obtain w2 where w2: "hash_insert ?st w1 3 = Inr w2"
      "slow_rep ?st 3 (hits (hw_table w1)) w2 (tally (map fst ?ks @ [key_fabar]))"
    using expand_step [OF w1(2) keys(2), of 3] keys(1,3) four_keys by auto
  have "map_of (tally (map fst ?ks @ [key_fabar])) k = Some 1" if "k \<in> {key_fubar, key_foobar, key_fibar, key_fabar}" for k
    using that by (auto simp: map_of_tally test_keys tally_def)
  then have "hash_lookup ?st (hw_table w2) p = Inr 1" if "p \<in> {0, 1, 2, 3}" for p
    using slow_rep_lookup(1) [OF w2(2), of p 1] that four_keys int_of_count_small [of 1] by auto
  moreover have "run (hash_insert ?st) w1 [3] = Inr w2" using w2(1) by simp
  then have "run (hash_insert ?st) w ([0, 1, 2] @ [3]) = Inr w2" unfolding run_append w1(1) by simp
  then have "run (hash_insert ?st) w [0, 1, 2, 3] = Inr w2" by (simp del: run.simps)
  moreover have "plan (hw_alloc w2) = []" using w2(2) by (simp add: slow_rep_def Let_def)
  ultimately show ?thesis using w(1) by (simp add: hash_test3_def lookup_is_def flip: four_def del: run.simps)
qed

text \<open>C27. With enough memory the test program of the hash table runs to its end and counts its 4 tests, whatever follows the
  literals in memory: also \<open>test3\<close>, which moves the table to its array, for its keys have arrived
  once each.\<close>

theorem hash_tests_pass:
  assumes "plan a = []"
  shows "run_hash_tests hash_tests pad (u, a) 0 = Inr 4"
proof -
  obtain u1 a1 where t1: "hash_test1 pad (u, a) = Inr (u1, a1)" "plan a1 = []" using hash_test1_ok [OF assms] by blast
  obtain u2 a2 where t2: "hash_test2 pad (u1, a1) = Inr (u2, a2)" "plan a2 = []" using hash_test2_ok [OF t1(2)] by blast
  obtain g where "hash_test3 pad (u2, a2) = Inr g" using hash_test3_ok [OF t2(2)] by blast
  then show ?thesis using t1(1) t2(1) by (simp add: hash_tests_def hash_test0_ok)
qed

theorem hash_tests_pass_witness:
  "run_hash_tests hash_tests [] (0, \<lparr>num_allocs = 0, num_frees = 0, leaf_frees = 0, plan = []\<rparr>) 0 = Inr 4"
  by (rule hash_tests_pass) simp

end
