(* ===== verification/Loops.thy ===== *)
theory Loops
  imports Prelude
begin

text \<open>
  Loops that follow pointers. A loop is run by its step function, which says whether to go
  round again or to leave; \<open>None\<close> is a loop that never ends, so termination is part of what
  a theorem about a run states. The rules below prove that a loop ends from a measure and an
  invariant.
\<close>

datatype ('s, 'r) flow = Again 's | Done 'r

type_synonym 'a run = "'a result option"

partial_function (option) loop :: "('s \<Rightarrow> ('s, 'r) flow result) \<Rightarrow> 's \<Rightarrow> 'r run" where
  [code]: "loop f s =
     (case f s of
        Inl e \<Rightarrow> Some (Inl e)
      | Inr w \<Rightarrow> (case w of Again t \<Rightarrow> loop f t | Done r \<Rightarrow> Some (Inr r)))"

definition obind :: "'a run \<Rightarrow> ('a \<Rightarrow> 'b run) \<Rightarrow> 'b run" where
  "obind m f =
     (case m of None \<Rightarrow> None | Some r \<Rightarrow> (case r of Inl e \<Rightarrow> Some (Inl e) | Inr x \<Rightarrow> f x))"

lemma obind_simps [simp]:
  "obind None f = None" "obind (Some (Inl e)) f = Some (Inl e)" "obind (Some (Inr x)) f = f x"
  by (simp_all add: obind_def)

lemma obind_Some [simp]:
  "obind m f = Some (Inr y) \<longleftrightarrow> (\<exists>x. m = Some (Inr x) \<and> f x = Some (Inr y))"
  by (auto simp: obind_def split: option.splits sum.splits)

lemma loop_step:
  "f s = Inr (Again t) \<Longrightarrow> loop f s = loop f t"
  "f s = Inr (Done r) \<Longrightarrow> loop f s = Some (Inr r)"
  "f s = Inl e \<Longrightarrow> loop f s = Some (Inl e)"
  by (simp_all add: loop.simps)

lemma obind_bind:
  "obind m h = Option.bind m (\<lambda>r. case r of Inl e \<Rightarrow> Some (Inl e) | Inr x \<Rightarrow> h x)"
  by (cases m) (simp_all add: obind_def)

lemma obind_mono [partial_function_mono]:
  assumes "mono_option B" "\<And>y. mono_option (C y)"
  shows "mono_option (\<lambda>f. obind (B f) (\<lambda>y. C y f))"
  unfolding obind_bind
proof (rule bind_mono [OF assms(1)])
  show "mono_option (\<lambda>f. case r of Inl e \<Rightarrow> Some (Inl e) | Inr x \<Rightarrow> C x f)" for r
    by (cases r) (simp_all add: option.const_mono assms(2))
qed

text \<open>Total correctness: every step keeps the invariant and lowers the measure or leaves with
  the postcondition.\<close>

lemma loop_rule:
  fixes M :: "'s \<Rightarrow> nat"
  assumes "I s"
    and "\<And>s. I s \<Longrightarrow>
      (\<exists>t. f s = Inr (Again t) \<and> I t \<and> M t < M s) \<or> (\<exists>r. f s = Inr (Done r) \<and> Q r)"
  shows "\<exists>r. loop f s = Some (Inr r) \<and> Q r"
  using assms(1)
proof (induction "M s" arbitrary: s rule: less_induct)
  case less
  from assms(2) [OF less.prems] show ?case
    using less.hyps by (auto simp: loop_step)
qed

end
