(* ===== verification/Rbtree.thy ===== *)
theory Rbtree
  imports Loops
begin

text \<open>
  The red-black trees of \<open>lib/linux/rbtree.c\<close>, \<open>linux/rbtree.h\<close> and
  \<open>linux/rbtree_augmented.h\<close>, on a memory of nodes: a pointer is a 64-bit address (NULL is
  0), parent and colour share one word, and every access to an address without a node is
  the error \<open>Null_deref\<close>. The code writes each case of its two fixup loops twice, for left
  and for right; here the side is a parameter, \<open>L\<close> giving the first and \<open>R\<close> the second text.
\<close>

subsection \<open>Nodes\<close>

record rb_node =
  parent_color :: u64
  rb_right :: u64
  rb_left :: u64

text \<open>\<open>mem\<close>: the nodes; \<open>rb_root\<close>: the field \<open>rb_node\<close> of the root the code works on.\<close>

record rb_state =
  mem :: "u64 \<Rightarrow> rb_node option"
  rb_root :: u64

definition RB_RED :: u64 where "RB_RED = 0"
definition RB_BLACK :: u64 where "RB_BLACK = 1"

definition ld :: "rb_state \<Rightarrow> u64 \<Rightarrow> rb_node result" where
  "ld s p = deref (mem s p)"

definition upd :: "rb_state \<Rightarrow> u64 \<Rightarrow> (rb_node \<Rightarrow> rb_node) \<Rightarrow> rb_state result" where
  "upd s p f = rbind (ld s p) (\<lambda>n. Inr (s\<lparr>mem := (mem s)(p \<mapsto> f n)\<rparr>))"

datatype side = L | R

fun opp :: "side \<Rightarrow> side" where
  "opp L = R"
| "opp R = L"

fun child_of :: "side \<Rightarrow> rb_node \<Rightarrow> u64" where
  "child_of L n = rb_left n"
| "child_of R n = rb_right n"

fun put_child :: "side \<Rightarrow> u64 \<Rightarrow> rb_node \<Rightarrow> rb_node" where
  "put_child L v n = n\<lparr>rb_left := v\<rparr>"
| "put_child R v n = n\<lparr>rb_right := v\<rparr>"

definition get_child :: "side \<Rightarrow> rb_state \<Rightarrow> u64 \<Rightarrow> u64 result" where
  "get_child d s p = rbind (ld s p) (\<lambda>n. Inr (child_of d n))"

definition set_child :: "side \<Rightarrow> rb_state \<Rightarrow> u64 \<Rightarrow> u64 \<Rightarrow> rb_state result" where
  "set_child d s p v = upd s p (put_child d v)"

definition pc_parent :: "u64 \<Rightarrow> u64" where
  "pc_parent pc = pc AND NOT 3"

definition pc_black :: "u64 \<Rightarrow> bool" where
  "pc_black pc \<longleftrightarrow> pc AND 1 \<noteq> 0"

definition rb_parent :: "rb_state \<Rightarrow> u64 \<Rightarrow> u64 result" where
  "rb_parent s p = rbind (ld s p) (\<lambda>n. Inr (pc_parent (parent_color n)))"

definition rb_is_black :: "rb_state \<Rightarrow> u64 \<Rightarrow> bool result" where
  "rb_is_black s p = rbind (ld s p) (\<lambda>n. Inr (pc_black (parent_color n)))"

text \<open>\<open>p && rb_is_red(p)\<close>.\<close>

definition some_red :: "rb_state \<Rightarrow> u64 \<Rightarrow> bool result" where
  "some_red s p = (if p = 0 then Inr False else rbind (rb_is_black s p) (\<lambda>b. Inr (\<not> b)))"

definition rb_red_parent :: "rb_state \<Rightarrow> u64 \<Rightarrow> u64 result" where
  "rb_red_parent s p = rbind (ld s p) (\<lambda>n. Inr (parent_color n))"

definition rb_set_black :: "rb_state \<Rightarrow> u64 \<Rightarrow> rb_state result" where
  "rb_set_black s p = upd s p (\<lambda>n. n\<lparr>parent_color := parent_color n + RB_BLACK\<rparr>)"

definition rb_set_parent :: "rb_state \<Rightarrow> u64 \<Rightarrow> u64 \<Rightarrow> rb_state result" where
  "rb_set_parent s p q = upd s p (\<lambda>n. n\<lparr>parent_color := (parent_color n AND 1) + q\<rparr>)"

definition rb_set_parent_color :: "rb_state \<Rightarrow> u64 \<Rightarrow> u64 \<Rightarrow> u64 \<Rightarrow> rb_state result" where
  "rb_set_parent_color s p q color = upd s p (\<lambda>n. n\<lparr>parent_color := q + color\<rparr>)"

text \<open>\<open>if (p) rb_set_parent_color(p, q, color)\<close>, and the same for \<open>rb_set_parent\<close>.\<close>

definition set_color_if :: "rb_state \<Rightarrow> u64 \<Rightarrow> u64 \<Rightarrow> u64 \<Rightarrow> rb_state result" where
  "set_color_if s p q color = (if p = 0 then Inr s else rb_set_parent_color s p q color)"

definition set_parent_if :: "rb_state \<Rightarrow> u64 \<Rightarrow> u64 \<Rightarrow> rb_state result" where
  "set_parent_if s p q = (if p = 0 then Inr s else rb_set_parent s p q)"

text \<open>\<open>__rb_change_child\<close>.\<close>

definition rb_change_child :: "u64 \<Rightarrow> u64 \<Rightarrow> u64 \<Rightarrow> rb_state \<Rightarrow> rb_state result" where
  "rb_change_child old new parent s =
     (if parent \<noteq> 0 then
        rbind (get_child L s parent) (\<lambda>l. set_child (if l = old then L else R) s parent new)
      else Inr (s\<lparr>rb_root := new\<rparr>))"

text \<open>\<open>__rb_rotate_set_parents\<close>.\<close>

definition rb_rotate_set_parents :: "u64 \<Rightarrow> u64 \<Rightarrow> u64 \<Rightarrow> rb_state \<Rightarrow> rb_state result" where
  "rb_rotate_set_parents old new color s =
     rbind (rb_parent s old) (\<lambda>parent.
     rbind (ld s old) (\<lambda>o1.
     rbind (upd s new (\<lambda>n. n\<lparr>parent_color := parent_color o1\<rparr>)) (\<lambda>s.
     rbind (rb_set_parent_color s old new color) (\<lambda>s.
       rb_change_child old new parent s))))"

subsection \<open>Insertion\<close>

type_synonym rotate_fn = "u64 \<Rightarrow> u64 \<Rightarrow> rb_state \<Rightarrow> rb_state"

definition dummy_rotate :: rotate_fn where
  "dummy_rotate old new s = s"

text \<open>The body of \<open>__rb_insert\<close>'s loop for a red \<open>parent\<close> on side \<open>d\<close> of \<open>gparent\<close>.\<close>

definition insert_side ::
  "rotate_fn \<Rightarrow> side \<Rightarrow> u64 \<Rightarrow> u64 \<Rightarrow> u64 \<Rightarrow> rb_state \<Rightarrow> (u64 \<times> u64 \<times> rb_state, rb_state) flow result"
where
  "insert_side rot d node parent gparent s =
     rbind (get_child (opp d) s gparent) (\<lambda>tmp.
     rbind (some_red s tmp) (\<lambda>red.
       if red then
         rbind (rb_set_parent_color s tmp gparent RB_BLACK) (\<lambda>s.
         rbind (rb_set_parent_color s parent gparent RB_BLACK) (\<lambda>s.
         rbind (rb_parent s gparent) (\<lambda>parent.
         rbind (rb_set_parent_color s gparent parent RB_RED) (\<lambda>s.
           Inr (Again (gparent, parent, s))))))
       else
         rbind (get_child (opp d) s parent) (\<lambda>tmp.
         rbind (if node = tmp then
                  rbind (get_child d s node) (\<lambda>tmp.
                  rbind (set_child (opp d) s parent tmp) (\<lambda>s.
                  rbind (set_child d s node parent) (\<lambda>s.
                  rbind (set_color_if s tmp parent RB_BLACK) (\<lambda>s.
                  rbind (rb_set_parent_color s parent node RB_RED) (\<lambda>s.
                  let s = rot parent node s in
                  rbind (get_child (opp d) s node) (\<lambda>tmp. Inr (node, tmp, s)))))))
                else Inr (parent, tmp, s)) (\<lambda>(parent, tmp, s).
         rbind (set_child d s gparent tmp) (\<lambda>s.
         rbind (set_child (opp d) s parent gparent) (\<lambda>s.
         rbind (set_color_if s tmp gparent RB_BLACK) (\<lambda>s.
         rbind (rb_rotate_set_parents gparent parent RB_RED s) (\<lambda>s.
           Inr (Done (rot gparent parent s))))))))))"

definition insert_step ::
  "rotate_fn \<Rightarrow> u64 \<times> u64 \<times> rb_state \<Rightarrow> (u64 \<times> u64 \<times> rb_state, rb_state) flow result" where
  "insert_step rot = (\<lambda>(node, parent, s).
     if parent = 0 then rbind (rb_set_parent_color s node 0 RB_BLACK) (\<lambda>s. Inr (Done s))
     else rbind (rb_is_black s parent) (\<lambda>black.
       if black then Inr (Done s)
       else
         rbind (rb_red_parent s parent) (\<lambda>gparent.
         rbind (get_child R s gparent) (\<lambda>tmp.
           insert_side rot (if parent \<noteq> tmp then L else R) node parent gparent s))))"

text \<open>\<open>__rb_insert\<close>, \<open>rb_insert_color\<close> and \<open>__rb_insert_augmented\<close>.\<close>

definition rb_insert :: "rotate_fn \<Rightarrow> u64 \<Rightarrow> rb_state \<Rightarrow> rb_state run" where
  "rb_insert rot node s =
     obind (Some (rb_red_parent s node)) (\<lambda>parent. loop (insert_step rot) (node, parent, s))"

definition rb_insert_color :: "u64 \<Rightarrow> rb_state \<Rightarrow> rb_state run" where
  "rb_insert_color node s = rb_insert dummy_rotate node s"

text \<open>A \<open>struct rb_node **\<close> points to the root's field or to a child field of a node.\<close>

datatype rb_link = Root_link | Child_link side u64

definition put_link :: "rb_link \<Rightarrow> u64 \<Rightarrow> rb_state \<Rightarrow> rb_state result" where
  "put_link lk v s = (case lk of Root_link \<Rightarrow> Inr (s\<lparr>rb_root := v\<rparr>) | Child_link d p \<Rightarrow> set_child d s p v)"

definition get_link :: "rb_link \<Rightarrow> rb_state \<Rightarrow> u64 result" where
  "get_link lk s = (case lk of Root_link \<Rightarrow> Inr (rb_root s) | Child_link d p \<Rightarrow> get_child d s p)"

definition rb_link_node :: "u64 \<Rightarrow> u64 \<Rightarrow> rb_link \<Rightarrow> rb_state \<Rightarrow> rb_state result" where
  "rb_link_node node parent lk s =
     rbind (upd s node (\<lambda>n. n\<lparr>parent_color := parent, rb_right := 0, rb_left := 0\<rparr>)) (\<lambda>s.
       put_link lk node s)"

subsection \<open>Erasure\<close>

record augment_callbacks =
  a_propagate :: "u64 \<Rightarrow> u64 \<Rightarrow> rb_state \<Rightarrow> rb_state"
  a_copy :: "u64 \<Rightarrow> u64 \<Rightarrow> rb_state \<Rightarrow> rb_state"
  a_rotate :: rotate_fn

definition dummy_callbacks :: augment_callbacks where
  "dummy_callbacks = \<lparr>a_propagate = (\<lambda>_ _ s. s), a_copy = (\<lambda>_ _ s. s), a_rotate = dummy_rotate\<rparr>"

text \<open>The body of \<open>____rb_erase_color\<close>'s loop for a \<open>node\<close> on side \<open>d\<close> of \<open>parent\<close>, from the
  point where the sibling is black: cases 2, 3 and 4.\<close>

definition erase_black_sibling ::
  "rotate_fn \<Rightarrow> side \<Rightarrow> u64 \<Rightarrow> u64 \<Rightarrow> rb_state \<Rightarrow> (u64 \<times> u64 \<times> rb_state, rb_state) flow result"
where
  "erase_black_sibling rot d parent sibling s =
     rbind (get_child (opp d) s sibling) (\<lambda>tmp1.
     rbind (some_red s tmp1) (\<lambda>red1.
     rbind (get_child d s sibling) (\<lambda>tmp2.
     rbind (if red1 then Inr True else some_red s tmp2) (\<lambda>red2.
       if \<not> red2 then
         rbind (rb_set_parent_color s sibling parent RB_RED) (\<lambda>s.
         rbind (rb_is_black s parent) (\<lambda>black.
           if \<not> black then rbind (rb_set_black s parent) (\<lambda>s. Inr (Done s))
           else rbind (rb_parent s parent) (\<lambda>gparent.
                  if gparent \<noteq> 0 then Inr (Again (parent, gparent, s)) else Inr (Done s))))
       else
         rbind (if red1 then Inr (tmp1, sibling, s)
                else
                  rbind (get_child (opp d) s tmp2) (\<lambda>tmp1.
                  rbind (set_child d s sibling tmp1) (\<lambda>s.
                  rbind (set_child (opp d) s tmp2 sibling) (\<lambda>s.
                  rbind (set_child (opp d) s parent tmp2) (\<lambda>s.
                  rbind (set_color_if s tmp1 sibling RB_BLACK) (\<lambda>s.
                    Inr (sibling, tmp2, rot sibling tmp2 s))))))) (\<lambda>(tmp1, sibling, s).
         rbind (get_child d s sibling) (\<lambda>tmp2.
         rbind (set_child (opp d) s parent tmp2) (\<lambda>s.
         rbind (set_child d s sibling parent) (\<lambda>s.
         rbind (rb_set_parent_color s tmp1 sibling RB_BLACK) (\<lambda>s.
         rbind (set_parent_if s tmp2 parent) (\<lambda>s.
         rbind (rb_rotate_set_parents parent sibling RB_BLACK s) (\<lambda>s.
           Inr (Done (rot parent sibling s)))))))))))))"

definition erase_side ::
  "rotate_fn \<Rightarrow> side \<Rightarrow> u64 \<Rightarrow> u64 \<Rightarrow> rb_state \<Rightarrow> (u64 \<times> u64 \<times> rb_state, rb_state) flow result" where
  "erase_side rot d parent sibling s =
     rbind (rb_is_black s sibling) (\<lambda>black.
       if black then erase_black_sibling rot d parent sibling s
       else
         rbind (get_child d s sibling) (\<lambda>tmp1.
         rbind (set_child (opp d) s parent tmp1) (\<lambda>s.
         rbind (set_child d s sibling parent) (\<lambda>s.
         rbind (rb_set_parent_color s tmp1 parent RB_BLACK) (\<lambda>s.
         rbind (rb_rotate_set_parents parent sibling RB_RED s) (\<lambda>s.
           erase_black_sibling rot d parent tmp1 (rot parent sibling s)))))))"

definition erase_step ::
  "rotate_fn \<Rightarrow> u64 \<times> u64 \<times> rb_state \<Rightarrow> (u64 \<times> u64 \<times> rb_state, rb_state) flow result" where
  "erase_step rot = (\<lambda>(node, parent, s).
     rbind (get_child R s parent) (\<lambda>sibling.
       if node \<noteq> sibling then erase_side rot L parent sibling s
       else rbind (get_child L s parent) (\<lambda>sibling. erase_side rot R parent sibling s)))"

text \<open>\<open>____rb_erase_color\<close> and \<open>__rb_erase_color\<close>.\<close>

definition rb_erase_color :: "rotate_fn \<Rightarrow> u64 \<Rightarrow> rb_state \<Rightarrow> rb_state run" where
  "rb_erase_color rot parent s = loop (erase_step rot) (0, parent, s)"

text \<open>The loop \<open>do { parent = successor; successor = tmp; tmp = tmp->rb_left; } while (tmp)\<close>.\<close>

definition successor_step :: "rb_state \<Rightarrow> u64 \<times> u64 \<Rightarrow> (u64 \<times> u64, u64 \<times> u64) flow result" where
  "successor_step s = (\<lambda>(successor, tmp).
     rbind (get_child L s tmp) (\<lambda>tmp'.
       Inr (if tmp' \<noteq> 0 then Again (tmp, tmp') else Done (successor, tmp))))"

text \<open>The end of \<open>__rb_erase_augmented\<close> for a node with two children: the successor takes the
  place of the node.\<close>

definition erase_replace ::
  "augment_callbacks \<Rightarrow> u64 \<Rightarrow> u64 \<times> u64 \<times> u64 \<times> rb_state \<Rightarrow> (u64 \<times> rb_state) result" where
  "erase_replace aug node = (\<lambda>(parent, successor, child2, s).
     rbind (get_child L s node) (\<lambda>tmp.
     rbind (set_child L s successor tmp) (\<lambda>s.
     rbind (rb_set_parent s tmp successor) (\<lambda>s.
     rbind (rb_red_parent s node) (\<lambda>pc.
     rbind (rb_change_child node successor (pc_parent pc) s) (\<lambda>s.
     rbind (if child2 \<noteq> 0 then
              rbind (upd s successor (\<lambda>n. n\<lparr>parent_color := pc\<rparr>)) (\<lambda>s.
              rbind (rb_set_parent_color s child2 parent RB_BLACK) (\<lambda>s. Inr (0, s)))
            else
              rbind (rb_red_parent s successor) (\<lambda>pc2.
              rbind (upd s successor (\<lambda>n. n\<lparr>parent_color := pc\<rparr>)) (\<lambda>s.
                Inr (if pc_black pc2 then parent else 0, s)))) (\<lambda>(rebalance, s).
       Inr (rebalance, a_propagate aug successor 0 s))))))))"

text \<open>\<open>__rb_erase_augmented\<close>: the node from which \<open>rb_erase_color\<close> has to go on, or NULL.\<close>

definition rb_erase_augmented_raw ::
  "augment_callbacks \<Rightarrow> u64 \<Rightarrow> rb_state \<Rightarrow> (u64 \<times> rb_state) run" where
  "rb_erase_augmented_raw aug node s =
     obind (Some (ld s node)) (\<lambda>n.
       let child = rb_right n; tmp = rb_left n; pc = parent_color n in
       if tmp = 0 then
         obind (Some (
           let parent = pc_parent pc in
           rbind (rb_change_child node child parent s) (\<lambda>s.
           rbind (if child \<noteq> 0 then
                    rbind (upd s child (\<lambda>c. c\<lparr>parent_color := pc\<rparr>)) (\<lambda>s. Inr (0, s))
                  else Inr (if pc_black pc then parent else 0, s)) (\<lambda>(rebalance, s).
             Inr (rebalance, a_propagate aug parent 0 s))))) (\<lambda>r. Some (Inr r))
       else if child = 0 then
         obind (Some (
           rbind (upd s tmp (\<lambda>t. t\<lparr>parent_color := pc\<rparr>)) (\<lambda>s.
           let parent = pc_parent pc in
           rbind (rb_change_child node tmp parent s) (\<lambda>s.
             Inr (0, a_propagate aug parent 0 s))))) (\<lambda>r. Some (Inr r))
       else
         obind (obind (Some (get_child L s child)) (\<lambda>tmp.
           if tmp = 0 then
             obind (Some (get_child R s child)) (\<lambda>child2.
               Some (Inr (child, child, child2, a_copy aug node child s)))
           else
             obind (loop (successor_step s) (child, tmp)) (\<lambda>(parent, successor).
             obind (Some (
               rbind (get_child R s successor) (\<lambda>child2.
               rbind (set_child L s parent child2) (\<lambda>s.
               rbind (set_child R s successor child) (\<lambda>s.
               rbind (rb_set_parent s child successor) (\<lambda>s.
                 Inr (parent, successor, child2,
                      a_propagate aug parent successor (a_copy aug node successor s)))))))) (\<lambda>r.
               Some (Inr r))))) (\<lambda>(parent, successor, child2, s).
         Some (erase_replace aug node (parent, successor, child2, s))))"

text \<open>\<open>rb_erase_augmented\<close> and \<open>rb_erase\<close>.\<close>

definition rb_erase_augmented :: "augment_callbacks \<Rightarrow> u64 \<Rightarrow> rb_state \<Rightarrow> rb_state run" where
  "rb_erase_augmented aug node s =
     obind (rb_erase_augmented_raw aug node s) (\<lambda>(rebalance, s).
       if rebalance \<noteq> 0 then rb_erase_color (a_rotate aug) rebalance s else Some (Inr s))"

definition rb_erase :: "u64 \<Rightarrow> rb_state \<Rightarrow> rb_state run" where
  "rb_erase node s = rb_erase_augmented dummy_callbacks node s"

text \<open>\<open>RB_EMPTY_NODE\<close>, \<open>RB_CLEAR_NODE\<close> and \<open>rb_erase_init\<close>.\<close>

definition rb_empty_node :: "rb_state \<Rightarrow> u64 \<Rightarrow> bool result" where
  "rb_empty_node s p = rbind (ld s p) (\<lambda>n. Inr (parent_color n = p))"

definition rb_clear_node :: "u64 \<Rightarrow> rb_state \<Rightarrow> rb_state result" where
  "rb_clear_node p s = upd s p (\<lambda>n. n\<lparr>parent_color := p\<rparr>)"

definition rb_erase_init :: "u64 \<Rightarrow> rb_state \<Rightarrow> rb_state run" where
  "rb_erase_init node s = obind (rb_erase node s) (\<lambda>s. Some (rb_clear_node node s))"

subsection \<open>Walking\<close>

text \<open>\<open>while (n->rb_left) n = n->rb_left;\<close> and its mirror image.\<close>

definition descend_step :: "side \<Rightarrow> rb_state \<Rightarrow> u64 \<Rightarrow> (u64, u64) flow result" where
  "descend_step d s n = rbind (get_child d s n) (\<lambda>c. Inr (if c \<noteq> 0 then Again c else Done n))"

definition rb_end :: "side \<Rightarrow> rb_state \<Rightarrow> u64 run" where
  "rb_end d s = (if rb_root s = 0 then Some (Inr 0) else loop (descend_step d s) (rb_root s))"

definition rb_first :: "rb_state \<Rightarrow> u64 run" where
  "rb_first s = rb_end L s"

definition rb_last :: "rb_state \<Rightarrow> u64 run" where
  "rb_last s = rb_end R s"

text \<open>\<open>while ((parent = rb_parent(node)) && node == parent->rb_right) node = parent;\<close>.\<close>

definition ascend_step :: "side \<Rightarrow> rb_state \<Rightarrow> u64 \<Rightarrow> (u64, u64) flow result" where
  "ascend_step d s node =
     rbind (rb_parent s node) (\<lambda>parent.
       if parent = 0 then Inr (Done parent)
       else rbind (get_child d s parent) (\<lambda>c. Inr (if node = c then Again parent else Done parent)))"

text \<open>\<open>rb_next\<close> goes to the right child and down left, or up from right children.\<close>

definition rb_step :: "side \<Rightarrow> rb_state \<Rightarrow> u64 \<Rightarrow> u64 run" where
  "rb_step d s node =
     obind (Some (rb_empty_node s node)) (\<lambda>e.
       if e then Some (Inr 0)
       else obind (Some (get_child d s node)) (\<lambda>c.
         if c \<noteq> 0 then loop (descend_step (opp d) s) c else loop (ascend_step d s) node))"

definition rb_next :: "rb_state \<Rightarrow> u64 \<Rightarrow> u64 run" where
  "rb_next s node = rb_step R s node"

definition rb_prev :: "rb_state \<Rightarrow> u64 \<Rightarrow> u64 run" where
  "rb_prev s node = rb_step L s node"

definition rb_replace_node :: "u64 \<Rightarrow> u64 \<Rightarrow> rb_state \<Rightarrow> rb_state result" where
  "rb_replace_node victim new s =
     rbind (rb_parent s victim) (\<lambda>parent.
     rbind (ld s victim) (\<lambda>v.
     rbind (upd s new (\<lambda>_. v)) (\<lambda>s.
     rbind (get_child L s victim) (\<lambda>l. rbind (set_parent_if s l new) (\<lambda>s.
     rbind (get_child R s victim) (\<lambda>r. rbind (set_parent_if s r new) (\<lambda>s.
       rb_change_child victim new parent s)))))))"

definition left_deepest_step :: "rb_state \<Rightarrow> u64 \<Rightarrow> (u64, u64) flow result" where
  "left_deepest_step s node =
     rbind (ld s node) (\<lambda>n. Inr (
       if rb_left n \<noteq> 0 then Again (rb_left n)
       else if rb_right n \<noteq> 0 then Again (rb_right n)
       else Done node))"

definition rb_next_postorder :: "rb_state \<Rightarrow> u64 \<Rightarrow> u64 run" where
  "rb_next_postorder s node =
     (if node = 0 then Some (Inr 0)
      else obind (Some (rb_parent s node)) (\<lambda>parent.
        if parent = 0 then Some (Inr parent)
        else obind (Some (ld s parent)) (\<lambda>p.
          if node = rb_left p \<and> rb_right p \<noteq> 0 then loop (left_deepest_step s) (rb_right p)
          else Some (Inr parent))))"

definition rb_first_postorder :: "rb_state \<Rightarrow> u64 run" where
  "rb_first_postorder s = (if rb_root s = 0 then Some (Inr 0) else loop (left_deepest_step s) (rb_root s))"

subsection \<open>Ordered insertion and search\<close>

text \<open>The descent of \<open>rb_add\<close> and \<open>rb_add_cached\<close>: the link to fill, the last node seen and
  whether every turn so far was to the left.\<close>

definition add_step ::
  "(u64 \<Rightarrow> u64 \<Rightarrow> bool) \<Rightarrow> u64 \<Rightarrow> rb_state \<Rightarrow>
     rb_link \<times> u64 \<times> bool \<Rightarrow> (rb_link \<times> u64 \<times> bool, rb_link \<times> u64 \<times> bool) flow result" where
  "add_step lt node s = (\<lambda>(lk, parent, leftmost).
     rbind (get_link lk s) (\<lambda>p. Inr (
       if p = 0 then Done (lk, parent, leftmost)
       else if lt node p then Again (Child_link L p, p, leftmost)
       else Again (Child_link R p, p, False))))"

definition rb_add :: "(u64 \<Rightarrow> u64 \<Rightarrow> bool) \<Rightarrow> u64 \<Rightarrow> rb_state \<Rightarrow> rb_state run" where
  "rb_add lt node s =
     obind (loop (add_step lt node s) (Root_link, 0, True)) (\<lambda>(lk, parent, leftmost).
     obind (Some (rb_link_node node parent lk s)) (\<lambda>s. rb_insert_color node s))"

text \<open>A cached tree keeps its first node next to the root.\<close>

record rb_cached = rb_state +
  rb_leftmost :: u64

definition tree_of :: "rb_cached \<Rightarrow> rb_state" where
  "tree_of c = \<lparr>mem = mem c, rb_root = rb_root c\<rparr>"

definition with_tree :: "rb_cached \<Rightarrow> rb_state \<Rightarrow> rb_cached" where
  "with_tree c s = c\<lparr>mem := mem s, rb_root := rb_root s\<rparr>"

definition rb_insert_color_cached :: "u64 \<Rightarrow> bool \<Rightarrow> rb_cached \<Rightarrow> rb_cached run" where
  "rb_insert_color_cached node leftmost c =
     (let c = (if leftmost then c\<lparr>rb_leftmost := node\<rparr> else c) in
      obind (rb_insert_color node (tree_of c)) (\<lambda>s. Some (Inr (with_tree c s))))"

definition rb_erase_cached :: "u64 \<Rightarrow> rb_cached \<Rightarrow> rb_cached run" where
  "rb_erase_cached node c =
     obind (if rb_leftmost c = node then
              obind (rb_next (tree_of c) node) (\<lambda>n. Some (Inr (c\<lparr>rb_leftmost := n\<rparr>)))
            else Some (Inr c)) (\<lambda>c.
     obind (rb_erase node (tree_of c)) (\<lambda>s. Some (Inr (with_tree c s))))"

definition rb_replace_node_cached :: "u64 \<Rightarrow> u64 \<Rightarrow> rb_cached \<Rightarrow> rb_cached result" where
  "rb_replace_node_cached victim new c =
     (let c = (if rb_leftmost c = victim then c\<lparr>rb_leftmost := new\<rparr> else c) in
      rbind (rb_replace_node victim new (tree_of c)) (\<lambda>s. Inr (with_tree c s)))"

definition rb_add_cached :: "(u64 \<Rightarrow> u64 \<Rightarrow> bool) \<Rightarrow> u64 \<Rightarrow> rb_cached \<Rightarrow> rb_cached run" where
  "rb_add_cached lt node c =
     obind (loop (add_step lt node (tree_of c)) (Root_link, 0, True)) (\<lambda>(lk, parent, leftmost).
     obind (Some (rb_link_node node parent lk (tree_of c))) (\<lambda>s.
       rb_insert_color_cached node leftmost (with_tree c s)))"

text \<open>\<open>cmp\<close> is an \<open>int\<close>; only its sign is used.\<close>

definition find_add_step ::
  "(u64 \<Rightarrow> u64 \<Rightarrow> int) \<Rightarrow> u64 \<Rightarrow> rb_state \<Rightarrow>
     rb_link \<times> u64 \<Rightarrow> (rb_link \<times> u64, (rb_link \<times> u64) + u64) flow result" where
  "find_add_step cmp node s = (\<lambda>(lk, parent).
     rbind (get_link lk s) (\<lambda>p. Inr (
       if p = 0 then Done (Inl (lk, parent))
       else let c = cmp node p in
         if c < 0 then Again (Child_link L p, p)
         else if 0 < c then Again (Child_link R p, p)
         else Done (Inr p))))"

definition rb_find_add :: "(u64 \<Rightarrow> u64 \<Rightarrow> int) \<Rightarrow> u64 \<Rightarrow> rb_state \<Rightarrow> (u64 \<times> rb_state) run" where
  "rb_find_add cmp node s =
     obind (loop (find_add_step cmp node s) (Root_link, 0)) (\<lambda>r. case r of
       Inr p \<Rightarrow> Some (Inr (p, s))
     | Inl (lk, parent) \<Rightarrow>
         obind (Some (rb_link_node node parent lk s)) (\<lambda>s.
         obind (rb_insert_color node s) (\<lambda>s. Some (Inr (0, s)))))"

definition find_step :: "(u64 \<Rightarrow> int) \<Rightarrow> rb_state \<Rightarrow> u64 \<Rightarrow> (u64, u64) flow result" where
  "find_step cmp s node =
     (if node = 0 then Inr (Done 0)
      else let c = cmp node in
        if c < 0 then rbind (get_child L s node) (\<lambda>n. Inr (Again n))
        else if 0 < c then rbind (get_child R s node) (\<lambda>n. Inr (Again n))
        else Inr (Done node))"

definition rb_find :: "(u64 \<Rightarrow> int) \<Rightarrow> rb_state \<Rightarrow> u64 run" where
  "rb_find cmp s = loop (find_step cmp s) (rb_root s)"

definition find_first_step :: "(u64 \<Rightarrow> int) \<Rightarrow> rb_state \<Rightarrow> u64 \<times> u64 \<Rightarrow> (u64 \<times> u64, u64) flow result" where
  "find_first_step cmp s = (\<lambda>(node, match).
     if node = 0 then Inr (Done match)
     else let c = cmp node in
       if c \<le> 0 then rbind (get_child L s node) (\<lambda>n. Inr (Again (n, if c = 0 then node else match)))
       else rbind (get_child R s node) (\<lambda>n. Inr (Again (n, match))))"

definition rb_find_first :: "(u64 \<Rightarrow> int) \<Rightarrow> rb_state \<Rightarrow> u64 run" where
  "rb_find_first cmp s = loop (find_first_step cmp s) (rb_root s, 0)"

definition rb_next_match :: "(u64 \<Rightarrow> int) \<Rightarrow> rb_state \<Rightarrow> u64 \<Rightarrow> u64 run" where
  "rb_next_match cmp s node =
     obind (rb_next s node) (\<lambda>n. Some (Inr (if n \<noteq> 0 \<and> cmp n \<noteq> 0 then 0 else n)))"

end
