(* ===== verification/Rbtree_Zipper.thy ===== *)
theory Rbtree_Zipper
  imports Rbtree
begin

text \<open>
  Red-black trees as trees: the abstract side of \<open>Rbtree\<close>. A tree with a hole is a subtree
  and the frames above it, innermost first, as the parent pointers give them. \<open>stored\<close> says
  that a memory holds a tree; \<open>fix_insert\<close> is the insertion fixup on trees.
\<close>

subsection \<open>Trees and contexts\<close>

datatype color = Red | Black

datatype ptree = Lf | Nd color ptree u64 ptree

fun addr :: "ptree \<Rightarrow> u64" where
  "addr Lf = 0"
| "addr (Nd c l a r) = a"

fun col :: "ptree \<Rightarrow> color" where
  "col Lf = Black"
| "col (Nd c l a r) = c"

fun paint :: "color \<Rightarrow> ptree \<Rightarrow> ptree" where
  "paint c Lf = Lf"
| "paint c (Nd c' l a r) = Nd c l a r"

text \<open>The node with \<open>x\<close> on side \<open>d\<close> and \<open>y\<close> on the other.\<close>

definition nd :: "side \<Rightarrow> color \<Rightarrow> ptree \<Rightarrow> u64 \<Rightarrow> ptree \<Rightarrow> ptree" where
  "nd d c x a y = (case d of L \<Rightarrow> Nd c x a y | R \<Rightarrow> Nd c y a x)"

text \<open>A frame: the hole is on the side of the node whose other subtree is given.\<close>

datatype frame = Fr side color u64 ptree

fun plug :: "ptree \<Rightarrow> frame list \<Rightarrow> ptree" where
  "plug t [] = t"
| "plug t (Fr d c a s # ctx) = plug (nd d c t a s) ctx"

fun ctx_addr :: "frame list \<Rightarrow> u64" where
  "ctx_addr [] = 0"
| "ctx_addr (Fr d c a s # ctx) = a"

fun addrs :: "ptree \<Rightarrow> u64 list" where
  "addrs Lf = []"
| "addrs (Nd c l a r) = addrs l @ a # addrs r"

fun ctx_addrs :: "frame list \<Rightarrow> u64 list" where
  "ctx_addrs [] = []"
| "ctx_addrs (Fr d c a s # ctx) = a # addrs s @ ctx_addrs ctx"

lemma nd_simps [simp]: "nd L c x a y = Nd c x a y" "nd R c x a y = Nd c y a x"
  by (simp_all add: nd_def)

lemma addr_nd [simp]: "addr (nd d c x a y) = a" "col (nd d c x a y) = c" "paint c' (nd d c x a y) = nd d c' x a y"
  by (cases d; simp)+

lemma nd_opp: "nd (opp d) c x a y = nd d c y a x"
  by (cases d) simp_all

lemma opp_opp [simp]: "opp (opp d) = d"
  by (cases d) simp_all

lemma opp_neq [simp]: "opp d \<noteq> d" "d \<noteq> opp d" "d \<noteq> d' \<longleftrightarrow> d = opp d'"
  by (cases d; cases d'; simp)+

lemma set_addrs_nd [simp]: "set (addrs (nd d c x a y)) = insert a (set (addrs x) \<union> set (addrs y))"
  by (cases d) auto

lemma distinct_addrs_nd [simp]:
  "distinct (addrs (nd d c x a y)) \<longleftrightarrow>
     a \<notin> set (addrs x) \<and> a \<notin> set (addrs y) \<and> distinct (addrs x) \<and> distinct (addrs y) \<and>
     set (addrs x) \<inter> set (addrs y) = {}"
  by (cases d) auto

lemma addrs_paint [simp]: "addrs (paint c t) = addrs t" "addr (paint c t) = addr t"
  by (cases t; simp)+

lemma addr_0: "0 \<notin> set (addrs t) \<Longrightarrow> addr t = 0 \<longleftrightarrow> t = Lf"
  by (cases t) auto

lemma addr_in: "t \<noteq> Lf \<Longrightarrow> addr t \<in> set (addrs t)"
  by (cases t) auto

lemma set_addrs_plug: "set (addrs (plug t ctx)) = set (addrs t) \<union> set (ctx_addrs ctx)"
  by (induction t ctx rule: plug.induct) auto

lemma distinct_addrs_plug:
  "distinct (addrs (plug t ctx)) \<longleftrightarrow>
     distinct (addrs t) \<and> distinct (ctx_addrs ctx) \<and> set (addrs t) \<inter> set (ctx_addrs ctx) = {}"
  by (induction t ctx rule: plug.induct) auto

text \<open>In-order address sequences do not depend on how a tree is cut.\<close>

fun ctx_before :: "frame list \<Rightarrow> u64 list" where
  "ctx_before [] = []"
| "ctx_before (Fr L c a s # ctx) = ctx_before ctx"
| "ctx_before (Fr R c a s # ctx) = ctx_before ctx @ addrs s @ [a]"

fun ctx_after :: "frame list \<Rightarrow> u64 list" where
  "ctx_after [] = []"
| "ctx_after (Fr L c a s # ctx) = a # addrs s @ ctx_after ctx"
| "ctx_after (Fr R c a s # ctx) = ctx_after ctx"

lemma addrs_plug: "addrs (plug t ctx) = ctx_before ctx @ addrs t @ ctx_after ctx"
proof (induction t ctx rule: plug.induct)
  case (2 t d c a s ctx)
  then show ?case by (cases d) simp_all
qed simp

subsection \<open>Memory\<close>

definition bit_of :: "color \<Rightarrow> u64" where
  "bit_of c = (case c of Red \<Rightarrow> RB_RED | Black \<Rightarrow> RB_BLACK)"

definition aligned :: "u64 \<Rightarrow> bool" where
  "aligned a \<longleftrightarrow> a AND 3 = 0"

definition mk_node :: "u64 \<Rightarrow> color \<Rightarrow> side \<Rightarrow> u64 \<Rightarrow> u64 \<Rightarrow> rb_node" where
  "mk_node par c d x y =
     (case d of L \<Rightarrow> \<lparr>parent_color = par + bit_of c, rb_right = y, rb_left = x\<rparr>
      | R \<Rightarrow> \<lparr>parent_color = par + bit_of c, rb_right = x, rb_left = y\<rparr>)"

type_synonym rb_mem = "u64 \<Rightarrow> rb_node option"

fun stored :: "rb_mem \<Rightarrow> u64 \<Rightarrow> ptree \<Rightarrow> bool" where
  "stored m par Lf \<longleftrightarrow> True"
| "stored m par (Nd c l a r) \<longleftrightarrow>
     m a = Some (mk_node par c L (addr l) (addr r)) \<and> stored m a l \<and> stored m a r"

fun stored_ctx :: "rb_mem \<Rightarrow> u64 \<Rightarrow> frame list \<Rightarrow> bool" where
  "stored_ctx m p [] \<longleftrightarrow> True"
| "stored_ctx m p (Fr d c a s # ctx) \<longleftrightarrow>
     m a = Some (mk_node (ctx_addr ctx) c d p (addr s)) \<and> stored m a s \<and> stored_ctx m a ctx"

definition valid_addrs :: "u64 set \<Rightarrow> bool" where
  "valid_addrs A \<longleftrightarrow> 0 \<notin> A \<and> (\<forall>a \<in> A. aligned a)"

text \<open>A state holds a tree: every node with its parent, its colour and its children, at
  distinct aligned addresses, from the root on.\<close>

definition holds_tree :: "rb_state \<Rightarrow> ptree \<Rightarrow> bool" where
  "holds_tree s t \<longleftrightarrow>
     stored (mem s) 0 t \<and> rb_root s = addr t \<and> distinct (addrs t) \<and> valid_addrs (set (addrs t))"

lemma stored_nd [simp]:
  "stored m par (nd d c x a y) \<longleftrightarrow>
     m a = Some (mk_node par c d (addr x) (addr y)) \<and> stored m a x \<and> stored m a y"
  by (cases d) (auto simp: mk_node_def)

lemma stored_plug:
  "stored m 0 (plug t ctx) \<longleftrightarrow> stored m (ctx_addr ctx) t \<and> stored_ctx m (addr t) ctx"
  by (induction t ctx rule: plug.induct) (auto)

lemma stored_frame [simp]: "a \<notin> set (addrs t) \<Longrightarrow> stored (m(a := x)) par t = stored m par t"
  by (induction t arbitrary: par) auto

lemma stored_ctx_frame [simp]: "a \<notin> set (ctx_addrs ctx) \<Longrightarrow> stored_ctx (m(a := x)) p ctx = stored_ctx m p ctx"
  by (induction m p ctx rule: stored_ctx.induct) auto

text \<open>Access to the parts of a node.\<close>

lemma mk_node_child [simp]:
  "child_of d (mk_node par c d x y) = x" "child_of (opp d) (mk_node par c d x y) = y"
  "put_child d v (mk_node par c d x y) = mk_node par c d v y"
  "put_child (opp d) v (mk_node par c d x y) = mk_node par c d x v"
  "parent_color (mk_node par c d x y) = par + bit_of c"
  "mk_node par c d x y\<lparr>parent_color := pc\<rparr> = mk_node (pc - bit_of c) c d x y"
  by (cases d; simp add: mk_node_def)+

lemma mk_node_opp: "mk_node par c (opp d) x y = mk_node par c d y x"
  by (cases d) (simp_all add: mk_node_def)

lemma mk_node_recolor: "mk_node (q + bit_of c' - bit_of c) c d x y = mk_node q c' d x y"
  by (cases d) (simp_all add: mk_node_def)

lemma pc_bits:
  assumes "aligned p"
  shows "pc_parent (p + bit_of c) = p" "pc_black (p + bit_of c) \<longleftrightarrow> c = Black" "(p + bit_of c) AND 1 = bit_of c"
proof -
  have b3: "bit (3 :: u64) 0" "bit (3 :: u64) (Suc 0)" by (simp_all add: bit_numeral_rec bit_0 bit_Suc)
  have "\<not> bit (p AND 3) 0" "\<not> bit (p AND 3) (Suc 0)" using assms by (simp_all add: aligned_def)
  then have b0: "bit p 0 = False" and b1: "bit p (Suc 0) = False" using b3 by (simp_all add: bit_and_iff)
  have b: "\<not> (bit p n \<and> bit (3 :: u64) n)" for n
  proof -
    have "\<not> bit (p AND 3) n" using assms
      by (simp only: aligned_def bit_0_eq bot_apply bot_bool_def simp_thms)
    then show ?thesis by (simp only: bit_and_iff simp_thms)
  qed
  have d: "p AND bit_of c = 0"
    by (rule bit_word_eqI) (use b0 in \<open>auto simp: bit_of_def RB_RED_def RB_BLACK_def bit_simps intro!: gr0I split: color.splits\<close>)
  then have pc: "p + bit_of c = p OR bit_of c" by (simp add: disjunctive_add_eq_or)
  show "pc_parent (p + bit_of c) = p"
    unfolding pc pc_parent_def
    by (rule bit_word_eqI) (use b0 b1 b3 b in \<open>auto simp: bit_of_def RB_RED_def RB_BLACK_def bit_simps split: color.splits\<close>)
  show *: "(p + bit_of c) AND 1 = bit_of c"
    unfolding pc
    by (rule bit_word_eqI) (use b0 in \<open>auto simp: bit_of_def RB_RED_def RB_BLACK_def bit_simps intro!: gr0I split: color.splits\<close>)
  show "pc_black (p + bit_of c) \<longleftrightarrow> c = Black"
    unfolding pc_black_def * by (simp add: bit_of_def RB_RED_def RB_BLACK_def split: color.split)
qed

subsection \<open>Operations on stored trees\<close>

lemma ld_ok: "mem s p = Some n \<Longrightarrow> ld s p = Inr n"
  by (simp add: ld_def)

lemma upd_ok: "mem s p = Some n \<Longrightarrow> upd s p f = Inr (s\<lparr>mem := (mem s)(p \<mapsto> f n)\<rparr>)"
  by (simp add: upd_def ld_ok)

lemmas access_ok = ld_ok upd_ok get_child_def set_child_def rb_parent_def rb_is_black_def
  rb_red_parent_def rb_set_black_def rb_set_parent_def rb_set_parent_color_def

lemma node_ok:
  assumes "mem s p = Some (mk_node par c d x y)"
  shows "get_child d s p = Inr x" "get_child (opp d) s p = Inr y"
    "set_child d s p v = Inr (s\<lparr>mem := (mem s)(p \<mapsto> mk_node par c d v y)\<rparr>)"
    "set_child (opp d) s p v = Inr (s\<lparr>mem := (mem s)(p \<mapsto> mk_node par c d x v)\<rparr>)"
    "rb_set_parent_color s p q (bit_of c') = Inr (s\<lparr>mem := (mem s)(p \<mapsto> mk_node q c' d x y)\<rparr>)"
    "rb_red_parent s p = Inr (par + bit_of c)"
    "aligned par \<Longrightarrow> rb_parent s p = Inr par"
    "aligned par \<Longrightarrow> rb_is_black s p = Inr (c = Black)"
  using assms by (simp_all add: access_ok mk_node_recolor pc_bits)

text \<open>The memory after a new parent and colour for the root of a subtree.\<close>

definition repaint :: "rb_mem \<Rightarrow> u64 \<Rightarrow> color \<Rightarrow> ptree \<Rightarrow> rb_mem" where
  "repaint m q c t = (case t of Lf \<Rightarrow> m | Nd _ l a r \<Rightarrow> m(a \<mapsto> mk_node q c L (addr l) (addr r)))"

lemma repaint_other [simp]: "a \<notin> set (addrs t) \<Longrightarrow> repaint m q c t a = m a"
  by (auto simp: repaint_def split: ptree.split)

lemma stored_repaint [simp]:
  "stored m par t \<Longrightarrow> distinct (addrs t) \<Longrightarrow> stored (repaint m q c t) q (paint c t)"
  by (auto simp: repaint_def split: ptree.split)

lemma stored_repaint_other [simp]:
  "set (addrs t') \<inter> set (addrs t) = {} \<Longrightarrow> stored (repaint m q c t) par t' = stored m par t'"
  by (cases t) (auto simp: repaint_def)

lemma stored_ctx_repaint [simp]:
  "set (ctx_addrs ctx) \<inter> set (addrs t) = {} \<Longrightarrow> stored_ctx (repaint m q c t) p ctx = stored_ctx m p ctx"
  by (cases t) (auto simp: repaint_def)

lemma color_bits: "RB_RED = bit_of Red" "RB_BLACK = bit_of Black"
  by (simp_all add: bit_of_def)

lemma set_color_ok:
  "stored (mem s) par t \<Longrightarrow> t \<noteq> Lf \<Longrightarrow>
     rb_set_parent_color s (addr t) q (bit_of c) = Inr (s\<lparr>mem := repaint (mem s) q c t\<rparr>)"
  by (cases t) (auto simp: access_ok repaint_def mk_node_recolor)

lemma set_color_if_ok:
  "stored (mem s) par t \<Longrightarrow> 0 \<notin> set (addrs t) \<Longrightarrow>
     set_color_if s (addr t) q (bit_of c) = Inr (s\<lparr>mem := repaint (mem s) q c t\<rparr>)"
  by (cases t) (auto simp: set_color_if_def set_color_ok [of s par "Nd _ _ _ _", simplified] repaint_def)

lemma some_red_ok:
  "stored (mem s) par t \<Longrightarrow> 0 \<notin> set (addrs t) \<Longrightarrow> aligned par \<Longrightarrow>
     some_red s (addr t) = Inr (col t = Red)"
  by (cases t) (auto simp: some_red_def access_ok pc_bits intro: color.exhaust)

lemma set_parent_ok:
  assumes "stored (mem s) par t" "aligned par" "t \<noteq> Lf"
  shows "rb_set_parent s (addr t) q = Inr (s\<lparr>mem := repaint (mem s) q (col t) t\<rparr>)"
  using assms
  by (cases t) (auto simp: access_ok repaint_def pc_bits mk_node_recolor add.commute)

lemma set_parent_if_ok:
  "stored (mem s) par t \<Longrightarrow> aligned par \<Longrightarrow> 0 \<notin> set (addrs t) \<Longrightarrow>
     set_parent_if s (addr t) q = Inr (s\<lparr>mem := repaint (mem s) q (col t) t\<rparr>)"
  by (cases t) (auto simp: set_parent_if_def set_parent_ok [of s par "Nd _ _ _ _", simplified] repaint_def)

text \<open>The memory after a new subtree in the hole.\<close>

definition rehang :: "rb_mem \<Rightarrow> u64 \<Rightarrow> frame list \<Rightarrow> rb_mem" where
  "rehang m p ctx =
     (case ctx of [] \<Rightarrow> m | Fr d c a s # ctx' \<Rightarrow> m(a \<mapsto> mk_node (ctx_addr ctx') c d p (addr s)))"

lemma rehang_other [simp]: "a \<notin> set (ctx_addrs ctx) \<Longrightarrow> rehang m p ctx a = m a"
  by (auto simp: rehang_def split: list.split frame.split)

lemma stored_rehang [simp]:
  "set (addrs t) \<inter> set (ctx_addrs ctx) = {} \<Longrightarrow> stored (rehang m p ctx) par t = stored m par t"
  by (auto simp: rehang_def split: list.split frame.split)

lemma stored_ctx_rehang [simp]:
  "stored_ctx m q ctx \<Longrightarrow> distinct (ctx_addrs ctx) \<Longrightarrow> stored_ctx (rehang m p ctx) p ctx"
  by (auto simp: rehang_def split: list.split frame.split)

lemma change_child_ok:
  assumes "stored_ctx (mem s) old ctx" "old \<notin> set (ctx_addrs ctx)" "old \<noteq> 0" "0 \<notin> set (ctx_addrs ctx)"
  shows "rb_change_child old new (ctx_addr ctx) s =
    Inr (s\<lparr>mem := rehang (mem s) new ctx, rb_root := if ctx = [] then new else rb_root s\<rparr>)"
proof (cases ctx)
  case (Cons f ctx')
  then obtain d c a sib where f: "ctx = Fr d c a sib # ctx'" by (cases f) auto
  have "addr sib \<noteq> old" using assms f addr_in [of sib] by (cases sib) auto
  then show ?thesis using assms f
    by (cases d) (auto simp: rb_change_child_def access_ok rehang_def mk_node_def)
qed (simp add: rb_change_child_def rehang_def)

lemma addr_plug_eq: "addr t = addr t' \<or> ctx \<noteq> [] \<Longrightarrow> addr (plug t ctx) = addr (plug t' ctx)"
proof (induction t ctx arbitrary: t' rule: plug.induct)
  case (2 t d c a s ctx)
  show ?case using "2.IH" [of "nd d c t' a s"] by simp
qed simp

lemma rotate_set_parents_ok:
  assumes "mem s old = Some (mk_node (ctx_addr ctx) c d x y)" "aligned (ctx_addr ctx)"
    and "mem s new = Some (mk_node q c' d' x' y')" "old \<noteq> new"
    and "stored_ctx (mem s) old ctx" "old \<notin> set (ctx_addrs ctx)" "new \<notin> set (ctx_addrs ctx)"
      "old \<noteq> 0" "0 \<notin> set (ctx_addrs ctx)"
  shows "rb_rotate_set_parents old new (bit_of c'') s =
    Inr (s\<lparr>mem := rehang ((mem s)(new \<mapsto> mk_node (ctx_addr ctx) c d' x' y', old \<mapsto> mk_node new c'' d x y)) new ctx,
           rb_root := if ctx = [] then new else rb_root s\<rparr>)"
proof -
  have "bit_of c - bit_of c' + bit_of c' = bit_of c" by simp
  then show ?thesis using assms
    by (simp add: rb_rotate_set_parents_def access_ok pc_bits mk_node_recolor change_child_ok)
qed

lemma aligned_ctx: "valid_addrs (set (ctx_addrs ctx)) \<Longrightarrow> aligned (ctx_addr ctx)"
  by (cases ctx rule: ctx_addr.cases) (auto simp: valid_addrs_def aligned_def)

end
