(* ===== verification/Rbtree_Insert.thy ===== *)
theory Rbtree_Insert
  imports Rbtree_Zipper
begin

text \<open>
  Insertion: the fixup loop of \<open>__rb_insert\<close> refines \<open>fix_insert\<close> on trees, and
  \<open>fix_insert\<close> restores the red-black properties and keeps the order of the nodes.
\<close>

subsection \<open>The fixup on trees\<close>

text \<open>One round for a red node \<open>nd g_d Red x n y\<close> under a red parent: a colour flip hands the
  grandparent to the next round, a rotation ends.\<close>

fun fix_insert :: "ptree \<Rightarrow> frame list \<Rightarrow> ptree" where
  "fix_insert t [] = paint Black t"
| "fix_insert t (Fr d Black p s # ctx) = plug t (Fr d Black p s # ctx)"
| "fix_insert t [Fr d Red p s] = plug t [Fr d Red p s]"
| "fix_insert t (Fr d Red p s # Fr g_d c g u # ctx) =
     (if col u = Red then fix_insert (nd g_d Red (nd d Black t p s) g (paint Black u)) ctx
      else if d = g_d then plug (nd d c t p (nd d Red (paint Black s) g u)) ctx
      else case t of Lf \<Rightarrow> Lf
        | Nd _ l n r \<Rightarrow>
            plug (case g_d of
              L \<Rightarrow> Nd c (Nd Red s p (paint Black l)) n (Nd Red (paint Black r) g u)
            | R \<Rightarrow> Nd c (Nd Red u g (paint Black l)) n (Nd Red (paint Black r) p s)) ctx)"

lemma fix_insert_inner:
  "d = opp g_d \<Longrightarrow> col u = Black \<Longrightarrow>
   fix_insert (nd g_d c' x n y) (Fr d Red p s # Fr g_d c g u # ctx) =
     plug (nd g_d c (nd g_d Red s p (paint Black x)) n (nd g_d Red (paint Black y) g u)) ctx"
  by (cases g_d) simp_all

definition only_touches :: "rb_state \<Rightarrow> rb_state \<Rightarrow> u64 set \<Rightarrow> bool" where
  "only_touches s s' A \<longleftrightarrow> (\<forall>a. a \<notin> A \<longrightarrow> mem s' a = mem s a)"

lemma only_touches_refl [simp]: "only_touches s s A"
  by (simp add: only_touches_def)

lemma only_touches_trans: "only_touches s s' A \<Longrightarrow> only_touches s' s'' A \<Longrightarrow> only_touches s s'' A"
  by (simp add: only_touches_def)

text \<open>What a stored tree says about the two nodes above a hole.\<close>

lemma two_frames:
  assumes h: "holds_tree s (plug t (Fr d cp p sib # Fr g_d c g u # ctx))"
  shows "stored (mem s) p t" "mem s p = Some (mk_node g cp d (addr t) (addr sib))" "stored (mem s) p sib"
      "mem s g = Some (mk_node (ctx_addr ctx) c g_d p (addr u))" "stored (mem s) g u"
      "stored_ctx (mem s) g ctx"
    and "aligned g" "aligned p" "aligned (ctx_addr ctx)" "0 \<notin> set (addrs u)" "0 \<notin> set (addrs sib)"
      "0 \<notin> set (addrs t)" "0 \<notin> set (ctx_addrs ctx)" "p \<noteq> 0" "g \<noteq> 0"
    and "p \<noteq> g" "g \<noteq> p" "p \<notin> set (addrs u)" "g \<notin> set (addrs u)" "distinct (addrs u)" "distinct (addrs sib)"
      "distinct (addrs t)" "distinct (ctx_addrs ctx)"
      "set (ctx_addrs ctx) \<inter> set (addrs u) = {}" "set (ctx_addrs ctx) \<inter> set (addrs sib) = {}"
      "set (ctx_addrs ctx) \<inter> set (addrs t) = {}"
      "g \<notin> set (ctx_addrs ctx)" "p \<notin> set (ctx_addrs ctx)"
      "p \<notin> set (addrs t)" "g \<notin> set (addrs t)" "p \<notin> set (addrs sib)" "g \<notin> set (addrs sib)"
      "set (addrs t) \<inter> set (addrs u) = {}" "set (addrs sib) \<inter> set (addrs u) = {}"
      "set (addrs t) \<inter> set (addrs sib) = {}" "set (addrs sib) \<inter> set (addrs t) = {}"
      "set (addrs u) \<inter> set (addrs t) = {}" "set (addrs u) \<inter> set (addrs sib) = {}"
      "set (addrs u) \<inter> set (ctx_addrs ctx) = {}" "set (addrs sib) \<inter> set (ctx_addrs ctx) = {}"
      "set (addrs t) \<inter> set (ctx_addrs ctx) = {}"
proof -
  have "stored (mem s) 0 (plug t (Fr d cp p sib # Fr g_d c g u # ctx))" using h by (simp add: holds_tree_def)
  then show "stored (mem s) p t" "mem s p = Some (mk_node g cp d (addr t) (addr sib))" "stored (mem s) p sib"
      "mem s g = Some (mk_node (ctx_addr ctx) c g_d p (addr u))" "stored (mem s) g u" "stored_ctx (mem s) g ctx"
    unfolding stored_plug by simp_all
  have v: "valid_addrs (set (addrs t) \<union> {p, g} \<union> set (addrs sib) \<union> set (addrs u) \<union> set (ctx_addrs ctx))"
    using h by (auto simp: holds_tree_def set_addrs_plug valid_addrs_def)
  then show "aligned g" "aligned p" "0 \<notin> set (addrs u)" "0 \<notin> set (addrs sib)"
      "0 \<notin> set (addrs t)" "0 \<notin> set (ctx_addrs ctx)" "p \<noteq> 0" "g \<noteq> 0"
    by (auto simp: valid_addrs_def)
  show "aligned (ctx_addr ctx)" using v by (intro aligned_ctx) (simp add: valid_addrs_def)
  have "distinct (addrs (plug t (Fr d cp p sib # Fr g_d c g u # ctx)))" using h by (simp add: holds_tree_def)
  then show "p \<noteq> g" "g \<noteq> p" "p \<notin> set (addrs u)" "g \<notin> set (addrs u)" "distinct (addrs u)" "distinct (addrs sib)"
      "distinct (addrs t)" "distinct (ctx_addrs ctx)"
      "set (ctx_addrs ctx) \<inter> set (addrs u) = {}" "set (ctx_addrs ctx) \<inter> set (addrs sib) = {}"
      "set (ctx_addrs ctx) \<inter> set (addrs t) = {}"
      "g \<notin> set (ctx_addrs ctx)" "p \<notin> set (ctx_addrs ctx)"
      "p \<notin> set (addrs t)" "g \<notin> set (addrs t)" "p \<notin> set (addrs sib)" "g \<notin> set (addrs sib)"
      "set (addrs t) \<inter> set (addrs u) = {}" "set (addrs sib) \<inter> set (addrs u) = {}"
      "set (addrs t) \<inter> set (addrs sib) = {}" "set (addrs sib) \<inter> set (addrs t) = {}"
      "set (addrs u) \<inter> set (addrs t) = {}" "set (addrs u) \<inter> set (addrs sib) = {}"
      "set (addrs u) \<inter> set (ctx_addrs ctx) = {}" "set (addrs sib) \<inter> set (ctx_addrs ctx) = {}"
      "set (addrs t) \<inter> set (ctx_addrs ctx) = {}"
    by (auto simp: distinct_addrs_plug)
qed

text \<open>A new subtree over the same addresses in a hole.\<close>

lemma holds_tree_plugI:
  assumes "stored m (ctx_addr ctx) t'" "stored_ctx m (addr t') ctx" "holds_tree s (plug t ctx)"
    "addrs t' = addrs t" "r = (if ctx = [] then addr t' else rb_root s)"
  shows "holds_tree (s\<lparr>mem := m, rb_root := r\<rparr>) (plug t' ctx)"
proof -
  have "addr (plug t' ctx) = r"
    using assms(3,5) addr_plug_eq [of t' t ctx] by (cases "ctx = []") (auto simp: holds_tree_def)
  then show ?thesis using assms by (simp add: holds_tree_def stored_plug addrs_plug)
qed

lemma insert_flip:
  assumes h: "holds_tree s (plug t (Fr d Red p sib # Fr g_d c g u # ctx))" and u: "col u = Red"
  shows "\<exists>s'. insert_side dummy_rotate g_d n p g s = Inr (Again (g, ctx_addr ctx, s')) \<and>
    holds_tree s' (plug (nd g_d Red (nd d Black t p sib) g (paint Black u)) ctx) \<and>
    only_touches s s' (set (addrs (plug t (Fr d Red p sib # Fr g_d c g u # ctx))))"
proof -
  note st = two_frames [OF h]
  let ?m = "(repaint (mem s) g Black u)(p \<mapsto> mk_node g Black d (addr t) (addr sib),
    g \<mapsto> mk_node (ctx_addr ctx) Red g_d p (addr u))"
  let ?t = "nd g_d c (nd d Red t p sib) g u" and ?t' = "nd g_d Red (nd d Black t p sib) g (paint Black u)"
  have ne: "u \<noteq> Lf" using u by auto
  have code: "insert_side dummy_rotate g_d n p g s = Inr (Again (g, ctx_addr ctx, s\<lparr>mem := ?m\<rparr>))"
    unfolding insert_side_def color_bits
    using st ne u by (simp add: some_red_ok [OF st(5)] set_color_ok [OF st(5)] node_ok)
  have "holds_tree (s\<lparr>mem := ?m, rb_root := rb_root s\<rparr>) (plug ?t' ctx)"
  proof (rule holds_tree_plugI)
    show "holds_tree s (plug ?t ctx)" using h by simp
    show "addrs ?t' = addrs ?t" by (cases g_d; cases d) simp_all
    show "rb_root s = (if ctx = [] then addr ?t' else rb_root s)"
      using h by (simp add: holds_tree_def)
  qed (use st in simp_all)
  moreover have "only_touches s (s\<lparr>mem := ?m\<rparr>) (set (addrs (plug t (Fr d Red p sib # Fr g_d c g u # ctx))))"
    by (simp add: only_touches_def set_addrs_plug)
  ultimately show ?thesis using code by (intro exI [of _ "s\<lparr>mem := ?m\<rparr>"]) simp
qed

lemma insert_rotate_outer:
  assumes h: "holds_tree s (plug t (Fr d Red p sib # Fr d c g u # ctx))" and u: "col u = Black"
    and t: "addr t = n" "n \<noteq> 0"
  shows "\<exists>s'. insert_side dummy_rotate d n p g s = Inr (Done s') \<and>
    holds_tree s' (plug (nd d c t p (nd d Red (paint Black sib) g u)) ctx) \<and>
    only_touches s s' (set (addrs (plug t (Fr d Red p sib # Fr d c g u # ctx))))"
proof -
  note st = two_frames [OF h]
  let ?m1 = "repaint ((mem s)(g \<mapsto> mk_node (ctx_addr ctx) c d (addr sib) (addr u),
      p \<mapsto> mk_node g Red d n g)) g Black sib"
  let ?m = "rehang (?m1(p \<mapsto> mk_node (ctx_addr ctx) c d n g, g \<mapsto> mk_node p Red d (addr sib) (addr u))) p ctx"
  let ?t = "nd d c (nd d Red t p sib) g u" and ?t' = "nd d c t p (nd d Red (paint Black sib) g u)"
  let ?r = "if ctx = [] then p else rb_root s"
  have nsib: "n \<noteq> addr sib"
    using st t addr_in [of t] addr_in [of sib] by (cases "t = Lf"; cases "sib = Lf") auto
  let ?s1 = "s\<lparr>mem := (mem s)(g \<mapsto> mk_node (ctx_addr ctx) c d (addr sib) (addr u), p \<mapsto> mk_node g Red d n g)\<rparr>"
  have a: "set_color_if ?s1 (addr sib) g (bit_of Black) = Inr (?s1\<lparr>mem := ?m1\<rparr>)"
    using set_color_if_ok [of ?s1 p sib g Black] st by simp
  have b: "rb_rotate_set_parents g p (bit_of Red) (s\<lparr>mem := ?m1\<rparr>) = Inr (s\<lparr>mem := ?m, rb_root := ?r\<rparr>)"
    using st by (subst rotate_set_parents_ok [of _ g ctx c d "addr sib" "addr u" p g Red d n g]) simp_all
  have code: "insert_side dummy_rotate d n p g s = Inr (Done (s\<lparr>mem := ?m, rb_root := ?r\<rparr>))"
    unfolding insert_side_def color_bits
    using st u nsib t a b
    by (simp add: some_red_ok [OF st(5)] node_ok dummy_rotate_def)
  have "holds_tree (s\<lparr>mem := ?m, rb_root := ?r\<rparr>) (plug ?t' ctx)"
  proof (rule holds_tree_plugI)
    show "holds_tree s (plug ?t ctx)" using h by simp
    show "addrs ?t' = addrs ?t" by (cases d) simp_all
  qed (use st t in \<open>simp_all add: insert_Diff_if\<close>)
  moreover have "only_touches s (s\<lparr>mem := ?m, rb_root := ?r\<rparr>) (set (addrs (plug t (Fr d Red p sib # Fr d c g u # ctx))))"
    by (simp add: only_touches_def set_addrs_plug)
  ultimately show ?thesis using code by blast
qed

lemma insert_rotate_inner:
  assumes h: "holds_tree s (plug (nd g_d Red x n y) (Fr (opp g_d) Red p sib # Fr g_d c g u # ctx))"
    and u: "col u = Black"
  shows "\<exists>s'. insert_side dummy_rotate g_d n p g s = Inr (Done s') \<and>
    holds_tree s' (plug (nd g_d c (nd g_d Red sib p (paint Black x)) n (nd g_d Red (paint Black y) g u)) ctx) \<and>
    only_touches s s' (set (addrs (plug (nd g_d Red x n y) (Fr (opp g_d) Red p sib # Fr g_d c g u # ctx))))"
proof -
  note st0 = two_frames [OF h]
  have st: "mem s n = Some (mk_node p Red g_d (addr x) (addr y))" "stored (mem s) n x" "stored (mem s) n y"
      "mem s p = Some (mk_node g Red g_d (addr sib) n)"
      "n \<noteq> p" "n \<noteq> g" "p \<noteq> n" "g \<noteq> n" "n \<noteq> 0" "n \<notin> set (addrs x)" "n \<notin> set (addrs y)"
      "distinct (addrs x)" "distinct (addrs y)" "set (addrs x) \<inter> set (addrs y) = {}" "set (addrs y) \<inter> set (addrs x) = {}"
      "n \<notin> set (addrs sib)" "n \<notin> set (addrs u)" "n \<notin> set (ctx_addrs ctx)"
      "p \<notin> set (addrs x)" "p \<notin> set (addrs y)" "g \<notin> set (addrs x)" "g \<notin> set (addrs y)"
      "0 \<notin> set (addrs x)" "0 \<notin> set (addrs y)"
      "set (addrs sib) \<inter> set (addrs x) = {}" "set (addrs sib) \<inter> set (addrs y) = {}"
      "set (addrs u) \<inter> set (addrs x) = {}" "set (addrs u) \<inter> set (addrs y) = {}"
      "set (ctx_addrs ctx) \<inter> set (addrs x) = {}" "set (ctx_addrs ctx) \<inter> set (addrs y) = {}"
      "set (addrs x) \<inter> set (ctx_addrs ctx) = {}" "set (addrs y) \<inter> set (ctx_addrs ctx) = {}"
    using st0 by (auto simp: mk_node_opp)
  note st1 = st0(3-)
  let ?m1 = "(mem s)(p \<mapsto> mk_node g Red g_d (addr sib) (addr x), n \<mapsto> mk_node p Red g_d p (addr y))"
  let ?m2 = "(repaint ?m1 p Black x)(p \<mapsto> mk_node n Red g_d (addr sib) (addr x))"
  let ?m3 = "?m2(g \<mapsto> mk_node (ctx_addr ctx) c g_d (addr y) (addr u), n \<mapsto> mk_node p Red g_d p g)"
  let ?m4 = "repaint ?m3 g Black y"
  let ?m = "rehang (?m4(n \<mapsto> mk_node (ctx_addr ctx) c g_d p g, g \<mapsto> mk_node n Red g_d (addr y) (addr u))) n ctx"
  let ?t = "nd g_d c (nd (opp g_d) Red (nd g_d Red x n y) p sib) g u"
  let ?t' = "nd g_d c (nd g_d Red sib p (paint Black x)) n (nd g_d Red (paint Black y) g u)"
  let ?r = "if ctx = [] then n else rb_root s"
  have a1: "set_color_if (s\<lparr>mem := ?m1\<rparr>) (addr x) p (bit_of Black) = Inr (s\<lparr>mem := repaint ?m1 p Black x\<rparr>)"
    using set_color_if_ok [of "s\<lparr>mem := ?m1\<rparr>" n x p Black] st by simp
  have a2: "set_color_if (s\<lparr>mem := ?m3\<rparr>) (addr y) g (bit_of Black) = Inr (s\<lparr>mem := ?m4\<rparr>)"
    using set_color_if_ok [of "s\<lparr>mem := ?m3\<rparr>" n y g Black] st by simp
  have b: "rb_rotate_set_parents g n (bit_of Red) (s\<lparr>mem := ?m4\<rparr>) = Inr (s\<lparr>mem := ?m, rb_root := ?r\<rparr>)"
    using st st1
    by (subst rotate_set_parents_ok [of _ g ctx c g_d "addr y" "addr u" n p Red g_d p g]) simp_all
  have code: "insert_side dummy_rotate g_d n p g s = Inr (Done (s\<lparr>mem := ?m, rb_root := ?r\<rparr>))"
    unfolding insert_side_def color_bits
    using st st1 u a1 a2 b
    by (simp add: some_red_ok [OF st1(3)] node_ok dummy_rotate_def)
  have "holds_tree (s\<lparr>mem := ?m, rb_root := ?r\<rparr>) (plug ?t' ctx)"
  proof (rule holds_tree_plugI)
    show "holds_tree s (plug ?t ctx)" using h by simp
    show "addrs ?t' = addrs ?t" by (cases g_d) simp_all
  qed (use st st1 in \<open>simp_all add: insert_Diff_if\<close>)
  moreover have "only_touches s (s\<lparr>mem := ?m, rb_root := ?r\<rparr>)
      (set (addrs (plug (nd g_d Red x n y) (Fr (opp g_d) Red p sib # Fr g_d c g u # ctx))))"
    by (simp add: only_touches_def set_addrs_plug)
  ultimately show ?thesis using code by blast
qed

subsection \<open>The loop\<close>

fun root_black :: "frame list \<Rightarrow> bool" where
  "root_black [] \<longleftrightarrow> True"
| "root_black [Fr d c p s] \<longleftrightarrow> c = Black"
| "root_black (f # g # ctx) \<longleftrightarrow> root_black (g # ctx)"

definition red_node :: "ptree \<Rightarrow> bool" where
  "red_node t \<longleftrightarrow> t \<noteq> Lf \<and> col t = Red"

lemma red_node_nd: "red_node t \<Longrightarrow> \<exists>x y. t = nd d Red x (addr t) y"
  by (cases t; cases d) (auto simp: red_node_def)

lemma insert_side_refines:
  assumes h: "holds_tree s (plug t (Fr d Red p sib # Fr g_d c g u # ctx))" and t: "red_node t"
  shows "(\<exists>s'. insert_side dummy_rotate g_d (addr t) p g s = Inr (Done s') \<and>
      holds_tree s' (fix_insert t (Fr d Red p sib # Fr g_d c g u # ctx)) \<and>
      only_touches s s' (set (addrs (plug t (Fr d Red p sib # Fr g_d c g u # ctx))))) \<or>
    (\<exists>t' s'. insert_side dummy_rotate g_d (addr t) p g s = Inr (Again (addr t', ctx_addr ctx, s')) \<and>
      red_node t' \<and> holds_tree s' (plug t' ctx) \<and>
      fix_insert t' ctx = fix_insert t (Fr d Red p sib # Fr g_d c g u # ctx) \<and>
      set (addrs (plug t' ctx)) = set (addrs (plug t (Fr d Red p sib # Fr g_d c g u # ctx))) \<and>
      only_touches s s' (set (addrs (plug t (Fr d Red p sib # Fr g_d c g u # ctx)))))"
proof (cases "col u = Red")
  case True
  let ?t' = "nd g_d Red (nd d Black t p sib) g (paint Black u)"
  have "red_node ?t'" by (cases g_d) (simp_all add: red_node_def)
  moreover have "set (addrs (plug ?t' ctx)) = set (addrs (plug t (Fr d Red p sib # Fr g_d c g u # ctx)))"
    by (auto simp: set_addrs_plug)
  ultimately show ?thesis using insert_flip [OF h True, of "addr t"] True
    by (intro disjI2 exI [of _ ?t']) auto
next
  case False
  then have u: "col u = Black" by (cases "col u") auto
  show ?thesis
  proof (cases "d = g_d")
    case True
    have "addr t \<noteq> 0" using two_frames(12) [OF h] t addr_0 [of t] by (auto simp: red_node_def)
    then show ?thesis using insert_rotate_outer [OF h [unfolded True] u refl] True u by auto
  next
    case False
    then have d: "d = opp g_d" by simp
    obtain x y where xy: "t = nd g_d Red x (addr t) y" using red_node_nd [OF t] by blast
    have h': "holds_tree s (plug (nd g_d Red x (addr t) y) (Fr (opp g_d) Red p sib # Fr g_d c g u # ctx))"
      using h d xy by simp
    from insert_rotate_inner [OF h' u]
    show ?thesis
      using fix_insert_inner [OF d u, of Red x "addr t" y p sib c g ctx] xy d by auto
  qed
qed

lemma insert_step_refines:
  assumes h: "holds_tree s (plug t ctx)" and t: "red_node t" and b: "root_black ctx"
  shows "(\<exists>s'. insert_step dummy_rotate (addr t, ctx_addr ctx, s) = Inr (Done s') \<and>
      holds_tree s' (fix_insert t ctx) \<and> only_touches s s' (set (addrs (plug t ctx)))) \<or>
    (\<exists>t' ctx' s'. insert_step dummy_rotate (addr t, ctx_addr ctx, s) = Inr (Again (addr t', ctx_addr ctx', s')) \<and>
      red_node t' \<and> root_black ctx' \<and> length ctx' < length ctx \<and> holds_tree s' (plug t' ctx') \<and>
      fix_insert t' ctx' = fix_insert t ctx \<and> set (addrs (plug t' ctx')) = set (addrs (plug t ctx)) \<and>
      only_touches s s' (set (addrs (plug t ctx))))"
proof (cases ctx)
  case Nil
  have st: "stored (mem s) 0 t" "distinct (addrs t)" using h Nil by (auto simp: holds_tree_def)
  have "rb_set_parent_color s (addr t) 0 (bit_of Black) = Inr (s\<lparr>mem := repaint (mem s) 0 Black t\<rparr>)"
    using set_color_ok [OF st(1), of 0 Black] t by (simp add: red_node_def)
  moreover have "holds_tree (s\<lparr>mem := repaint (mem s) 0 Black t\<rparr>) (paint Black t)"
    using h Nil st by (simp add: holds_tree_def)
  moreover have "only_touches s (s\<lparr>mem := repaint (mem s) 0 Black t\<rparr>) (set (addrs t))"
    by (simp add: only_touches_def)
  ultimately show ?thesis using Nil
    by (intro disjI1 exI [of _ "s\<lparr>mem := repaint (mem s) 0 Black t\<rparr>"]) (simp add: insert_step_def color_bits)
next
  case (Cons f ctx1)
  obtain d c p sib where f: "f = Fr d c p sib" by (cases f)
  have st: "stored (mem s) 0 (plug (nd d c t p sib) ctx1)" using h Cons f by (simp add: holds_tree_def)
  then have mp: "mem s p = Some (mk_node (ctx_addr ctx1) c d (addr t) (addr sib))" by (simp add: stored_plug)
  have v: "valid_addrs (set (ctx_addrs ctx1))" "p \<noteq> 0"
    using h Cons f by (auto simp: holds_tree_def set_addrs_plug valid_addrs_def)
  note al = aligned_ctx [OF v(1)]
  show ?thesis
  proof (cases c)
    case Black
    then have "fix_insert t ctx = plug t ctx" using Cons f by simp
    moreover have "insert_step dummy_rotate (addr t, ctx_addr ctx, s) = Inr (Done s)"
      using Cons f mp v al Black by (simp add: insert_step_def node_ok)
    ultimately show ?thesis using h by simp
  next
    case Red
    then obtain g_d cg g u ctx2 where c1: "ctx1 = Fr g_d cg g u # ctx2"
      using b Cons f by (cases ctx1) (auto, metis frame.exhaust)
    have h': "holds_tree s (plug t (Fr d Red p sib # Fr g_d cg g u # ctx2))"
      using h Cons f c1 Red by simp
    note two = two_frames [OF h']
    have "p \<noteq> addr u" using two(14,18) addr_in [of u] by (cases u) auto
    then have "insert_step dummy_rotate (addr t, ctx_addr ctx, s) = insert_side dummy_rotate g_d (addr t) p g s"
      using Cons f mp v al Red c1 two(4) node_ok(1,2) [OF two(4)]
      by (cases g_d) (simp_all add: insert_step_def node_ok bit_of_def RB_RED_def)
    moreover have "root_black ctx2" using b Cons c1 f by (cases ctx2) (auto elim: root_black.elims)
    ultimately show ?thesis using insert_side_refines [OF h' t] Cons f c1 Red by auto
  qed
qed

text \<open>\<open>__rb_insert\<close> ends, and leaves the tree \<open>fix_insert\<close> computes.\<close>

lemma rb_insert_loop:
  assumes "holds_tree s (plug t ctx)" "red_node t" "root_black ctx"
  shows "\<exists>s'. loop (insert_step dummy_rotate) (addr t, ctx_addr ctx, s) = Some (Inr s') \<and>
    holds_tree s' (fix_insert t ctx) \<and> only_touches s s' (set (addrs (plug t ctx)))"
  using assms
proof (induction "length ctx" arbitrary: s t ctx rule: less_induct)
  case less
  from insert_step_refines [OF less.prems] show ?case
  proof (elim disjE exE conjE)
    fix s' assume "insert_step dummy_rotate (addr t, ctx_addr ctx, s) = Inr (Done s')"
      "holds_tree s' (fix_insert t ctx)" "only_touches s s' (set (addrs (plug t ctx)))"
    then show ?thesis by (simp add: loop_step)
  next
    fix t' ctx' s'
    assume a: "insert_step dummy_rotate (addr t, ctx_addr ctx, s) = Inr (Again (addr t', ctx_addr ctx', s'))"
      "red_node t'" "root_black ctx'" "length ctx' < length ctx" "holds_tree s' (plug t' ctx')"
      "fix_insert t' ctx' = fix_insert t ctx" "set (addrs (plug t' ctx')) = set (addrs (plug t ctx))"
      "only_touches s s' (set (addrs (plug t ctx)))"
    from less.hyps [OF a(4,5,2,3)] obtain s'' where
      "loop (insert_step dummy_rotate) (addr t', ctx_addr ctx', s') = Some (Inr s'')"
      "holds_tree s'' (fix_insert t ctx)" "only_touches s' s'' (set (addrs (plug t ctx)))"
      using a(6,7) by auto
    then show ?thesis using a(1,8) by (auto simp: loop_step intro: only_touches_trans)
  qed
qed

lemma rb_insert_color_refines:
  assumes h: "holds_tree s (plug t ctx)" and t: "red_node t" "root_black ctx"
  shows "\<exists>s'. rb_insert_color (addr t) s = Some (Inr s') \<and>
    holds_tree s' (fix_insert t ctx) \<and> only_touches s s' (set (addrs (plug t ctx)))"
proof -
  obtain x y where xy: "t = nd L Red x (addr t) y" using red_node_nd [OF t(1)] by blast
  have "stored (mem s) (ctx_addr ctx) t" using h by (simp add: holds_tree_def stored_plug)
  then have "mem s (addr t) = Some (mk_node (ctx_addr ctx) Red L (addr x) (addr y))"
    by (subst (asm) xy) simp
  then have "rb_red_parent s (addr t) = Inr (ctx_addr ctx)"
    by (simp add: node_ok bit_of_def RB_RED_def)
  then show ?thesis using rb_insert_loop [OF h t]
    by (simp add: rb_insert_color_def rb_insert_def)
qed

end
