(* ===== verification/Rbtree_Inv.thy ===== *)
theory Rbtree_Inv
  imports Rbtree_Insert
begin

text \<open>
  The properties the comment at the top of \<open>rbtree.c\<close> lists, for trees and for contexts,
  and what the insertion fixup does to them.
\<close>

subsection \<open>The red-black properties\<close>

text \<open>\<open>rb h t\<close>: no red node has a red child, and every path has \<open>h\<close> black nodes.\<close>

fun rb :: "nat \<Rightarrow> ptree \<Rightarrow> bool" where
  "rb h Lf \<longleftrightarrow> h = 0"
| "rb h (Nd Black l a r) \<longleftrightarrow> (case h of 0 \<Rightarrow> False | Suc k \<Rightarrow> rb k l \<and> rb k r)"
| "rb h (Nd Red l a r) \<longleftrightarrow> rb h l \<and> rb h r \<and> col l = Black \<and> col r = Black"

definition red_black :: "ptree \<Rightarrow> bool" where
  "red_black t \<longleftrightarrow> col t = Black \<and> (\<exists>h. rb h t)"

fun top_black :: "frame list \<Rightarrow> bool" where
  "top_black [] \<longleftrightarrow> False"
| "top_black (Fr d c a s # ctx) \<longleftrightarrow> c = Black"

text \<open>\<open>ctx_rb h ctx\<close>: a hole for a subtree with \<open>h\<close> black nodes per path.\<close>

fun ctx_rb :: "nat \<Rightarrow> frame list \<Rightarrow> bool" where
  "ctx_rb h [] \<longleftrightarrow> True"
| "ctx_rb h (Fr d Black a s # ctx) \<longleftrightarrow> rb h s \<and> ctx_rb (Suc h) ctx"
| "ctx_rb h (Fr d Red a s # ctx) \<longleftrightarrow> rb h s \<and> col s = Black \<and> ctx_rb h ctx \<and> top_black ctx"

lemma rb_nd [simp]:
  "rb h (nd d Black x a y) \<longleftrightarrow> (\<exists>k. h = Suc k \<and> rb k x \<and> rb k y)"
  "rb h (nd d Red x a y) \<longleftrightarrow> rb h x \<and> rb h y \<and> col x = Black \<and> col y = Black"
  by (cases d; auto split: nat.split)+

lemma rb_Black [simp]: "rb (Suc k) (Nd Black l a r) \<longleftrightarrow> rb k l \<and> rb k r"
  by simp

lemma rb_paint_Black: "rb h t \<Longrightarrow> col t = Red \<Longrightarrow> rb (Suc h) (paint Black t)"
  by (cases t) auto

lemma paint_same [simp]: "col t = c \<Longrightarrow> paint c t = t"
  by (cases t) auto

lemma not_Red [simp]: "c \<noteq> Red \<longleftrightarrow> c = Black" "c \<noteq> Black \<longleftrightarrow> c = Red"
  by (cases c; simp)+

lemma plug_red_black:
  "rb h t \<Longrightarrow> ctx_rb h ctx \<Longrightarrow> col t = Black \<or> top_black ctx \<Longrightarrow> red_black (plug t ctx)"
proof (induction t ctx arbitrary: h rule: plug.induct)
  case (1 t)
  then show ?case by (auto simp: red_black_def)
next
  case (2 t d c a s ctx)
  show ?case
  proof (cases c)
    case Red
    then show ?thesis using 2 by (auto intro!: "2.IH" [of h])
  next
    case Black
    then show ?thesis using 2 by (auto intro!: "2.IH" [of "Suc h"])
  qed
qed

lemma red_black_plug:
  "red_black (plug t ctx) \<Longrightarrow> \<exists>h. rb h t \<and> ctx_rb h ctx \<and> (col t = Black \<or> top_black ctx)"
proof (induction t ctx rule: plug.induct)
  case (1 t)
  then show ?case by (auto simp: red_black_def)
next
  case (2 t d c a s ctx)
  then obtain h where h: "rb h (nd d c t a s)" "ctx_rb h ctx" "c = Black \<or> top_black ctx" by auto
  show ?case
  proof (cases c)
    case Red
    then show ?thesis using h by auto
  next
    case Black
    then show ?thesis using h by auto
  qed
qed

lemma root_black_ctx: "ctx_rb h ctx \<Longrightarrow> root_black ctx"
proof (induction ctx arbitrary: h rule: root_black.induct)
  case (2 d c p s)
  then show ?case by (cases c) auto
next
  case (3 f g ctx)
  then show ?case by (cases f; cases "case f of Fr d c a s \<Rightarrow> c") auto
qed simp

subsection \<open>What the fixup does\<close>

lemma addrs_fix_insert: "t \<noteq> Lf \<Longrightarrow> addrs (fix_insert t ctx) = addrs (plug t ctx)"
proof (induction t ctx rule: fix_insert.induct)
  case (4 t d p s g_d c g u ctx)
  show ?case
  proof (cases "col u = Red")
    case True
    have ne: "nd g_d Red (nd d Black t p s) g (paint Black u) \<noteq> Lf" by (cases g_d) simp_all
    have "addrs (nd g_d Red (nd d Black t p s) g (paint Black u)) = addrs (nd g_d c (nd d Red t p s) g u)"
      by (cases g_d; cases d) simp_all
    then show ?thesis using "4.IH" [OF True ne] True by (simp add: addrs_plug)
  next
    case False
    then show ?thesis using 4
      by (cases t; cases g_d; cases d) (simp_all add: addrs_plug)
  qed
qed (simp_all add: addrs_plug)

lemma fix_insert_red_black:
  "red_node t \<Longrightarrow> rb h t \<Longrightarrow> ctx_rb h ctx \<Longrightarrow> red_black (fix_insert t ctx)"
proof (induction t ctx arbitrary: h rule: fix_insert.induct)
  case (1 t)
  then have "rb (Suc h) (paint Black t)" "col (paint Black t) = Black"
    using rb_paint_Black [of h t] by (cases t; auto simp: red_node_def)+
  then show ?case by (auto simp: red_black_def simp del: rb.simps)
next
  case (2 t d p s ctx)
  then show ?case using plug_red_black [of h t "Fr d Black p s # ctx"] by simp
next
  case (3 t d p s)
  then show ?case by simp
next
  case (4 t d p s g_d c g u ctx)
  then have c: "c = Black" by simp
  have h: "rb h s" "col s = Black" "rb h u" "ctx_rb (Suc h) ctx" using 4 c by auto
  show ?case
  proof (cases "col u = Red")
    case True
    have "rb (Suc h) (nd g_d Red (nd d Black t p s) g (paint Black u))"
      using 4 h rb_paint_Black [OF h(3) True] True by (cases u) simp_all
    moreover have "red_node (nd g_d Red (nd d Black t p s) g (paint Black u))"
      by (cases g_d) (simp_all add: red_node_def)
    ultimately show ?thesis using "4.IH" [OF True _ _ h(4)] True by simp
  next
    case False
    then have u: "col u = Black" by simp
    show ?thesis
    proof (cases "d = g_d")
      case True
      have "red_black (plug (nd d Black t p (nd d Red (paint Black s) g u)) ctx)"
        using 4 h u by (intro plug_red_black [of "Suc h"]) simp_all
      then show ?thesis using u True c by simp
    next
      case False
      then have d: "d = opp g_d" by simp
      obtain x y where xy: "t = nd g_d Red x (addr t) y" using red_node_nd [OF 4(2)] by blast
      then have r: "rb h x" "rb h y" "col x = Black" "col y = Black" using 4(3) rb_nd(2) by metis+
      have "red_black (plug (nd g_d Black (nd g_d Red s p (paint Black x)) (addr t) (nd g_d Red (paint Black y) g u)) ctx)"
        using h r u by (intro plug_red_black [of "Suc h"]) simp_all
      then show ?thesis using fix_insert_inner [OF d u, of Red x "addr t" y p s c g ctx] xy c by simp
    qed
  qed
qed

text \<open>Linking a red node into the hole of a red-black tree and fixing up: the node is where the
  hole was, and the red-black properties hold again.\<close>

lemma insert_leaf:
  assumes "red_black (plug Lf ctx)"
  shows "red_black (fix_insert (Nd Red Lf n Lf) ctx)"
    and "addrs (fix_insert (Nd Red Lf n Lf) ctx) = ctx_before ctx @ n # ctx_after ctx"
    and "root_black ctx"
proof -
  obtain h where "rb h Lf" "ctx_rb h ctx" using red_black_plug [OF assms] by blast
  then show "red_black (fix_insert (Nd Red Lf n Lf) ctx)" "root_black ctx"
    by (auto intro!: fix_insert_red_black simp: red_node_def dest: root_black_ctx)
  show "addrs (fix_insert (Nd Red Lf n Lf) ctx) = ctx_before ctx @ n # ctx_after ctx"
    by (simp add: addrs_fix_insert addrs_plug)
qed

subsection \<open>Height\<close>

fun height :: "ptree \<Rightarrow> nat" where
  "height Lf = 0"
| "height (Nd c l a r) = Suc (max (height l) (height r))"

lemma rb_height: "rb h t \<Longrightarrow> height t \<le> 2 * h + (if col t = Red then 1 else 0)"
proof (induction h t rule: rb.induct)
  case (2 h l a r)
  then show ?case by (auto split: nat.splits if_splits simp: le_Suc_eq)
qed auto

lemma rb_size: "rb h t \<Longrightarrow> 2 ^ h \<le> Suc (length (addrs t))"
proof (induction h t rule: rb.induct)
  case (2 h l a r)
  then show ?case by (auto split: nat.splits)
qed auto

end
