(* ===== verification/Rbtree_Add.thy ===== *)
theory Rbtree_Add
  imports Rbtree_Inv
begin

text \<open>
  Linking and ordered insertion: the descents of \<open>rb_add\<close> and \<open>rb_add_cached\<close> find the hole
  for a node, \<open>rb_link_node\<close> fills it, the fixup follows.
\<close>

subsection \<open>Holes\<close>

fun hole_link :: "frame list \<Rightarrow> rb_link" where
  "hole_link [] = Root_link"
| "hole_link (Fr d c a s # ctx) = Child_link d a"

text \<open>\<open>fresh s n\<close>: \<open>n\<close> is the address of a node that is in no tree over \<open>A\<close>.\<close>

definition fresh_node :: "rb_state \<Rightarrow> u64 \<Rightarrow> u64 set \<Rightarrow> bool" where
  "fresh_node s n A \<longleftrightarrow> n \<notin> A \<and> n \<noteq> 0 \<and> aligned n \<and> mem s n \<noteq> None"

lemma link_hole:
  assumes h: "holds_tree s (plug Lf ctx)" and n: "fresh_node s n (set (ctx_addrs ctx))"
  shows "\<exists>s'. rb_link_node n (ctx_addr ctx) (hole_link ctx) s = Inr s' \<and>
    holds_tree s' (plug (Nd Red Lf n Lf) ctx) \<and> only_touches s s' (insert n (set (ctx_addrs ctx)))"
proof -
  let ?m = "(mem s)(n \<mapsto> mk_node (ctx_addr ctx) Red L 0 0)"
  let ?m' = "rehang ?m n ctx" and ?r = "if ctx = [] then n else rb_root s"
  have st: "stored_ctx (mem s) 0 ctx" "distinct (ctx_addrs ctx)" "valid_addrs (set (ctx_addrs ctx))"
    using h by (auto simp: holds_tree_def stored_plug distinct_addrs_plug set_addrs_plug)
  have nn: "n \<notin> set (ctx_addrs ctx)" "n \<noteq> 0" "aligned n" using n by (auto simp: fresh_node_def)
  have "upd s n (\<lambda>n. n\<lparr>parent_color := ctx_addr ctx, rb_right := 0, rb_left := 0\<rparr>) = Inr (s\<lparr>mem := ?m\<rparr>)"
  proof -
    obtain y where "mem s n = Some y" using n by (auto simp: fresh_node_def)
    moreover have "y\<lparr>parent_color := ctx_addr ctx, rb_right := 0, rb_left := 0\<rparr> = mk_node (ctx_addr ctx) Red L 0 0"
      by (cases y) (simp add: mk_node_def bit_of_def RB_RED_def)
    ultimately show ?thesis by (simp add: upd_ok)
  qed
  moreover have "put_link (hole_link ctx) n (s\<lparr>mem := ?m\<rparr>) = Inr (s\<lparr>mem := ?m', rb_root := ?r\<rparr>)"
  proof (cases ctx rule: hole_link.cases)
    case (2 d c a sib ctx')
    then have "mem (s\<lparr>mem := ?m\<rparr>) a = Some (mk_node (ctx_addr ctx') c d 0 (addr sib))"
      using st nn by auto
    then show ?thesis using 2 by (simp add: put_link_def node_ok rehang_def)
  qed (simp add: put_link_def rehang_def)
  moreover have "holds_tree (s\<lparr>mem := ?m', rb_root := ?r\<rparr>) (plug (Nd Red Lf n Lf) ctx)"
  proof -
    have "stored_ctx ?m 0 ctx" using st nn by simp
    then have "stored_ctx ?m' n ctx" using st by (intro stored_ctx_rehang) simp_all
    moreover have "addr (plug (Nd Red Lf n Lf) ctx) = ?r"
      using h addr_plug_eq [of "Nd Red Lf n Lf" Lf ctx] by (cases "ctx = []") (auto simp: holds_tree_def)
    ultimately show ?thesis using st nn
      by (auto simp: holds_tree_def stored_plug distinct_addrs_plug set_addrs_plug valid_addrs_def)
  qed
  moreover have "only_touches s (s\<lparr>mem := ?m', rb_root := ?r\<rparr>) (insert n (set (ctx_addrs ctx)))"
    by (simp add: only_touches_def)
  ultimately show ?thesis by (intro exI [of _ "s\<lparr>mem := ?m', rb_root := ?r\<rparr>"]) (simp add: rb_link_node_def)
qed

text \<open>Linking and fixing up together.\<close>

lemma link_and_fix:
  assumes h: "holds_tree s (plug Lf ctx)" "red_black (plug Lf ctx)"
    and n: "fresh_node s n (set (ctx_addrs ctx))"
  shows "\<exists>s1 s' t'. rb_link_node n (ctx_addr ctx) (hole_link ctx) s = Inr s1 \<and>
    rb_insert_color n s1 = Some (Inr s') \<and> holds_tree s' t' \<and> red_black t' \<and>
    addrs t' = ctx_before ctx @ n # ctx_after ctx \<and> only_touches s s' (insert n (set (ctx_addrs ctx)))"
proof -
  obtain s1 where s1: "rb_link_node n (ctx_addr ctx) (hole_link ctx) s = Inr s1"
      "holds_tree s1 (plug (Nd Red Lf n Lf) ctx)" "only_touches s s1 (insert n (set (ctx_addrs ctx)))"
    using link_hole [OF h(1) n] by blast
  note ins = insert_leaf(1,2) [OF h(2), of n] insert_leaf(3) [OF h(2)]
  obtain s' where "rb_insert_color n s1 = Some (Inr s')" "holds_tree s' (fix_insert (Nd Red Lf n Lf) ctx)"
      "only_touches s1 s' (insert n (set (ctx_addrs ctx)))"
    using rb_insert_color_refines [OF s1(2) _ ins(3)] by (auto simp: red_node_def set_addrs_plug)
  then show ?thesis using s1 ins(1,2) only_touches_trans by blast
qed

subsection \<open>The descent\<close>

lemma get_hole_link:
  assumes "holds_tree s (plug t ctx)"
  shows "get_link (hole_link ctx) s = Inr (addr t)"
proof (cases ctx rule: hole_link.cases)
  case (2 d c a sib ctx')
  then have "mem s a = Some (mk_node (ctx_addr ctx') c d (addr t) (addr sib))"
    using assms by (simp add: holds_tree_def stored_plug)
  then show ?thesis using 2 by (simp add: get_link_def node_ok)
qed (use assms in \<open>simp add: get_link_def holds_tree_def\<close>)

lemma holds_tree_addr_0:
  "holds_tree s (plug t ctx) \<Longrightarrow> addr t = 0 \<longleftrightarrow> t = Lf"
  by (rule addr_0) (auto simp: holds_tree_def valid_addrs_def set_addrs_plug)

text \<open>\<open>up_set P as\<close>: once \<open>P\<close> holds along the list it keeps holding.\<close>

definition up_set :: "('a \<Rightarrow> bool) \<Rightarrow> 'a list \<Rightarrow> bool" where
  "up_set P as \<longleftrightarrow> sorted_wrt (\<lambda>a b. P a \<longrightarrow> P b) as"

lemma up_set_append:
  "up_set P (xs @ ys) \<longleftrightarrow> up_set P xs \<and> up_set P ys \<and> (\<forall>x \<in> set xs. \<forall>y \<in> set ys. P x \<longrightarrow> P y)"
  by (auto simp: up_set_def sorted_wrt_append)

lemma up_set_Cons: "up_set P (x # ys) \<longleftrightarrow> (\<forall>y \<in> set ys. P x \<longrightarrow> P y) \<and> up_set P ys"
  by (auto simp: up_set_def)

lemma up_set_split:
  "\<forall>x \<in> set xs. \<not> P x \<Longrightarrow> \<forall>y \<in> set ys. P y \<Longrightarrow> filter P (xs @ ys) = ys \<and> filter (\<lambda>a. \<not> P a) (xs @ ys) = xs"
  by (auto simp: filter_id_conv filter_empty_conv)

lemma add_descent:
  assumes "holds_tree s (plug t ctx)" "up_set (lt n) (addrs t)"
  shows "\<exists>ctx' xs ys. loop (add_step lt n s) (hole_link ctx, ctx_addr ctx, lm) =
      Some (Inr (hole_link ctx', ctx_addr ctx', lm \<and> xs = [])) \<and>
    plug Lf ctx' = plug t ctx \<and> addrs t = xs @ ys \<and>
    ctx_before ctx' = ctx_before ctx @ xs \<and> ctx_after ctx' = ys @ ctx_after ctx \<and>
    (\<forall>x \<in> set xs. \<not> lt n x) \<and> (\<forall>y \<in> set ys. lt n y)"
  using assms
proof (induction t arbitrary: ctx lm)
  case Lf
  have "add_step lt n s (hole_link ctx, ctx_addr ctx, lm) = Inr (Done (hole_link ctx, ctx_addr ctx, lm))"
    using get_hole_link [OF Lf(1)] by (simp add: add_step_def)
  then show ?case by (intro exI [of _ ctx] exI [of _ "[]"]) (simp add: loop_step)
next
  case (Nd c l a r)
  have a: "a \<noteq> 0" using holds_tree_addr_0 [OF Nd.prems(1)] by simp
  note get = get_hole_link [OF Nd.prems(1)]
  show ?case
  proof (cases "lt n a")
    case True
    let ?ctx = "Fr L c a r # ctx"
    have p: "holds_tree s (plug l ?ctx)" "up_set (lt n) (addrs l)"
      using Nd.prems by (simp_all add: up_set_append)
    have "add_step lt n s (hole_link ctx, ctx_addr ctx, lm) = Inr (Again (hole_link ?ctx, ctx_addr ?ctx, lm))"
      using get a True by (simp add: add_step_def)
    moreover obtain ctx' xs ys where "loop (add_step lt n s) (hole_link ?ctx, ctx_addr ?ctx, lm) =
        Some (Inr (hole_link ctx', ctx_addr ctx', lm \<and> xs = []))" "plug Lf ctx' = plug l ?ctx"
        "addrs l = xs @ ys" "ctx_before ctx' = ctx_before ?ctx @ xs" "ctx_after ctx' = ys @ ctx_after ?ctx"
        "\<forall>x \<in> set xs. \<not> lt n x" "\<forall>y \<in> set ys. lt n y"
      using Nd.IH(1) [OF p, of lm] by blast
    moreover have "\<forall>y \<in> set (addrs r). lt n y" using Nd.prems(2) True by (auto simp: up_set_append up_set_Cons)
    ultimately show ?thesis using True
      by (intro exI [of _ ctx'] exI [of _ xs] exI [of _ "ys @ a # addrs r"]) (auto simp: loop_step)
  next
    case False
    let ?ctx = "Fr R c a l # ctx"
    have p: "holds_tree s (plug r ?ctx)" "up_set (lt n) (addrs r)"
      using Nd.prems by (simp_all add: up_set_append up_set_Cons)
    have "add_step lt n s (hole_link ctx, ctx_addr ctx, lm) = Inr (Again (hole_link ?ctx, ctx_addr ?ctx, False))"
      using get a False by (simp add: add_step_def)
    moreover obtain ctx' xs ys where "loop (add_step lt n s) (hole_link ?ctx, ctx_addr ?ctx, False) =
        Some (Inr (hole_link ctx', ctx_addr ctx', False \<and> xs = []))" "plug Lf ctx' = plug r ?ctx"
        "addrs r = xs @ ys" "ctx_before ctx' = ctx_before ?ctx @ xs" "ctx_after ctx' = ys @ ctx_after ?ctx"
        "\<forall>x \<in> set xs. \<not> lt n x" "\<forall>y \<in> set ys. lt n y"
      using Nd.IH(2) [OF p, of False] by blast
    moreover have "\<forall>x \<in> set (addrs l). \<not> lt n x" using Nd.prems(2) False by (auto simp: up_set_append)
    ultimately show ?thesis using False
      by (intro exI [of _ ctx'] exI [of _ "addrs l @ a # xs"] exI [of _ ys]) (auto simp: loop_step)
  qed
qed

lemma add_whole:
  assumes h: "holds_tree s t" "red_black t" and n: "fresh_node s n (set (addrs t))"
    and o: "up_set (lt n) (addrs t)"
  shows "\<exists>lk parent s1 s' t'.
    loop (add_step lt n s) (Root_link, 0, True) = Some (Inr (lk, parent, \<forall>a \<in> set (addrs t). lt n a)) \<and>
    rb_link_node n parent lk s = Inr s1 \<and> rb_insert_color n s1 = Some (Inr s') \<and>
    holds_tree s' t' \<and> red_black t' \<and>
    addrs t' = filter (\<lambda>a. \<not> lt n a) (addrs t) @ n # filter (lt n) (addrs t) \<and>
    only_touches s s' (insert n (set (addrs t)))"
proof -
  obtain ctx xs ys where c: "loop (add_step lt n s) (Root_link, 0, True) =
      Some (Inr (hole_link ctx, ctx_addr ctx, xs = []))" "plug Lf ctx = t" "addrs t = xs @ ys"
      "ctx_before ctx = xs" "ctx_after ctx = ys" "\<forall>x \<in> set xs. \<not> lt n x" "\<forall>y \<in> set ys. lt n y"
    using add_descent [of s t "[]" lt n True] h(1) o by auto
  have A: "set (addrs t) = set (ctx_addrs ctx)" using c(2) set_addrs_plug [of Lf ctx] by simp
  obtain s1 s' t' where "rb_link_node n (ctx_addr ctx) (hole_link ctx) s = Inr s1"
      "rb_insert_color n s1 = Some (Inr s')" "holds_tree s' t'" "red_black t'"
      "addrs t' = ctx_before ctx @ n # ctx_after ctx" "only_touches s s' (insert n (set (ctx_addrs ctx)))"
    using link_and_fix [of s ctx n] h n c(2) A by auto
  moreover have "xs = [] \<longleftrightarrow> (\<forall>a \<in> set (addrs t). lt n a)" using c(3,6,7) by (cases xs) auto
  ultimately show ?thesis using c A up_set_split [OF c(6,7)] by (intro exI conjI) (auto simp del: filter_append)
qed

end
