(* ===== verification/Rbtree_Walk.thy ===== *)
theory Rbtree_Walk
  imports Rbtree_Inv
begin

text \<open>
  Walking and searching: \<open>rb_first\<close>, \<open>rb_last\<close>, \<open>rb_next\<close> and \<open>rb_prev\<close> follow the in-order
  sequence of the nodes, in either direction; \<open>rb_find\<close> finds a match; \<open>rb_replace_node\<close>
  puts a node in another's place.
\<close>

subsection \<open>Sequences by direction\<close>

definition hd0 :: "u64 list \<Rightarrow> u64" where
  "hd0 xs = (case xs of [] \<Rightarrow> 0 | x # _ \<Rightarrow> x)"

lemma hd0_simps [simp]: "hd0 [] = 0" "hd0 (x # xs) = x"
  by (simp_all add: hd0_def)

text \<open>The nodes as met when starting on side \<open>d\<close>.\<close>

definition daddrs :: "side \<Rightarrow> ptree \<Rightarrow> u64 list" where
  "daddrs d t = (case d of L \<Rightarrow> addrs t | R \<Rightarrow> rev (addrs t))"

lemma daddrs_simps [simp]:
  "daddrs d Lf = []" "daddrs d (nd d c x a y) = daddrs d x @ a # daddrs d y"
  "daddrs (opp d) (nd d c x a y) = daddrs (opp d) y @ a # daddrs (opp d) x"
  "daddrs d (nd (opp d) c x a y) = daddrs d y @ a # daddrs d x"
  "set (daddrs d t) = set (addrs t)" "distinct (daddrs d t) = distinct (addrs t)"
  by (cases d; simp add: daddrs_def)+

text \<open>What lies beyond a hole in direction \<open>d\<close>.\<close>

fun beyond :: "side \<Rightarrow> frame list \<Rightarrow> u64 list" where
  "beyond d [] = []"
| "beyond d (Fr d' c a s # ctx) = (if d' = d then beyond d ctx else a # daddrs (opp d) s @ beyond d ctx)"

lemma daddrs_plug: "\<exists>pre. daddrs (opp d) (plug t ctx) = pre @ daddrs (opp d) t @ beyond d ctx"
proof (induction t ctx rule: plug.induct)
  case (2 t d' c a s ctx)
  then obtain pre where pre: "daddrs (opp d) (plug (nd d' c t a s) ctx) =
      pre @ daddrs (opp d) (nd d' c t a s) @ beyond d ctx" by blast
  show ?case
  proof (cases "d' = d")
    case True
    then show ?thesis using pre by (intro exI [of _ "pre @ daddrs (opp d) s @ [a]"]) simp
  next
    case False
    then have "d' = opp d" by (cases d; cases d') simp_all
    then show ?thesis using pre by (intro exI [of _ pre]) simp
  qed
qed auto

lemma find_node: "a \<in> set (addrs t) \<Longrightarrow> \<exists>c x y ctx'. plug t ctx = plug (nd d c x a y) ctx'"
proof (induction t arbitrary: ctx)
  case (Nd c l b r)
  consider "a = b" | "a \<in> set (addrs l)" | "a \<in> set (addrs r)" using Nd.prems by auto
  then show ?case
  proof cases
    case 1
    then have "Nd c l b r = nd d c (if d = L then l else r) a (if d = L then r else l)"
      by (cases d) simp_all
    then show ?thesis by metis
  next
    case 2
    from Nd.IH(1) [OF this, of "Fr L c b r # ctx"] show ?thesis by simp
  next
    case 3
    from Nd.IH(2) [OF this, of "Fr R c b l # ctx"] show ?thesis by simp
  qed
qed simp

subsection \<open>Down and up\<close>

lemma stored_child:
  assumes "stored m par t" "t \<noteq> Lf"
  shows "\<exists>c x y. t = nd d c x (addr t) y \<and> m (addr t) = Some (mk_node par c d (addr x) (addr y)) \<and>
    stored m (addr t) x \<and> size x < size t"
proof (cases t)
  case (Nd c l a r)
  then have "t = nd d c (if d = L then l else r) a (if d = L then r else l)" by (cases d) simp_all
  then show ?thesis using assms Nd
    by (intro exI [of _ c] exI [of _ "if d = L then l else r"] exI [of _ "if d = L then r else l"])
      (cases d, auto simp: mk_node_opp mk_node_def)
qed (use assms in simp)

lemma descend:
  "stored (mem s) par t \<Longrightarrow> t \<noteq> Lf \<Longrightarrow> 0 \<notin> set (addrs t) \<Longrightarrow>
     loop (descend_step d s) (addr t) = Some (Inr (hd0 (daddrs d t)))"
proof (induction "size t" arbitrary: t par rule: less_induct)
  case less
  obtain c x y where x: "t = nd d c x (addr t) y"
      "mem s (addr t) = Some (mk_node par c d (addr x) (addr y))" "stored (mem s) (addr t) x" "size x < size t"
    using stored_child [OF less.prems(1,2)] by blast
  have 0: "0 \<notin> set (addrs x)" using less.prems(3) by (subst (asm) x(1)) simp
  have get: "get_child d s (addr t) = Inr (addr x)" using x(2) by (simp add: node_ok)
  have da: "daddrs d t = daddrs d x @ addr t # daddrs d y" by (subst x(1)) simp
  show ?case
  proof (cases "x = Lf")
    case True
    then show ?thesis using get da by (simp add: loop_step descend_step_def)
  next
    case False
    then have "addr x \<noteq> 0" using 0 addr_0 by blast
    then have "loop (descend_step d s) (addr t) = loop (descend_step d s) (addr x)"
      using get by (simp add: loop_step descend_step_def)
    moreover have "daddrs d x \<noteq> []" using addr_in [OF False] by (metis daddrs_simps(5) empty_iff empty_set)
    ultimately show ?thesis using less.hyps [OF x(4,3) False 0] da
      by (cases "daddrs d x") simp_all
  qed
qed

lemma ascend:
  assumes "stored_ctx (mem s) p ctx" "mem s p = Some (mk_node (ctx_addr ctx) c d' x y)"
    "p \<notin> set (ctx_addrs ctx)" "p \<noteq> 0" "valid_addrs (set (ctx_addrs ctx))" "distinct (ctx_addrs ctx)"
  shows "loop (ascend_step d s) p = Some (Inr (hd0 (beyond d ctx)))"
  using assms
proof (induction ctx arbitrary: p c d' x y)
  case Nil
  have "rb_parent s p = Inr 0" using Nil by (simp add: node_ok aligned_def)
  then show ?case by (simp add: loop_step ascend_step_def)
next
  case (Cons f ctx)
  obtain e c' a sib where f: "f = Fr e c' a sib" by (cases f)
  have v: "valid_addrs (set (ctx_addrs ctx))" "a \<noteq> 0" "aligned a" "p \<noteq> a" "p \<notin> set (addrs sib)"
      "p \<notin> set (ctx_addrs ctx)" "a \<notin> set (ctx_addrs ctx)" "distinct (ctx_addrs ctx)"
    using Cons.prems f by (auto simp: valid_addrs_def)
  have par: "rb_parent s p = Inr a" using Cons.prems(2) f v by (simp add: node_ok)
  have ma: "mem s a = Some (mk_node (ctx_addr ctx) c' e p (addr sib))" "stored_ctx (mem s) a ctx"
    using Cons.prems(1) f by simp_all
  show ?case
  proof (cases "e = d")
    case True
    then have "get_child d s a = Inr p" using ma by (simp add: node_ok)
    then have "loop (ascend_step d s) p = loop (ascend_step d s) a"
      using par v by (simp add: loop_step ascend_step_def)
    then show ?thesis using Cons.IH [OF ma(2,1)] v True f by simp
  next
    case False
    then have e: "d = opp e" by (cases d; cases e) simp_all
    then have "get_child d s a = Inr (addr sib)" using ma by (simp add: node_ok)
    moreover have "p \<noteq> addr sib" using v(5) Cons.prems(4) addr_in [of sib] by (cases sib) auto
    ultimately have "loop (ascend_step d s) p = Some (Inr a)"
      using par v by (simp add: loop_step ascend_step_def)
    then show ?thesis using False f by simp
  qed
qed

lemma not_self_parent:
  assumes "aligned p" "aligned a" "p \<noteq> a"
  shows "p + bit_of c \<noteq> a"
proof
  assume "p + bit_of c = a"
  then have "pc_parent (p + bit_of c) = pc_parent (a + bit_of Red)" by (simp add: bit_of_def RB_RED_def)
  then show False using assms by (simp add: pc_bits)
qed

subsection \<open>Walking\<close>

lemma rb_end_correct: "holds_tree s t \<Longrightarrow> rb_end d s = Some (Inr (hd0 (daddrs d t)))"
  using descend [of s 0 t d] addr_0 [of t]
  by (cases "t = Lf") (auto simp: rb_end_def holds_tree_def valid_addrs_def)

lemma rb_step_correct:
  assumes h: "holds_tree s t" and a: "daddrs (opp d) t = xs @ a # ys"
  shows "rb_step d s a = Some (Inr (hd0 ys))"
proof -
  have "a \<in> set (addrs t)" using a by (metis daddrs_simps(5) in_set_conv_decomp)
  then obtain c x y ctx where t: "t = plug (nd d c x a y) ctx"
    using find_node [of a t "[]" d] by auto
  obtain pre where pre: "daddrs (opp d) t = pre @ daddrs (opp d) (nd d c x a y) @ beyond d ctx"
    using daddrs_plug t by metis
  have di: "distinct (addrs t)" "valid_addrs (set (addrs t))" using h by (auto simp: holds_tree_def)
  have "xs @ a # ys = (pre @ daddrs (opp d) y) @ a # (daddrs (opp d) x @ beyond d ctx)"
    using a pre by simp
  moreover have "distinct (xs @ a # ys)" using di a by (metis daddrs_simps(6))
  ultimately have ys: "ys = daddrs (opp d) x @ beyond d ctx"
    by (metis append_Cons_eq_iff distinct_append distinct.simps(2) not_distinct_conv_prefix)
  have st: "mem s a = Some (mk_node (ctx_addr ctx) c d (addr x) (addr y))" "stored (mem s) a x"
      "stored_ctx (mem s) a ctx"
    using h t by (auto simp: holds_tree_def stored_plug)
  have v: "a \<notin> set (ctx_addrs ctx)" "a \<noteq> 0" "aligned a" "valid_addrs (set (ctx_addrs ctx))"
      "distinct (ctx_addrs ctx)" "0 \<notin> set (addrs x)"
    using di t by (auto simp: distinct_addrs_plug set_addrs_plug valid_addrs_def)
  have "ctx_addr ctx \<noteq> a" using v(1,2) by (cases ctx rule: ctx_addr.cases) auto
  then have "rb_empty_node s a = Inr False"
    using st(1) v not_self_parent [OF aligned_ctx [OF v(4)] v(3), of c]
    by (simp add: rb_empty_node_def ld_ok)
  moreover have "get_child d s a = Inr (addr x)" using st(1) by (simp add: node_ok)
  moreover have "addr x = 0 \<longleftrightarrow> x = Lf" using v(6) by (rule addr_0)
  moreover have "\<exists>b bs. daddrs (opp d) x = b # bs" if "x \<noteq> Lf"
    using addr_in [OF that] by (metis daddrs_simps(5) empty_iff empty_set neq_Nil_conv)
  ultimately show ?thesis
    using descend [OF st(2) _ v(6), of "opp d"] ascend [OF st(3,1) v(1,2,4,5), of d] ys
    by (cases "x = Lf") (auto simp: rb_step_def)
qed

subsection \<open>Searching\<close>

text \<open>The sign of \<open>cmp\<close> must fall along the tree: positive, then zero, then negative.\<close>

definition falling :: "(u64 \<Rightarrow> int) \<Rightarrow> u64 list \<Rightarrow> bool" where
  "falling cmp as \<longleftrightarrow> sorted_wrt (\<lambda>a b. (cmp a \<le> 0 \<longrightarrow> cmp b \<le> 0) \<and> (cmp a < 0 \<longrightarrow> cmp b < 0)) as"

lemma falling_append:
  "falling cmp (xs @ ys) \<longleftrightarrow> falling cmp xs \<and> falling cmp ys \<and>
     (\<forall>a \<in> set xs. \<forall>b \<in> set ys. (cmp a \<le> 0 \<longrightarrow> cmp b \<le> 0) \<and> (cmp a < 0 \<longrightarrow> cmp b < 0))"
  by (auto simp: falling_def sorted_wrt_append)

lemma falling_Cons:
  "falling cmp (a # ys) \<longleftrightarrow> (\<forall>b \<in> set ys. (cmp a \<le> 0 \<longrightarrow> cmp b \<le> 0) \<and> (cmp a < 0 \<longrightarrow> cmp b < 0)) \<and> falling cmp ys"
  by (auto simp: falling_def)

lemma find_loop:
  "stored (mem s) par t \<Longrightarrow> 0 \<notin> set (addrs t) \<Longrightarrow> falling cmp (addrs t) \<Longrightarrow>
     \<exists>p. loop (find_step cmp s) (addr t) = Some (Inr p) \<and>
       (if \<exists>a \<in> set (addrs t). cmp a = 0 then p \<in> set (addrs t) \<and> cmp p = 0 else p = 0)"
proof (induction t arbitrary: par)
  case Lf
  then show ?case by (simp add: loop_step find_step_def)
next
  case (Nd c l a r)
  have ma: "get_child L s a = Inr (addr l)" "get_child R s a = Inr (addr r)" "a \<noteq> 0"
    using Nd.prems node_ok [of s a par c L "addr l" "addr r"] by auto
  consider "cmp a < 0" | "0 < cmp a" | "cmp a = 0" by linarith
  then show ?case
  proof cases
    case 1
    have "\<forall>b \<in> set (addrs r). cmp b < 0" using 1 Nd.prems(3) by (auto simp: falling_append falling_Cons)
    moreover obtain p where "loop (find_step cmp s) (addr l) = Some (Inr p)"
        "if \<exists>a \<in> set (addrs l). cmp a = 0 then p \<in> set (addrs l) \<and> cmp p = 0 else p = 0"
      using Nd.IH(1) [of a] Nd.prems by (auto simp: falling_append)
    moreover have "loop (find_step cmp s) a = loop (find_step cmp s) (addr l)"
      by (rule loop_step(1)) (use 1 ma in \<open>simp add: find_step_def\<close>)
    ultimately show ?thesis using 1
      by (intro exI [of _ p]) (auto split: if_splits)
  next
    case 2
    have "\<forall>b \<in> set (addrs l). cmp b \<le> 0 \<longrightarrow> cmp a \<le> 0"
      using Nd.prems(3) unfolding addrs.simps falling_append by simp
    then have "\<forall>b \<in> set (addrs l). cmp b \<noteq> 0" using 2 by fastforce
    moreover have "stored (mem s) a r" "0 \<notin> set (addrs r)" "falling cmp (addrs r)"
      using Nd.prems by (simp_all add: falling_append falling_Cons)
    from Nd.IH(2) [OF this] obtain p where "loop (find_step cmp s) (addr r) = Some (Inr p)"
        "if \<exists>a \<in> set (addrs r). cmp a = 0 then p \<in> set (addrs r) \<and> cmp p = 0 else p = 0" by blast
    moreover have "loop (find_step cmp s) a = loop (find_step cmp s) (addr r)"
      by (rule loop_step(1)) (use 2 ma in \<open>simp add: find_step_def\<close>)
    ultimately show ?thesis using 2
      by (intro exI [of _ p]) (auto split: if_splits)
  next
    case 3
    then show ?thesis using ma by (intro exI [of _ a]) (auto simp: loop_step find_step_def)
  qed
qed

lemma rb_find_correct:
  assumes "holds_tree s t" "falling cmp (addrs t)"
  shows "\<exists>p. rb_find cmp s = Some (Inr p) \<and>
    (if \<exists>a \<in> set (addrs t). cmp a = 0 then p \<in> set (addrs t) \<and> cmp p = 0 else p = 0)"
  using find_loop [of s 0 t cmp] assms by (auto simp: rb_find_def holds_tree_def valid_addrs_def)

subsection \<open>Replacing\<close>

lemma replace_whole:
  assumes h: "holds_tree s (plug (Nd c l v r) ctx)"
    and n: "new \<notin> set (addrs (plug (Nd c l v r) ctx))" "new \<noteq> 0" "aligned new" "mem s new \<noteq> None"
  shows "\<exists>s'. rb_replace_node v new s = Inr s' \<and> holds_tree s' (plug (Nd c l new r) ctx)"
proof -
  have st: "mem s v = Some (mk_node (ctx_addr ctx) c L (addr l) (addr r))" "stored (mem s) v l" "stored (mem s) v r"
      "stored_ctx (mem s) v ctx"
    using h by (auto simp: holds_tree_def stored_plug)
  have dis: "v \<notin> set (addrs l)" "v \<notin> set (addrs r)" "distinct (addrs l)" "distinct (addrs r)"
      "set (addrs l) \<inter> set (addrs r) = {}" "set (addrs r) \<inter> set (addrs l) = {}" "v \<notin> set (ctx_addrs ctx)"
      "distinct (ctx_addrs ctx)" "set (addrs l) \<inter> set (ctx_addrs ctx) = {}" "set (addrs r) \<inter> set (ctx_addrs ctx) = {}"
      "set (ctx_addrs ctx) \<inter> set (addrs l) = {}" "set (ctx_addrs ctx) \<inter> set (addrs r) = {}"
    using h by (auto simp: holds_tree_def distinct_addrs_plug)
  have va: "v \<noteq> 0" "aligned v" "0 \<notin> set (addrs l)" "0 \<notin> set (addrs r)" "0 \<notin> set (ctx_addrs ctx)"
      "valid_addrs (set (ctx_addrs ctx))"
    using h by (auto simp: holds_tree_def set_addrs_plug valid_addrs_def)
  have nn: "new \<noteq> v" "v \<noteq> new" "new \<notin> set (addrs l)" "new \<notin> set (addrs r)" "new \<notin> set (ctx_addrs ctx)"
    using n by (auto simp: set_addrs_plug)
  let ?m1 = "(mem s)(new \<mapsto> mk_node (ctx_addr ctx) c L (addr l) (addr r))"
  let ?m2 = "repaint ?m1 new (col l) l"
  let ?m3 = "repaint ?m2 new (col r) r"
  let ?m = "rehang ?m3 new ctx" and ?r = "if ctx = [] then new else rb_root s"
  obtain y where "mem s new = Some y" using n(4) by auto
  then have u: "upd s new (\<lambda>_. mk_node (ctx_addr ctx) c L (addr l) (addr r)) = Inr (s\<lparr>mem := ?m1\<rparr>)"
    by (simp add: upd_ok)
  have a1: "set_parent_if (s\<lparr>mem := ?m1\<rparr>) (addr l) new = Inr (s\<lparr>mem := ?m2\<rparr>)"
    using set_parent_if_ok [of "s\<lparr>mem := ?m1\<rparr>" v l new] st va nn by simp
  have a2: "set_parent_if (s\<lparr>mem := ?m2\<rparr>) (addr r) new = Inr (s\<lparr>mem := ?m3\<rparr>)"
    using set_parent_if_ok [of "s\<lparr>mem := ?m2\<rparr>" v r new] st va nn dis by simp
  have a3: "rb_change_child v new (ctx_addr ctx) (s\<lparr>mem := ?m3\<rparr>) = Inr (s\<lparr>mem := ?m, rb_root := ?r\<rparr>)"
    using st va nn dis by (subst change_child_ok) simp_all
  have m2: "?m2 v = mem s v" "?m1 v = mem s v" using dis nn by simp_all
  have code: "rb_replace_node v new s = Inr (s\<lparr>mem := ?m, rb_root := ?r\<rparr>)"
    unfolding rb_replace_node_def
    using st(1) va aligned_ctx [OF va(6)] u a1 a2 a3 m2 node_ok(2) [of _ v "ctx_addr ctx" c L]
    by (simp add: node_ok ld_ok)
  have sl: "stored ?m3 new l"
    using stored_repaint [of ?m1 v l new "col l"] st dis nn by simp
  have sr: "stored ?m3 new r"
    using stored_repaint [of ?m2 v r new "col r"] st dis nn by simp
  have "holds_tree (s\<lparr>mem := ?m, rb_root := ?r\<rparr>) (plug (Nd c l new r) ctx)"
    unfolding holds_tree_def
  proof (intro conjI)
    show "stored (mem (s\<lparr>mem := ?m, rb_root := ?r\<rparr>)) 0 (plug (Nd c l new r) ctx)"
      using sl sr st dis nn by (simp add: stored_plug)
    show "rb_root (s\<lparr>mem := ?m, rb_root := ?r\<rparr>) = addr (plug (Nd c l new r) ctx)"
      using h addr_plug_eq [of "Nd c l new r" "Nd c l v r" ctx] by (cases "ctx = []") (auto simp: holds_tree_def)
    show "distinct (addrs (plug (Nd c l new r) ctx))"
      using h nn by (auto simp: holds_tree_def distinct_addrs_plug)
    show "valid_addrs (set (addrs (plug (Nd c l new r) ctx)))"
      using h n by (auto simp: holds_tree_def set_addrs_plug valid_addrs_def)
  qed
  then show ?thesis using code by blast
qed

end
