(* ===== verification/Rbtree_Props.thy ===== *)
theory Rbtree_Props
  imports Rbtree_Add Rbtree_Walk
begin

text \<open>The properties of the red-black trees, each with an instance on a tree of one node.\<close>

definition one_tree :: ptree where
  "one_tree = Nd Black Lf 16 Lf"

definition one_state :: rb_state where
  "one_state = \<lparr>mem = [16 \<mapsto> mk_node 0 Black L 0 0, 32 \<mapsto> mk_node 0 Red L 0 0], rb_root = 16\<rparr>"

lemma one_holds: "holds_tree one_state one_tree" "red_black one_tree" "fresh_node one_state 32 {16}"
  by (auto simp: holds_tree_def one_state_def one_tree_def mk_node_def valid_addrs_def aligned_def
      red_black_def fresh_node_def intro!: exI [of _ 1])

lemma rb_height_size:
  assumes "red_black t"
  shows "2 ^ height t \<le> (Suc (length (addrs t)))\<^sup>2"
proof -
  obtain h where h: "rb h t" "col t = Black" using assms by (auto simp: red_black_def)
  have "height t \<le> 2 * h" using rb_height [OF h(1)] h(2) by simp
  then have "(2 :: nat) ^ height t \<le> 2 ^ (2 * h)" by (intro power_increasing) simp_all
  also have "\<dots> = (2 ^ h)\<^sup>2" by (simp only: power_mult [symmetric] mult.commute)
  also have "\<dots> \<le> (Suc (length (addrs t)))\<^sup>2" using rb_size [OF h(1)] by (intro power_mono) simp_all
  finally show ?thesis .
qed

subsection \<open>Insertion\<close>

text \<open>C15. A new node linked into any hole of a red-black tree and handed to
  \<open>rb_insert_color\<close>: the fixup ends, the memory holds a red-black tree again with the node
  at the place of the hole in the order, and no other memory changes.\<close>

theorem rb_insert_correct:
  assumes "holds_tree s (plug Lf ctx)" "red_black (plug Lf ctx)" "fresh_node s n (set (ctx_addrs ctx))"
  shows "\<exists>s1 s' t'. rb_link_node n (ctx_addr ctx) (hole_link ctx) s = Inr s1 \<and>
    rb_insert_color n s1 = Some (Inr s') \<and> holds_tree s' t' \<and> red_black t' \<and>
    addrs t' = ctx_before ctx @ n # ctx_after ctx \<and> only_touches s s' (insert n (set (ctx_addrs ctx)))"
  using assms by (rule link_and_fix)

theorem rb_insert_correct_witness:
  "\<exists>s1 s' t'. rb_link_node 32 16 (Child_link R 16) one_state = Inr s1 \<and>
    rb_insert_color 32 s1 = Some (Inr s') \<and> holds_tree s' t' \<and> red_black t' \<and>
    addrs t' = [16, 32] \<and> only_touches one_state s' {32, 16}"
  using rb_insert_correct [of one_state "[Fr R Black 16 Lf]" 32] one_holds by (simp add: one_tree_def)

text \<open>C17. \<open>rb_add\<close> with an order that is monotone along the tree inserts the node after all
  nodes it is not less than and before all it is less than, leaves a red-black tree, and
  the tree stays shallow: its height is at most twice the logarithm of its size.\<close>

theorem rb_add_correct:
  assumes "holds_tree s t" "red_black t" "fresh_node s n (set (addrs t))" "up_set (lt n) (addrs t)"
  shows "\<exists>s' t'. rb_add lt n s = Some (Inr s') \<and> holds_tree s' t' \<and> red_black t' \<and>
    addrs t' = filter (\<lambda>a. \<not> lt n a) (addrs t) @ n # filter (lt n) (addrs t) \<and>
    2 ^ height t' \<le> (Suc (length (addrs t')))\<^sup>2"
  using add_whole [of s t n lt, OF assms] rb_height_size by (fastforce simp: rb_add_def)

theorem rb_add_correct_witness:
  "\<exists>s' t'. rb_add (\<lambda>a b. a < b) 32 one_state = Some (Inr s') \<and> holds_tree s' t' \<and> red_black t' \<and>
    addrs t' = [16, 32] \<and> 2 ^ height t' \<le> (Suc (length (addrs t')))\<^sup>2"
  using rb_add_correct [of one_state one_tree 32 "\<lambda>a b. a < b"] one_holds
  by (simp add: one_tree_def up_set_def)

text \<open>A cached tree keeps the first node of its order.\<close>

definition cached_holds :: "rb_cached \<Rightarrow> ptree \<Rightarrow> bool" where
  "cached_holds c t \<longleftrightarrow> holds_tree (tree_of c) t \<and> rb_leftmost c = hd0 (addrs t)"

lemma tree_of_with_tree [simp]:
  "tree_of (with_tree c s) = s" "rb_leftmost (with_tree c s) = rb_leftmost c"
  "tree_of (c\<lparr>rb_leftmost := n\<rparr>) = tree_of c" "with_tree (c\<lparr>rb_leftmost := n\<rparr>) s = with_tree c s\<lparr>rb_leftmost := n\<rparr>"
  "with_tree (with_tree c s1) s = with_tree c s"
  by (simp_all add: tree_of_def with_tree_def)

text \<open>\<open>rb_add_cached\<close> does the same to a cached tree and keeps its pointer to the first
  node of the order.\<close>

theorem rb_add_cached_correct:
  assumes "cached_holds c t" "red_black t" "fresh_node (tree_of c) n (set (addrs t))" "up_set (lt n) (addrs t)"
  shows "\<exists>c' t'. rb_add_cached lt n c = Some (Inr c') \<and> cached_holds c' t' \<and> red_black t' \<and>
    addrs t' = filter (\<lambda>a. \<not> lt n a) (addrs t) @ n # filter (lt n) (addrs t)"
proof -
  have h: "holds_tree (tree_of c) t" "rb_leftmost c = hd0 (addrs t)" using assms(1) by (auto simp: cached_holds_def)
  obtain lk parent s1 s' t' where r:
      "loop (add_step lt n (tree_of c)) (Root_link, 0, True) = Some (Inr (lk, parent, \<forall>a \<in> set (addrs t). lt n a))"
      "rb_link_node n parent lk (tree_of c) = Inr s1" "rb_insert_color n s1 = Some (Inr s')"
      "holds_tree s' t'" "red_black t'"
      "addrs t' = filter (\<lambda>a. \<not> lt n a) (addrs t) @ n # filter (lt n) (addrs t)"
    using add_whole [of "tree_of c" t n lt, OF h(1) assms(2-4)] by blast
  let ?c = "if \<forall>a \<in> set (addrs t). lt n a then with_tree c s'\<lparr>rb_leftmost := n\<rparr> else with_tree c s'"
  have "rb_add_cached lt n c = Some (Inr ?c)"
  proof (cases "\<forall>a \<in> set (addrs t). lt n a")
    case True
    then have "loop (add_step lt n (tree_of c)) (Root_link, 0, True) = Some (Inr (lk, parent, True))"
      using r(1) by simp
    then show ?thesis using r(2,3) True by (simp add: rb_add_cached_def rb_insert_color_cached_def Let_def)
  next
    case False
    then have "loop (add_step lt n (tree_of c)) (Root_link, 0, True) = Some (Inr (lk, parent, False))"
      using r(1) by simp
    then show ?thesis using r(2,3) False by (auto simp add: rb_add_cached_def rb_insert_color_cached_def Let_def)
  qed
  moreover have "rb_leftmost ?c = hd0 (addrs t')"
  proof (cases "\<forall>a \<in> set (addrs t). lt n a")
    case True
    then show ?thesis using r(6) by simp
  next
    case False
    then obtain a as where as: "addrs t = a # as" by (cases "addrs t") auto
    have "\<not> lt n a" using False assms(4) as by (auto simp: up_set_def)
    then show ?thesis using False r(6) h(2) as by simp
  qed
  ultimately show ?thesis using r(4-6) by (intro exI [of _ ?c] exI [of _ t']) (simp add: cached_holds_def)
qed

theorem rb_add_cached_correct_witness:
  "\<exists>c' t'. rb_add_cached (\<lambda>a b. a < b) 32 (with_tree \<lparr>mem = Map.empty, rb_root = 0, rb_leftmost = 16\<rparr> one_state)
      = Some (Inr c') \<and> cached_holds c' t' \<and> red_black t' \<and> addrs t' = [16, 32]"
  using rb_add_cached_correct [of "with_tree \<lparr>mem = Map.empty, rb_root = 0, rb_leftmost = 16\<rparr> one_state"
      one_tree 32 "\<lambda>a b. a < b"] one_holds
  by (simp add: cached_holds_def one_tree_def up_set_def)

subsection \<open>Walking, searching, replacing\<close>

text \<open>C34. Walking visits the nodes in order: \<open>rb_first\<close> and \<open>rb_last\<close> return the ends of the
  order, \<open>rb_next\<close> and \<open>rb_prev\<close> the neighbours of a node, NULL past the ends, and all
  four loops end.\<close>

theorem rb_walk_correct:
  assumes "holds_tree s t" "addrs t = xs @ a # ys"
  shows "rb_first s = Some (Inr (hd0 (addrs t))) \<and> rb_last s = Some (Inr (hd0 (rev (addrs t)))) \<and>
    rb_next s a = Some (Inr (hd0 ys)) \<and> rb_prev s a = Some (Inr (hd0 (rev xs)))"
  using rb_end_correct [OF assms(1), of L] rb_end_correct [OF assms(1), of R]
    rb_step_correct [OF assms(1), of R xs a ys] rb_step_correct [OF assms(1), of L "rev ys" a "rev xs"] assms(2)
  by (simp add: rb_first_def rb_last_def rb_next_def rb_prev_def daddrs_def)

theorem rb_walk_correct_witness:
  "rb_first one_state = Some (Inr 16) \<and> rb_last one_state = Some (Inr 16) \<and>
    rb_next one_state 16 = Some (Inr 0) \<and> rb_prev one_state 16 = Some (Inr 0)"
  using rb_walk_correct [of one_state one_tree "[]" 16 "[]"] one_holds by (simp add: one_tree_def)

text \<open>When the sign of \<open>cmp\<close> falls along the order, \<open>rb_find\<close> ends and returns a node that
  compares equal if the tree has one, NULL otherwise.\<close>

theorem rb_find_finds:
  assumes "holds_tree s t" "falling cmp (addrs t)"
  shows "\<exists>p. rb_find cmp s = Some (Inr p) \<and>
    (if \<exists>a \<in> set (addrs t). cmp a = 0 then p \<in> set (addrs t) \<and> cmp p = 0 else p = 0)"
  using assms by (rule rb_find_correct)

theorem rb_find_finds_witness:
  "\<exists>p. rb_find (\<lambda>a. 16 - uint a) one_state = Some (Inr p) \<and>
    (if \<exists>a \<in> set (addrs one_tree). 16 - uint a = 0 then p \<in> set (addrs one_tree) \<and> 16 - uint p = 0 else p = 0)"
  by (rule rb_find_finds [OF one_holds(1)]) (simp add: one_tree_def falling_def)

text \<open>\<open>rb_replace_node\<close> puts a new node exactly in the place of another: same colours, same
  order, same shape.\<close>

theorem rb_replace_correct:
  assumes "holds_tree s (plug (Nd c l v r) ctx)"
    and "new \<notin> set (addrs (plug (Nd c l v r) ctx))" "new \<noteq> 0" "aligned new" "mem s new \<noteq> None"
  shows "\<exists>s'. rb_replace_node v new s = Inr s' \<and> holds_tree s' (plug (Nd c l new r) ctx)"
  using assms by (rule replace_whole)

theorem rb_replace_correct_witness:
  "\<exists>s'. rb_replace_node 16 32 one_state = Inr s' \<and> holds_tree s' (plug (Nd Black Lf 32 Lf) [])"
  by (rule rb_replace_correct)
    (use one_holds in \<open>simp_all add: one_tree_def fresh_node_def\<close>)

end
