(* ===== verification/Rbtree_Erase.thy ===== *)
theory Rbtree_Erase
  imports Rbtree_Walk
begin

text \<open>
  Erasure: the fixup loop of \<open>____rb_erase_color\<close> refines \<open>fix_erase\<close> on trees with a hole,
  which takes a subtree one black node short; \<open>__rb_erase_augmented\<close> makes that hole, at the
  node's place or at its successor's.
\<close>

subsection \<open>The fixup on trees\<close>

fun kid :: "side \<Rightarrow> ptree \<Rightarrow> ptree" where
  "kid d Lf = Lf"
| "kid L (Nd c l a r) = l"
| "kid R (Nd c l a r) = r"

lemma kid_nd [simp]: "kid d (nd d c x a y) = x" "kid (opp d) (nd d c x a y) = y"
  by (cases d; simp)+

lemma nd_kids: "t \<noteq> Lf \<Longrightarrow> t = nd d (col t) (kid d t) (addr t) (kid (opp d) t)"
  by (cases t; cases d) auto

lemma ptree_nd_cases:
  obtains "t = Lf" | c x a y where "t = nd d c x a y"
  using nd_kids by blast

definition nephews_black :: "side \<Rightarrow> ptree \<Rightarrow> bool" where
  "nephews_black d sib \<longleftrightarrow> col (kid d sib) = Black \<and> col (kid (opp d) sib) = Black"

text \<open>Cases 3 and 4: a red nephew comes to the missing black node's help, and the fixup ends.\<close>

definition rotated :: "side \<Rightarrow> color \<Rightarrow> u64 \<Rightarrow> ptree \<Rightarrow> ptree \<Rightarrow> ptree" where
  "rotated d c p t sib =
     (let x = kid d sib; y = kid (opp d) sib; q = addr sib in
      if col y = Red then nd d c (nd d Black t p x) q (paint Black y)
      else nd d c (nd d Black t p (kid d x)) (addr x) (nd d Black (paint Black (kid (opp d) x)) q y))"

text \<open>Case 1, a red sibling, leaves the parent red, so the next case ends. Case 2 hands the parent
  to the next round.\<close>

fun fix_erase :: "ptree \<Rightarrow> frame list \<Rightarrow> ptree" where
  "fix_erase t [] = t"
| "fix_erase t (Fr d c p sib # ctx) =
     (if col sib = Red then
        (let x = paint Black (kid d sib); ctx' = Fr d c (addr sib) (kid (opp d) sib) # ctx in
         plug (if nephews_black d x then nd d Black t p (paint Red x) else rotated d Red p t x) ctx')
      else if \<not> nephews_black d sib then plug (rotated d c p t sib) ctx
      else if c = Red then plug (nd d Black t p (paint Red sib)) ctx
      else fix_erase (nd d Black t p (paint Red sib)) ctx)"

lemma rotated_addrs:
  assumes "sib \<noteq> Lf" "\<not> nephews_black d sib"
  shows "addrs (rotated d c p t sib) = addrs (nd d c' t p sib)"
proof -
  obtain sc x q y where s: "sib = nd d sc x q y" using nd_kids [OF assms(1), of d] by blast
  show ?thesis
  proof (cases "col y = Red")
    case True
    then show ?thesis by (cases d) (simp_all add: rotated_def s Let_def)
  next
    case False
    then have "col x = Red" using assms(2) by (simp add: nephews_black_def s)
    then obtain x1 b x2 where "x = nd d Red x1 b x2" using nd_kids [of x d] by fastforce
    then show ?thesis using False by (cases d) (simp_all add: rotated_def s Let_def)
  qed
qed

lemma rotated_rb:
  assumes "rb h t" "rb (Suc h) sib" "col sib = Black" "\<not> nephews_black d sib" "col t = Black"
  shows "rb (if c = Black then Suc (Suc h) else Suc h) (rotated d c p t sib)" "col (rotated d c p t sib) = c"
proof -
  have "sib \<noteq> Lf" using assms(2) by auto
  then obtain x q y where s: "sib = nd d Black x q y" using nd_kids [of sib d] assms(3) by metis
  then have xy: "rb h x" "rb h y" using assms(2) by auto
  have "rb (if c = Black then Suc (Suc h) else Suc h) (rotated d c p t sib) \<and> col (rotated d c p t sib) = c"
  proof (cases "col y = Red")
    case True
    have "rb (Suc h) (nd d Black t p x)" "rb (Suc h) (paint Black y)"
      using assms(1) xy rb_paint_Black [OF xy(2) True] by auto
    moreover have "col (paint Black y) = Black" by (cases y) auto
    ultimately show ?thesis using True by (cases c) (simp_all add: rotated_def s Let_def del: rb.simps)
  next
    case False
    then have "col x = Red" using assms(4) by (simp add: nephews_black_def s)
    then obtain x1 b x2 where x: "x = nd d Red x1 b x2" using nd_kids [of x d] by fastforce
    then have "rb h x1" "rb h x2" "col x2 = Black" using xy by auto
    then show ?thesis using False assms(1) xy by (cases c) (auto simp: rotated_def s x Let_def)
  qed
  then show "rb (if c = Black then Suc (Suc h) else Suc h) (rotated d c p t sib)" "col (rotated d c p t sib) = c"
    by auto
qed

lemma fix_erase_red_black:
  "rb h t \<Longrightarrow> col t = Black \<Longrightarrow> ctx_rb (Suc h) ctx \<Longrightarrow> red_black (fix_erase t ctx)"
proof (induction t ctx arbitrary: h rule: fix_erase.induct)
  case (1 t)
  then show ?case by (auto simp: red_black_def)
next
  case (2 t d c p sib ctx)
  have sib: "rb (Suc h) sib" using "2.prems"(3) by (cases c) auto
  show ?case
  proof (cases "col sib = Red")
    case True
    then obtain x q y where s: "sib = nd d Red x q y" using nd_kids [of sib d] by (metis col.simps(1) color.distinct(1))
    have c: "c = Black" "ctx_rb (Suc (Suc h)) ctx" using "2.prems"(3) True by (cases c; auto)+
    have xy: "rb (Suc h) x" "rb (Suc h) y" "col x = Black" "col y = Black" using sib s by auto
    define t' where "t' = (if nephews_black d x then nd d Black t p (paint Red x) else rotated d Red p t x)"
    have "rb (Suc h) t'"
    proof (cases "nephews_black d x")
      case True
      obtain x1 b x2 where "x = nd d Black x1 b x2" using nd_kids [of x d] xy(1,3) by (metis nat.distinct(1) rb.simps(1))
      then show ?thesis using True xy(1) "2.prems"(1) by (auto simp: t'_def nephews_black_def)
    next
      case False
      then show ?thesis using rotated_rb(1) [OF "2.prems"(1) xy(1,3) False "2.prems"(2), of Red p] by (simp add: t'_def)
    qed
    then have "red_black (plug t' (Fr d Black q y # ctx))"
      using xy c by (intro plug_red_black [of "Suc h"]) simp_all
    then show ?thesis using xy(3) c(1) by (simp add: s t'_def Let_def)
  next
    case False
    then have b: "col sib = Black" by simp
    show ?thesis
    proof (cases "nephews_black d sib")
      case n: False
      have "red_black (plug (rotated d c p t sib) ctx)"
        using rotated_rb [OF "2.prems"(1) sib b n "2.prems"(2), of c p] "2.prems"(3)
        by (intro plug_red_black [of "if c = Black then Suc (Suc h) else Suc h"]) (cases c; auto)+
      then show ?thesis using b n by simp
    next
      case n: True
      obtain x1 q x2 where s: "sib = nd d Black x1 q x2"
        using nd_kids [of sib d] sib b by (metis nat.distinct(1) rb.simps(1))
      have r: "rb h (paint Red sib)" using sib n by (auto simp: s nephews_black_def)
      show ?thesis
      proof (cases c)
        case Red
        have "red_black (plug (nd d Black t p (paint Red sib)) ctx)"
          using r "2.prems" Red by (intro plug_red_black [of "Suc h"]) auto
        then show ?thesis using b n Red by simp
      next
        case Black
        have "red_black (fix_erase (nd d Black t p (paint Red sib)) ctx)"
          using r "2.prems" Black b n by (intro "2.IH" [of "Suc h"]) auto
        then show ?thesis using b n Black by simp
      qed
    qed
  qed
qed

lemma fix_erase_addrs:
  "rb h t \<Longrightarrow> col t = Black \<Longrightarrow> ctx_rb (Suc h) ctx \<Longrightarrow> addrs (fix_erase t ctx) = addrs (plug t ctx)"
proof (induction t ctx arbitrary: h rule: fix_erase.induct)
  case (2 t d c p sib ctx)
  have sib: "rb (Suc h) sib" "sib \<noteq> Lf" using "2.prems"(3) by (cases c; auto)+
  show ?case
  proof (cases "col sib = Red")
    case True
    then obtain x q y where s: "sib = nd d Red x q y" using nd_kids [OF sib(2), of d] by metis
    have xy: "rb (Suc h) x" "col x = Black" "x \<noteq> Lf" using sib s by auto
    show ?thesis
    proof (cases "nephews_black d x")
      case n: True
      then show ?thesis using xy by (cases d) (simp_all add: s addrs_plug Let_def)
    next
      case n: False
      show ?thesis
        using xy n rotated_addrs [OF xy(3) n, of Red p t Red] by (cases d) (simp_all add: s addrs_plug Let_def)
    qed
  next
    case b: False
    show ?thesis
    proof (cases "nephews_black d sib")
      case False
      then show ?thesis using b rotated_addrs [OF sib(2) False, of c p t c] by (simp add: addrs_plug)
    next
      case n: True
      then obtain x1 q x2 where s: "sib = nd d Black x1 q x2" using nd_kids [OF sib(2), of d] b by auto
      have r: "rb h (paint Red sib)" using sib n by (auto simp: s nephews_black_def)
      have p: "addrs (plug (nd d Black t p (paint Red sib)) ctx) = addrs (plug (nd d c t p sib) ctx)"
        by (cases d) (simp_all add: addrs_plug)
      show ?thesis
      proof (cases c)
        case Red
        then show ?thesis using b n p by simp
      next
        case Black
        have "addrs (fix_erase (nd d Black t p (paint Red sib)) ctx) = addrs (plug (nd d Black t p (paint Red sib)) ctx)"
          using r "2.prems" Black b n by (intro "2.IH" [of "Suc h"]) auto
        then show ?thesis using b n Black p by simp
      qed
    qed
  qed
qed simp

subsection \<open>The loop\<close>

text \<open>What a stored tree says about the parent of a hole and its sibling.\<close>

lemma sib_facts:
  assumes h: "holds_tree s (plug t (Fr d c p (nd d sc x q y) # ctx))"
  shows "stored (mem s) p t" "mem s p = Some (mk_node (ctx_addr ctx) c d (addr t) q)"
      "mem s q = Some (mk_node p sc d (addr x) (addr y))" "stored (mem s) q x" "stored (mem s) q y"
      "stored_ctx (mem s) p ctx"
    and "aligned p" "aligned q" "aligned (ctx_addr ctx)" "p \<noteq> 0" "q \<noteq> 0" "0 \<notin> set (addrs t)"
      "0 \<notin> set (addrs x)" "0 \<notin> set (addrs y)" "0 \<notin> set (ctx_addrs ctx)"
    and "p \<noteq> q" "q \<noteq> p" "distinct (addrs t)" "distinct (addrs x)" "distinct (addrs y)" "distinct (ctx_addrs ctx)"
      "p \<notin> set (addrs t)" "p \<notin> set (addrs x)" "p \<notin> set (addrs y)" "p \<notin> set (ctx_addrs ctx)"
      "q \<notin> set (addrs t)" "q \<notin> set (addrs x)" "q \<notin> set (addrs y)" "q \<notin> set (ctx_addrs ctx)"
      "set (addrs t) \<inter> set (addrs x) = {}" "set (addrs t) \<inter> set (addrs y) = {}" "set (addrs x) \<inter> set (addrs y) = {}"
      "set (addrs x) \<inter> set (addrs t) = {}" "set (addrs y) \<inter> set (addrs t) = {}" "set (addrs y) \<inter> set (addrs x) = {}"
      "set (addrs t) \<inter> set (ctx_addrs ctx) = {}" "set (addrs x) \<inter> set (ctx_addrs ctx) = {}"
      "set (addrs y) \<inter> set (ctx_addrs ctx) = {}" "set (ctx_addrs ctx) \<inter> set (addrs t) = {}"
      "set (ctx_addrs ctx) \<inter> set (addrs x) = {}" "set (ctx_addrs ctx) \<inter> set (addrs y) = {}"
proof -
  have "stored (mem s) 0 (plug t (Fr d c p (nd d sc x q y) # ctx))" using h by (simp add: holds_tree_def)
  then show "stored (mem s) p t" "mem s p = Some (mk_node (ctx_addr ctx) c d (addr t) q)"
      "mem s q = Some (mk_node p sc d (addr x) (addr y))" "stored (mem s) q x" "stored (mem s) q y"
      "stored_ctx (mem s) p ctx"
    unfolding stored_plug by simp_all
  have v: "valid_addrs ({p, q} \<union> set (addrs t) \<union> set (addrs x) \<union> set (addrs y) \<union> set (ctx_addrs ctx))"
    using h by (auto simp: holds_tree_def set_addrs_plug valid_addrs_def)
  then show "aligned p" "aligned q" "p \<noteq> 0" "q \<noteq> 0" "0 \<notin> set (addrs t)"
      "0 \<notin> set (addrs x)" "0 \<notin> set (addrs y)" "0 \<notin> set (ctx_addrs ctx)"
    by (auto simp: valid_addrs_def)
  show "aligned (ctx_addr ctx)" using v by (intro aligned_ctx) (simp add: valid_addrs_def)
  have "distinct (addrs (plug t (Fr d c p (nd d sc x q y) # ctx)))" using h by (simp add: holds_tree_def)
  then show "p \<noteq> q" "q \<noteq> p" "distinct (addrs t)" "distinct (addrs x)" "distinct (addrs y)" "distinct (ctx_addrs ctx)"
      "p \<notin> set (addrs t)" "p \<notin> set (addrs x)" "p \<notin> set (addrs y)" "p \<notin> set (ctx_addrs ctx)"
      "q \<notin> set (addrs t)" "q \<notin> set (addrs x)" "q \<notin> set (addrs y)" "q \<notin> set (ctx_addrs ctx)"
      "set (addrs t) \<inter> set (addrs x) = {}" "set (addrs t) \<inter> set (addrs y) = {}" "set (addrs x) \<inter> set (addrs y) = {}"
      "set (addrs x) \<inter> set (addrs t) = {}" "set (addrs y) \<inter> set (addrs t) = {}" "set (addrs y) \<inter> set (addrs x) = {}"
      "set (addrs t) \<inter> set (ctx_addrs ctx) = {}" "set (addrs x) \<inter> set (ctx_addrs ctx) = {}"
      "set (addrs y) \<inter> set (ctx_addrs ctx) = {}" "set (ctx_addrs ctx) \<inter> set (addrs t) = {}"
      "set (ctx_addrs ctx) \<inter> set (addrs x) = {}" "set (ctx_addrs ctx) \<inter> set (addrs y) = {}"
    by (auto simp: distinct_addrs_plug)
qed

text \<open>Case 2.\<close>

lemma erase_flip:
  assumes h: "holds_tree s (plug t (Fr d c p (nd d Black x q y) # ctx))" and n: "col x = Black" "col y = Black"
  shows "\<exists>s'. erase_black_sibling dummy_rotate d p q s =
      Inr (if c = Black \<and> ctx \<noteq> [] then Again (p, ctx_addr ctx, s') else Done s') \<and>
    holds_tree s' (plug (nd d Black t p (nd d Red x q y)) ctx) \<and>
    only_touches s s' (set (addrs (plug t (Fr d c p (nd d Black x q y) # ctx))))"
proof -
  note st = sib_facts [OF h]
  let ?m1 = "(mem s)(q \<mapsto> mk_node p Red d (addr x) (addr y))"
  let ?m = "?m1(p \<mapsto> mk_node (ctx_addr ctx) Black d (addr t) q)"
  let ?t = "nd d c t p (nd d Black x q y)" and ?t' = "nd d Black t p (nd d Red x q y)"
  have cz: "ctx_addr ctx = 0 \<longleftrightarrow> ctx = []" using st(15) by (cases ctx rule: ctx_addr.cases) auto
  have red: "rb_set_black (s\<lparr>mem := ?m1\<rparr>) p = Inr (s\<lparr>mem := ?m\<rparr>)" if "c = Red"
    using st that mk_node_recolor [of "ctx_addr ctx" Black Red d "addr t" q]
    by (simp add: access_ok bit_of_def RB_RED_def RB_BLACK_def)
  have same: "?m1 = ?m" if "c = Black" using st that by (auto simp: fun_eq_iff)
  have code: "erase_black_sibling dummy_rotate d p q s =
      Inr (if c = Black \<and> ctx \<noteq> [] then Again (p, ctx_addr ctx, s\<lparr>mem := ?m\<rparr>) else Done (s\<lparr>mem := ?m\<rparr>))"
  proof (cases c)
    case Red
    then show ?thesis unfolding erase_black_sibling_def color_bits
      using st n red by (simp add: some_red_ok [OF st(4)] some_red_ok [OF st(5)] node_ok)
  next
    case Black
    then show ?thesis unfolding erase_black_sibling_def color_bits same [OF Black, symmetric]
      using st n cz by (simp add: some_red_ok [OF st(4)] some_red_ok [OF st(5)] node_ok)
  qed
  have "holds_tree (s\<lparr>mem := ?m, rb_root := rb_root s\<rparr>) (plug ?t' ctx)"
  proof (rule holds_tree_plugI)
    show "holds_tree s (plug ?t ctx)" using h by simp
    show "addrs ?t' = addrs ?t" by (cases d) simp_all
    show "rb_root s = (if ctx = [] then addr ?t' else rb_root s)"
      using h by (simp add: holds_tree_def)
  qed (use st in simp_all)
  moreover have "only_touches s (s\<lparr>mem := ?m\<rparr>) (set (addrs (plug t (Fr d c p (nd d Black x q y) # ctx))))"
    by (simp add: only_touches_def set_addrs_plug)
  ultimately show ?thesis using code by (intro exI [of _ "s\<lparr>mem := ?m\<rparr>"]) simp
qed

text \<open>Case 4, and case 3 with the case 4 that follows.\<close>

lemma erase_rotate_far:
  assumes h: "holds_tree s (plug t (Fr d c p (nd d Black x q y) # ctx))" and n: "col y = Red"
  shows "\<exists>s'. erase_black_sibling dummy_rotate d p q s = Inr (Done s') \<and>
    holds_tree s' (plug (nd d c (nd d Black t p x) q (paint Black y)) ctx) \<and>
    only_touches s s' (set (addrs (plug t (Fr d c p (nd d Black x q y) # ctx))))"
proof -
  note st = sib_facts [OF h]
  have y: "y \<noteq> Lf" using n by auto
  let ?k = "(mem s)(p \<mapsto> mk_node (ctx_addr ctx) c d (addr t) (addr x), q \<mapsto> mk_node p Black d p (addr y))"
  let ?m1 = "repaint ?k q Black y"
  let ?m2 = "repaint ?m1 p (col x) x"
  let ?m = "rehang (?m2(q \<mapsto> mk_node (ctx_addr ctx) c d p (addr y), p \<mapsto> mk_node q Black d (addr t) (addr x))) q ctx"
  let ?t = "nd d c t p (nd d Black x q y)" and ?t' = "nd d c (nd d Black t p x) q (paint Black y)"
  let ?r = "if ctx = [] then q else rb_root s"
  have a1: "rb_set_parent_color (s\<lparr>mem := ?k\<rparr>) (addr y) q (bit_of Black) = Inr (s\<lparr>mem := ?m1\<rparr>)"
    using set_color_ok [of "s\<lparr>mem := ?k\<rparr>" q y q Black] st y by simp
  have a2: "set_parent_if (s\<lparr>mem := ?m1\<rparr>) (addr x) p = Inr (s\<lparr>mem := ?m2\<rparr>)"
    using set_parent_if_ok [of "s\<lparr>mem := ?m1\<rparr>" q x p] st by simp
  have b: "rb_rotate_set_parents p q (bit_of Black) (s\<lparr>mem := ?m2\<rparr>) = Inr (s\<lparr>mem := ?m, rb_root := ?r\<rparr>)"
    using st by (subst rotate_set_parents_ok [of _ p ctx c d "addr t" "addr x" q p Black d p "addr y"]) simp_all
  have code: "erase_black_sibling dummy_rotate d p q s = Inr (Done (s\<lparr>mem := ?m, rb_root := ?r\<rparr>))"
    unfolding erase_black_sibling_def color_bits
    using st n a1 a2 b by (simp add: some_red_ok [OF st(5)] node_ok dummy_rotate_def)
  have "holds_tree (s\<lparr>mem := ?m, rb_root := ?r\<rparr>) (plug ?t' ctx)"
  proof (rule holds_tree_plugI)
    show "holds_tree s (plug ?t ctx)" using h by simp
    show "addrs ?t' = addrs ?t" by (cases d) simp_all
    have "stored ?m2 p x" using st stored_repaint [of ?m1 q x p "col x"] by simp
    then show "stored ?m (ctx_addr ctx) ?t'" using st by (simp add: insert_Diff_if)
  qed (use st in \<open>simp_all add: insert_Diff_if\<close>)
  moreover have "only_touches s (s\<lparr>mem := ?m, rb_root := ?r\<rparr>) (set (addrs (plug t (Fr d c p (nd d Black x q y) # ctx))))"
    by (simp add: only_touches_def set_addrs_plug)
  ultimately show ?thesis using code by blast
qed

lemma erase_rotate_near:
  assumes h: "holds_tree s (plug t (Fr d c p (nd d Black (nd d Red x b z) q y) # ctx))" and n: "col y = Black"
  shows "\<exists>s'. erase_black_sibling dummy_rotate d p q s = Inr (Done s') \<and>
    holds_tree s' (plug (nd d c (nd d Black t p x) b (nd d Black (paint Black z) q y)) ctx) \<and>
    only_touches s s' (set (addrs (plug t (Fr d c p (nd d Black (nd d Red x b z) q y) # ctx))))"
proof -
  note st0 = sib_facts [OF h]
  have st: "mem s b = Some (mk_node q Red d (addr x) (addr z))" "stored (mem s) b x" "stored (mem s) b z"
      "mem s q = Some (mk_node p Black d b (addr y))"
      "b \<noteq> p" "b \<noteq> q" "p \<noteq> b" "q \<noteq> b" "b \<noteq> 0" "b \<notin> set (addrs x)" "b \<notin> set (addrs z)"
      "distinct (addrs x)" "distinct (addrs z)" "set (addrs x) \<inter> set (addrs z) = {}" "set (addrs z) \<inter> set (addrs x) = {}"
      "b \<notin> set (addrs t)" "b \<notin> set (addrs y)" "b \<notin> set (ctx_addrs ctx)"
      "p \<notin> set (addrs x)" "p \<notin> set (addrs z)" "q \<notin> set (addrs x)" "q \<notin> set (addrs z)"
      "0 \<notin> set (addrs x)" "0 \<notin> set (addrs z)"
      "set (addrs t) \<inter> set (addrs x) = {}" "set (addrs t) \<inter> set (addrs z) = {}"
      "set (addrs y) \<inter> set (addrs x) = {}" "set (addrs y) \<inter> set (addrs z) = {}"
      "set (ctx_addrs ctx) \<inter> set (addrs x) = {}" "set (ctx_addrs ctx) \<inter> set (addrs z) = {}"
      "set (addrs x) \<inter> set (ctx_addrs ctx) = {}" "set (addrs z) \<inter> set (ctx_addrs ctx) = {}"
    using st0 by (simp_all add: Int_Un_distrib Int_Un_distrib2) auto
  have al: "aligned b" using h by (simp add: holds_tree_def set_addrs_plug valid_addrs_def)
  note st1 = al st0(1,2) st0(5-12,14-18,20-22,24-26,28-29,31,34,36,38,39,41)
  let ?ka = "(mem s)(q \<mapsto> mk_node p Black d (addr z) (addr y), b \<mapsto> mk_node q Red d (addr x) q,
    p \<mapsto> mk_node (ctx_addr ctx) c d (addr t) b)"
  let ?kb = "repaint ?ka q Black z"
  let ?kc = "?kb(p \<mapsto> mk_node (ctx_addr ctx) c d (addr t) (addr x), b \<mapsto> mk_node q Red d p q,
    q \<mapsto> mk_node b Black d (addr z) (addr y))"
  let ?kd = "repaint ?kc p (col x) x"
  let ?m = "rehang (?kd(b \<mapsto> mk_node (ctx_addr ctx) c d p q, p \<mapsto> mk_node b Black d (addr t) (addr x))) b ctx"
  let ?t = "nd d c t p (nd d Black (nd d Red x b z) q y)"
  let ?u = "nd d c (nd d Black t p x) b (nd d Black (paint Black z) q y)"
  let ?r = "if ctx = [] then b else rb_root s"
  have a1: "set_color_if (s\<lparr>mem := ?ka\<rparr>) (addr z) q (bit_of Black) = Inr (s\<lparr>mem := ?kb\<rparr>)"
    using set_color_if_ok [of "s\<lparr>mem := ?ka\<rparr>" b z q Black] st st1 by simp
  have a2: "set_parent_if (s\<lparr>mem := ?kc\<rparr>) (addr x) p = Inr (s\<lparr>mem := ?kd\<rparr>)"
    using set_parent_if_ok [of "s\<lparr>mem := ?kc\<rparr>" b x p] st st1 by simp
  have r: "rb_rotate_set_parents p b (bit_of Black) (s\<lparr>mem := ?kd\<rparr>) = Inr (s\<lparr>mem := ?m, rb_root := ?r\<rparr>)"
    using st st1 by (subst rotate_set_parents_ok [of _ p ctx c d "addr t" "addr x" b q Red d p q]) simp_all
  have red: "some_red s b = Inr True"
    using some_red_ok [of s q "nd d Red x b z"] st st1 by simp
  have code: "erase_black_sibling dummy_rotate d p q s = Inr (Done (s\<lparr>mem := ?m, rb_root := ?r\<rparr>))"
    unfolding erase_black_sibling_def color_bits
    using st st1 n a1 a2 r red by (simp add: some_red_ok [OF st0(5)] node_ok dummy_rotate_def)
  have "holds_tree (s\<lparr>mem := ?m, rb_root := ?r\<rparr>) (plug ?u ctx)"
  proof (rule holds_tree_plugI)
    show "holds_tree s (plug ?t ctx)" using h by simp
    show "addrs ?u = addrs ?t" by (cases d) simp_all
    have "stored ?kd p x" using st st1 stored_repaint [of ?kc b x p "col x"] by simp
    moreover have "stored ?kd q (paint Black z)" using st st1 stored_repaint [of ?ka b z q Black] by simp
    ultimately show "stored ?m (ctx_addr ctx) ?u" using st st1 by (simp add: insert_Diff_if)
  qed (use st st1 in \<open>simp_all add: insert_Diff_if\<close>)
  moreover have "only_touches s (s\<lparr>mem := ?m, rb_root := ?r\<rparr>)
      (set (addrs (plug t (Fr d c p (nd d Black (nd d Red x b z) q y) # ctx))))"
    by (simp add: only_touches_def set_addrs_plug)
  ultimately show ?thesis using code by blast
qed

text \<open>Case 1.\<close>

lemma erase_red_sibling:
  assumes h: "holds_tree s (plug t (Fr d c p (nd d Red x q y) # ctx))" and x: "x \<noteq> Lf"
  shows "\<exists>s'. erase_side dummy_rotate d p q s = erase_black_sibling dummy_rotate d p (addr x) s' \<and>
    holds_tree s' (plug t (Fr d Red p (paint Black x) # Fr d c q y # ctx)) \<and>
    only_touches s s' (set (addrs (plug t (Fr d c p (nd d Red x q y) # ctx))))"
proof -
  note st = sib_facts [OF h]
  let ?ka = "(mem s)(p \<mapsto> mk_node (ctx_addr ctx) c d (addr t) (addr x), q \<mapsto> mk_node p Red d p (addr y))"
  let ?kb = "repaint ?ka p Black x"
  let ?m = "rehang (?kb(q \<mapsto> mk_node (ctx_addr ctx) c d p (addr y), p \<mapsto> mk_node q Red d (addr t) (addr x))) q ctx"
  let ?t = "nd d c t p (nd d Red x q y)" and ?u = "nd d c (nd d Red t p (paint Black x)) q y"
  let ?r = "if ctx = [] then q else rb_root s"
  have a: "rb_set_parent_color (s\<lparr>mem := ?ka\<rparr>) (addr x) p (bit_of Black) = Inr (s\<lparr>mem := ?kb\<rparr>)"
    using set_color_ok [of "s\<lparr>mem := ?ka\<rparr>" q x p Black] st x by simp
  have b: "rb_rotate_set_parents p q (bit_of Red) (s\<lparr>mem := ?kb\<rparr>) = Inr (s\<lparr>mem := ?m, rb_root := ?r\<rparr>)"
    using st by (subst rotate_set_parents_ok [of _ p ctx c d "addr t" "addr x" q p Red d p "addr y"]) simp_all
  have code: "erase_side dummy_rotate d p q s = erase_black_sibling dummy_rotate d p (addr x) (s\<lparr>mem := ?m, rb_root := ?r\<rparr>)"
    unfolding erase_side_def color_bits
    using st a b by (simp add: node_ok dummy_rotate_def)
  have "holds_tree (s\<lparr>mem := ?m, rb_root := ?r\<rparr>) (plug ?u ctx)"
  proof (rule holds_tree_plugI)
    show "holds_tree s (plug ?t ctx)" using h by simp
    show "addrs ?u = addrs ?t" by (cases d) simp_all
  qed (use st in \<open>simp_all add: insert_Diff_if\<close>)
  moreover have "only_touches s (s\<lparr>mem := ?m, rb_root := ?r\<rparr>) (set (addrs (plug t (Fr d c p (nd d Red x q y) # ctx))))"
    by (simp add: only_touches_def set_addrs_plug)
  ultimately show ?thesis using code by (intro exI conjI) simp_all
qed

text \<open>All cases with a black sibling.\<close>

lemma erase_black_done:
  assumes h: "holds_tree s (plug t (Fr d c p sib # ctx))" and b: "col sib = Black" "sib \<noteq> Lf"
    and n: "\<not> nephews_black d sib"
  shows "\<exists>s'. erase_black_sibling dummy_rotate d p (addr sib) s = Inr (Done s') \<and>
    holds_tree s' (plug (rotated d c p t sib) ctx) \<and> only_touches s s' (set (addrs (plug t (Fr d c p sib # ctx))))"
proof -
  obtain x q y where s: "sib = nd d Black x q y" using nd_kids [OF b(2), of d] b(1) by metis
  show ?thesis
  proof (cases "col y = Red")
    case True
    then show ?thesis using erase_rotate_far [OF h [unfolded s] True] by (simp add: s rotated_def Let_def)
  next
    case False
    then have "col x = Red" using n by (simp add: nephews_black_def s)
    then obtain x1 bb z where x: "x = nd d Red x1 bb z" using nd_kids [of x d] by fastforce
    from False have y: "col y = Black" by simp
    show ?thesis using erase_rotate_near [OF h [unfolded s x] y] y by (simp add: s x rotated_def Let_def)
  qed
qed

lemma erase_step_refines:
  assumes h: "holds_tree s (plug t (Fr d c p sib # ctx))"
    and r: "rb h t" "col t = Black" "ctx_rb (Suc h) (Fr d c p sib # ctx)"
  shows "(\<exists>s'. erase_step dummy_rotate (addr t, p, s) = Inr (Done s') \<and>
      holds_tree s' (fix_erase t (Fr d c p sib # ctx)) \<and> only_touches s s' (set (addrs (plug t (Fr d c p sib # ctx))))) \<or>
    (\<exists>t' s'. erase_step dummy_rotate (addr t, p, s) = Inr (Again (addr t', ctx_addr ctx, s')) \<and> ctx \<noteq> [] \<and>
      rb (Suc h) t' \<and> col t' = Black \<and> ctx_rb (Suc (Suc h)) ctx \<and> holds_tree s' (plug t' ctx) \<and>
      fix_erase t' ctx = fix_erase t (Fr d c p sib # ctx) \<and>
      set (addrs (plug t' ctx)) = set (addrs (plug t (Fr d c p sib # ctx))) \<and>
      only_touches s s' (set (addrs (plug t (Fr d c p sib # ctx)))))"
proof -
  have sib: "rb (Suc h) sib" "sib \<noteq> Lf" using r(3) by (cases c; auto)+
  then obtain sc x q y where s: "sib = nd d sc x q y" using nd_kids [OF sib(2), of d] by blast
  note st = sib_facts [OF h [unfolded s]]
  have ne: "addr t \<noteq> q" using st(11,26) addr_in [of t] by (cases "t = Lf") auto
  have step: "erase_step dummy_rotate (addr t, p, s) = erase_side dummy_rotate d p q s"
    using node_ok(1,2) [OF st(2)] ne by (cases d) (simp_all add: erase_step_def)
  show ?thesis
  proof (cases sc)
    case Red
    have xb: "col x = Black" "x \<noteq> Lf" "rb (Suc h) x" using sib s Red by auto
    then have px: "paint Black x = x" by simp
    obtain s1 where s1: "erase_side dummy_rotate d p q s = erase_black_sibling dummy_rotate d p (addr x) s1"
        "holds_tree s1 (plug t (Fr d Red p x # Fr d c q y # ctx))"
        "only_touches s s1 (set (addrs (plug t (Fr d c p sib # ctx))))"
      using erase_red_sibling [OF h [unfolded s Red] xb(2)] Red by (auto simp: px s)
    have same: "set (addrs (plug t (Fr d Red p x # Fr d c q y # ctx))) = set (addrs (plug t (Fr d c p sib # ctx)))"
      by (auto simp: set_addrs_plug s)
    let ?u = "if nephews_black d x then nd d Black t p (paint Red x) else rotated d Red p t x"
    have fe: "fix_erase t (Fr d c p sib # ctx) = plug ?u (Fr d c q y # ctx)"
      using Red px by (simp add: s Let_def)
    have "\<exists>s2. erase_black_sibling dummy_rotate d p (addr x) s1 = Inr (Done s2) \<and>
        holds_tree s2 (plug ?u (Fr d c q y # ctx)) \<and> only_touches s1 s2 (set (addrs (plug t (Fr d c p sib # ctx))))"
    proof (cases "nephews_black d x")
      case True
      obtain x1 b x2 where x: "x = nd d Black x1 b x2" using nd_kids [OF xb(2), of d] xb(1) by metis
      then show ?thesis using erase_flip [OF s1(2) [unfolded x]] True same by (auto simp: nephews_black_def)
    next
      case False
      then show ?thesis using erase_black_done [OF s1(2) xb(1,2)] same by auto
    qed
    then show ?thesis using step s1 unfolding fe by (auto intro: only_touches_trans)
  next
    case Black
    then have b: "col sib = Black" by (simp add: s)
    have side: "erase_side dummy_rotate d p q s = erase_black_sibling dummy_rotate d p q s"
      using st(3,7) Black by (simp add: erase_side_def node_ok)
    show ?thesis
    proof (cases "nephews_black d sib")
      case False
      then show ?thesis using erase_black_done [OF h b sib(2) False] step side b by (simp add: s)
    next
      case n: True
      let ?u = "nd d Black t p (paint Red sib)"
      have xy: "col x = Black" "col y = Black" using n by (simp_all add: nephews_black_def s)
      obtain s' where s': "erase_side dummy_rotate d p q s =
          Inr (if c = Black \<and> ctx \<noteq> [] then Again (p, ctx_addr ctx, s') else Done s')"
          "holds_tree s' (plug ?u ctx)" "only_touches s s' (set (addrs (plug t (Fr d c p sib # ctx))))"
        using erase_flip [OF h [unfolded s Black] xy] side by (auto simp: s Black)
      show ?thesis
      proof (cases "c = Black \<and> ctx \<noteq> []")
        case True
        have "rb (Suc h) ?u" "ctx_rb (Suc (Suc h)) ctx"
          using sib r True xy by (auto simp: s Black)
        moreover have "fix_erase ?u ctx = fix_erase t (Fr d c p sib # ctx)" using b n True by simp
        moreover have "set (addrs (plug ?u ctx)) = set (addrs (plug t (Fr d c p sib # ctx)))"
          by (auto simp: set_addrs_plug)
        ultimately show ?thesis using s' step True by (intro disjI2 exI [of _ ?u] exI [of _ s']) simp
      next
        case False
        then have "fix_erase t (Fr d c p sib # ctx) = plug ?u ctx" using b n by (cases c) auto
        then show ?thesis using s' step False by auto
      qed
    qed
  qed
qed

lemma rb_erase_loop:
  assumes "holds_tree s (plug t ctx)" "rb h t" "col t = Black" "ctx_rb (Suc h) ctx" "ctx \<noteq> []"
  shows "\<exists>s'. loop (erase_step dummy_rotate) (addr t, ctx_addr ctx, s) = Some (Inr s') \<and>
    holds_tree s' (fix_erase t ctx) \<and> only_touches s s' (set (addrs (plug t ctx)))"
  using assms
proof (induction "length ctx" arbitrary: s t h ctx rule: less_induct)
  case less
  obtain d c p sib ctx1 where ctx: "ctx = Fr d c p sib # ctx1"
    using less.prems(5) by (metis ctx_addr.cases)
  from erase_step_refines [OF less.prems(1) [unfolded ctx] less.prems(2,3) less.prems(4) [unfolded ctx]]
  show ?case
  proof (elim disjE exE conjE)
    fix s' assume "erase_step dummy_rotate (addr t, p, s) = Inr (Done s')"
      "holds_tree s' (fix_erase t (Fr d c p sib # ctx1))" "only_touches s s' (set (addrs (plug t (Fr d c p sib # ctx1))))"
    then show ?thesis by (simp add: loop_step ctx)
  next
    fix t' s'
    assume a: "erase_step dummy_rotate (addr t, p, s) = Inr (Again (addr t', ctx_addr ctx1, s'))" "ctx1 \<noteq> []"
      "rb (Suc h) t'" "col t' = Black" "ctx_rb (Suc (Suc h)) ctx1" "holds_tree s' (plug t' ctx1)"
      "fix_erase t' ctx1 = fix_erase t (Fr d c p sib # ctx1)"
      "set (addrs (plug t' ctx1)) = set (addrs (plug t (Fr d c p sib # ctx1)))"
      "only_touches s s' (set (addrs (plug t (Fr d c p sib # ctx1))))"
    have "length ctx1 < length ctx" by (simp add: ctx)
    from less.hyps [OF this a(6,3,4,5,2)] obtain s'' where s'':
      "loop (erase_step dummy_rotate) (addr t', ctx_addr ctx1, s') = Some (Inr s'')"
      "holds_tree s'' (fix_erase t ctx)" "only_touches s' s'' (set (addrs (plug t ctx)))"
      using a(7,8) ctx by auto
    have "loop (erase_step dummy_rotate) (addr t, ctx_addr ctx, s) = loop (erase_step dummy_rotate) (addr t', ctx_addr ctx1, s')"
      using a(1) by (simp add: loop_step(1) ctx)
    then show ?thesis using s'' a(9) ctx by (auto intro: only_touches_trans)
  qed
qed

end
