(* ===== verification/Rbtree_Remove.thy ===== *)
theory Rbtree_Remove
  imports Rbtree_Erase
begin

text \<open>
  \<open>rb_erase\<close>: how \<open>__rb_erase_augmented\<close> takes a node out of a stored tree, and the whole.
\<close>

subsection \<open>The successor\<close>

text \<open>The path to the leftmost node of a tree, and its subtree.\<close>

fun min_path :: "ptree \<Rightarrow> frame list" where
  "min_path Lf = []"
| "min_path (Nd c l a r) = (if l = Lf then [] else min_path l @ [Fr L c a r])"

fun min_tree :: "ptree \<Rightarrow> ptree" where
  "min_tree Lf = Lf"
| "min_tree (Nd c l a r) = (if l = Lf then Nd c l a r else min_tree l)"

lemma plug_append: "plug t (c1 @ c2) = plug (plug t c1) c2"
  by (induction t c1 rule: plug.induct) simp_all

lemma plug_min: "plug (min_tree t) (min_path t) = t"
  by (induction t) (auto simp: plug_append)

lemma min_tree_Nd: "t \<noteq> Lf \<Longrightarrow> \<exists>c a r. min_tree t = Nd c Lf a r"
  by (induction t) auto

lemma min_addrs:
  assumes "min_tree t = Nd c Lf a x"
  shows "addrs t = a # addrs (plug (paint c' x) (min_path t))"
  using assms by (induction t) (auto simp: plug_append split: if_splits)

lemma ctx_addr_append: "ctx_addr (c1 @ c2) = (if c1 = [] then ctx_addr c2 else ctx_addr c1)"
  by (cases c1 rule: ctx_addr.cases) auto

lemma addr_plug_path: "ctx \<noteq> [] \<Longrightarrow> addr (plug t ctx) = addr (plug t' ctx)"
  by (rule addr_plug_eq) simp

lemma min_path_frames:
  "t \<noteq> Lf \<Longrightarrow> min_path t \<noteq> [] \<Longrightarrow> ctx_addr (min_path t) \<in> set (addrs (plug u (min_path t)))"
  by (cases "min_path t" rule: ctx_addr.cases) (auto simp: set_addrs_plug)

text \<open>The descent to the successor.\<close>

lemma successor_loop:
  assumes "stored (mem s) par (Nd c l a r)" "l \<noteq> Lf" "0 \<notin> set (addrs (Nd c l a r))" "min_tree l = Nd cs Lf b x"
  shows "loop (successor_step s) (a, addr l) = Some (Inr (ctx_addr (min_path l @ [Fr L c a r]), b))"
  using assms
proof (induction l arbitrary: par c a r)
  case (Nd cl l1 al r1)
  have m: "mem s al = Some (mk_node a cl L (addr l1) (addr r1))" "stored (mem s) a (Nd cl l1 al r1)"
    using Nd.prems(1) by auto
  show ?case
  proof (cases "l1 = Lf")
    case True
    then show ?thesis using m(1) Nd.prems(4) by (simp add: loop_step successor_step_def node_ok)
  next
    case False
    have ne: "addr l1 \<noteq> 0" using Nd.prems(3) False addr_in [of l1] by auto
    have "successor_step s (a, al) = Inr (Again (al, addr l1))"
      using m(1) ne by (simp add: successor_step_def node_ok)
    then have "loop (successor_step s) (a, al) = loop (successor_step s) (al, addr l1)"
      by (rule loop_step(1))
    moreover have "loop (successor_step s) (al, addr l1) = Some (Inr (ctx_addr (min_path l1 @ [Fr L cl al r1]), b))"
      using Nd.IH(1) [OF m(2) False] Nd.prems(3,4) False by simp
    ultimately show ?thesis using False by (simp add: ctx_addr_append)
  qed
qed simp

subsection \<open>Memory of a changed tree\<close>

lemma stored_same: "(\<And>a. a \<in> set (addrs t) \<Longrightarrow> m' a = m a) \<Longrightarrow> stored m' par t = stored m par t"
  by (induction t arbitrary: par) auto

text \<open>A new parent for the root of a stored tree.\<close>

lemma stored_reparent:
  assumes "stored m par (Nd c l a r)" "m' a = Some (mk_node q c' L (addr l) (addr r))"
    and "\<And>b. b \<in> set (addrs l) \<union> set (addrs r) \<Longrightarrow> m' b = m b"
  shows "stored m' q (Nd c' l a r)"
  using assms stored_same [of l m' m] stored_same [of r m' m] by auto

text \<open>Taking the leftmost node out: its right subtree goes to its parent.\<close>

lemma stored_without_min:
  assumes "stored m par t" "min_tree t = Nd cs Lf b x" "min_path t \<noteq> []" "distinct (addrs t)"
    and "m (ctx_addr (min_path t)) = Some n"
  shows "stored ((repaint m (ctx_addr (min_path t)) Black x)(ctx_addr (min_path t) \<mapsto> put_child L (addr x) n))
    par (plug (paint Black x) (min_path t))"
  using assms
proof (induction t arbitrary: par)
  case (Nd c l a r)
  have l: "l \<noteq> Lf" using Nd.prems(3) by auto
  have st: "m a = Some (mk_node par c L (addr l) (addr r))" "stored m a l" "stored m a r"
    using Nd.prems(1) by auto
  have mt: "min_tree l = Nd cs Lf b x" using Nd.prems(2) l by simp
  have al: "addrs l = b # addrs (plug (paint Black x) (min_path l))" by (rule min_addrs [OF mt])
  then have d: "distinct (addrs (plug (paint Black x) (min_path l)))" "a \<notin> set (addrs (plug (paint Black x) (min_path l)))"
      "set (addrs (plug (paint Black x) (min_path l))) \<inter> set (addrs r) = {}" "a \<notin> set (addrs r)"
      "b \<notin> set (addrs (plug (paint Black x) (min_path l)))"
    using Nd.prems(4) by auto
  have xs: "set (addrs x) \<subseteq> set (addrs (plug (paint Black x) (min_path l)))" "distinct (addrs x)"
    using d(1) by (auto simp: set_addrs_plug distinct_addrs_plug)
  show ?case
  proof (cases "min_path l = []")
    case True
    have lx: "l = Nd cs Lf b x" using plug_min [of l] True mt by simp
    have sx: "stored m b x" using st(2) lx by simp
    have n: "n = mk_node par c L (addr l) (addr r)" using Nd.prems(5) st(1) l True by simp
    have dx: "set (addrs r) \<inter> set (addrs x) = {}" "a \<notin> set (addrs x)" using d xs by auto
    let ?m' = "(repaint m a Black x)(a \<mapsto> mk_node par c L (addr x) (addr r))"
    have "stored ?m' a (paint Black x)" "stored ?m' a r"
      using st(3) sx xs(2) dx d(4) by simp_all
    moreover have "put_child L (addr x) n = mk_node par c L (addr x) (addr r)" unfolding n by (rule mk_node_child)
    ultimately show ?thesis using True l by (simp add: fun_upd_def)
  next
    case False
    let ?p = "ctx_addr (min_path l)"
    let ?m' = "(repaint m ?p Black x)(?p \<mapsto> put_child L (addr x) n)"
    have p: "?p \<in> set (addrs (plug (paint Black x) (min_path l)))" by (rule min_path_frames [OF l False])
    have mp: "m ?p = Some n" using Nd.prems(5) l False by (simp add: ctx_addr_append)
    have dl: "distinct (addrs l)" using Nd.prems(4) by simp
    have IH: "stored ?m' a (plug (paint Black x) (min_path l))"
      using Nd.IH(1) [OF st(2) mt False dl mp] .
    have "?p \<noteq> a" "?p \<notin> set (addrs r)" using p d by auto
    moreover have dx: "a \<notin> set (addrs x)" "set (addrs r) \<inter> set (addrs x) = {}" using xs d by auto
    moreover from calculation have "stored ?m' a r" using st(3) by simp
    moreover have "addr (plug (paint Black x) (min_path l)) = addr l"
      using addr_plug_path [OF False, of "paint Black x" "min_tree l"] plug_min [of l] by simp
    ultimately show ?thesis using IH st(1) l False by (simp add: plug_append ctx_addr_append fun_upd_def)
  qed
qed simp

subsection \<open>The successor in the node's place\<close>

definition placed :: "rb_mem \<Rightarrow> color \<Rightarrow> ptree \<Rightarrow> u64 \<Rightarrow> u64 \<Rightarrow> color \<Rightarrow> u64 \<Rightarrow> frame list \<Rightarrow> u64 \<Rightarrow> ptree \<Rightarrow> rb_mem" where
  "placed m c l b q cs w ctx hp x =
     repaint ((rehang (repaint (m(b \<mapsto> mk_node q cs L (addr l) w)) b (col l) l) b ctx)
       (b \<mapsto> mk_node (ctx_addr ctx) c L (addr l) w)) hp Black x"

lemma erase_replace_ok:
  assumes "mem s a = Some (mk_node (ctx_addr ctx) c L (addr l) z)" "stored (mem s) a l" "l \<noteq> Lf" "stored_ctx (mem s) a ctx"
    and "mem s b = Some (mk_node q cs L 0 w)" "aligned q" "stored (mem s) b x"
    and "aligned a" "aligned (ctx_addr ctx)" "a \<noteq> 0" "0 \<notin> set (addrs x)" "0 \<notin> set (ctx_addrs ctx)"
    and "b \<noteq> a" "b \<notin> set (addrs l)" "b \<notin> set (ctx_addrs ctx)" "b \<notin> set (addrs x)"
    and "a \<notin> set (addrs l)" "a \<notin> set (ctx_addrs ctx)" "a \<notin> set (addrs x)"
    and "set (addrs x) \<inter> set (addrs l) = {}" "set (addrs x) \<inter> set (ctx_addrs ctx) = {}"
      "set (ctx_addrs ctx) \<inter> set (addrs l) = {}"
  shows "erase_replace dummy_callbacks a (hp, b, addr x, s) =
    Inr (if x = Lf \<and> cs = Black then hp else 0,
         s\<lparr>mem := placed (mem s) c l b q cs w ctx hp x, rb_root := if ctx = [] then b else rb_root s\<rparr>)"
proof -
  let ?ka = "(mem s)(b \<mapsto> mk_node q cs L (addr l) w)"
  let ?kb = "repaint ?ka b (col l) l"
  let ?kc = "rehang ?kb b ctx"
  let ?r = "if ctx = [] then b else rb_root s"
  let ?s = "s\<lparr>mem := ?kc, rb_root := ?r\<rparr>"
  have a1: "rb_set_parent (s\<lparr>mem := ?ka\<rparr>) (addr l) b = Inr (s\<lparr>mem := ?kb\<rparr>)"
    using set_parent_ok [of "s\<lparr>mem := ?ka\<rparr>" a l b] assms by simp
  have a2: "rb_change_child a b (ctx_addr ctx) (s\<lparr>mem := ?kb\<rparr>) = Inr ?s"
    using change_child_ok [of "s\<lparr>mem := ?kb\<rparr>" a ctx b] assms by simp
  have b: "mem ?s b = Some (mk_node q cs L (addr l) w)" using assms by simp
  have u: "upd ?s b (\<lambda>n. n\<lparr>parent_color := ctx_addr ctx + bit_of c\<rparr>) =
      Inr (?s\<lparr>mem := ?kc(b \<mapsto> mk_node (ctx_addr ctx) c L (addr l) w)\<rparr>)"
    using upd_ok [OF b] by (simp add: mk_node_recolor)
  have x: "stored (?kc(b \<mapsto> mk_node (ctx_addr ctx) c L (addr l) w)) b x" using assms by simp
  have ma: "mem (s\<lparr>mem := ?kb\<rparr>) a = Some (mk_node (ctx_addr ctx) c L (addr l) z)" using assms by simp
  show ?thesis
  proof (cases "x = Lf")
    case True
    then show ?thesis
      using assms a1 a2 u node_ok [OF ma] node_ok [OF b] placed_def [of "mem s" c l b q cs w ctx hp x]
      by (simp add: erase_replace_def node_ok dummy_callbacks_def pc_bits repaint_def)
  next
    case False
    then have "addr x \<noteq> 0" using assms(11) addr_in [of x] by auto
    moreover have "rb_set_parent_color (?s\<lparr>mem := ?kc(b \<mapsto> mk_node (ctx_addr ctx) c L (addr l) w)\<rparr>) (addr x) hp (bit_of Black) =
        Inr (?s\<lparr>mem := placed (mem s) c l b q cs w ctx hp x\<rparr>)"
      using set_color_ok [of "?s\<lparr>mem := ?kc(b \<mapsto> mk_node (ctx_addr ctx) c L (addr l) w)\<rparr>" b x hp Black] x False
      by (simp add: placed_def)
    ultimately show ?thesis
      using assms False a1 a2 u node_ok [OF ma]
      by (simp add: erase_replace_def node_ok dummy_callbacks_def pc_bits color_bits)
  qed
qed

lemma placed_stored:
  assumes "stored m a l" "l \<noteq> Lf" "stored_ctx m a ctx" "stored (repaint m hp Black x) b t" "w = addr t"
    and "b \<notin> set (addrs l)" "b \<notin> set (ctx_addrs ctx)" "b \<notin> set (addrs t)" "set (addrs x) \<subseteq> set (addrs t)"
    and "set (addrs t) \<inter> set (addrs l) = {}" "set (addrs t) \<inter> set (ctx_addrs ctx) = {}"
      "set (ctx_addrs ctx) \<inter> set (addrs l) = {}" "distinct (addrs l)" "distinct (ctx_addrs ctx)"
  shows "stored (placed m c l b q cs w ctx hp x) 0 (plug (Nd c l b t) ctx)"
proof -
  let ?m = "placed m c l b q cs w ctx hp x"
  have x: "b \<notin> set (addrs x)" "set (addrs x) \<inter> set (addrs l) = {}" "set (addrs l) \<inter> set (addrs x) = {}"
      "set (ctx_addrs ctx) \<inter> set (addrs x) = {}" "set (addrs l) \<inter> set (ctx_addrs ctx) = {}"
    using assms(8-12) by auto
  have "stored (repaint (m(b \<mapsto> mk_node q cs L (addr l) w)) b (col l) l) b (paint (col l) l)"
    using assms by (intro stored_repaint [of _ a]) simp_all
  then have "stored ?m b l" using assms x by (simp add: placed_def)
  moreover have "stored ?m b t"
  proof -
    have "?m u = repaint m hp Black x u" if "u \<in> set (addrs t)" for u
    proof -
      have "u \<noteq> b" "u \<notin> set (addrs l)" "u \<notin> set (ctx_addrs ctx)" using that assms(8,10,11) by auto
      then show ?thesis by (cases x) (simp_all add: placed_def repaint_def [of _ _ _ "Nd _ _ _ _"] repaint_def [of _ _ _ Lf])
    qed
    then show ?thesis using assms(4) stored_same [of t ?m "repaint m hp Black x" b] by simp
  qed
  moreover have "stored_ctx ?m b ctx"
    using assms x by (simp add: placed_def) 
  moreover have "?m b = Some (mk_node (ctx_addr ctx) c L (addr l) (addr t))"
    using x assms(5) by (simp add: placed_def)
  ultimately show ?thesis by (simp add: stored_plug)
qed

subsection \<open>The hole an erasure leaves\<close>

definition erase_hole :: "color \<Rightarrow> ptree \<Rightarrow> ptree \<Rightarrow> frame list \<Rightarrow> ptree \<times> frame list \<times> bool" where
  "erase_hole c l r ctx =
     (if l = Lf then (paint c r, ctx, r = Lf \<and> c = Black)
      else if r = Lf then (paint c l, ctx, False)
      else case min_tree r of
        Lf \<Rightarrow> (r, ctx, False)
      | Nd cs _ b x \<Rightarrow> (paint Black x, min_path r @ Fr R c b l # ctx, x = Lf \<and> cs = Black))"

definition erase_tree :: "color \<Rightarrow> ptree \<Rightarrow> ptree \<Rightarrow> frame list \<Rightarrow> ptree" where
  "erase_tree c l r ctx =
     (case erase_hole c l r ctx of (u, ctx', short) \<Rightarrow> if short then fix_erase u ctx' else plug u ctx')"

lemma erase_hole_addrs:
  "erase_hole c l r ctx = (u, ctx', short) \<Longrightarrow>
     addrs (plug u ctx') = ctx_before ctx @ addrs l @ addrs r @ ctx_after ctx"
proof (cases "l = Lf \<or> r = Lf")
  case False
  assume e: "erase_hole c l r ctx = (u, ctx', short)"
  obtain cs b x where m: "min_tree r = Nd cs Lf b x" using min_tree_Nd False by blast
  have "plug u ctx' = plug (Nd c l b (plug (paint Black x) (min_path r))) ctx"
    using e False by (auto simp: erase_hole_def m plug_append)
  then show ?thesis using min_addrs [OF m, of Black] by (simp add: addrs_plug [of _ ctx])
qed (auto simp: erase_hole_def addrs_plug split: if_splits)

lemma red_black_rename: "red_black (plug (nd d c x a y) ctx) \<Longrightarrow> red_black (plug (nd d c x b y) ctx)"
proof -
  assume "red_black (plug (nd d c x a y) ctx)"
  then obtain h where h: "rb h (nd d c x a y)" "ctx_rb h ctx" "c = Black \<or> top_black ctx"
    using red_black_plug [of "nd d c x a y" ctx] by auto
  then show ?thesis by (intro plug_red_black [of h]) (cases c; simp)+
qed

lemma rb_0: "rb 0 t \<longleftrightarrow> t = Lf \<or> (\<exists>a. t = Nd Red Lf a Lf)"
proof (induction t)
  case (Nd c l a r)
  then show ?case by (cases c) auto
qed simp

lemma erase_hole_rb:
  assumes "red_black (plug (Nd c l a r) ctx)" "erase_hole c l r ctx = (u, ctx', short)"
  shows "if short then u = Lf \<and> ctx_rb 1 ctx' else red_black (plug u ctx')"
proof -
  obtain h where h: "rb h (Nd c l a r)" "ctx_rb h ctx" "c = Black \<or> top_black ctx"
    using red_black_plug [OF assms(1)] by auto
  show ?thesis
  proof (cases "l = Lf \<or> r = Lf")
    case True
    show ?thesis
    proof (cases c)
      case Black
      have h1: "h = 1" "rb 0 l" "rb 0 r" using h(1) True Black by (auto split: nat.splits)
      then have "l = Lf \<and> r = Lf \<and> short \<and> u = Lf \<and> ctx' = ctx \<or>
          \<not> short \<and> ctx' = ctx \<and> (\<exists>b. u = Nd Black Lf b Lf)"
        using assms(2) True Black by (auto simp: erase_hole_def rb_0 split: if_splits)
      then show ?thesis
      proof
        assume "\<not> short \<and> ctx' = ctx \<and> (\<exists>b. u = Nd Black Lf b Lf)"
        then show ?thesis using h(2) h1(1) plug_red_black [of 1 u ctx] by auto
      qed (use h(2) h1(1) in simp)
    next
      case Red
      have "h = 0" "l = Lf" "r = Lf" using h(1) True Red by (auto simp: rb_0)
      then show ?thesis using h assms(2) Red plug_red_black [of 0 Lf ctx] by (auto simp: erase_hole_def)
    qed
  next
    case False
    obtain cs b x where m: "min_tree r = Nd cs Lf b x" using min_tree_Nd False by blast
    have e: "u = paint Black x" "ctx' = min_path r @ Fr R c b l # ctx" "short \<longleftrightarrow> x = Lf \<and> cs = Black"
      using assms(2) False by (auto simp: erase_hole_def m)
    have "red_black (plug (nd R c r a l) ctx)" using assms(1) by simp
    then have "red_black (plug (nd R c r b l) ctx)" by (rule red_black_rename)
    then have "red_black (plug (Nd cs Lf b x) ctx')"
      using plug_min [of r] by (simp add: e(2) plug_append m)
    then obtain k where k: "rb k (Nd cs Lf b x)" "ctx_rb k ctx'" "cs = Black \<or> top_black ctx'"
      using red_black_plug [of "Nd cs Lf b x" ctx'] by auto
    show ?thesis
    proof (cases cs)
      case Black
      then have k1: "k = 1" "rb 0 x" using k(1) by (auto split: nat.splits)
      show ?thesis
      proof (cases "x = Lf")
        case True
        then show ?thesis using k(2) k1 Black e by simp
      next
        case False
        then obtain z where "x = Nd Red Lf z Lf" using k1(2) by (auto simp: rb_0)
        then show ?thesis using k(2) k1(1) e plug_red_black [of 1 "Nd Black Lf z Lf" ctx'] by simp
      qed
    next
      case Red
      then have "k = 0" "x = Lf" using k(1) by (auto simp: rb_0)
      then show ?thesis using k Red e plug_red_black [of 0 Lf ctx'] by simp
    qed
  qed
qed

lemma erase_tree_correct:
  assumes "red_black (plug (Nd c l a r) ctx)"
  shows "red_black (erase_tree c l r ctx)"
    and "addrs (erase_tree c l r ctx) = ctx_before ctx @ addrs l @ addrs r @ ctx_after ctx"
proof -
  obtain u ctx' short where e: "erase_hole c l r ctx = (u, ctx', short)" by (cases "erase_hole c l r ctx")
  note h = erase_hole_rb [OF assms e] and ad = erase_hole_addrs [OF e]
  have "red_black (erase_tree c l r ctx) \<and> addrs (erase_tree c l r ctx) = addrs (plug u ctx')"
  proof (cases short)
    case True
    then have "rb 0 Lf" "col Lf = Black" "ctx_rb (Suc 0) ctx'" "u = Lf" using h by simp_all
    then show ?thesis using True fix_erase_red_black fix_erase_addrs by (auto simp: erase_tree_def e)
  qed (use h in \<open>simp add: erase_tree_def e\<close>)
  then show "red_black (erase_tree c l r ctx)"
    "addrs (erase_tree c l r ctx) = ctx_before ctx @ addrs l @ addrs r @ ctx_after ctx"
    using ad by simp_all
qed

subsection \<open>Taking the node out\<close>

lemma node_facts:
  assumes h: "holds_tree s (plug (Nd c l a r) ctx)"
  shows "mem s a = Some (mk_node (ctx_addr ctx) c L (addr l) (addr r))" "stored (mem s) a l" "stored (mem s) a r"
      "stored_ctx (mem s) a ctx"
    and "aligned a" "aligned (ctx_addr ctx)" "a \<noteq> 0" "0 \<notin> set (addrs l)" "0 \<notin> set (addrs r)" "0 \<notin> set (ctx_addrs ctx)"
    and "a \<notin> set (addrs l)" "a \<notin> set (addrs r)" "a \<notin> set (ctx_addrs ctx)"
      "distinct (addrs l)" "distinct (addrs r)" "distinct (ctx_addrs ctx)"
      "set (addrs l) \<inter> set (addrs r) = {}" "set (addrs r) \<inter> set (addrs l) = {}"
      "set (addrs l) \<inter> set (ctx_addrs ctx) = {}" "set (addrs r) \<inter> set (ctx_addrs ctx) = {}"
      "set (ctx_addrs ctx) \<inter> set (addrs l) = {}" "set (ctx_addrs ctx) \<inter> set (addrs r) = {}"
      "\<forall>b \<in> set (addrs r). aligned b"
proof -
  have "stored (mem s) 0 (plug (Nd c l a r) ctx)" using h by (simp add: holds_tree_def)
  then show "mem s a = Some (mk_node (ctx_addr ctx) c L (addr l) (addr r))" "stored (mem s) a l" "stored (mem s) a r"
      "stored_ctx (mem s) a ctx" unfolding stored_plug by simp_all
  have v: "valid_addrs ({a} \<union> set (addrs l) \<union> set (addrs r) \<union> set (ctx_addrs ctx))"
    using h by (auto simp: holds_tree_def set_addrs_plug valid_addrs_def)
  then show "aligned a" "a \<noteq> 0" "0 \<notin> set (addrs l)" "0 \<notin> set (addrs r)" "0 \<notin> set (ctx_addrs ctx)"
    "\<forall>b \<in> set (addrs r). aligned b"
    by (auto simp: valid_addrs_def)
  show "aligned (ctx_addr ctx)" using v by (intro aligned_ctx) (simp add: valid_addrs_def)
  have "distinct (addrs (plug (Nd c l a r) ctx))" using h by (simp add: holds_tree_def)
  then show "a \<notin> set (addrs l)" "a \<notin> set (addrs r)" "a \<notin> set (ctx_addrs ctx)"
      "distinct (addrs l)" "distinct (addrs r)" "distinct (ctx_addrs ctx)"
      "set (addrs l) \<inter> set (addrs r) = {}" "set (addrs r) \<inter> set (addrs l) = {}"
      "set (addrs l) \<inter> set (ctx_addrs ctx) = {}" "set (addrs r) \<inter> set (ctx_addrs ctx) = {}"
      "set (ctx_addrs ctx) \<inter> set (addrs l) = {}" "set (ctx_addrs ctx) \<inter> set (addrs r) = {}"
    by (auto simp: distinct_addrs_plug)
qed

text \<open>The rest of a tree without the node.\<close>

lemma holds_tree_less:
  assumes "holds_tree s (plug (Nd c l a r) ctx)" "stored m 0 t" "addr t = q"
    and "addrs t = ctx_before ctx @ addrs l @ addrs r @ ctx_after ctx"
  shows "holds_tree (s\<lparr>mem := m, rb_root := q\<rparr>) t"
proof -
  have "distinct (ctx_before ctx @ addrs l @ a # addrs r @ ctx_after ctx)"
    "valid_addrs (set (ctx_before ctx @ addrs l @ a # addrs r @ ctx_after ctx))"
    using assms(1) by (simp_all add: holds_tree_def addrs_plug)
  then have "distinct (addrs t)" "valid_addrs (set (addrs t))"
    unfolding assms(4) by (auto simp: valid_addrs_def)
  then show ?thesis using assms(2,3) by (simp add: holds_tree_def)
qed

lemma root_of_plug:
  assumes "holds_tree s (plug t ctx)"
  shows "addr (plug u ctx) = (if ctx = [] then addr u else rb_root s)"
  using assms addr_plug_eq [of u t ctx] by (cases "ctx = []") (auto simp: holds_tree_def)

lemma set_pc_ok:
  "stored (mem s) par t \<Longrightarrow> t \<noteq> Lf \<Longrightarrow>
     upd s (addr t) (\<lambda>n. n\<lparr>parent_color := q + bit_of c\<rparr>) = Inr (s\<lparr>mem := repaint (mem s) q c t\<rparr>)"
  by (cases t) (auto simp: upd_ok repaint_def mk_node_recolor)

lemma raw_right_only:
  assumes h: "holds_tree s (plug (Nd c Lf a r) ctx)"
  shows "\<exists>s'. rb_erase_augmented_raw dummy_callbacks a s =
      Some (Inr (if r = Lf \<and> c = Black then ctx_addr ctx else 0, s')) \<and>
    holds_tree s' (plug (paint c r) ctx) \<and> only_touches s s' (set (addrs (plug (Nd c Lf a r) ctx)))"
proof -
  note st = node_facts [OF h]
  let ?k = "rehang (mem s) (addr r) ctx" and ?q = "if ctx = [] then addr r else rb_root s"
  let ?m = "repaint ?k (ctx_addr ctx) c r"
  have ld: "ld s a = Inr (mk_node (ctx_addr ctx) c L 0 (addr r))" using st(1) by (simp add: ld_ok)
  have ch: "rb_change_child a (addr r) (ctx_addr ctx) s = Inr (s\<lparr>mem := ?k, rb_root := ?q\<rparr>)"
    using change_child_ok [OF st(4)] st by simp
  have code: "rb_erase_augmented_raw dummy_callbacks a s =
      Some (Inr (if r = Lf \<and> c = Black then ctx_addr ctx else 0, s\<lparr>mem := ?m, rb_root := ?q\<rparr>))"
  proof (cases "r = Lf")
    case True
    then show ?thesis using ld ch st(6)
      by (simp add: rb_erase_augmented_raw_def dummy_callbacks_def mk_node_def pc_bits repaint_def Let_def)
  next
    case False
    then have "addr r \<noteq> 0" using st(9) addr_in [of r] by auto
    moreover have "upd (s\<lparr>mem := ?k, rb_root := ?q\<rparr>) (addr r) (\<lambda>n. n\<lparr>parent_color := ctx_addr ctx + bit_of c\<rparr>) =
        Inr (s\<lparr>mem := ?m, rb_root := ?q\<rparr>)"
      using set_pc_ok [of "s\<lparr>mem := ?k, rb_root := ?q\<rparr>" a r] st False by simp
    ultimately show ?thesis using ld ch st(6) False
      by (simp add: rb_erase_augmented_raw_def dummy_callbacks_def mk_node_def pc_bits Let_def)
  qed
  have "stored ?m 0 (plug (paint c r) ctx)" using st stored_repaint [of ?k a r "ctx_addr ctx" c] by (simp add: stored_plug)
  then have "holds_tree (s\<lparr>mem := ?m, rb_root := ?q\<rparr>) (plug (paint c r) ctx)"
    using root_of_plug [OF h, of "paint c r"] by (intro holds_tree_less [OF h]) (simp_all add: addrs_plug)
  moreover have "only_touches s (s\<lparr>mem := ?m, rb_root := ?q\<rparr>) (set (addrs (plug (Nd c Lf a r) ctx)))"
    by (simp add: only_touches_def set_addrs_plug)
  ultimately show ?thesis using code by blast
qed

lemma raw_left_only:
  assumes h: "holds_tree s (plug (Nd c l a Lf) ctx)" and l: "l \<noteq> Lf"
  shows "\<exists>s'. rb_erase_augmented_raw dummy_callbacks a s = Some (Inr (0, s')) \<and>
    holds_tree s' (plug (paint c l) ctx) \<and> only_touches s s' (set (addrs (plug (Nd c l a Lf) ctx)))"
proof -
  note st = node_facts [OF h]
  let ?k = "repaint (mem s) (ctx_addr ctx) c l" and ?q = "if ctx = [] then addr l else rb_root s"
  let ?m = "rehang ?k (addr l) ctx"
  have l0: "addr l \<noteq> 0" using l st(8) addr_in [of l] by auto
  have ld: "ld s a = Inr (mk_node (ctx_addr ctx) c L (addr l) 0)" using st(1) by (simp add: ld_ok)
  have up: "upd s (addr l) (\<lambda>n. n\<lparr>parent_color := ctx_addr ctx + bit_of c\<rparr>) = Inr (s\<lparr>mem := ?k\<rparr>)"
    using set_pc_ok [OF st(2) l] by simp
  have ch: "rb_change_child a (addr l) (ctx_addr ctx) (s\<lparr>mem := ?k\<rparr>) = Inr (s\<lparr>mem := ?m, rb_root := ?q\<rparr>)"
    using change_child_ok [of "s\<lparr>mem := ?k\<rparr>" a ctx] st by simp
  have code: "rb_erase_augmented_raw dummy_callbacks a s = Some (Inr (0, s\<lparr>mem := ?m, rb_root := ?q\<rparr>))"
    using ld up ch st(6) l0 by (simp add: rb_erase_augmented_raw_def dummy_callbacks_def mk_node_def pc_bits Let_def)
  have "stored ?m 0 (plug (paint c l) ctx)" using st stored_repaint [of "mem s" a l "ctx_addr ctx" c] by (simp add: stored_plug)
  then have "holds_tree (s\<lparr>mem := ?m, rb_root := ?q\<rparr>) (plug (paint c l) ctx)"
    using root_of_plug [OF h, of "paint c l"] by (intro holds_tree_less [OF h]) (simp_all add: addrs_plug)
  moreover have "only_touches s (s\<lparr>mem := ?m, rb_root := ?q\<rparr>) (set (addrs (plug (Nd c l a Lf) ctx)))"
    by (simp add: only_touches_def set_addrs_plug)
  ultimately show ?thesis using code by blast
qed

text \<open>Two children: the successor is the right child, or lies below it.\<close>

lemma raw_two_near:
  assumes h: "holds_tree s (plug (Nd c l a (Nd cs Lf b x)) ctx)" and l: "l \<noteq> Lf"
  shows "\<exists>s'. rb_erase_augmented_raw dummy_callbacks a s = Some (Inr (if x = Lf \<and> cs = Black then b else 0, s')) \<and>
    holds_tree s' (plug (Nd c l b (paint Black x)) ctx) \<and>
    only_touches s s' (set (addrs (plug (Nd c l a (Nd cs Lf b x)) ctx)))"
proof -
  note st = node_facts [OF h]
  have b: "mem s b = Some (mk_node a cs L 0 (addr x))" "stored (mem s) b x" using st(3) by simp_all
  have bx: "b \<notin> set (addrs x)" "distinct (addrs x)" "0 \<notin> set (addrs x)" "b \<noteq> a" "b \<noteq> 0" "a \<notin> set (addrs x)"
      "b \<notin> set (addrs l)" "b \<notin> set (ctx_addrs ctx)" "set (addrs x) \<inter> set (addrs l) = {}"
      "set (addrs x) \<inter> set (ctx_addrs ctx) = {}"
    using st by auto
  let ?m = "placed (mem s) c l b a cs (addr x) ctx b x" and ?q = "if ctx = [] then b else rb_root s"
  have l0: "addr l \<noteq> 0" using l st(8) addr_in [of l] by auto
  have ld: "ld s a = Inr (mk_node (ctx_addr ctx) c L (addr l) b)" using st(1) by (simp add: ld_ok)
  have rep: "erase_replace dummy_callbacks a (b, b, addr x, s) =
      Inr (if x = Lf \<and> cs = Black then b else 0, s\<lparr>mem := ?m, rb_root := ?q\<rparr>)"
    by (rule erase_replace_ok [OF st(1,2) l st(4) b(1) st(5) b(2) st(5-7) bx(3) st(10) bx(4,7,8,1) st(11,13) bx(6,9,10) st(21)])
  have code: "rb_erase_augmented_raw dummy_callbacks a s =
      Some (Inr (if x = Lf \<and> cs = Black then b else 0, s\<lparr>mem := ?m, rb_root := ?q\<rparr>))"
    using ld l0 bx(5) rep node_ok(1,2) [OF b(1)]
    by (simp add: rb_erase_augmented_raw_def dummy_callbacks_def mk_node_def Let_def)
  have "stored ?m 0 (plug (Nd c l b (paint Black x)) ctx)"
    using st bx b l by (intro placed_stored [OF st(2) l st(4)]) simp_all
  then have "holds_tree (s\<lparr>mem := ?m, rb_root := ?q\<rparr>) (plug (Nd c l b (paint Black x)) ctx)"
    using root_of_plug [OF h, of "Nd c l b (paint Black x)"] by (intro holds_tree_less [OF h]) (simp_all add: addrs_plug)
  moreover have "only_touches s (s\<lparr>mem := ?m, rb_root := ?q\<rparr>) (set (addrs (plug (Nd c l a (Nd cs Lf b x)) ctx)))"
    using bx by (auto simp: only_touches_def set_addrs_plug placed_def)
  ultimately show ?thesis using code by blast
qed

lemma stored_min:
  assumes "stored m par t" "min_tree t = Nd cs Lf b x"
  shows "\<exists>q. m b = Some (mk_node q cs L 0 (addr x)) \<and> stored m b x \<and> (q = par \<or> q \<in> set (addrs t))"
    and "min_path t \<noteq> [] \<Longrightarrow> \<exists>n. m (ctx_addr (min_path t)) = Some n"
proof -
  show "\<exists>q. m b = Some (mk_node q cs L 0 (addr x)) \<and> stored m b x \<and> (q = par \<or> q \<in> set (addrs t))"
    using assms by (induction t arbitrary: par) (auto split: if_splits)
  show "min_path t \<noteq> [] \<Longrightarrow> \<exists>n. m (ctx_addr (min_path t)) = Some n"
    using assms by (induction t arbitrary: par) (auto simp: ctx_addr_append split: if_splits)
qed

lemma repaint_at: "repaint m q c t u = (if t \<noteq> Lf \<and> u = addr t then repaint m q c t (addr t) else m u)"
  by (cases t) (auto simp: repaint_def)

lemma repaint_root: "t \<noteq> Lf \<Longrightarrow> repaint m q c t (addr t) = repaint m' q c t (addr t)"
  by (cases t) (auto simp: repaint_def)

lemma raw_two_far:
  assumes h: "holds_tree s (plug (Nd c l a (Nd cr rl br rr)) ctx)" and ne: "l \<noteq> Lf" "rl \<noteq> Lf"
    and m: "min_tree rl = Nd cs Lf b x"
  defines "r \<equiv> Nd cr rl br rr"
  defines "p \<equiv> ctx_addr (min_path r)" and "t \<equiv> plug (paint Black x) (min_path r)"
  shows "\<exists>s'. rb_erase_augmented_raw dummy_callbacks a s = Some (Inr (if x = Lf \<and> cs = Black then p else 0, s')) \<and>
    holds_tree s' (plug (Nd c l b t) ctx) \<and> only_touches s s' (set (addrs (plug (Nd c l a r) ctx)))"
proof -
  have mr: "min_tree r = Nd cs Lf b x" "min_path r = min_path rl @ [Fr L cr br rr]" "min_path r \<noteq> []" "r \<noteq> Lf"
    using m ne by (simp_all add: r_def)
  have tr: "t = Nd cr (plug (paint Black x) (min_path rl)) br rr"
    by (simp add: t_def mr(2) plug_append)
  let ?tl = "plug (paint Black x) (min_path rl)"
  note st = node_facts [OF h, folded r_def]
  have ra: "addrs r = b # addrs t" unfolding t_def by (rule min_addrs [OF mr(1)])
  have pt: "p \<in> set (addrs t)" unfolding p_def t_def by (rule min_path_frames [OF mr(4,3)])
  have xt: "set (addrs x) \<subseteq> set (addrs t)" and px: "p \<notin> set (addrs x)" and brx: "br \<notin> set (addrs x)" and dx: "distinct (addrs x)"
  proof -
    have d: "distinct (addrs t)" using st(15) ra by simp
    show "set (addrs x) \<subseteq> set (addrs t)" "distinct (addrs x)"
      using d by (auto simp: t_def set_addrs_plug distinct_addrs_plug)
    have "p \<in> set (ctx_addrs (min_path r))" unfolding p_def using mr(3) by (cases "min_path r" rule: ctx_addr.cases) auto
    moreover have "br \<in> set (ctx_addrs (min_path r))"
    proof -
      have "ctx_addrs (c1 @ c2) = ctx_addrs c1 @ ctx_addrs c2" for c1 c2
        by (induction c1 rule: ctx_addrs.induct) simp_all
      then show ?thesis by (simp add: mr(2))
    qed
    ultimately show "p \<notin> set (addrs x)" "br \<notin> set (addrs x)"
      using d by (auto simp: t_def distinct_addrs_plug)
  qed
  have bs: "b \<notin> set (addrs t)" "b \<notin> set (addrs l)" "b \<notin> set (ctx_addrs ctx)" "b \<noteq> a" "a \<notin> set (addrs t)" "b \<noteq> 0"
      "set (addrs t) \<inter> set (addrs l) = {}" "set (addrs t) \<inter> set (ctx_addrs ctx) = {}" "0 \<notin> set (addrs t)" "distinct (addrs t)"
    using st ra by auto
  have brt: "br \<in> set (addrs t)" by (simp add: tr)
  obtain q where q: "mem s b = Some (mk_node q cs L 0 (addr x))" "stored (mem s) b x" "q = a \<or> q \<in> set (addrs r)"
    using stored_min(1) [OF st(3) mr(1)] by blast
  have qa: "aligned q" using q(3) st(5,23) by auto
  obtain n where n: "mem s p = Some n" using stored_min(2) [OF st(3) mr(1,3)] by (auto simp: p_def)
  let ?ka = "(mem s)(p \<mapsto> put_child L (addr x) n)"
  let ?kb = "?ka(b \<mapsto> mk_node q cs L 0 br)"
  let ?kc = "?kb(br \<mapsto> mk_node b cr L (addr ?tl) (addr rr))"
  let ?M = "(repaint (mem s) p Black x)(p \<mapsto> put_child L (addr x) n)"
  have M: "stored ?M a t"
    unfolding t_def p_def by (rule stored_without_min [OF st(3) mr(1,3) st(15) n [unfolded p_def]])
  then have Mbr: "?M br = Some (mk_node a cr L (addr ?tl) (addr rr))" by (simp add: tr)
  have kbr: "?kb br = Some (mk_node a cr L (addr ?tl) (addr rr))"
  proof -
    have "repaint (mem s) p Black x br = mem s br" using brx by simp
    then show ?thesis using Mbr brt bs(1) by (cases "br = p") auto
  qed
  let ?s = "s\<lparr>mem := ?kc\<rparr>"
  have l0: "addr l \<noteq> 0" "addr rl \<noteq> 0" "br \<noteq> 0"
    using ne st(8,9) addr_in [of l] addr_in [of rl] by (auto simp: r_def)
  have ld: "ld s a = Inr (mk_node (ctx_addr ctx) c L (addr l) br)" using st(1) by (simp add: ld_ok r_def)
  have gl: "get_child L s br = Inr (addr rl)" using st(3) by (simp add: r_def node_ok)
  have lp: "loop (successor_step s) (br, addr rl) = Some (Inr (p, b))"
    using successor_loop [of s a cr rl br rr cs b x] st(3,9) ne m by (simp add: r_def p_def mr(2))
  have steps: "get_child R s b = Inr (addr x)" "set_child L s p (addr x) = Inr (s\<lparr>mem := ?ka\<rparr>)"
      "set_child R (s\<lparr>mem := ?ka\<rparr>) b br = Inr (s\<lparr>mem := ?kb\<rparr>)" "rb_set_parent (s\<lparr>mem := ?kb\<rparr>) br b = Inr ?s"
  proof -
    have pb: "p \<noteq> b" using pt bs(1) by auto
    show "get_child R s b = Inr (addr x)" using q(1) node_ok(2) [of s b q cs L 0 "addr x"] by simp
    show "set_child L s p (addr x) = Inr (s\<lparr>mem := ?ka\<rparr>)" using n by (simp add: set_child_def upd_ok)
    show "set_child R (s\<lparr>mem := ?ka\<rparr>) b br = Inr (s\<lparr>mem := ?kb\<rparr>)"
      using node_ok(4) [of "s\<lparr>mem := ?ka\<rparr>" b q cs L 0 "addr x" br] q(1) pb by simp
    show "rb_set_parent (s\<lparr>mem := ?kb\<rparr>) br b = Inr ?s"
      using kbr st(5) by (simp add: access_ok pc_bits mk_node_recolor add.commute)
  qed
  have un: "p \<noteq> a" "br \<noteq> a" "br \<noteq> b" "p \<notin> set (addrs l)" "br \<notin> set (addrs l)" "p \<notin> set (ctx_addrs ctx)" "br \<notin> set (ctx_addrs ctx)"
    using pt brt bs by auto
  have xs: "0 \<notin> set (addrs x)" "b \<notin> set (addrs x)" "a \<notin> set (addrs x)" "set (addrs x) \<inter> set (addrs l) = {}"
      "set (addrs x) \<inter> set (ctx_addrs ctx) = {}"
    using xt bs by auto
  have c: "mem ?s a = Some (mk_node (ctx_addr ctx) c L (addr l) br)" "stored (mem ?s) a l" "stored_ctx (mem ?s) a ctx"
      "mem ?s b = Some (mk_node q cs L 0 br)" "stored (mem ?s) b x"
    using st(1,2,4) un bs q(2) px brx xs(2) by (auto simp: r_def)
  let ?m = "placed ?kc c l b q cs br ctx p x" and ?q = "if ctx = [] then b else rb_root s"
  have rep: "erase_replace dummy_callbacks a (p, b, addr x, ?s) =
      Inr (if x = Lf \<and> cs = Black then p else 0, ?s\<lparr>mem := ?m, rb_root := ?q\<rparr>)"
    using erase_replace_ok [OF c(1,2) ne(1) c(3,4) qa c(5) st(5-7) xs(1) st(10) bs(4,2,3) xs(2) st(11,13) xs(3-5) st(21)]
    by simp
  have code: "rb_erase_augmented_raw dummy_callbacks a s =
      Some (Inr (if x = Lf \<and> cs = Black then p else 0, s\<lparr>mem := ?m, rb_root := ?q\<rparr>))"
  proof -
    have "rb_left (mk_node (ctx_addr ctx) c L (addr l) br) = addr l" "rb_right (mk_node (ctx_addr ctx) c L (addr l) br) = br"
      by (simp_all add: mk_node_def)
    then show ?thesis using ld l0 gl lp steps rep
      by (simp add: rb_erase_augmented_raw_def dummy_callbacks_def Let_def)
  qed
  have final: "stored (repaint ?kc p Black x) b t"
  proof -
    have agree: "repaint ?kc p Black x u = ?M u" if "u \<in> set (addrs t)" "u \<noteq> br" for u
    proof -
      have "u \<noteq> b" using that bs(1) by auto
      then show ?thesis using that px addr_in [of x] repaint_at [of ?kc p Black x u] repaint_at [of "mem s" p Black x u]
          repaint_root [of x ?kc p Black "mem s"] by auto
    qed
    have d: "br \<notin> set (addrs ?tl)" "br \<notin> set (addrs rr)" using bs(10) by (simp_all add: tr)
    have "repaint ?kc p Black x br = Some (mk_node b cr L (addr ?tl) (addr rr))" using brx by simp
    moreover have "repaint ?kc p Black x u = ?M u" if "u \<in> set (addrs ?tl) \<union> set (addrs rr)" for u
      using that d by (intro agree) (auto simp: tr)
    ultimately show ?thesis unfolding tr using M [unfolded tr]
      by (intro stored_reparent [where m = ?M and m' = "repaint ?kc p Black x" and par = a])
  qed
  have cc: "stored ?kc a l" "stored_ctx ?kc a ctx" "br = addr t" using c(2,3) by (simp_all add: tr)
  have "stored ?m 0 (plug (Nd c l b t) ctx)"
    by (rule placed_stored [OF cc(1) ne(1) cc(2) final cc(3) bs(2,3,1) xt bs(7,8) st(21,14,16)])
  then have "holds_tree (s\<lparr>mem := ?m, rb_root := ?q\<rparr>) (plug (Nd c l b t) ctx)"
    using root_of_plug [OF h, of "Nd c l b t"] ra [unfolded r_def] by (intro holds_tree_less [OF h]) (simp_all add: addrs_plug)
  moreover have "only_touches s (s\<lparr>mem := ?m, rb_root := ?q\<rparr>) (set (addrs (plug (Nd c l a r) ctx)))"
    unfolding only_touches_def
  proof (intro allI impI)
    fix u assume "u \<notin> set (addrs (plug (Nd c l a r) ctx))"
    then have "u \<notin> set (addrs l)" "u \<notin> set (ctx_addrs ctx)" "u \<notin> set (addrs x)" "u \<noteq> p" "u \<noteq> br" "u \<noteq> b"
      using xt ra pt brt by (auto simp: set_addrs_plug)
    then show "mem (s\<lparr>mem := ?m, rb_root := ?q\<rparr>) u = mem s u" by (simp add: placed_def)
  qed
  ultimately show ?thesis using code by blast
qed

text \<open>All shapes together.\<close>

lemma raw_refines:
  assumes h: "holds_tree s (plug (Nd c l a r) ctx)" and e: "erase_hole c l r ctx = (u, ctx', short)"
  shows "\<exists>s'. rb_erase_augmented_raw dummy_callbacks a s = Some (Inr (if short then ctx_addr ctx' else 0, s')) \<and>
    holds_tree s' (plug u ctx') \<and> only_touches s s' (set (addrs (plug (Nd c l a r) ctx)))"
proof (cases "l = Lf \<or> r = Lf")
  case True
  then show ?thesis
  proof (cases "l = Lf")
    case True
    then show ?thesis using raw_right_only [OF h [unfolded True]] e by (auto simp: erase_hole_def)
  next
    case False
    then have r: "r = Lf" using \<open>l = Lf \<or> r = Lf\<close> by simp
    show ?thesis using raw_left_only [OF h [unfolded r] False] e False r by (auto simp: erase_hole_def)
  qed
next
  case False
  obtain cr rl br rr where r: "r = Nd cr rl br rr" using False by (cases r) auto
  show ?thesis
  proof (cases "rl = Lf")
    case True
    show ?thesis using raw_two_near [OF h [unfolded r True]] e False r True by (auto simp: erase_hole_def)
  next
    case rl: False
    obtain cs b x where m: "min_tree rl = Nd cs Lf b x" using min_tree_Nd [OF rl] by blast
    show ?thesis using raw_two_far [OF h [unfolded r] _ rl m] e False r rl m
      by (auto simp: erase_hole_def plug_append ctx_addr_append)
  qed
qed

text \<open>\<open>rb_erase\<close> ends and leaves the tree \<open>erase_tree\<close> computes.\<close>

lemma rb_erase_refines:
  assumes h: "holds_tree s (plug (Nd c l a r) ctx)" and rb: "red_black (plug (Nd c l a r) ctx)"
  shows "\<exists>s'. rb_erase a s = Some (Inr s') \<and> holds_tree s' (erase_tree c l r ctx) \<and>
    only_touches s s' (set (addrs (plug (Nd c l a r) ctx)))"
proof -
  obtain u ctx' short where e: "erase_hole c l r ctx = (u, ctx', short)" by (cases "erase_hole c l r ctx")
  obtain s1 where s1: "rb_erase_augmented_raw dummy_callbacks a s = Some (Inr (if short then ctx_addr ctx' else 0, s1))"
      "holds_tree s1 (plug u ctx')" "only_touches s s1 (set (addrs (plug (Nd c l a r) ctx)))"
    using raw_refines [OF h e] by blast
  note hole = erase_hole_rb [OF rb e]
  have sub: "set (addrs (plug u ctx')) \<subseteq> set (addrs (plug (Nd c l a r) ctx))"
    unfolding erase_hole_addrs [OF e] by (auto simp: addrs_plug)
  have z: "ctx_addr ctx' = 0 \<longleftrightarrow> ctx' = []"
    using s1(2) by (cases ctx' rule: ctx_addr.cases) (auto simp: holds_tree_def valid_addrs_def set_addrs_plug)
  show ?thesis
  proof (cases "short \<and> ctx' \<noteq> []")
    case True
    then have t: "u = Lf" "rb 0 Lf" "col Lf = Black" "ctx_rb (Suc 0) ctx'" "ctx' \<noteq> []" using hole by auto
    obtain s2 where s2: "loop (erase_step dummy_rotate) (0, ctx_addr ctx', s1) = Some (Inr s2)"
        "holds_tree s2 (fix_erase Lf ctx')" "only_touches s1 s2 (set (addrs (plug u ctx')))"
      using rb_erase_loop [OF s1(2) [unfolded t(1)] t(2-5)] t(1) by auto
    have "only_touches s s2 (set (addrs (plug (Nd c l a r) ctx)))"
      using s1(3) s2(3) sub unfolding only_touches_def by (metis subsetD)
    then show ?thesis using s1(1) s2(1,2) True z t(1)
      by (simp add: rb_erase_def rb_erase_augmented_def rb_erase_color_def erase_tree_def e dummy_callbacks_def)
  next
    case False
    then have "erase_tree c l r ctx = plug u ctx'" using hole by (auto simp: erase_tree_def e)
    then show ?thesis using s1 False z
      by (auto simp: rb_erase_def rb_erase_augmented_def)
  qed
qed

lemma rb_erase_whole:
  assumes "holds_tree s t" "red_black t" "addrs t = xs @ a # ys"
  shows "\<exists>s' t'. rb_erase a s = Some (Inr s') \<and> holds_tree s' t' \<and> red_black t' \<and> addrs t' = xs @ ys \<and>
    only_touches s s' (set (addrs t))"
proof -
  have "a \<in> set (addrs t)" using assms(3) by simp
  then obtain c l r ctx where t: "t = plug (Nd c l a r) ctx"
    using find_node [where a = a and t = t and ctx = "[]" and d = L] by auto
  have d: "distinct (addrs t)" using assms(1) by (simp add: holds_tree_def)
  have eq: "xs @ a # ys = (ctx_before ctx @ addrs l) @ a # (addrs r @ ctx_after ctx)"
    using assms(3) by (simp add: t addrs_plug)
  have "distinct (xs @ a # ys)" using d assms(3) by simp
  moreover from this have "a \<notin> set xs" "a \<notin> set ys" by auto
  ultimately have "xs = ctx_before ctx @ addrs l \<and> ys = addrs r @ ctx_after ctx"
    using append_Cons_eq_iff [of a xs ys] eq by blast
  then show ?thesis
    using rb_erase_refines [OF assms(1,2) [unfolded t]] erase_tree_correct [OF assms(2) [unfolded t]] t by auto
qed

subsection \<open>Property\<close>

definition two_tree :: ptree where
  "two_tree = Nd Black (Nd Red Lf 16 Lf) 32 Lf"

definition two_state :: rb_state where
  "two_state = \<lparr>mem = [16 \<mapsto> mk_node 32 Red L 0 0, 32 \<mapsto> mk_node 0 Black L 16 0], rb_root = 32\<rparr>"

lemma two_holds: "holds_tree two_state two_tree" "red_black two_tree" "addrs two_tree = [16] @ 32 # []"
proof -
  show "red_black two_tree" unfolding red_black_def two_tree_def by (intro conjI exI [of _ 1]) simp_all
qed (simp_all add: holds_tree_def two_tree_def two_state_def valid_addrs_def aligned_def)

text \<open>C16. \<open>rb_erase\<close> ends for every node of a stored red-black tree: the tree that is left is
  red-black, holds the other nodes in their order, and no memory outside the tree is written.\<close>

theorem rb_erase_correct:
  assumes "holds_tree s t" "red_black t" "addrs t = xs @ a # ys"
  shows "\<exists>s' t'. rb_erase a s = Some (Inr s') \<and> holds_tree s' t' \<and> red_black t' \<and> addrs t' = xs @ ys \<and>
    (\<forall>b. b \<notin> set (addrs t) \<longrightarrow> mem s' b = mem s b)"
  using rb_erase_whole [OF assms] by (simp add: only_touches_def)

theorem rb_erase_correct_witness:
  "\<exists>s' t'. rb_erase 32 two_state = Some (Inr s') \<and> holds_tree s' t' \<and> red_black t' \<and> addrs t' = [16]"
  using rb_erase_correct [OF two_holds] by auto

end
