(* ===== verification/List_Head.thy ===== *)
theory List_Head
  imports Loops
begin

text \<open>
  The circular lists of \<open>include/linux/list.h\<close>, as memory of linked heads, and what they
  stand for: the nodes of \<open>callchain.c\<close> keep their entries in such lists. Every operation
  refines an operation on lists of addresses.
\<close>

subsection \<open>Memory\<close>

record list_head =
  lh_next :: u64
  lh_prev :: u64

type_synonym lists = "u64 \<Rightarrow> list_head option"

definition nxt :: "u64 \<Rightarrow> lists \<Rightarrow> u64 result" where
  "nxt a m = rbind (deref (m a)) (\<lambda>n. Inr (lh_next n))"

definition prv :: "u64 \<Rightarrow> lists \<Rightarrow> u64 result" where
  "prv a m = rbind (deref (m a)) (\<lambda>n. Inr (lh_prev n))"

definition set_nxt :: "u64 \<Rightarrow> u64 \<Rightarrow> lists \<Rightarrow> lists result" where
  "set_nxt a x m = rbind (deref (m a)) (\<lambda>n. Inr (m(a \<mapsto> n\<lparr>lh_next := x\<rparr>)))"

definition set_prv :: "u64 \<Rightarrow> u64 \<Rightarrow> lists \<Rightarrow> lists result" where
  "set_prv a x m = rbind (deref (m a)) (\<lambda>n. Inr (m(a \<mapsto> n\<lparr>lh_prev := x\<rparr>)))"

definition LIST_POISON1 :: u64 where
  "LIST_POISON1 = 0x100"

definition LIST_POISON2 :: u64 where
  "LIST_POISON2 = 0x200"

subsection \<open>Operations\<close>

definition INIT_LIST_HEAD :: "u64 \<Rightarrow> lists \<Rightarrow> lists result" where
  "INIT_LIST_HEAD l m = rbind (set_nxt l l m) (set_prv l l)"

text \<open>\<open>__list_add\<close> and \<open>__list_del\<close>.\<close>

definition list_add_between :: "u64 \<Rightarrow> u64 \<Rightarrow> u64 \<Rightarrow> lists \<Rightarrow> lists result" where
  "list_add_between new prev next m =
     rbind (set_prv next new m) (\<lambda>m. rbind (set_nxt new next m) (\<lambda>m. rbind (set_prv new prev m) (set_nxt prev new)))"

definition list_add :: "u64 \<Rightarrow> u64 \<Rightarrow> lists \<Rightarrow> lists result" where
  "list_add new head m = rbind (nxt head m) (\<lambda>n. list_add_between new head n m)"

definition list_add_tail :: "u64 \<Rightarrow> u64 \<Rightarrow> lists \<Rightarrow> lists result" where
  "list_add_tail new head m = rbind (prv head m) (\<lambda>p. list_add_between new p head m)"

definition list_del_between :: "u64 \<Rightarrow> u64 \<Rightarrow> lists \<Rightarrow> lists result" where
  "list_del_between prev next m = rbind (set_prv next prev m) (set_nxt prev next)"

definition list_del_entry :: "u64 \<Rightarrow> lists \<Rightarrow> lists result" where
  "list_del_entry entry m = rbind (prv entry m) (\<lambda>p. rbind (nxt entry m) (\<lambda>n. list_del_between p n m))"

definition list_del :: "u64 \<Rightarrow> lists \<Rightarrow> lists result" where
  "list_del entry m =
     rbind (list_del_entry entry m) (\<lambda>m. rbind (set_nxt entry LIST_POISON1 m) (set_prv entry LIST_POISON2))"

definition list_replace :: "u64 \<Rightarrow> u64 \<Rightarrow> lists \<Rightarrow> lists result" where
  "list_replace old new m =
     rbind (nxt old m) (\<lambda>n. rbind (set_nxt new n m) (\<lambda>m. rbind (set_prv n new m) (\<lambda>m.
     rbind (prv old m) (\<lambda>p. rbind (set_prv new p m) (set_nxt p new)))))"

definition list_replace_init :: "u64 \<Rightarrow> u64 \<Rightarrow> lists \<Rightarrow> lists result" where
  "list_replace_init old new m = rbind (list_replace old new m) (INIT_LIST_HEAD old)"

definition list_del_init :: "u64 \<Rightarrow> lists \<Rightarrow> lists result" where
  "list_del_init entry m = rbind (list_del_entry entry m) (INIT_LIST_HEAD entry)"

definition list_move :: "u64 \<Rightarrow> u64 \<Rightarrow> lists \<Rightarrow> lists result" where
  "list_move l head m = rbind (list_del_entry l m) (list_add l head)"

definition list_move_tail :: "u64 \<Rightarrow> u64 \<Rightarrow> lists \<Rightarrow> lists result" where
  "list_move_tail l head m = rbind (list_del_entry l m) (list_add_tail l head)"

definition list_is_last :: "u64 \<Rightarrow> u64 \<Rightarrow> lists \<Rightarrow> bool result" where
  "list_is_last l head m = rbind (nxt l m) (\<lambda>n. Inr (n = head))"

definition list_empty :: "u64 \<Rightarrow> lists \<Rightarrow> bool result" where
  "list_empty head m = rbind (nxt head m) (\<lambda>n. Inr (n = head))"

definition list_empty_careful :: "u64 \<Rightarrow> lists \<Rightarrow> bool result" where
  "list_empty_careful head m =
     rbind (nxt head m) (\<lambda>n. if n = head then rbind (prv head m) (\<lambda>p. Inr (n = p)) else Inr False)"

definition list_rotate_left :: "u64 \<Rightarrow> lists \<Rightarrow> lists result" where
  "list_rotate_left head m =
     rbind (list_empty head m) (\<lambda>e. if e then Inr m else rbind (nxt head m) (\<lambda>first. list_move_tail first head m))"

definition list_is_singular :: "u64 \<Rightarrow> lists \<Rightarrow> bool result" where
  "list_is_singular head m =
     rbind (list_empty head m) (\<lambda>e. if e then Inr False
       else rbind (nxt head m) (\<lambda>n. rbind (prv head m) (\<lambda>p. Inr (n = p))))"

text \<open>\<open>__list_cut_position\<close>.\<close>

definition list_cut_at :: "u64 \<Rightarrow> u64 \<Rightarrow> u64 \<Rightarrow> lists \<Rightarrow> lists result" where
  "list_cut_at l head entry m =
     rbind (nxt entry m) (\<lambda>new_first.
     rbind (nxt head m) (\<lambda>first.
     rbind (set_nxt l first m) (\<lambda>m.
     rbind (set_prv first l m) (\<lambda>m.
     rbind (set_prv l entry m) (\<lambda>m.
     rbind (set_nxt entry l m) (\<lambda>m.
     rbind (set_nxt head new_first m) (set_prv new_first head)))))))"

definition list_cut_position :: "u64 \<Rightarrow> u64 \<Rightarrow> u64 \<Rightarrow> lists \<Rightarrow> lists result" where
  "list_cut_position l head entry m =
     rbind (list_empty head m) (\<lambda>e. if e then Inr m
       else
         rbind (list_is_singular head m) (\<lambda>s.
         rbind (nxt head m) (\<lambda>first.
           if s \<and> first \<noteq> entry \<and> head \<noteq> entry then Inr m
           else if entry = head then INIT_LIST_HEAD l m
           else list_cut_at l head entry m)))"

text \<open>\<open>__list_splice\<close>.\<close>

definition list_splice_between :: "u64 \<Rightarrow> u64 \<Rightarrow> u64 \<Rightarrow> lists \<Rightarrow> lists result" where
  "list_splice_between l prev next m =
     rbind (nxt l m) (\<lambda>first. rbind (prv l m) (\<lambda>last.
     rbind (set_prv first prev m) (\<lambda>m. rbind (set_nxt prev first m) (\<lambda>m.
     rbind (set_nxt last next m) (set_prv next last)))))"

definition list_splice :: "u64 \<Rightarrow> u64 \<Rightarrow> lists \<Rightarrow> lists result" where
  "list_splice l head m =
     rbind (list_empty l m) (\<lambda>e. if e then Inr m else rbind (nxt head m) (\<lambda>n. list_splice_between l head n m))"

definition list_splice_tail :: "u64 \<Rightarrow> u64 \<Rightarrow> lists \<Rightarrow> lists result" where
  "list_splice_tail l head m =
     rbind (list_empty l m) (\<lambda>e. if e then Inr m else rbind (prv head m) (\<lambda>p. list_splice_between l p head m))"

definition list_splice_init :: "u64 \<Rightarrow> u64 \<Rightarrow> lists \<Rightarrow> lists result" where
  "list_splice_init l head m =
     rbind (list_empty l m) (\<lambda>e. if e then Inr m
       else rbind (nxt head m) (\<lambda>n. rbind (list_splice_between l head n m) (INIT_LIST_HEAD l)))"

definition list_splice_tail_init :: "u64 \<Rightarrow> u64 \<Rightarrow> lists \<Rightarrow> lists result" where
  "list_splice_tail_init l head m =
     rbind (list_empty l m) (\<lambda>e. if e then Inr m
       else rbind (prv head m) (\<lambda>p. rbind (list_splice_between l p head m) (INIT_LIST_HEAD l)))"

definition list_del_range :: "u64 \<Rightarrow> u64 \<Rightarrow> lists \<Rightarrow> lists result" where
  "list_del_range from till m =
     rbind (prv from m) (\<lambda>p. rbind (nxt till m) (\<lambda>n. rbind (set_nxt p n m) (\<lambda>m.
     rbind (nxt till m) (\<lambda>n. rbind (prv from m) (\<lambda>p. set_prv n p m)))))"

definition list_first_entry :: "u64 \<Rightarrow> lists \<Rightarrow> u64 result" where
  "list_first_entry head m = nxt head m"

definition list_last_entry :: "u64 \<Rightarrow> lists \<Rightarrow> u64 result" where
  "list_last_entry head m = prv head m"

text \<open>The pointers of \<open>split_add_child\<close>: the entries from \<open>to_split\<close> on leave the list of
  \<open>parent\<close> and become the list of \<open>new\<close>.\<close>

definition split_val :: "u64 \<Rightarrow> u64 \<Rightarrow> u64 \<Rightarrow> lists \<Rightarrow> lists result" where
  "split_val parent to_split new m =
     rbind (prv parent m) (\<lambda>old_tail.
     rbind (list_del_range to_split old_tail m) (\<lambda>m.
     rbind (set_nxt new to_split m) (\<lambda>m.
     rbind (set_prv new old_tail m) (\<lambda>m.
     rbind (set_prv to_split new m) (set_nxt old_tail new)))))"

text \<open>\<open>list_for_each\<close>, with the entries it passes.\<close>

definition each_step :: "u64 \<Rightarrow> lists \<Rightarrow> u64 \<times> u64 list \<Rightarrow> (u64 \<times> u64 list, u64 list) flow result" where
  "each_step head m = (\<lambda>(pos, seen).
     if pos = head then Inr (Done seen) else rbind (nxt pos m) (\<lambda>n. Inr (Again (n, seen @ [pos]))))"

definition list_for_each :: "u64 \<Rightarrow> lists \<Rightarrow> u64 list run" where
  "list_for_each head m = obind (Some (nxt head m)) (\<lambda>pos. loop (each_step head m) (pos, []))"

text \<open>\<open>list_for_each_safe\<close> with \<open>list_del_init\<close> of every entry, as \<open>fill_node\<close> and
  \<open>merge_chain_branch\<close> empty the list of a node; with the entries it passes.\<close>

definition drain_step ::
    "u64 \<Rightarrow> u64 \<times> u64 \<times> lists \<times> u64 list \<Rightarrow> (u64 \<times> u64 \<times> lists \<times> u64 list, lists \<times> u64 list) flow result" where
  "drain_step head = (\<lambda>(pos, n, m, seen).
     if pos = head then Inr (Done (m, seen))
     else rbind (list_del_init pos m) (\<lambda>m. rbind (nxt n m) (\<lambda>n'. Inr (Again (n, n', m, seen @ [pos])))))"

definition list_drain :: "u64 \<Rightarrow> lists \<Rightarrow> (lists \<times> u64 list) run" where
  "list_drain head m =
     obind (Some (nxt head m)) (\<lambda>pos. obind (Some (nxt pos m)) (\<lambda>n. loop (drain_step head) (pos, n, m, [])))"

end
