(* ===== verification/List_Ref.thy ===== *)
theory List_Ref
  imports List_Head
begin

text \<open>
  What the lists of \<open>List_Head\<close> stand for. A ring is a cycle of linked heads; the list of a
  head is the ring without the head. Every operation is a change of the two pointer maps,
  and the change is read off on rings: insertion, removal, joining and cutting.
\<close>

subsection \<open>The pointer maps of a memory\<close>

definition nx :: "lists \<Rightarrow> u64 \<Rightarrow> u64 option" where
  "nx m a = map_option lh_next (m a)"

definition pv :: "lists \<Rightarrow> u64 \<Rightarrow> u64 option" where
  "pv m a = map_option lh_prev (m a)"

definition cell :: "lists \<Rightarrow> u64 \<Rightarrow> bool" where
  "cell m a \<longleftrightarrow> m a \<noteq> None"

definition yields :: "lists result \<Rightarrow> (u64 \<Rightarrow> u64 option) \<Rightarrow> (u64 \<Rightarrow> u64 option) \<Rightarrow> bool" where
  "yields r f g \<longleftrightarrow> (\<exists>m. r = Inr m \<and> nx m = f \<and> pv m = g)"

lemma cell_ptrs: "cell m a \<longleftrightarrow> nx m a \<noteq> None" "cell m a \<longleftrightarrow> pv m a \<noteq> None"
  by (simp_all add: cell_def nx_def pv_def)

lemma yieldsI [intro]: "nx m = f \<Longrightarrow> pv m = g \<Longrightarrow> yields (Inr m) f g"
  by (auto simp: yields_def)

lemma yieldsE:
  assumes "yields r f g"
  obtains m where "r = Inr m" "nx m = f" "pv m = g"
  using assms by (auto simp: yields_def)

lemma yields_bind:
  assumes "yields r f g" "\<And>m. nx m = f \<Longrightarrow> pv m = g \<Longrightarrow> yields (k m) f' g'"
  shows "yields (rbind r k) f' g'"
  using assms by (auto simp: yields_def)

lemma nxt_nx: "nx m a = Some b \<Longrightarrow> nxt a m = Inr b"
  by (auto simp: nx_def nxt_def)

lemma prv_pv: "pv m a = Some b \<Longrightarrow> prv a m = Inr b"
  by (auto simp: pv_def prv_def)

lemma yields_set_nxt: "cell m a \<Longrightarrow> yields (set_nxt a x m) ((nx m)(a \<mapsto> x)) (pv m)"
  by (auto simp: set_nxt_def cell_def intro!: yieldsI) (auto simp: nx_def pv_def fun_eq_iff)

lemma yields_set_prv: "cell m a \<Longrightarrow> yields (set_prv a x m) (nx m) ((pv m)(a \<mapsto> x))"
  by (auto simp: set_prv_def cell_def intro!: yieldsI) (auto simp: nx_def pv_def fun_eq_iff)

subsection \<open>Chains of links\<close>

definition linked :: "(u64 \<Rightarrow> u64 option) \<Rightarrow> (u64 \<Rightarrow> u64 option) \<Rightarrow> u64 \<Rightarrow> u64 \<Rightarrow> bool" where
  "linked f g a b \<longleftrightarrow> f a = Some b \<and> g b = Some a"

fun links :: "(u64 \<Rightarrow> u64 option) \<Rightarrow> (u64 \<Rightarrow> u64 option) \<Rightarrow> u64 list \<Rightarrow> bool" where
  "links f g (a # b # cs) \<longleftrightarrow> linked f g a b \<and> links f g (b # cs)"
| "links f g _ \<longleftrightarrow> True"

definition ring :: "(u64 \<Rightarrow> u64 option) \<Rightarrow> (u64 \<Rightarrow> u64 option) \<Rightarrow> u64 list \<Rightarrow> bool" where
  "ring f g zs \<longleftrightarrow> zs \<noteq> [] \<and> distinct zs \<and> links f g zs \<and> linked f g (last zs) (hd zs)"

definition list_rep :: "lists \<Rightarrow> u64 \<Rightarrow> u64 list \<Rightarrow> bool" where
  "list_rep m h xs \<longleftrightarrow> ring (nx m) (pv m) (h # xs)"

lemma links_Cons: "links f g (a # xs) \<longleftrightarrow> (xs = [] \<or> linked f g a (hd xs) \<and> links f g xs)"
  by (cases xs) auto

lemma links_append:
  "xs \<noteq> [] \<Longrightarrow> ys \<noteq> [] \<Longrightarrow>
    links f g (xs @ ys) \<longleftrightarrow> links f g xs \<and> linked f g (last xs) (hd ys) \<and> links f g ys"
  by (induction xs) (auto simp: links_Cons)

lemma links_cong:
  assumes "\<forall>a \<in> set (butlast zs). f' a = f a" "\<forall>a \<in> set (tl zs). g' a = g a"
  shows "links f' g' zs = links f g zs"
  using assms
proof (induction zs)
  case (Cons a zs)
  then show ?case by (cases zs) (auto simp: links_Cons linked_def)
qed simp

lemma distinct_ends:
  assumes "distinct zs" "zs \<noteq> []"
  shows "last zs \<notin> set (butlast zs)" "hd zs \<notin> set (tl zs)"
proof -
  show "last zs \<notin> set (butlast zs)"
    using assms by (metis append_butlast_last_id distinct_append disjoint_iff list.set_intros(1))
  show "hd zs \<notin> set (tl zs)"
    using assms by (cases zs) auto
qed

lemma ring_rotate: "ring f g (xs @ ys) \<longleftrightarrow> ring f g (ys @ xs)"
proof (cases "xs = [] \<or> ys = []")
  case False
  then show ?thesis by (auto simp: ring_def links_append)
qed auto

lemma ring_cell: "ring f g zs \<Longrightarrow> a \<in> set zs \<Longrightarrow> f a \<noteq> None \<and> g a \<noteq> None"
proof -
  assume r: "ring f g zs" and "a \<in> set zs"
  then obtain xs ys where z: "zs = xs @ a # ys" by (meson split_list)
  then have "ring f g (a # ys @ xs)"
    using r ring_rotate [of f g xs "a # ys"] by simp
  then show ?thesis
    by (cases "ys @ xs") (auto simp: ring_def linked_def links_Cons split: if_splits)
qed

text \<open>The four changes of a ring.\<close>

lemma ring_add:
  assumes "ring f g zs" "new \<notin> set zs"
  shows "ring (f(new \<mapsto> hd zs, last zs \<mapsto> new)) (g(hd zs \<mapsto> new, new \<mapsto> last zs)) (zs @ [new])"
proof -
  let ?f = "f(new \<mapsto> hd zs, last zs \<mapsto> new)" and ?g = "g(hd zs \<mapsto> new, new \<mapsto> last zs)"
  have z: "zs \<noteq> []" "distinct zs" "links f g zs" using assms(1) by (auto simp: ring_def)
  have "links ?f ?g zs = links f g zs"
    using distinct_ends [OF z(2,1)] assms(2) z(1)
    by (intro links_cong ballI) (auto dest: in_set_butlastD list.set_sel(2))
  moreover have "last zs \<noteq> new" "hd zs \<noteq> new"
    using assms(2) z(1) by auto
  ultimately show ?thesis
    using z assms(2) by (auto simp: ring_def links_append linked_def)
qed

lemma ring_del:
  assumes "ring f g (zs @ [e])" "zs \<noteq> []"
  shows "ring (f(last zs \<mapsto> hd zs)) (g(hd zs \<mapsto> last zs)) zs"
proof -
  have z: "distinct zs" "links f g zs" using assms by (auto simp: ring_def links_append)
  have "links (f(last zs \<mapsto> hd zs)) (g(hd zs \<mapsto> last zs)) zs = links f g zs"
    using distinct_ends [OF z(1) assms(2)] by (intro links_cong ballI) auto
  then show ?thesis
    using z assms(2) by (simp add: ring_def linked_def)
qed

lemma ring_join:
  assumes "ring f g zs" "xs \<noteq> []" "distinct xs" "links f g xs" "set xs \<inter> set zs = {}"
  shows "ring (f(last zs \<mapsto> hd xs, last xs \<mapsto> hd zs)) (g(hd xs \<mapsto> last zs, hd zs \<mapsto> last xs)) (zs @ xs)"
proof -
  let ?f = "f(last zs \<mapsto> hd xs, last xs \<mapsto> hd zs)" and ?g = "g(hd xs \<mapsto> last zs, hd zs \<mapsto> last xs)"
  have z: "zs \<noteq> []" "distinct zs" "links f g zs" using assms(1) by (auto simp: ring_def)
  have ends: "last zs \<in> set zs" "hd zs \<in> set zs" "last xs \<in> set xs" "hd xs \<in> set xs"
    using z(1) assms(2) by auto
  have "links ?f ?g zs = links f g zs"
    using distinct_ends [OF z(2,1)] ends assms(5) z(1)
    by (intro links_cong ballI) (auto dest: in_set_butlastD list.set_sel(2) split: if_splits)
  moreover have "links ?f ?g xs = links f g xs"
    using distinct_ends [OF assms(3,2)] ends assms(5,2)
    by (intro links_cong ballI) (auto dest: in_set_butlastD list.set_sel(2) split: if_splits)
  moreover have "last zs \<noteq> last xs" "hd zs \<noteq> hd xs"
    using ends assms(5) by auto
  ultimately show ?thesis
    using z assms by (auto simp: ring_def links_append linked_def)
qed

text \<open>Cutting a ring in two: the rest closes, the part is left as a chain.\<close>

lemma ring_cut:
  assumes "ring f g (zs @ xs)" "zs \<noteq> []" "xs \<noteq> []"
  shows "ring (f(last zs \<mapsto> hd zs)) (g(hd zs \<mapsto> last zs)) zs"
    and "links (f(last zs \<mapsto> hd zs)) (g(hd zs \<mapsto> last zs)) xs"
proof -
  have z: "distinct zs" "links f g zs" "links f g xs" "set zs \<inter> set xs = {}"
    using assms by (auto simp: ring_def links_append)
  have ends: "last zs \<in> set zs" "hd zs \<in> set zs"
    using assms(2) by auto
  have "links (f(last zs \<mapsto> hd zs)) (g(hd zs \<mapsto> last zs)) zs = links f g zs"
    using distinct_ends [OF z(1) assms(2)] by (intro links_cong ballI) auto
  then show "ring (f(last zs \<mapsto> hd zs)) (g(hd zs \<mapsto> last zs)) zs"
    using z assms(2) by (simp add: ring_def linked_def)
  show "links (f(last zs \<mapsto> hd zs)) (g(hd zs \<mapsto> last zs)) xs"
    using ends z assms(3)
    by (subst links_cong [where f = f and g = g]) (auto dest: in_set_butlastD list.set_sel(2))
qed

lemma ring_single: "ring f g [a] \<longleftrightarrow> f a = Some a \<and> g a = Some a"
  by (auto simp: ring_def linked_def)

subsection \<open>What is left alone\<close>

definition frame :: "u64 set \<Rightarrow> lists \<Rightarrow> lists \<Rightarrow> bool" where
  "frame S m m' \<longleftrightarrow> (\<forall>a. a \<notin> S \<longrightarrow> nx m' a = nx m a \<and> pv m' a = pv m a)"

lemma list_rep_frame: "list_rep m h xs \<Longrightarrow> frame S m m' \<Longrightarrow> set (h # xs) \<inter> S = {} \<Longrightarrow> list_rep m' h xs"
proof -
  assume f: "frame S m m'" and r: "list_rep m h xs" and d: "set (h # xs) \<inter> S = {}"
  have eq: "nx m' a = nx m a \<and> pv m' a = pv m a" if "a \<in> set (h # xs)" for a
    using f d that by (auto simp: frame_def)
  have "links (nx m') (pv m') (h # xs) = links (nx m) (pv m) (h # xs)"
    using eq by (intro links_cong ballI) (blast dest: in_set_butlastD, simp)
  moreover have "last (h # xs) \<in> set (h # xs)"
    by (rule last_in_set) simp
  ultimately show ?thesis
    using r eq by (auto simp: list_rep_def ring_def linked_def)
qed

lemma list_rep_ends:
  assumes "list_rep m h xs"
  shows "nx m h = Some (hd (xs @ [h]))" "pv m h = Some (last (h # xs))"
    and "cell m h" "\<forall>x \<in> set xs. cell m x" "distinct (h # xs)"
proof -
  show "nx m h = Some (hd (xs @ [h]))" "pv m h = Some (last (h # xs))" "distinct (h # xs)"
    using assms by (auto simp: list_rep_def ring_def links_Cons linked_def split: if_splits)
  show "cell m h" "\<forall>x \<in> set xs. cell m x"
    using ring_cell [OF assms [unfolded list_rep_def]] by (auto simp: cell_ptrs)
qed

subsection \<open>Operations as changes of the pointer maps\<close>

text \<open>One rule for each read and write, applied in the order of the code.\<close>

lemma rbind_assoc: "rbind (rbind m j) k = rbind m (\<lambda>x. rbind (j x) k)"
  by (cases m) simp_all

lemma yields_steps:
  "nx m a = Some b \<Longrightarrow> yields (k b) f g \<Longrightarrow> yields (rbind (nxt a m) k) f g"
  "pv m a = Some b \<Longrightarrow> yields (k b) f g \<Longrightarrow> yields (rbind (prv a m) k) f g"
  "cell m a \<Longrightarrow> (\<And>m'. nx m' = (nx m)(a \<mapsto> x) \<Longrightarrow> pv m' = pv m \<Longrightarrow> cell m' = cell m \<Longrightarrow> yields (j m') f g) \<Longrightarrow>
    yields (rbind (set_nxt a x m) j) f g"
  "cell m a \<Longrightarrow> (\<And>m'. nx m' = nx m \<Longrightarrow> pv m' = (pv m)(a \<mapsto> x) \<Longrightarrow> cell m' = cell m \<Longrightarrow> yields (j m') f g) \<Longrightarrow>
    yields (rbind (set_prv a x m) j) f g"
  "cell m a \<Longrightarrow> f = (nx m)(a \<mapsto> x) \<Longrightarrow> g = pv m \<Longrightarrow> yields (set_nxt a x m) f g"
  "cell m a \<Longrightarrow> f = nx m \<Longrightarrow> g = (pv m)(a \<mapsto> x) \<Longrightarrow> yields (set_prv a x m) f g"
proof -
  show "nx m a = Some b \<Longrightarrow> yields (k b) f g \<Longrightarrow> yields (rbind (nxt a m) k) f g"
    by (simp add: nxt_nx)
  show "pv m a = Some b \<Longrightarrow> yields (k b) f g \<Longrightarrow> yields (rbind (prv a m) k) f g"
    by (simp add: prv_pv)
  show "cell m a \<Longrightarrow> (\<And>m'. nx m' = (nx m)(a \<mapsto> x) \<Longrightarrow> pv m' = pv m \<Longrightarrow> cell m' = cell m \<Longrightarrow> yields (j m') f g) \<Longrightarrow>
    yields (rbind (set_nxt a x m) j) f g"
    by (rule yields_bind [OF yields_set_nxt]) (simp_all add: cell_ptrs(2) fun_eq_iff)
  show "cell m a \<Longrightarrow> (\<And>m'. nx m' = nx m \<Longrightarrow> pv m' = (pv m)(a \<mapsto> x) \<Longrightarrow> cell m' = cell m \<Longrightarrow> yields (j m') f g) \<Longrightarrow>
    yields (rbind (set_prv a x m) j) f g"
    by (rule yields_bind [OF yields_set_prv]) (simp_all add: cell_ptrs(1) fun_eq_iff)
qed (auto intro: yields_set_nxt yields_set_prv)

lemma yields_init: "cell m l \<Longrightarrow> yields (INIT_LIST_HEAD l m) ((nx m)(l \<mapsto> l)) ((pv m)(l \<mapsto> l))"
  unfolding INIT_LIST_HEAD_def by (rule yields_steps | simp)+

lemma yields_add:
  "cell m new \<Longrightarrow> cell m p \<Longrightarrow> cell m n \<Longrightarrow>
    yields (list_add_between new p n m) ((nx m)(new \<mapsto> n, p \<mapsto> new)) ((pv m)(n \<mapsto> new, new \<mapsto> p))"
  unfolding list_add_between_def by (rule yields_steps | simp)+

lemma yields_del:
  "cell m p \<Longrightarrow> cell m n \<Longrightarrow> yields (list_del_between p n m) ((nx m)(p \<mapsto> n)) ((pv m)(n \<mapsto> p))"
  unfolding list_del_between_def by (rule yields_steps | simp)+

lemma yields_splice:
  "nx m l = Some a \<Longrightarrow> pv m l = Some b \<Longrightarrow> cell m a \<Longrightarrow> cell m b \<Longrightarrow> cell m p \<Longrightarrow> cell m n \<Longrightarrow>
    yields (list_splice_between l p n m) ((nx m)(p \<mapsto> a, b \<mapsto> n)) ((pv m)(a \<mapsto> p, n \<mapsto> b))"
  unfolding list_splice_between_def by (rule yields_steps | simp)+

subsection \<open>Refinement\<close>

lemma list_init_rep:
  assumes "cell m h"
  shows "\<exists>m'. INIT_LIST_HEAD h m = Inr m' \<and> list_rep m' h [] \<and> frame {h} m m'"
  using yields_init [OF assms] by (auto simp: yields_def list_rep_def ring_single frame_def)

lemma list_add_rep:
  assumes "list_rep m h xs" "new \<notin> set (h # xs)" "cell m new"
  shows "\<exists>m'. list_add new h m = Inr m' \<and> list_rep m' h (new # xs) \<and> frame (set (new # h # xs)) m m'"
proof -
  have c: "cell m (hd (xs @ [h]))" using list_rep_ends [OF assms(1)] by (cases xs) auto
  obtain m' where m': "list_add new h m = Inr m'"
      "nx m' = (nx m)(new \<mapsto> hd (xs @ [h]), h \<mapsto> new)" "pv m' = (pv m)(hd (xs @ [h]) \<mapsto> new, new \<mapsto> h)"
    using yields_add [OF assms(3) list_rep_ends(3) [OF assms(1)] c]
    by (auto simp: yields_def list_add_def nxt_nx [OF list_rep_ends(1) [OF assms(1)]])
  have "ring (nx m) (pv m) (xs @ [h])"
    using assms(1) ring_rotate [of _ _ "[h]" xs] by (simp add: list_rep_def)
  from ring_add [OF this, of new] have "ring (nx m') (pv m') ((xs @ [h]) @ [new])"
    using assms(2) by (simp add: m')
  then have "list_rep m' h (new # xs)"
    using ring_rotate [of _ _ xs "[h, new]"] by (simp add: list_rep_def)
  then show ?thesis
    using m' by (cases xs) (auto simp: frame_def)
qed

lemma list_add_tail_rep:
  assumes "list_rep m h xs" "new \<notin> set (h # xs)" "cell m new"
  shows "\<exists>m'. list_add_tail new h m = Inr m' \<and> list_rep m' h (xs @ [new]) \<and> frame (set (new # h # xs)) m m'"
proof -
  have l: "last (h # xs) \<in> set (h # xs)" by (rule last_in_set) simp
  then have c: "cell m (last (h # xs))" using list_rep_ends [OF assms(1)] by auto
  obtain m' where m': "list_add_tail new h m = Inr m'"
      "nx m' = (nx m)(new \<mapsto> h, last (h # xs) \<mapsto> new)" "pv m' = (pv m)(h \<mapsto> new, new \<mapsto> last (h # xs))"
    using yields_add [OF assms(3) c list_rep_ends(3) [OF assms(1)]]
    by (auto simp: yields_def list_add_tail_def prv_pv [OF list_rep_ends(2) [OF assms(1)]])
  have "list_rep m' h (xs @ [new])"
    using ring_add [of _ _ "h # xs" new] assms(1,2) by (simp add: list_rep_def m')
  then show ?thesis
    using m' l by (auto simp: frame_def)
qed

lemma list_rep_next:
  assumes "list_rep m h (as @ x # bs)"
  shows "nx m x = Some (hd (bs @ [h]))" "pv m x = Some (last (h # as))"
proof -
  have "ring (nx m) (pv m) ((h # as) @ x # bs)"
    using assms by (simp add: list_rep_def)
  then have "ring (nx m) (pv m) (x # bs @ h # as)"
    unfolding ring_rotate [of _ _ "h # as"] by simp
  then show "nx m x = Some (hd (bs @ [h]))" "pv m x = Some (last (h # as))"
    by (cases bs; auto simp: ring_def links_Cons linked_def split: if_splits)+
qed

lemma hd_snoc_mem: "hd (xs @ [h]) \<in> set (h # xs)"
  by (cases xs) auto

lemma last_Cons_mem: "last (h # xs) \<in> set (h # xs)"
  by (rule last_in_set) simp

lemma list_del_entry_rep:
  assumes "list_rep m h (as @ x # bs)"
  shows "\<exists>m'. list_del_entry x m = Inr m' \<and> list_rep m' h (as @ bs) \<and> frame (set (h # as @ bs)) m m' \<and> cell m' x"
proof -
  let ?n = "hd (bs @ [h])" and ?p = "last (h # as)"
  note e = list_rep_ends [OF assms] list_rep_next [OF assms]
  have mem: "?n \<in> set (h # bs)" "?p \<in> set (h # as)"
    by (rule hd_snoc_mem last_Cons_mem)+
  then have "cell m ?p" "cell m ?n" using e by auto
  from yields_del [OF this] obtain m' where m': "list_del_entry x m = Inr m'"
      "nx m' = (nx m)(?p \<mapsto> ?n)" "pv m' = (pv m)(?n \<mapsto> ?p)"
    by (auto simp: yields_def list_del_entry_def prv_pv [OF e(7)] nxt_nx [OF e(6)])
  have "ring (nx m) (pv m) ((bs @ h # as) @ [x])"
    using assms ring_rotate [of _ _ "h # as @ [x]" bs] by (simp add: list_rep_def)
  moreover have "last (bs @ h # as) = ?p" "hd (bs @ h # as) = ?n"
    by (simp_all add: hd_append)
  ultimately have "ring (nx m') (pv m') (bs @ h # as)"
    using ring_del [of _ _ "bs @ h # as" x] by (simp add: m')
  then have "list_rep m' h (as @ bs)"
    using ring_rotate [of _ _ bs "h # as"] by (simp add: list_rep_def)
  moreover have "frame (set (h # as @ bs)) m m'"
    using mem by (auto simp: frame_def m')
  moreover have "cell m' x"
    using e(5,6) mem by (auto simp: cell_ptrs(1) m')
  ultimately show ?thesis
    using m'(1) by blast
qed

lemma list_del_init_rep:
  assumes "list_rep m h (as @ x # bs)"
  shows "\<exists>m'. list_del_init x m = Inr m' \<and> list_rep m' h (as @ bs) \<and> list_rep m' x [] \<and>
    frame (set (h # as @ x # bs)) m m'"
proof -
  obtain m1 where m1: "list_del_entry x m = Inr m1" "list_rep m1 h (as @ bs)" "frame (set (h # as @ bs)) m m1" "cell m1 x"
    using list_del_entry_rep [OF assms] by blast
  obtain m2 where m2: "INIT_LIST_HEAD x m1 = Inr m2" "list_rep m2 x []" "frame {x} m1 m2"
    using list_init_rep [OF m1(4)] by blast
  have "list_rep m2 h (as @ bs)"
    using list_rep_frame [OF m1(2) m2(3)] list_rep_ends(5) [OF assms] by auto
  moreover have "frame (set (h # as @ x # bs)) m m2"
    using m1(3) m2(3) by (simp add: frame_def)
  ultimately show ?thesis
    using m1(1) m2 by (auto simp: list_del_init_def)
qed

lemma list_del_rep:
  assumes "list_rep m h (as @ x # bs)"
  shows "\<exists>m'. list_del x m = Inr m' \<and> list_rep m' h (as @ bs) \<and>
    m' x = Some \<lparr>lh_next = LIST_POISON1, lh_prev = LIST_POISON2\<rparr> \<and> frame (set (h # as @ x # bs)) m m'"
proof -
  obtain m1 where m1: "list_del_entry x m = Inr m1" "list_rep m1 h (as @ bs)" "frame (set (h # as @ bs)) m m1" "cell m1 x"
    using list_del_entry_rep [OF assms] by blast
  then obtain n where n: "m1 x = Some n" by (auto simp: cell_def)
  let ?m = "m1(x \<mapsto> \<lparr>lh_next = LIST_POISON1, lh_prev = LIST_POISON2\<rparr>)"
  have r: "list_del x m = Inr ?m"
    by (cases n) (simp add: list_del_def m1(1) set_nxt_def set_prv_def n)
  have f: "frame {x} m1 ?m" by (auto simp: frame_def nx_def pv_def)
  have "list_rep ?m h (as @ bs)"
    using list_rep_frame [OF m1(2) f] list_rep_ends(5) [OF assms] by auto
  moreover have "frame (set (h # as @ x # bs)) m ?m"
    using m1(3) f by (simp add: frame_def)
  ultimately show ?thesis
    using r by auto
qed

text \<open>Moving an entry from one list to the end of another, and to the end of its own.\<close>

lemma list_move_tail_rep:
  assumes "list_rep m h (as @ x # bs)" "list_rep m k ys" "set (k # ys) \<inter> set (h # as @ x # bs) = {}"
  shows "\<exists>m'. list_move_tail x k m = Inr m' \<and> list_rep m' h (as @ bs) \<and> list_rep m' k (ys @ [x])"
proof -
  obtain m1 where m1: "list_del_entry x m = Inr m1" "list_rep m1 h (as @ bs)" "frame (set (h # as @ bs)) m m1" "cell m1 x"
    using list_del_entry_rep [OF assms(1)] by blast
  have "list_rep m1 k ys"
    using list_rep_frame [OF assms(2) m1(3)] assms(3) by auto
  moreover have "x \<notin> set (k # ys)" using assms(3) by auto
  ultimately obtain m2 where m2: "list_add_tail x k m1 = Inr m2" "list_rep m2 k (ys @ [x])"
      "frame (set (x # k # ys)) m1 m2"
    using list_add_tail_rep m1(4) by blast
  have "list_rep m2 h (as @ bs)"
    using list_rep_frame [OF m1(2) m2(3)] assms(3) list_rep_ends(5) [OF assms(1)] by auto
  then show ?thesis
    using m1(1) m2 by (auto simp: list_move_tail_def)
qed

lemma list_rotate_left_rep:
  assumes "list_rep m h (x # xs)"
  shows "\<exists>m'. list_rotate_left h m = Inr m' \<and> list_rep m' h (xs @ [x])"
proof -
  have a: "list_rep m h ([] @ x # xs)" using assms by simp
  obtain m1 where m1: "list_del_entry x m = Inr m1" "list_rep m1 h xs" "cell m1 x"
    using list_del_entry_rep [OF a] by auto
  have x: "x \<notin> set (h # xs)" "x \<noteq> h" using list_rep_ends(5) [OF assms] by auto
  obtain m2 where "list_add_tail x h m1 = Inr m2" "list_rep m2 h (xs @ [x])"
    using list_add_tail_rep [OF m1(2) x(1) m1(3)] by blast
  moreover have "nxt h m = Inr x"
    using list_rep_ends(1) [OF assms] by (intro nxt_nx) simp
  ultimately show ?thesis
    using m1 x by (auto simp: list_rotate_left_def list_empty_def list_move_tail_def)
qed

subsection \<open>Joining and cutting\<close>

lemma ring_close:
  assumes "links f g xs" "xs \<noteq> []" "distinct (l # xs)"
  shows "ring (f(l \<mapsto> hd xs, last xs \<mapsto> l)) (g(hd xs \<mapsto> l, l \<mapsto> last xs)) (l # xs)"
proof -
  let ?f = "f(l \<mapsto> l)" and ?g = "g(l \<mapsto> l)"
  have "links ?f ?g xs = links f g xs"
    using assms(2,3) by (intro links_cong ballI) (auto dest: in_set_butlastD list.set_sel(2))
  then have "ring (?f(last [l] \<mapsto> hd xs, last xs \<mapsto> hd [l])) (?g(hd xs \<mapsto> last [l], hd [l] \<mapsto> last xs)) ([l] @ xs)"
    using assms by (intro ring_join) (auto simp: ring_single)
  moreover have "hd xs \<noteq> l" using assms(2,3) by (cases xs) auto
  ultimately show ?thesis
    by (simp add: fun_upd_twist)
qed

lemma list_splice_between_rep:
  assumes "list_rep m l xs" "xs \<noteq> []" "ring (nx m) (pv m) zs" "set (l # xs) \<inter> set zs = {}"
  shows "\<exists>m'. list_splice_between l (last zs) (hd zs) m = Inr m' \<and> ring (nx m') (pv m') (zs @ xs) \<and>
    frame (set xs \<union> set zs) m m'"
proof -
  note e = list_rep_ends [OF assms(1)]
  have z: "zs \<noteq> []" using assms(3) by (simp add: ring_def)
  have cz: "cell m (last zs)" "cell m (hd zs)"
    using ring_cell [OF assms(3)] z by (simp_all add: cell_ptrs)
  have n: "nx m l = Some (hd xs)" "pv m l = Some (last xs)" and cx: "cell m (hd xs)" "cell m (last xs)"
    using e assms(2) by auto
  obtain m' where m': "list_splice_between l (last zs) (hd zs) m = Inr m'"
      "nx m' = (nx m)(last zs \<mapsto> hd xs, last xs \<mapsto> hd zs)" "pv m' = (pv m)(hd xs \<mapsto> last zs, hd zs \<mapsto> last xs)"
    using yields_splice [OF n cx cz] by (auto simp: yields_def)
  have "links (nx m) (pv m) xs" "distinct xs"
    using assms(1,2) by (auto simp: list_rep_def ring_def links_Cons)
  then have "ring (nx m') (pv m') (zs @ xs)"
    unfolding m' using assms by (intro ring_join) auto
  moreover have "frame (set xs \<union> set zs) m m'"
    using z assms(2) by (auto simp: frame_def m')
  ultimately show ?thesis using m'(1) by blast
qed

lemma list_splice_rep:
  assumes "list_rep m l xs" "list_rep m h ys" "set (l # xs) \<inter> set (h # ys) = {}"
  shows "\<exists>m'. list_splice l h m = Inr m' \<and> list_rep m' h (xs @ ys) \<and> frame (set xs \<union> set (h # ys)) m m'"
proof (cases "xs = []")
  case True
  then show ?thesis
    using assms list_rep_ends(1) [OF assms(1)]
    by (auto simp: list_splice_def list_empty_def nxt_nx frame_def)
next
  case False
  have r: "ring (nx m) (pv m) (ys @ [h])"
    using assms(2) ring_rotate [of _ _ "[h]" ys] by (simp add: list_rep_def)
  obtain m' where m': "list_splice_between l h (hd (ys @ [h])) m = Inr m'"
      "ring (nx m') (pv m') ((ys @ [h]) @ xs)" "frame (set xs \<union> set (h # ys)) m m'"
    using list_splice_between_rep [OF assms(1) False r] assms(3) by auto
  have "hd xs \<noteq> l" using False list_rep_ends(5) [OF assms(1)] by (cases xs) auto
  moreover have "list_rep m' h (xs @ ys)"
    using m'(2) ring_rotate [of _ _ ys "h # xs"] by (simp add: list_rep_def)
  ultimately show ?thesis
    using m' False list_rep_ends(1) [OF assms(1)] list_rep_ends(1) [OF assms(2)]
    by (auto simp: list_splice_def list_empty_def nxt_nx)
qed

lemma list_splice_tail_init_rep:
  assumes "list_rep m l xs" "list_rep m h ys" "set (l # xs) \<inter> set (h # ys) = {}"
  shows "\<exists>m'. list_splice_tail_init l h m = Inr m' \<and> list_rep m' h (ys @ xs) \<and> list_rep m' l []"
proof (cases "xs = []")
  case True
  then show ?thesis
    using assms list_rep_ends(1) [OF assms(1)] by (auto simp: list_splice_tail_init_def list_empty_def nxt_nx)
next
  case False
  note e = list_rep_ends [OF assms(1)]
  have r: "ring (nx m) (pv m) (h # ys)"
    using assms(2) by (simp add: list_rep_def)
  obtain m1 where m1: "list_splice_between l (last (h # ys)) h m = Inr m1"
      "ring (nx m1) (pv m1) ((h # ys) @ xs)" "frame (set xs \<union> set (h # ys)) m m1"
    using list_splice_between_rep [OF assms(1) False r assms(3)] by auto
  have l: "l \<notin> set (h # ys @ xs)" using assms(3) e(5) by auto
  then have "cell m1 l"
    using e(3) m1(3) by (auto simp: cell_ptrs(1) frame_def)
  from list_init_rep [OF this] obtain m2 where m2: "INIT_LIST_HEAD l m1 = Inr m2" "list_rep m2 l []" "frame {l} m1 m2"
    by blast
  have "list_rep m1 h (ys @ xs)"
    using m1(2) by (simp add: list_rep_def)
  from list_rep_frame [OF this m2(3)] have "list_rep m2 h (ys @ xs)"
    using l by auto
  moreover have "hd xs \<noteq> l" using False e(5) by (cases xs) auto
  moreover have "pv m h = Some (last (h # ys))" by (rule list_rep_ends(2) [OF assms(2)])
  ultimately show ?thesis
    using m1 m2 False e(1)
    by (auto simp: list_splice_tail_init_def list_empty_def nxt_nx prv_pv)
qed

text \<open>The cut after \<open>entry\<close>, and the split of a node's list in \<open>split_add_child\<close>.\<close>

lemma ring_split:
  assumes "list_rep m h (as @ bs)" "as \<noteq> []"
  shows "ring ((nx m)(h \<mapsto> hd (bs @ [h]))) ((pv m)(hd (bs @ [h]) \<mapsto> h)) (h # bs)"
    and "links ((nx m)(h \<mapsto> hd (bs @ [h]))) ((pv m)(hd (bs @ [h]) \<mapsto> h)) as"
proof -
  have r: "ring (nx m) (pv m) ((bs @ [h]) @ as)"
    using assms(1) ring_rotate [of _ _ "h # as" bs] ring_rotate [of _ _ bs "h # as"] by (simp add: list_rep_def)
  show "ring ((nx m)(h \<mapsto> hd (bs @ [h]))) ((pv m)(hd (bs @ [h]) \<mapsto> h)) (h # bs)"
    using ring_cut(1) [OF r _ assms(2)] ring_rotate [of _ _ bs "[h]"] by simp
  show "links ((nx m)(h \<mapsto> hd (bs @ [h]))) ((pv m)(hd (bs @ [h]) \<mapsto> h)) as"
    using ring_cut(2) [OF r _ assms(2)] by simp
qed

lemma ring_off:
  assumes "ring f g zs" "\<forall>a \<in> set zs. f' a = f a \<and> g' a = g a"
  shows "ring f' g' zs"
proof -
  have "links f' g' zs = links f g zs"
    using assms(2) by (intro links_cong ballI) (blast dest: in_set_butlastD, cases zs, auto)
  moreover have "last zs \<in> set zs" "hd zs \<in> set zs" using assms(1) by (auto simp: ring_def)
  ultimately show ?thesis using assms by (auto simp: ring_def linked_def)
qed

lemma upd_rotate: "a \<noteq> c \<Longrightarrow> b \<noteq> c \<Longrightarrow> f(a \<mapsto> x, b \<mapsto> y, c \<mapsto> z) = f(c \<mapsto> z, a \<mapsto> x, b \<mapsto> y)"
  by auto

lemma yields_split:
  assumes "pv m parent = Some t" "pv m x = Some p" "nx m t = Some parent"
    and "cell m p" "cell m t" "cell m x" "cell m parent" "cell m new" "p \<noteq> t" "x \<noteq> parent" "x \<noteq> new"
  shows "yields (split_val parent x new m) ((nx m)(p \<mapsto> parent, new \<mapsto> x, t \<mapsto> new))
    ((pv m)(parent \<mapsto> p, new \<mapsto> t, x \<mapsto> new))"
  unfolding split_val_def list_del_range_def rbind_assoc
  by (rule yields_steps assms | simp add: assms)+

lemma yields_cut:
  assumes "nx m entry = Some n" "nx m h = Some a"
    and "cell m l" "cell m a" "cell m entry" "cell m h" "cell m n" "h \<noteq> l"
  shows "yields (list_cut_at l h entry m) ((nx m)(l \<mapsto> a, entry \<mapsto> l, h \<mapsto> n))
      ((pv m)(a \<mapsto> l, l \<mapsto> entry, n \<mapsto> h))"
  unfolding list_cut_at_def by (rule yields_steps assms | simp add: assms)+

lemma list_cut_at_rep:
  assumes "list_rep m h (as @ entry # bs)" "l \<notin> set (h # as @ entry # bs)" "cell m l"
  shows "\<exists>m'. list_cut_at l h entry m = Inr m' \<and> list_rep m' l (as @ [entry]) \<and> list_rep m' h bs"
proof -
  let ?A = "as @ [entry]" and ?n = "hd (bs @ [h])"
  have a: "list_rep m h (?A @ bs)" using assms(1) by simp
  have A: "?A \<noteq> []" by simp
  note e = list_rep_ends [OF assms(1)] and nr = list_rep_next [OF assms(1)] and sp = ring_split [OF a A]
  have n: "nx m entry = Some ?n" "nx m h = Some (hd ?A)" using nr e by (auto simp: hd_append)
  have mem: "?n \<in> set (h # bs)" "hd ?A \<in> set ?A" by (rule hd_snoc_mem) (cases as, auto)
  then have c: "cell m ?n" "cell m (hd ?A)" "cell m entry" "cell m h" using e by auto
  have ne: "h \<noteq> l" "entry \<noteq> l" "entry \<noteq> h" "hd ?A \<noteq> l" "?n \<noteq> hd ?A" "?n \<noteq> l"
    using mem assms(2) e(5) by auto
  have la: "last ?A = entry" by simp
  have tw: "(nx m)(l \<mapsto> hd ?A, entry \<mapsto> l, h \<mapsto> ?n) = (nx m)(h \<mapsto> ?n, l \<mapsto> hd ?A, last ?A \<mapsto> l)"
    "(pv m)(hd ?A \<mapsto> l, l \<mapsto> entry, ?n \<mapsto> h) = (pv m)(?n \<mapsto> h, hd ?A \<mapsto> l, l \<mapsto> last ?A)"
    unfolding la using ne by (metis upd_rotate)+
  from yields_cut [OF n assms(3) c(2,3,4,1) ne(1)] obtain m' where m': "list_cut_at l h entry m = Inr m'"
      "nx m' = (nx m)(h \<mapsto> ?n, l \<mapsto> hd ?A, last ?A \<mapsto> l)"
      "pv m' = (pv m)(?n \<mapsto> h, hd ?A \<mapsto> l, l \<mapsto> last ?A)"
    unfolding tw by (rule yieldsE)
  have "list_rep m' l ?A"
    using ring_close [OF sp(2) A, of l] assms(2) e(5) by (simp add: list_rep_def m')
  moreover have "\<forall>a \<in> set (h # bs). a \<noteq> l \<and> a \<noteq> hd ?A \<and> a \<noteq> last ?A"
  proof -
    have "set (h # bs) \<inter> set (l # ?A) = {}" using assms(2) e(5) by auto
    then show ?thesis using mem(2) by auto
  qed
  then have "list_rep m' h bs"
    unfolding list_rep_def m'
    by (intro ring_off [OF sp(1)] ballI) (drule (1) bspec, simp only: fun_upd_apply simp_thms if_False)
  ultimately show ?thesis using m'(1) by blast
qed

lemma list_cut_position_rep:
  assumes "list_rep m h (as @ entry # bs)" "l \<notin> set (h # as @ entry # bs)" "cell m l"
  shows "\<exists>m'. list_cut_position l h entry m = Inr m' \<and> list_rep m' l (as @ [entry]) \<and> list_rep m' h bs"
proof -
  let ?F = "hd ((as @ entry # bs) @ [h])" and ?L = "last (h # as @ entry # bs)"
  note e = list_rep_ends [OF assms(1)]
  have r: "nxt h m = Inr ?F" "prv h m = Inr ?L"
    using nxt_nx [OF e(1)] prv_pv [OF e(2)] .
  have "?F \<noteq> h" "entry \<noteq> h" using e(5) by (auto simp: hd_append)
  moreover have "?F = entry" if "?F = ?L"
    using that e(5) by (cases as; cases bs rule: rev_cases) auto
  ultimately have "list_cut_position l h entry m = list_cut_at l h entry m"
    unfolding list_cut_position_def list_empty_def list_is_singular_def r by (cases "?F = ?L") simp_all
  then show ?thesis
    using list_cut_at_rep [OF assms] by metis
qed

lemma split_val_rep:
  assumes "list_rep m parent (as @ x # bs)" "new \<notin> set (parent # as @ x # bs)" "cell m new"
  shows "\<exists>m'. split_val parent x new m = Inr m' \<and> list_rep m' parent as \<and> list_rep m' new (x # bs) \<and>
    frame (set (new # parent # as @ x # bs)) m m'"
proof -
  let ?p = "last (parent # as)" and ?t = "last (x # bs)"
  note e = list_rep_ends [OF assms(1)] and nr = list_rep_next [OF assms(1)]
  have r: "ring (nx m) (pv m) ((parent # as) @ x # bs)"
    using assms(1) by (simp add: list_rep_def)
  have mem: "?p \<in> set (parent # as)" "?t \<in> set (x # bs)" by (rule last_Cons_mem)+
  then have c: "cell m ?p" "cell m ?t" "cell m x" "cell m parent" using e by auto
  have ne: "?p \<noteq> ?t" "?p \<noteq> new" "?t \<noteq> new" "x \<noteq> parent" "x \<noteq> new" "parent \<noteq> new"
    using mem assms(2) e(5) by auto
  have t: "pv m parent = Some ?t" "nx m ?t = Some parent"
    using r by (auto simp: ring_def linked_def)
  obtain m' where m': "split_val parent x new m = Inr m'"
      "nx m' = (nx m)(?p \<mapsto> parent, new \<mapsto> x, ?t \<mapsto> new)" "pv m' = (pv m)(parent \<mapsto> ?p, x \<mapsto> new, new \<mapsto> ?t)"
    using yields_split [OF t(1) nr(2) t(2) c assms(3) ne(1) ne(4) ne(5)]
    unfolding fun_upd_twist [OF ne(5) [symmetric]] by (rule yieldsE)
  have a: "list_rep m parent (as @ x # bs)" by (rule assms(1))
  have "ring ((nx m)(?p \<mapsto> parent)) ((pv m)(parent \<mapsto> ?p)) (parent # as)"
    "links ((nx m)(?p \<mapsto> parent)) ((pv m)(parent \<mapsto> ?p)) (x # bs)"
    using ring_cut [OF r] by simp_all
  note sp = this
  have "list_rep m' new (x # bs)"
    using ring_close [OF sp(2), of new] assms(2) e(5) by (simp add: list_rep_def m')
  moreover have "\<forall>a \<in> set (parent # as). a \<noteq> new \<and> a \<noteq> x \<and> a \<noteq> ?t"
  proof -
    have "set (parent # as) \<inter> set (new # x # bs) = {}" using assms(2) e(5) by auto
    then show ?thesis using mem(2) by (metis disjoint_iff list.set_intros)
  qed
  then have "list_rep m' parent as"
    unfolding list_rep_def m'
    by (intro ring_off [OF sp(1)] ballI) (drule (1) bspec, simp only: fun_upd_apply simp_thms if_False)
  moreover have "frame (set (new # parent # as @ x # bs)) m m'"
    using mem by (auto simp: frame_def m')
  ultimately show ?thesis using m'(1) by blast
qed


subsection \<open>Walking and emptying\<close>

lemma each_loop:
  assumes "list_rep m h (seen @ rest)"
  shows "loop (each_step h m) (hd (rest @ [h]), seen) = Some (Inr (seen @ rest))"
  using assms
proof (induction rest arbitrary: seen)
  case Nil
  then show ?case by (simp add: loop_step(2) each_step_def)
next
  case (Cons x rest)
  have "each_step h m (x, seen) = Inr (Again (hd (rest @ [h]), seen @ [x]))"
    using list_rep_ends(5) [OF Cons.prems] nxt_nx [OF list_rep_next(1) [OF Cons.prems]]
    by (auto simp: each_step_def)
  then have "loop (each_step h m) (x, seen) = loop (each_step h m) (hd (rest @ [h]), seen @ [x])"
    by (rule loop_step(1))
  then show ?case
    using Cons by simp
qed

lemma list_for_each_rep: "list_rep m h xs \<Longrightarrow> list_for_each h m = Some (Inr xs)"
  using each_loop [of m h "[]" xs] by (simp add: list_for_each_def nxt_nx [OF list_rep_ends(1)])

lemma drain_loop:
  assumes "list_rep m h xs" "nx m (hd (xs @ [h])) = Some n"
  shows "\<exists>m'. loop (drain_step h) (hd (xs @ [h]), n, m, seen) = Some (Inr (m', seen @ xs)) \<and>
    list_rep m' h [] \<and> (\<forall>x \<in> set xs. list_rep m' x []) \<and> frame (set (h # xs)) m m'"
  using assms
proof (induction xs arbitrary: m n seen)
  case Nil
  then show ?case by (simp add: loop_step(2) drain_step_def frame_def)
next
  case (Cons x xs)
  note e = list_rep_ends [OF Cons.prems(1)]
  have x: "x \<noteq> h" "x \<notin> set xs" using e(5) by auto
  have "list_rep m h ([] @ x # xs)" using Cons.prems(1) by simp
  from list_del_init_rep [OF this] list_rep_next(1) [OF this] obtain m1 where
    m1: "list_del_init x m = Inr m1" "list_rep m1 h xs" "list_rep m1 x []" "frame (set (h # x # xs)) m m1"
    and n: "n = hd (xs @ [h])"
    using Cons.prems(2) by auto
  have "cell m1 n" using list_rep_ends(3,4) [OF m1(2)] hd_snoc_mem [of xs h] n by auto
  then obtain n' where n': "nx m1 n = Some n'" by (auto simp: cell_ptrs(1))
  have "drain_step h (x, n, m, seen) = Inr (Again (n, n', m1, seen @ [x]))"
    using x m1(1) nxt_nx [OF n'] by (simp add: drain_step_def)
  then have st: "loop (drain_step h) (x, n, m, seen) = loop (drain_step h) (n, n', m1, seen @ [x])"
    by (rule loop_step(1))
  obtain m' where m': "loop (drain_step h) (hd (xs @ [h]), n', m1, seen @ [x]) = Some (Inr (m', (seen @ [x]) @ xs))"
      "list_rep m' h []" "\<forall>x \<in> set xs. list_rep m' x []" "frame (set (h # xs)) m1 m'"
    using Cons.IH [OF m1(2)] n' n by blast
  have "list_rep m' x []"
    using list_rep_frame [OF m1(3) m'(4)] x by auto
  moreover have "frame (set (h # x # xs)) m m'"
    using m1(4) m'(4) by (simp add: frame_def)
  ultimately show ?case
    using m' st n by auto
qed

subsection \<open>Properties\<close>

definition demo_lists :: lists where
  "demo_lists = [1 \<mapsto> \<lparr>lh_next = 2, lh_prev = 3\<rparr>, 2 \<mapsto> \<lparr>lh_next = 3, lh_prev = 1\<rparr>,
     3 \<mapsto> \<lparr>lh_next = 1, lh_prev = 2\<rparr>, 4 \<mapsto> \<lparr>lh_next = 0, lh_prev = 0\<rparr>]"

lemma demo_rep: "list_rep demo_lists 1 ([2] @ 3 # [])" "cell demo_lists 4"
  by (simp_all add: demo_lists_def list_rep_def ring_def linked_def nx_def pv_def cell_def)

text \<open>C35. The pointer surgery of \<open>split_add_child\<close> keeps the entries before \<open>to_split\<close> as the
  list of the parent, makes the others the list of the new node in the same order, and
  touches no other list.\<close>

theorem split_val_correct:
  assumes "list_rep m parent (as @ to_split # bs)" "new \<notin> set (parent # as @ to_split # bs)" "cell m new"
  shows "\<exists>m'. split_val parent to_split new m = Inr m' \<and> list_rep m' parent as \<and> list_rep m' new (to_split # bs) \<and>
    (\<forall>k ys. list_rep m k ys \<longrightarrow> set (k # ys) \<inter> set (new # parent # as @ to_split # bs) = {} \<longrightarrow> list_rep m' k ys)"
  using split_val_rep [OF assms] list_rep_frame by blast

theorem split_val_correct_witness:
  "\<exists>m'. split_val 1 3 4 demo_lists = Inr m' \<and> list_rep m' 1 [2] \<and> list_rep m' 4 [3]"
  using split_val_correct [OF demo_rep(1), of 4] demo_rep(2) by auto

text \<open>C36. Walking a list with the safe loop and unlinking every entry ends, passes the
  entries in order, and leaves the head and every entry as empty lists.\<close>

theorem list_drain_correct:
  assumes "list_rep m h xs"
  shows "\<exists>m'. list_drain h m = Some (Inr (m', xs)) \<and> list_rep m' h [] \<and> (\<forall>x \<in> set xs. list_rep m' x [])"
proof -
  note e = list_rep_ends [OF assms]
  have "cell m (hd (xs @ [h]))" using e(3,4) hd_snoc_mem [of xs h] by auto
  then obtain n where n: "nx m (hd (xs @ [h])) = Some n" by (auto simp: cell_ptrs(1))
  show ?thesis
    using drain_loop [OF assms n, of "[]"] by (auto simp: list_drain_def nxt_nx [OF e(1)] nxt_nx [OF n])
qed

theorem list_drain_correct_witness:
  "\<exists>m'. list_drain 1 demo_lists = Some (Inr (m', [2, 3])) \<and> list_rep m' 1 []"
  using list_drain_correct [OF demo_rep(1)] by auto

end
