(* ===== verification/Locate.thy ===== *)
theory Locate
  imports Rbtree_Props
begin

text \<open>
  The search-or-insert idiom of \<open>main.c\<close>: \<open>get_tree\<close> and \<open>get_map\<close> walk down a cached
  red-black tree with a pointer to the current link, and hang a new node into the link
  they end at. Both loops are one step function with the comparison as its parameter, and
  its correctness is proved once.
\<close>

definition locate_step ::
  "(u64 \<Rightarrow> int result) \<Rightarrow> rb_state \<Rightarrow> rb_link \<times> u64 \<times> bool \<Rightarrow>
     (rb_link \<times> u64 \<times> bool, (rb_link \<times> u64 \<times> bool) + u64) flow result" where
  "locate_step cmp s = (\<lambda>(lk, parent, leftmost).
     rbind (get_link lk s) (\<lambda>p.
       if p = 0 then Inr (Done (Inl (lk, parent, leftmost)))
       else rbind (cmp p) (\<lambda>c. Inr (
         if c < 0 then Again (Child_link L p, p, leftmost)
         else if 0 < c then Again (Child_link R p, p, False)
         else Done (Inr p)))))"

text \<open>\<open>rb_link_node\<close> and \<open>rb_insert_color_cached\<close>, as both functions call them, on a node fresh
  from \<open>calloc\<close>.\<close>

definition zero_node :: rb_node where
  "zero_node = \<lparr>parent_color = 0, rb_right = 0, rb_left = 0\<rparr>"

definition hang :: "u64 \<Rightarrow> rb_link \<times> u64 \<times> bool \<Rightarrow> rb_cached \<Rightarrow> rb_cached run" where
  "hang n = (\<lambda>(lk, parent, leftmost) c.
     let c = c\<lparr>mem := (mem c)(n \<mapsto> zero_node)\<rparr> in
     obind (Some (rb_link_node n parent lk (tree_of c))) (\<lambda>s.
       rb_insert_color_cached n leftmost (with_tree c s)))"

lemma falling_cases:
  assumes "falling f (xs @ a # ys)"
  shows "f a < 0 \<Longrightarrow> \<forall>b \<in> set ys. f b < 0" "0 < f a \<Longrightarrow> \<forall>b \<in> set xs. 0 < f b"
  using assms by (fastforce simp: falling_append falling_Cons not_le [symmetric])+

lemma locate_descent:
  assumes "holds_tree s (plug t ctx)" "falling f (addrs t)" "\<forall>a \<in> set (addrs t). cmp a = Inr (f a)"
  shows "(\<exists>p \<in> set (addrs t). f p = 0 \<and>
      loop (locate_step cmp s) (hole_link ctx, ctx_addr ctx, lm) = Some (Inr (Inr p))) \<or>
    (\<exists>ctx' xs ys. loop (locate_step cmp s) (hole_link ctx, ctx_addr ctx, lm) =
      Some (Inr (Inl (hole_link ctx', ctx_addr ctx', lm \<and> xs = []))) \<and>
    plug Lf ctx' = plug t ctx \<and> addrs t = xs @ ys \<and>
    ctx_before ctx' = ctx_before ctx @ xs \<and> ctx_after ctx' = ys @ ctx_after ctx \<and>
    (\<forall>x \<in> set xs. 0 < f x) \<and> (\<forall>y \<in> set ys. f y < 0))"
  using assms
proof (induction t arbitrary: ctx lm)
  case Lf
  have "locate_step cmp s (hole_link ctx, ctx_addr ctx, lm) = Inr (Done (Inl (hole_link ctx, ctx_addr ctx, lm)))"
    using get_hole_link [OF Lf(1)] by (simp add: locate_step_def)
  then show ?case by (intro disjI2 exI [of _ ctx] exI [of _ "[]"]) (simp add: loop_step)
next
  case (Nd c l a r)
  have a: "a \<noteq> 0" "cmp a = Inr (f a)" using holds_tree_addr_0 [OF Nd.prems(1)] Nd.prems(3) by simp_all
  note get = get_hole_link [OF Nd.prems(1)]
  note fall = falling_cases [of f "addrs l" a "addrs r"]
  have sub: "falling f (addrs l)" "falling f (addrs r)"
    using Nd.prems(2) by (simp_all add: falling_append falling_Cons)
  consider "f a < 0" | "0 < f a" | "f a = 0" by linarith
  then show ?case
  proof cases
    case 1
    let ?ctx = "Fr L c a r # ctx"
    have go: "loop (locate_step cmp s) (hole_link ctx, ctx_addr ctx, lm) =
        loop (locate_step cmp s) (hole_link ?ctx, ctx_addr ?ctx, lm)"
      by (rule loop_step(1)) (use get a 1 in \<open>simp add: locate_step_def\<close>)
    have "holds_tree s (plug l ?ctx)" "\<forall>a \<in> set (addrs l). cmp a = Inr (f a)" using Nd.prems by simp_all
    from Nd.IH(1) [OF this(1) sub(1) this(2), of lm] show ?thesis
    proof (elim disjE exE conjE bexE)
      fix ctx' xs ys
      assume "loop (locate_step cmp s) (hole_link ?ctx, ctx_addr ?ctx, lm) =
          Some (Inr (Inl (hole_link ctx', ctx_addr ctx', lm \<and> xs = [])))" "plug Lf ctx' = plug l ?ctx"
        "addrs l = xs @ ys" "ctx_before ctx' = ctx_before ?ctx @ xs" "ctx_after ctx' = ys @ ctx_after ?ctx"
        "\<forall>x \<in> set xs. 0 < f x" "\<forall>y \<in> set ys. f y < 0"
      then show ?thesis using 1 fall(1) Nd.prems(2) go
        by (intro disjI2 exI [of _ ctx'] exI [of _ xs] exI [of _ "ys @ a # addrs r"]) auto
    qed (use go in auto)
  next
    case 2
    let ?ctx = "Fr R c a l # ctx"
    have go: "loop (locate_step cmp s) (hole_link ctx, ctx_addr ctx, lm) =
        loop (locate_step cmp s) (hole_link ?ctx, ctx_addr ?ctx, False)"
      by (rule loop_step(1)) (use get a 2 in \<open>simp add: locate_step_def\<close>)
    have "holds_tree s (plug r ?ctx)" "\<forall>a \<in> set (addrs r). cmp a = Inr (f a)" using Nd.prems by simp_all
    from Nd.IH(2) [OF this(1) sub(2) this(2), of False] show ?thesis
    proof (elim disjE exE conjE bexE)
      fix ctx' xs ys
      assume "loop (locate_step cmp s) (hole_link ?ctx, ctx_addr ?ctx, False) =
          Some (Inr (Inl (hole_link ctx', ctx_addr ctx', False \<and> xs = [])))" "plug Lf ctx' = plug r ?ctx"
        "addrs r = xs @ ys" "ctx_before ctx' = ctx_before ?ctx @ xs" "ctx_after ctx' = ys @ ctx_after ?ctx"
        "\<forall>x \<in> set xs. 0 < f x" "\<forall>y \<in> set ys. f y < 0"
      then show ?thesis using 2 fall(2) Nd.prems(2) go
        by (intro disjI2 exI [of _ ctx'] exI [of _ "addrs l @ a # xs"] exI [of _ ys]) auto
    qed (use go in auto)
  next
    case 3
    have "locate_step cmp s (hole_link ctx, ctx_addr ctx, lm) = Inr (Done (Inr a))"
      using get a 3 by (simp add: locate_step_def)
    then show ?thesis using 3 by (auto simp: loop_step)
  qed
qed

lemma holds_tree_fresh:
  assumes "holds_tree s t" "n \<notin> set (addrs t)"
  shows "holds_tree (s\<lparr>mem := (mem s)(n \<mapsto> x)\<rparr>) t"
  using assms by (simp add: holds_tree_def)

text \<open>The search finds the node with comparison 0, or a link at which a new node comes to lie
  after the nodes with positive and before those with negative comparison.\<close>

lemma locate_hang:
  assumes c: "cached_holds c t" "red_black t" and f: "falling f (addrs t)"
    and cmp: "\<forall>a \<in> set (addrs t). cmp a = Inr (f a)"
  shows "if \<exists>a \<in> set (addrs t). f a = 0
    then \<exists>p \<in> set (addrs t). f p = 0 \<and> loop (locate_step cmp (tree_of c)) (Root_link, 0, True) = Some (Inr (Inr p))
    else \<exists>l. loop (locate_step cmp (tree_of c)) (Root_link, 0, True) = Some (Inr (Inl l)) \<and>
      (\<forall>n. n \<noteq> 0 \<and> aligned n \<and> n \<notin> set (addrs t) \<longrightarrow>
        (\<exists>c' t'. hang n l c = Some (Inr c') \<and> cached_holds c' t' \<and> red_black t' \<and>
          addrs t' = filter (\<lambda>a. 0 < f a) (addrs t) @ n # filter (\<lambda>a. f a < 0) (addrs t)))"
proof -
  have h: "holds_tree (tree_of c) (plug t [])" "rb_leftmost c = hd0 (addrs t)"
    using c(1) by (auto simp: cached_holds_def)
  from locate_descent [OF h(1) f cmp, of True] consider
    p where "p \<in> set (addrs t)" "f p = 0" "loop (locate_step cmp (tree_of c)) (Root_link, 0, True) = Some (Inr (Inr p))"
  | ctx xs ys where "loop (locate_step cmp (tree_of c)) (Root_link, 0, True) =
        Some (Inr (Inl (hole_link ctx, ctx_addr ctx, xs = [])))" "plug Lf ctx = t" "addrs t = xs @ ys"
      "ctx_before ctx = xs" "ctx_after ctx = ys" "\<forall>x \<in> set xs. 0 < f x" "\<forall>y \<in> set ys. f y < 0"
    by auto
  then show ?thesis
  proof cases
    case (2 ctx xs ys)
    have no: "\<not> (\<exists>a \<in> set (addrs t). f a = 0)" using 2(3,6,7) by auto
    have A: "set (addrs t) = set (ctx_addrs ctx)" using 2(2) set_addrs_plug [of Lf ctx] by simp
    have "\<exists>c' t'. hang n (hole_link ctx, ctx_addr ctx, xs = []) c = Some (Inr c') \<and> cached_holds c' t' \<and>
        red_black t' \<and> addrs t' = filter (\<lambda>a. 0 < f a) (addrs t) @ n # filter (\<lambda>a. f a < 0) (addrs t)"
      if n: "n \<noteq> 0" "aligned n" "n \<notin> set (addrs t)" for n
    proof -
      let ?c = "c\<lparr>mem := (mem c)(n \<mapsto> zero_node)\<rparr>"
      have tc: "tree_of ?c = (tree_of c)\<lparr>mem := (mem (tree_of c))(n \<mapsto> zero_node)\<rparr>" by (simp add: tree_of_def)
      have "holds_tree (tree_of ?c) t" unfolding tc using h(1) n(3) by (intro holds_tree_fresh) simp_all
      moreover have "fresh_node (tree_of ?c) n (set (ctx_addrs ctx))" using n A by (simp add: fresh_node_def tc)
      ultimately obtain s1 s' t' where r: "rb_link_node n (ctx_addr ctx) (hole_link ctx) (tree_of ?c) = Inr s1"
          "rb_insert_color n s1 = Some (Inr s')" "holds_tree s' t'" "red_black t'" "addrs t' = xs @ n # ys"
        using link_and_fix [of "tree_of ?c" ctx n] c(2) 2(2,4,5) by auto
      let ?c' = "if xs = [] then with_tree ?c s'\<lparr>rb_leftmost := n\<rparr> else with_tree ?c s'"
      have "hang n (hole_link ctx, ctx_addr ctx, xs = []) c = Some (Inr ?c')"
        using r(1,2) by (simp add: hang_def rb_insert_color_cached_def Let_def)
      moreover have "cached_holds ?c' t'"
      proof (cases xs)
        case Nil
        then show ?thesis using r(3,5) by (simp add: cached_holds_def)
      next
        case (Cons x zs)
        have "rb_leftmost ?c = rb_leftmost c" by simp
        then show ?thesis using r(3,5) Cons h(2) 2(3) by (simp add: cached_holds_def)
      qed
      moreover have "addrs t' = filter (\<lambda>a. 0 < f a) (addrs t) @ n # filter (\<lambda>a. f a < 0) (addrs t)"
      proof -
        have "filter (\<lambda>a. 0 < f a) (addrs t) = xs" "filter (\<lambda>a. f a < 0) (addrs t) = ys"
          using 2(3,6,7) by (fastforce simp: filter_id_conv filter_empty_conv)+
        then show ?thesis using r(5) by simp
      qed
      ultimately show ?thesis using r(4) by blast
    qed
    then show ?thesis using no 2(1) by auto
  qed auto
qed

subsection \<open>Trees with keys\<close>

text \<open>Both trees of \<open>main.c\<close> have falling keys along the order.\<close>

definition keyed :: "rb_cached \<Rightarrow> ptree \<Rightarrow> (u64 \<Rightarrow> u64) \<Rightarrow> bool" where
  "keyed c t key \<longleftrightarrow> cached_holds c t \<and> red_black t \<and> sorted_wrt (\<lambda>i j. j < i) (map key (addrs t))"

lemma descending_distinct: "sorted_wrt (\<lambda>i j. j < i) (is :: u64 list) \<Longrightarrow> distinct is"
  by (induction "is") auto

lemma keyed_inj:
  "keyed c t key \<Longrightarrow> a \<in> set (addrs t) \<Longrightarrow> b \<in> set (addrs t) \<Longrightarrow> key a = key b \<Longrightarrow> a = b"
  using descending_distinct [of "map key (addrs t)"] by (auto simp: keyed_def distinct_map inj_on_def)

lemma keyed_holds: "keyed c t key \<Longrightarrow> holds_tree (tree_of c) t"
  by (simp add: keyed_def cached_holds_def)

lemma keyed_cong: "(\<And>a. a \<in> set (addrs t) \<Longrightarrow> key a = key' a) \<Longrightarrow> keyed c t key \<longleftrightarrow> keyed c t key'"
  by (simp add: keyed_def cong: map_cong)

definition RB_ROOT_CACHED :: rb_cached where
  "RB_ROOT_CACHED = \<lparr>mem = (\<lambda>_. None), rb_root = 0, rb_leftmost = 0\<rparr>"

lemma keyed_empty: "keyed RB_ROOT_CACHED Lf key"
  by (simp add: keyed_def cached_holds_def holds_tree_def tree_of_def RB_ROOT_CACHED_def valid_addrs_def red_black_def)

text \<open>\<open>f\<close> compares the keys in the tree with \<open>k\<close>.\<close>

lemma keyed_locate:
  assumes t: "keyed c t key"
    and f: "\<And>a. a \<in> set (addrs t) \<Longrightarrow> cmp a = Inr (f a) \<and> (f a < 0 \<longleftrightarrow> key a < k) \<and> (0 < f a \<longleftrightarrow> k < key a)"
  shows "if k \<in> key ` set (addrs t)
    then \<exists>p \<in> set (addrs t). key p = k \<and> loop (locate_step cmp (tree_of c)) (Root_link, 0, True) = Some (Inr (Inr p))
    else \<exists>l. loop (locate_step cmp (tree_of c)) (Root_link, 0, True) = Some (Inr (Inl l)) \<and>
      (\<forall>n. n \<noteq> 0 \<and> aligned n \<and> n \<notin> set (addrs t) \<longrightarrow>
        (\<exists>c' t'. hang n l c = Some (Inr c') \<and> keyed c' t' (key(n := k)) \<and>
          set (addrs t') = insert n (set (addrs t))))"
proof -
  have zero: "f a = 0 \<longleftrightarrow> key a = k" if "a \<in> set (addrs t)" for a
    using f [OF that] by (metis less_irrefl linorder_neqE not_less_iff_gr_or_eq)
  have le: "f a \<le> 0 \<longleftrightarrow> key a \<le> k" if "a \<in> set (addrs t)" for a
    using f [OF that] by (meson not_le)
  have c: "cached_holds c t" "red_black t" and srt: "sorted_wrt (\<lambda>a b. key b < key a) (addrs t)"
    using t by (simp_all add: keyed_def sorted_wrt_map)
  have fall: "falling f (addrs t)"
    unfolding falling_def
  proof (rule sorted_wrt_mono_rel [OF _ srt])
    fix a b assume "a \<in> set (addrs t)" "b \<in> set (addrs t)" "key b < key a"
    then show "(f a \<le> 0 \<longrightarrow> f b \<le> 0) \<and> (f a < 0 \<longrightarrow> f b < 0)" using le f by (meson le_less_trans less_imp_le less_trans order_trans)
  qed
  have cmp: "\<forall>a \<in> set (addrs t). cmp a = Inr (f a)" using f by blast
  note loc = locate_hang [OF c fall cmp]
  show ?thesis
  proof (cases "k \<in> key ` set (addrs t)")
    case True
    then have "\<exists>a \<in> set (addrs t). f a = 0" using zero by blast
    with loc True zero show ?thesis by auto
  next
    case False
    then have no: "\<not> (\<exists>a \<in> set (addrs t). f a = 0)" using zero by blast
    then obtain l where l: "loop (locate_step cmp (tree_of c)) (Root_link, 0, True) = Some (Inr (Inl l))"
      and hang: "\<And>n. n \<noteq> 0 \<Longrightarrow> aligned n \<Longrightarrow> n \<notin> set (addrs t) \<Longrightarrow>
        \<exists>c' t'. hang n l c = Some (Inr c') \<and> cached_holds c' t' \<and> red_black t' \<and>
          addrs t' = filter (\<lambda>a. 0 < f a) (addrs t) @ n # filter (\<lambda>a. f a < 0) (addrs t)"
      using loc by auto
    have "\<exists>c' t'. hang n l c = Some (Inr c') \<and> keyed c' t' (key(n := k)) \<and> set (addrs t') = insert n (set (addrs t))"
      if n: "n \<noteq> 0" "aligned n" "n \<notin> set (addrs t)" for n
    proof -
      obtain c' t' where h: "hang n l c = Some (Inr c')" "cached_holds c' t'" "red_black t'"
          "addrs t' = filter (\<lambda>a. 0 < f a) (addrs t) @ n # filter (\<lambda>a. f a < 0) (addrs t)"
        using hang [OF n] by blast
      have part: "set (addrs t') = insert n (set (addrs t))"
        using no unfolding h(4) by (auto simp: not_less antisym_conv)
      have sub: "sorted_wrt (\<lambda>a b. (key(n := k)) b < (key(n := k)) a) (filter P (addrs t))" for P
        using sorted_wrt_filter [OF srt, of P] by (rule sorted_wrt_mono_rel [rotated]) (use n(3) in auto)
      have "sorted_wrt (\<lambda>a b. (key(n := k)) b < (key(n := k)) a) (addrs t')"
        unfolding h(4) sorted_wrt_append sorted_wrt.simps using sub n(3) f by (auto intro: less_trans)
      then have "keyed c' t' (key(n := k))" using h(2,3) by (simp only: keyed_def sorted_wrt_map)
      then show ?thesis using h(1) part by blast
    qed
    then show ?thesis using False l by auto
  qed
qed

end
