(* ===== verification/Main_Loop.thy ===== *)
theory Main_Loop
  imports Locate Callstack Counting
begin

text \<open>
  \<open>main.c\<close>: the backends' interface \<open>callstack_ops\<close>, the red-black tree of backend trees by
  record id (\<open>get_tree\<close>), the loop that feeds every record to the tree of its id, and the
  walk over the trees at the end.
\<close>

subsection \<open>Backends\<close>

text \<open>
  The function pointers of \<open>struct callstack_ops\<close> and of \<open>struct callstack_tree\<close>. \<open>'t\<close> is
  what \<open>priv\<close> points to, \<open>'g\<close> what the backend shares between its trees: the globals its
  functions write. \<open>op_stats\<close> is what the backend prints about a tree; no backend writes
  \<open>struct stats\<close>.
\<close>

record ('t, 'g, 'o) callstack_ops =
  op_new :: "'g \<Rightarrow> ('t \<times> 'g) run"
  op_insert :: "'t \<Rightarrow> 'g \<Rightarrow> callstack_entry list \<Rightarrow> ('t \<times> 'g) run"
  op_stats :: "'t \<Rightarrow> 'o run"

text \<open>The first argument of the program chooses the backend.\<close>

datatype backend = Linux | Art | Hash

definition choose_backend :: "string list \<Rightarrow> backend result" where
  "choose_backend argv =
     (if length argv < 2 then Inl Exit_failure
      else if argv ! 1 = ''linux'' then Inr Linux
      else if argv ! 1 = ''art'' then Inr Art
      else if argv ! 1 = ''hash'' then Inr Hash
      else Inl Exit_failure)"

subsection \<open>Memory\<close>

text \<open>
  \<open>calloc\<close> in \<open>main.c\<close> always stands for one structure with a node in it; a structure is
  named by the address of its node. Which addresses the coming calls return is the
  environment's choice; 0, or no address left, is a failed call, which ends in \<open>die()\<close>.
\<close>

type_synonym heap = "u64 list"

definition calloc_or_die :: "heap \<Rightarrow> (u64 \<times> heap) result" where
  "calloc_or_die h = (case h of [] \<Rightarrow> Inl Exit_failure
     | a # h \<Rightarrow> if a = 0 then Inl Exit_failure else Inr (a, h))"

definition good_heap :: "heap \<Rightarrow> u64 set \<Rightarrow> bool" where
  "good_heap h A \<longleftrightarrow> distinct h \<and> (\<forall>a \<in> set h. a \<noteq> 0 \<and> aligned a \<and> a \<notin> A)"

subsection \<open>Trees by id\<close>

record 't tree_rec =
  tr_id :: u64
  cs_tree :: 't

record 't trees =
  entries :: rb_cached
  tree_at :: "u64 \<Rightarrow> 't tree_rec option"

text \<open>\<open>get_tree\<close> keeps larger ids to the left.\<close>

definition tree_cmp :: "'t trees \<Rightarrow> u64 \<Rightarrow> u64 \<Rightarrow> int result" where
  "tree_cmp ts k p =
     rbind (deref (tree_at ts p)) (\<lambda>t. Inr (if tr_id t < k then - 1 else if k < tr_id t then 1 else 0))"

text \<open>\<open>get_tree\<close> returns the node address of the structure that holds the backend tree.\<close>

definition get_tree ::
  "('t, 'g, 'o) callstack_ops \<Rightarrow> u64 \<Rightarrow> 't trees \<times> 'g \<times> heap \<Rightarrow> (u64 \<times> 't trees \<times> 'g \<times> heap) run" where
  "get_tree ops k = (\<lambda>(ts, g, h).
     obind (loop (locate_step (tree_cmp ts k) (tree_of (entries ts))) (Root_link, 0, True)) (\<lambda>r. case r of
       Inr p \<Rightarrow> Some (Inr (p, ts, g, h))
     | Inl l \<Rightarrow>
         obind (op_new ops g) (\<lambda>(t, g).
         obind (Some (calloc_or_die h)) (\<lambda>(a, h).
         obind (hang a l (entries ts)) (\<lambda>c.
           Some (Inr (a, \<lparr>entries = c, tree_at = (tree_at ts)(a \<mapsto> \<lparr>tr_id = k, cs_tree = t\<rparr>)\<rparr>, g, h)))))))"

subsection \<open>The loop\<close>

record ('t, 'g) main_state =
  trees :: "'t trees"
  shared :: 'g
  free_mem :: heap
  num_records :: u64

definition init_state :: "'g \<Rightarrow> heap \<Rightarrow> ('t, 'g) main_state" where
  "init_state g h =
     \<lparr>trees = \<lparr>entries = RB_ROOT_CACHED, tree_at = (\<lambda>_. None)\<rparr>, shared = g, free_mem = h, num_records = 0\<rparr>"

definition process :: "('t, 'g, 'o) callstack_ops \<Rightarrow> crecord \<Rightarrow> ('t, 'g) main_state \<Rightarrow> ('t, 'g) main_state run" where
  "process ops r s =
     obind (get_tree ops (r_id r) (trees s, shared s, free_mem s)) (\<lambda>(p, ts, g, h).
     obind (Some (deref (tree_at ts p))) (\<lambda>t.
     obind (op_insert ops (cs_tree t) g (r_stack r)) (\<lambda>(t', g).
       Some (Inr \<lparr>trees = ts\<lparr>tree_at := (tree_at ts)(p \<mapsto> t\<lparr>cs_tree := t'\<rparr>)\<rparr>, shared = g, free_mem = h,
                   num_records = num_records s + 1\<rparr>))))"

fun process_all :: "('t, 'g, 'o) callstack_ops \<Rightarrow> crecord list \<Rightarrow> ('t, 'g) main_state \<Rightarrow> ('t, 'g) main_state run" where
  "process_all ops [] s = Some (Inr s)"
| "process_all ops (r # rs) s = obind (process ops r s) (process_all ops rs)"

fun rounds :: "nat \<Rightarrow> ('t, 'g, 'o) callstack_ops \<Rightarrow> crecord list \<Rightarrow> ('t, 'g) main_state \<Rightarrow> ('t, 'g) main_state run" where
  "rounds 0 ops rs s = Some (Inr s)"
| "rounds (Suc j) ops rs s = obind (process_all ops rs s) (rounds j ops rs)"

text \<open>
  The walk at the end: what is printed about the trees, and their number. \<open>main\<close> prints
  \<open>num_records\<close> and \<open>num_trees\<close>.
\<close>

partial_function (option) walk ::
  "('t, 'g, 'o) callstack_ops \<Rightarrow> 't trees \<Rightarrow> u64 \<Rightarrow> 'o list \<times> u64 \<Rightarrow> ('o list \<times> u64) run" where
  [code]: "walk ops ts node acc =
     (if node = 0 then Some (Inr acc)
      else obind (Some (deref (tree_at ts node))) (\<lambda>t.
        obind (op_stats ops (cs_tree t)) (\<lambda>line.
        obind (rb_next (tree_of (entries ts)) node) (\<lambda>n.
          walk ops ts n (fst acc @ [line], snd acc + 1)))))"

definition main_loop ::
  "('t, 'g, 'o) callstack_ops \<Rightarrow> crecord list \<Rightarrow> 'g \<Rightarrow> heap \<Rightarrow> (u64 \<times> 'o list \<times> u64) run" where
  "main_loop ops records g h =
     obind (rounds 20 ops records (init_state g h)) (\<lambda>s.
     obind (rb_first (tree_of (entries (trees s)))) (\<lambda>n.
     obind (walk ops (trees s) n ([], 0)) (\<lambda>(out, num_trees).
       Some (Inr (num_records s, out, num_trees)))))"

end
