(* ===== verification/Hot.thy ===== *)
theory Hot
  imports Main_Loop
begin

text \<open>
  \<open>lib/hot\<close>, the beginning of a height optimized trie. Insertion and the search for a result
  candidate are stubs in the code, and \<open>main\<close> does not offer the backend.
\<close>

definition SINGLE_MASK_PKEYS_8_BIT :: u32 where "SINGLE_MASK_PKEYS_8_BIT = 1"
definition MULTI_MASK_8_PKEYS_8_BIT :: u32 where "MULTI_MASK_8_PKEYS_8_BIT = 8"
definition MULTI_MASK_8_PKEYS_16_BIT :: u32 where "MULTI_MASK_8_PKEYS_16_BIT = 16"
definition MULTI_MASK_32_PKEYS_32_BIT :: u32 where "MULTI_MASK_32_PKEYS_32_BIT = 256"

record hot_node =
  flags :: "16 word"

text \<open>\<open>node_type\<close> returns the flags as eight bits.\<close>

definition node_type :: "hot_node \<Rightarrow> u8" where
  "node_type node = ucast (flags node)"

definition retrieve_result_candidate :: "hot_node \<Rightarrow> u32 result" where
  "retrieve_result_candidate node =
     (let t = ucast (node_type node) in
      if t = SINGLE_MASK_PKEYS_8_BIT \<or> t = MULTI_MASK_8_PKEYS_8_BIT \<or> t = MULTI_MASK_8_PKEYS_16_BIT
      then Inr (- 1) else Inl Exit_failure)"

definition hot_insert :: "hot_node \<Rightarrow> u8 list \<Rightarrow> hot_node" where
  "hot_insert node stream = node"

text \<open>The backend: \<open>insert\<close> makes a stream of the stack's bytes for \<open>hot_insert\<close>, which reads none
  of it, so its missing end at a stack without terminator is never read either.\<close>

definition hot_tree_insert :: "hot_node \<Rightarrow> callstack_entry list \<Rightarrow> hot_node" where
  "hot_tree_insert root stack = hot_insert root (stack_bytes stack)"

definition hot_new :: "alloc_state \<Rightarrow> (hot_node \<times> alloc_state) result" where
  "hot_new a =
     (case ccalloc a of (ok, a) \<Rightarrow>
        if \<not> ok then Inl Exit_failure
        else case ccalloc a of (ok, a) \<Rightarrow>
          if \<not> ok then Inl Exit_failure else Inr (\<lparr>flags = 0\<rparr>, a))"

definition hot_put :: "alloc_state \<Rightarrow> alloc_state" where
  "hot_put a = cfree False a"

definition hot_ops :: "(hot_node, alloc_state, unit) callstack_ops" where
  "hot_ops = \<lparr>op_new = (\<lambda>a. Some (hot_new a)),
     op_insert = (\<lambda>t a stack. Some (Inr (hot_tree_insert t stack, a))), op_stats = (\<lambda>t. Some (Inr ()))\<rparr>"

text \<open>The mask of the largest layout does not fit into what \<open>node_type\<close> returns.\<close>

lemma node_type_drops_32_bit: "node_type \<lparr>flags = ucast MULTI_MASK_32_PKEYS_32_BIT\<rparr> = 0"
  by (simp add: node_type_def MULTI_MASK_32_PKEYS_32_BIT_def)

lemma type_eq:
  fixes t :: u8
  shows "(ucast t :: u32) = 1 \<longleftrightarrow> t = 1" "(ucast t :: u32) = 8 \<longleftrightarrow> t = 8" "(ucast t :: u32) = 16 \<longleftrightarrow> t = 16"
proof -
  have "(ucast t :: u32) = ucast u \<longleftrightarrow> t = u" for u :: u8
  proof
    assume "(ucast t :: u32) = ucast u"
    from arg_cong [OF this, of unat] have "unat t = unat u"
      by (simp add: unsigned_ucast_eq take_bit_nat_eq_self order_less_le_trans [OF unsigned_less])
    then show "t = u" by (rule unsigned_word_eqI)
  qed simp
  from this [of 1] this [of 8] this [of 16]
  show "(ucast t :: u32) = 1 \<longleftrightarrow> t = 1" "(ucast t :: u32) = 8 \<longleftrightarrow> t = 8" "(ucast t :: u32) = 16 \<longleftrightarrow> t = 16"
    by simp_all
qed

lemma retrieve_result_candidate_ok:
  "retrieve_result_candidate node = Inr r \<longleftrightarrow> r = - 1 \<and> node_type node \<in> {1, 8, 16}"
  by (auto simp: retrieve_result_candidate_def Let_def type_eq SINGLE_MASK_PKEYS_8_BIT_def
      MULTI_MASK_8_PKEYS_8_BIT_def MULTI_MASK_8_PKEYS_16_BIT_def)

end
