(* ===== verification/Maps.thy ===== *)
theory Maps
  imports Main_Loop
begin

text \<open>
  The map symbols of \<open>main.c\<close>: \<open>get_map\<close> finds or makes the one \<open>struct map_symbol\<close> of a map
  address, through a one-entry cache and a cached red-black tree. The comparison goes
  through an \<open>int\<close>, which makes the tree sound only on addresses that lie close together.
\<close>

subsection \<open>The code\<close>

record map_symbol =
  ms_maps :: u64
  ms_map :: u64
  ms_sym :: u64

record map_tree =
  mt_id :: u64
  mt_ms :: u64

record maps_state =
  map_trees :: rb_cached
  map_at :: "u64 \<Rightarrow> map_tree option"
  ms_at :: "u64 \<Rightarrow> map_symbol option"
  last_ms :: u64

text \<open>\<open>init_caches\<close> and the static initialisers.\<close>

definition init_maps :: maps_state where
  "init_maps = \<lparr>map_trees = RB_ROOT_CACHED, map_at = (\<lambda>_. None), ms_at = (\<lambda>_. None), last_ms = 0\<rparr>"

text \<open>\<open>int cmp = mt->id - id\<close>: the 64-bit difference cut to its low 32 bits, read as signed.\<close>

definition map_diff :: "u64 \<Rightarrow> u64 \<Rightarrow> int" where
  "map_diff i k = sint (ucast (i - k) :: u32)"

definition map_cmp :: "maps_state \<Rightarrow> u64 \<Rightarrow> u64 \<Rightarrow> int result" where
  "map_cmp m k p = rbind (deref (map_at m p)) (\<lambda>mt. Inr (map_diff (mt_id mt) k))"

definition last_hit :: "maps_state \<Rightarrow> u64 \<Rightarrow> bool result" where
  "last_hit m k =
     (if last_ms m = 0 then Inr False
      else rbind (deref (ms_at m (last_ms m))) (\<lambda>ms. Inr (ms_map ms = k)))"

definition get_map :: "u64 \<Rightarrow> maps_state \<times> heap \<Rightarrow> (u64 \<times> maps_state \<times> heap) run" where
  "get_map k = (\<lambda>(m, h).
     obind (Some (last_hit m k)) (\<lambda>hit.
       if hit then Some (Inr (last_ms m, m, h))
       else obind (loop (locate_step (map_cmp m k) (tree_of (map_trees m))) (Root_link, 0, True)) (\<lambda>r. case r of
         Inr p \<Rightarrow>
           obind (Some (deref (map_at m p))) (\<lambda>mt. Some (Inr (mt_ms mt, m\<lparr>last_ms := mt_ms mt\<rparr>, h)))
       | Inl l \<Rightarrow>
           obind (Some (calloc_or_die h)) (\<lambda>(ms, h).
           obind (Some (calloc_or_die h)) (\<lambda>(mt, h).
           obind (hang mt l (map_trees m)) (\<lambda>c.
             Some (Inr (ms,
               \<lparr>map_trees = c, map_at = (map_at m)(mt \<mapsto> \<lparr>mt_id = k, mt_ms = ms\<rparr>),
                ms_at = (ms_at m)(ms \<mapsto> \<lparr>ms_maps = 0, ms_map = k, ms_sym = 0\<rparr>), last_ms = ms\<rparr>, h))))))))"

text \<open>The count of the maps that \<open>main\<close> prints.\<close>

partial_function (option) count_maps :: "rb_state \<Rightarrow> u64 \<Rightarrow> u64 \<Rightarrow> u64 run" where
  [code]: "count_maps s node n =
     (if node = 0 then Some (Inr n) else obind (rb_next s node) (\<lambda>next. count_maps s next (n + 1)))"

definition num_maps :: "maps_state \<Rightarrow> u64 run" where
  "num_maps m = obind (rb_first (tree_of (map_trees m))) (\<lambda>n. count_maps (tree_of (map_trees m)) n 0)"

subsection \<open>The abstract table\<close>

text \<open>Addresses the code tells apart: pairwise less than \<open>2 ^ 31\<close> from each other.\<close>

definition near :: "u64 set \<Rightarrow> bool" where
  "near K \<longleftrightarrow> (\<forall>i \<in> K. \<forall>j \<in> K. \<bar>uint i - uint j\<bar> < 2 ^ 31)"

lemma map_diff_near:
  assumes "\<bar>uint i - uint k\<bar> < 2 ^ 31"
  shows "map_diff i k = uint i - uint k"
proof -
  let ?d = "uint i - uint k"
  have "uint (i - k) = ?d mod 2 ^ 64" by (simp add: uint_word_ariths)
  then have "uint (ucast (i - k) :: u32) = ?d mod 2 ^ 64 mod 2 ^ 32"
    by (simp add: unsigned_ucast_eq take_bit_eq_mod)
  also have "\<dots> = ?d mod 2 ^ 32" by (rule mod_mod_cancel) simp
  finally have "sint (ucast (i - k) :: u32) = signed_take_bit 31 (?d mod 2 ^ 32)"
    by (simp add: sint_uint)
  also have "\<dots> = signed_take_bit 31 ?d"
    by (simp only: take_bit_eq_mod [symmetric] signed_take_bit_take_bit) simp
  also have "\<dots> = ?d" using assms by (intro signed_take_bit_int_eq_self) linarith+
  finally show ?thesis by (simp add: map_diff_def)
qed

text \<open>The table as a map from map addresses to their symbols' addresses.\<close>

definition map_key :: "maps_state \<Rightarrow> u64 \<Rightarrow> u64" where
  "map_key m a = (case map_at m a of None \<Rightarrow> 0 | Some mt \<Rightarrow> mt_id mt)"

definition maps_hold :: "maps_state \<Rightarrow> ptree \<Rightarrow> (u64 \<Rightarrow> u64 option) \<Rightarrow> bool" where
  "maps_hold m t T \<longleftrightarrow> keyed (map_trees m) t (map_key m) \<and>
     (\<forall>a \<in> set (addrs t). \<exists>mt. map_at m a = Some mt \<and> T (mt_id mt) = Some (mt_ms mt)) \<and>
     dom T = map_key m ` set (addrs t) \<and>
     (\<forall>k p. T k = Some p \<longrightarrow> p \<noteq> 0 \<and> ms_at m p = Some \<lparr>ms_maps = 0, ms_map = k, ms_sym = 0\<rparr>) \<and>
     (last_ms m = 0 \<or> (\<exists>k. T k = Some (last_ms m)))"

definition maps_ok :: "maps_state \<times> heap \<Rightarrow> (u64 \<Rightarrow> u64 option) \<Rightarrow> bool" where
  "maps_ok = (\<lambda>(m, h) T. \<exists>t. maps_hold m t T \<and> good_heap h (set (addrs t) \<union> ran T))"

lemma maps_ok_init: "good_heap h {} \<Longrightarrow> maps_ok (init_maps, h) (\<lambda>_. None)"
  by (auto simp: maps_ok_def maps_hold_def init_maps_def keyed_empty intro!: exI [of _ Lf])

lemma map_held: "maps_hold m t T \<Longrightarrow> a \<in> set (addrs t) \<Longrightarrow>
    \<exists>p. map_at m a = Some \<lparr>mt_id = map_key m a, mt_ms = p\<rparr> \<and> T (map_key m a) = Some p"
  by (auto simp: maps_hold_def map_key_def)

lemma last_hit_ok:
  assumes h: "maps_hold m t T"
  shows "last_hit m k = Inr (last_ms m \<noteq> 0 \<and> T k = Some (last_ms m))"
proof (cases "last_ms m = 0")
  case False
  have ms: "ms_at m p = Some \<lparr>ms_maps = 0, ms_map = i, ms_sym = 0\<rparr>" if "T i = Some p" for i p
    using h that by (auto simp: maps_hold_def)
  obtain j where j: "T j = Some (last_ms m)" using h False by (auto simp: maps_hold_def)
  have "T k = Some (last_ms m) \<longleftrightarrow> j = k" using ms [OF j] ms [of k "last_ms m"] j by auto
  then show ?thesis using ms [OF j] False by (simp add: last_hit_def)
qed (simp add: last_hit_def)

lemma map_locate:
  assumes h: "maps_hold m t T" and n: "near (insert k (dom T))"
  shows "if k \<in> dom T
    then \<exists>p \<in> set (addrs t). map_key m p = k \<and>
      loop (locate_step (map_cmp m k) (tree_of (map_trees m))) (Root_link, 0, True) = Some (Inr (Inr p))
    else \<exists>l. loop (locate_step (map_cmp m k) (tree_of (map_trees m))) (Root_link, 0, True) = Some (Inr (Inl l)) \<and>
      (\<forall>n. n \<noteq> 0 \<and> aligned n \<and> n \<notin> set (addrs t) \<longrightarrow>
        (\<exists>c' t'. hang n l (map_trees m) = Some (Inr c') \<and> keyed c' t' ((map_key m)(n := k)) \<and>
          set (addrs t') = insert n (set (addrs t))))"
proof -
  have "map_cmp m k a = Inr (uint (map_key m a) - uint k)" if a: "a \<in> set (addrs t)" for a
  proof -
    obtain p where p: "map_at m a = Some \<lparr>mt_id = map_key m a, mt_ms = p\<rparr>" using map_held [OF h a] by blast
    have "map_key m a \<in> dom T" using h a by (auto simp: maps_hold_def)
    then have "\<bar>uint (map_key m a) - uint k\<bar> < 2 ^ 31" using n by (simp add: near_def)
    then show ?thesis using p map_diff_near by (simp add: map_cmp_def)
  qed
  moreover have "keyed (map_trees m) t (map_key m)" "dom T = map_key m ` set (addrs t)"
    using h by (simp_all add: maps_hold_def)
  ultimately show ?thesis
    using keyed_locate [of "map_trees m" t "map_key m" "map_cmp m k" "\<lambda>a. uint (map_key m a) - uint k" k]
    by (simp add: word_less_def)
qed

lemma get_map_old:
  assumes h: "maps_hold m t T" and n: "near (insert k (dom T))" and k: "T k = Some p"
  shows "get_map k (m, h) = Some (Inr (p, m\<lparr>last_ms := p\<rparr>, h)) \<and> maps_hold (m\<lparr>last_ms := p\<rparr>) t T"
proof (cases "last_ms m \<noteq> 0 \<and> T k = Some (last_ms m)")
  case True
  then have "m\<lparr>last_ms := p\<rparr> = m" "p = last_ms m" using k by auto
  then show ?thesis using True h last_hit_ok [OF h, of k] by (simp add: get_map_def)
next
  case False
  obtain a where a: "a \<in> set (addrs t)" "map_key m a = k"
      "loop (locate_step (map_cmp m k) (tree_of (map_trees m))) (Root_link, 0, True) = Some (Inr (Inr a))"
    using map_locate [OF h n] k by (auto split: if_splits)
  have "map_at m a = Some \<lparr>mt_id = k, mt_ms = p\<rparr>" using map_held [OF h a(1)] a(2) k by auto
  moreover have "last_hit m k = Inr False" using False last_hit_ok [OF h, of k] by simp
  moreover have "maps_hold (m\<lparr>last_ms := p\<rparr>) t T"
  proof -
    have "map_key (m\<lparr>last_ms := p\<rparr>) = map_key m" by (simp add: map_key_def fun_eq_iff)
    then show ?thesis using h k by (auto simp: maps_hold_def)
  qed
  ultimately show ?thesis using a(3) by (simp add: get_map_def)
qed

lemma get_map_fresh:
  assumes h: "maps_hold m t T" and n: "near (insert k (dom T))" and k: "T k = None"
    and good: "good_heap (p # a # h) (set (addrs t) \<union> ran T)"
  shows "\<exists>m' t'. get_map k (m, p # a # h) = Some (Inr (p, m', h)) \<and> maps_hold m' t' (T(k \<mapsto> p)) \<and>
    good_heap h (set (addrs t') \<union> ran (T(k \<mapsto> p)))"
proof -
  have a: "a \<noteq> 0" "aligned a" "a \<notin> set (addrs t)" "p \<noteq> 0" "p \<notin> ran T" using good by (auto simp: good_heap_def)
  obtain l c' t' where l: "loop (locate_step (map_cmp m k) (tree_of (map_trees m))) (Root_link, 0, True) = Some (Inr (Inl l))"
      "hang a l (map_trees m) = Some (Inr c')" "keyed c' t' ((map_key m)(a := k))"
      "set (addrs t') = insert a (set (addrs t))"
    using map_locate [OF h n] k a by (auto simp: domIff)
  let ?m = "\<lparr>map_trees = c', map_at = (map_at m)(a \<mapsto> \<lparr>mt_id = k, mt_ms = p\<rparr>),
    ms_at = (ms_at m)(p \<mapsto> \<lparr>ms_maps = 0, ms_map = k, ms_sym = 0\<rparr>), last_ms = p\<rparr>"
  have key: "map_key ?m = (map_key m)(a := k)" by (auto simp: map_key_def)
  have entries: "\<exists>mt. map_at ?m b = Some mt \<and> (T(k \<mapsto> p)) (mt_id mt) = Some (mt_ms mt)" if "b \<in> set (addrs t')" for b
  proof (cases "b = a")
    case False
    then have b: "b \<in> set (addrs t)" using that l(4) by simp
    obtain q where "map_at m b = Some \<lparr>mt_id = map_key m b, mt_ms = q\<rparr>" "T (map_key m b) = Some q"
      using map_held [OF h b] by blast
    then show ?thesis using False k by auto
  qed simp
  have keys: "dom (T(k \<mapsto> p)) = map_key ?m ` set (addrs t')"
    using h a(3) unfolding key l(4) by (auto simp: maps_hold_def)
  have syms: "q \<noteq> 0 \<and> ms_at ?m q = Some \<lparr>ms_maps = 0, ms_map = j, ms_sym = 0\<rparr>" if "(T(k \<mapsto> p)) j = Some q" for j q
    using that a(4,5) h by (auto simp: maps_hold_def ran_def split: if_splits)
  have last: "\<exists>j. (T(k \<mapsto> p)) j = Some (last_ms ?m)" by (intro exI [of _ k]) simp
  have tree: "keyed (map_trees ?m) t' (map_key ?m)" using l(3) unfolding key by simp
  have "maps_hold ?m t' (T(k \<mapsto> p))"
    unfolding maps_hold_def by (intro conjI ballI allI impI tree entries keys disjI2 last)
      (assumption | drule syms, erule conjunct1 conjunct2)+
  moreover have "last_hit m k = Inr False" using last_hit_ok [OF h, of k] k by simp
  then have "get_map k (m, p # a # h) = Some (Inr (p, ?m, h))"
    using l(1,2) a by (simp add: get_map_def calloc_or_die_def)
  moreover have "good_heap h (set (addrs t') \<union> ran (T(k \<mapsto> p)))"
    using good k l(4) by (auto simp: good_heap_def)
  ultimately show ?thesis by blast
qed

text \<open>The contract of \<open>get_map\<close>: the same address always gives the same symbol.\<close>

lemma get_map_ok:
  assumes ok: "maps_ok (m, h) T" and n: "near (insert k (dom T))" and mem: "T k = None \<longrightarrow> 2 \<le> length h"
  shows "\<exists>p m' h'. get_map k (m, h) = Some (Inr (p, m', h')) \<and>
    p = (case T k of Some q \<Rightarrow> q | None \<Rightarrow> hd h) \<and> maps_ok (m', h') (T(k \<mapsto> p)) \<and>
    ms_at m' p = Some \<lparr>ms_maps = 0, ms_map = k, ms_sym = 0\<rparr> \<and>
    h' = (if T k = None then drop 2 h else h)"
proof -
  obtain t where t: "maps_hold m t T" "good_heap h (set (addrs t) \<union> ran T)" using ok by (auto simp: maps_ok_def)
  show ?thesis
  proof (cases "T k")
    case None
    then obtain p a h' where h: "h = p # a # h'" using mem by (cases h; cases "tl h") auto
    from get_map_fresh [OF t(1) n None t(2) [unfolded h]] obtain m' t' where
      "get_map k (m, p # a # h') = Some (Inr (p, m', h'))" "maps_hold m' t' (T(k \<mapsto> p))"
      "good_heap h' (set (addrs t') \<union> ran (T(k \<mapsto> p)))" by blast
    moreover from this have "maps_ok (m', h') (T(k \<mapsto> p))" unfolding maps_ok_def prod.case by blast
    moreover from calculation have "ms_at m' p = Some \<lparr>ms_maps = 0, ms_map = k, ms_sym = 0\<rparr>"
      unfolding maps_hold_def by (metis fun_upd_same)
    ultimately show ?thesis using None h by (intro exI [of _ p] exI [of _ m'] exI [of _ h']) simp
  next
    case (Some p)
    then have "T(k \<mapsto> p) = T" by auto
    moreover have "ms_at (m\<lparr>last_ms := p\<rparr>) p = Some \<lparr>ms_maps = 0, ms_map = k, ms_sym = 0\<rparr>"
      using t(1) Some by (simp add: maps_hold_def)
    ultimately show ?thesis using get_map_old [OF t(1) n Some] t(2) Some
      by (intro exI [of _ p] exI [of _ "m\<lparr>last_ms := p\<rparr>"] exI [of _ h]) (auto simp: maps_ok_def)
  qed
qed

lemma count_maps_ok:
  assumes h: "holds_tree s t"
  shows "addrs t = xs @ ys \<Longrightarrow> count_maps s (hd0 ys) n = Some (Inr (n + of_nat (length ys)))"
proof (induction ys arbitrary: xs n)
  case (Cons a ys)
  have "a \<noteq> 0" using Cons.prems h by (auto simp: holds_tree_def valid_addrs_def)
  moreover have "rb_next s a = Some (Inr (hd0 ys))"
    using rb_step_correct [OF h, of R xs a ys] Cons.prems by (simp add: rb_next_def daddrs_def)
  ultimately show ?case using Cons.IH [of "xs @ [a]"] Cons.prems by (subst count_maps.simps) simp
qed (simp add: count_maps.simps)

lemma num_maps_ok:
  assumes "maps_ok (m, h) T"
  shows "num_maps m = Some (Inr (of_nat (card (dom T))))"
proof -
  obtain t where t: "keyed (map_trees m) t (map_key m)" "dom T = map_key m ` set (addrs t)"
    using assms by (auto simp: maps_ok_def maps_hold_def)
  have h: "holds_tree (tree_of (map_trees m)) t" using t(1) by (rule keyed_holds)
  have "card (dom T) = length (addrs t)"
    using t descending_distinct [of "map (map_key m) (addrs t)"]
    by (metis distinct_card keyed_def length_map set_map)
  then show ?thesis
    using rb_end_correct [OF h, of L] count_maps_ok [OF h, of "[]" "addrs t" 0]
    by (simp add: num_maps_def rb_first_def daddrs_def)
qed

subsection \<open>Runs\<close>

fun get_maps :: "u64 list \<Rightarrow> maps_state \<times> heap \<Rightarrow> (u64 list \<times> maps_state \<times> heap) run" where
  "get_maps [] s = Some (Inr ([], s))"
| "get_maps (k # ks) s =
     obind (get_map k s) (\<lambda>(p, s). obind (get_maps ks s) (\<lambda>(ps, s). Some (Inr (p # ps, s))))"

lemma maps_ok_inj:
  assumes "maps_ok s T" "T i = Some p" "T j = Some p"
  shows "i = j"
proof -
  have "ms_at (fst s) p = Some \<lparr>ms_maps = 0, ms_map = k, ms_sym = 0\<rparr>" if "T k = Some p" for k
    using assms(1) that by (auto simp: maps_ok_def maps_hold_def split: prod.splits)
  from this [OF assms(2)] this [OF assms(3)] show ?thesis by simp
qed

lemma get_maps_ok:
  "maps_ok s T \<Longrightarrow> near (set ks \<union> dom T) \<Longrightarrow> 2 * card (set ks - dom T) \<le> length (snd s) \<Longrightarrow>
     \<exists>ps s' T'. get_maps ks s = Some (Inr (ps, s')) \<and> maps_ok s' T' \<and> T \<subseteq>\<^sub>m T' \<and>
       dom T' = dom T \<union> set ks \<and> map T' ks = map Some ps"
proof (induction ks arbitrary: s T)
  case Nil
  then show ?case by auto
next
  case (Cons k ks)
  obtain m h where s: "s = (m, h)" by (cases s)
  have new: "set (k # ks) - dom T = (if k \<in> dom T then set ks - dom T else insert k (set ks - insert k (dom T)))"
    by auto
  have n: "near (insert k (dom T))" using Cons.prems(2) by (auto simp: near_def)
  have mem: "T k = None \<longrightarrow> 2 \<le> length h" using Cons.prems(3) s new by (auto simp: domIff split: if_splits)
  obtain p m' h' where g: "get_map k (m, h) = Some (Inr (p, m', h'))" "maps_ok (m', h') (T(k \<mapsto> p))"
      "p = (case T k of Some q \<Rightarrow> q | None \<Rightarrow> hd h)" "h' = (if T k = None then drop 2 h else h)"
    using get_map_ok [OF _ n mem] Cons.prems(1) s by blast
  have "near (set ks \<union> dom (T(k \<mapsto> p)))" using Cons.prems(2) by simp
  moreover have "2 * card (set ks - dom (T(k \<mapsto> p))) \<le> length (snd (m', h'))"
    using Cons.prems(3) g(4) new s by (auto simp: domIff insert_absorb split: if_splits)
  ultimately obtain ps s' T' where t: "get_maps ks (m', h') = Some (Inr (ps, s'))" "maps_ok s' T'"
      "T(k \<mapsto> p) \<subseteq>\<^sub>m T'" "dom T' = dom (T(k \<mapsto> p)) \<union> set ks" "map T' ks = map Some ps"
    using Cons.IH [OF g(2)] by blast
  have "T \<subseteq>\<^sub>m T(k \<mapsto> p)" using g(3) by (auto simp: map_le_def)
  then have "T \<subseteq>\<^sub>m T'" using t(3) map_le_trans by blast
  moreover have "T' k = Some p" using t(3) by (force simp: map_le_def)
  ultimately show ?case using g(1) t s by (intro exI [of _ "p # ps"] exI [of _ s'] exI [of _ T']) auto
qed

text \<open>C14. On map addresses that lie less than \<open>2 ^ 31\<close> apart, \<open>get_map\<close> gives two requests the
  same symbol exactly when they are for the same address, whatever lies between them, every
  symbol has the address it was asked for, and the printed number of maps is the number of
  different addresses.\<close>

theorem get_map_correct:
  assumes "good_heap h {}" "near (set ks)" "2 * card (set ks) \<le> length h"
  shows "\<exists>ps m h'. get_maps ks (init_maps, h) = Some (Inr (ps, m, h')) \<and> length ps = length ks \<and>
    (\<forall>i < length ks. \<forall>j < length ks. ps ! i = ps ! j \<longleftrightarrow> ks ! i = ks ! j) \<and>
    (\<forall>i < length ks. \<exists>ms. ms_at m (ps ! i) = Some ms \<and> ms_map ms = ks ! i) \<and>
    num_maps m = Some (Inr (of_nat (card (set ks))))"
proof -
  obtain ps m h' T where t: "get_maps ks (init_maps, h) = Some (Inr (ps, m, h'))" "maps_ok (m, h') T"
      "map T ks = map Some ps" "dom T = set ks"
    using get_maps_ok [OF maps_ok_init [OF assms(1)], of ks] assms(2,3) by auto
  have len: "length ps = length ks" using arg_cong [OF t(3), of length] by simp
  have at: "T (ks ! i) = Some (ps ! i)" if "i < length ks" for i
    using arg_cong [OF t(3), of "\<lambda>xs. xs ! i"] that len by simp
  have "ps ! i = ps ! j \<longleftrightarrow> ks ! i = ks ! j" if "i < length ks" "j < length ks" for i j
    using at that maps_ok_inj [OF t(2)] by (metis option.inject)
  moreover have "\<exists>ms. ms_at m (ps ! i) = Some ms \<and> ms_map ms = ks ! i" if "i < length ks" for i
    using at [OF that] t(2) by (fastforce simp: maps_ok_def maps_hold_def)
  ultimately show ?thesis using t(1,4) num_maps_ok [OF t(2)] len by auto
qed

theorem get_map_correct_witness:
  "\<exists>ps m h'. get_maps [1, 2, 1] (init_maps, [16, 32, 48, 64]) = Some (Inr (ps, m, h')) \<and> length ps = length [1, 2, 1 :: u64] \<and>
    (\<forall>i < length [1, 2, 1 :: u64]. \<forall>j < length [1, 2, 1 :: u64]. ps ! i = ps ! j \<longleftrightarrow> [1, 2, 1 :: u64] ! i = [1, 2, 1] ! j) \<and>
    (\<forall>i < length [1, 2, 1 :: u64]. \<exists>ms. ms_at m (ps ! i) = Some ms \<and> ms_map ms = [1, 2, 1] ! i) \<and>
    num_maps m = Some (Inr (of_nat (card (set [1, 2, 1 :: u64]))))"
proof (rule get_map_correct)
  show "2 * card (set [1, 2, 1 :: u64]) \<le> length [16, 32, 48, 64 :: u64]" by (simp add: card_insert_if)
qed (auto simp: good_heap_def aligned_def near_def)

text \<open>Addresses \<open>2 ^ 32\<close> apart are confused: the difference has no low bits, the \<open>int\<close> is 0,
  and the second request gets the symbol of the first.\<close>

theorem get_map_confuses:
  "\<exists>m. get_maps [k, k + 2 ^ 32] (init_maps, [16, 32]) = Some (Inr ([16, 16], m, [])) \<and>
     ms_at m 16 = Some \<lparr>ms_maps = 0, ms_map = k, ms_sym = 0\<rparr> \<and> k \<noteq> k + 2 ^ 32"
proof -
  have ok: "maps_hold init_maps Lf (\<lambda>_. None)" by (simp add: maps_hold_def init_maps_def keyed_empty)
  have "good_heap [16, 32] (set (addrs Lf) \<union> ran (\<lambda>_. None))" by (simp add: good_heap_def aligned_def)
  from get_map_fresh [OF ok _ _ this, of k] obtain m t where
    m: "get_map k (init_maps, [16, 32]) = Some (Inr (16, m, []))" "maps_hold m t [k \<mapsto> 16]"
    by (auto simp: near_def)
  have "map_key m ` set (addrs t) = {k}" using m(2) by (simp add: maps_hold_def)
  then have "addrs t \<noteq> []" "\<forall>a \<in> set (addrs t). map_key m a = k" by auto
  moreover have "distinct (map (map_key m) (addrs t))"
    using m(2) by (intro descending_distinct) (simp add: maps_hold_def keyed_def)
  ultimately obtain a where a: "addrs t = [a]" "map_key m a = k" by (cases "addrs t"; cases "tl (addrs t)") auto
  have at: "map_at m a = Some \<lparr>mt_id = k, mt_ms = 16\<rparr>" using map_held [OF m(2), of a] a by (auto split: if_splits)
  have diff: "map_diff k (k + 2 ^ 32) = 0" by (simp add: map_diff_def)
  have neq: "k \<noteq> k + 2 ^ 32" by simp
  have "\<exists>p \<in> set (addrs t). (\<lambda>_. 0 :: int) p = 0 \<and>
      loop (locate_step (map_cmp m (k + 2 ^ 32)) (tree_of (map_trees m))) (Root_link, 0, True) = Some (Inr (Inr p))"
    using locate_hang [of "map_trees m" t "\<lambda>_. 0" "map_cmp m (k + 2 ^ 32)"] m(2) a at diff
    by (simp add: maps_hold_def keyed_def falling_def map_cmp_def)
  then have "loop (locate_step (map_cmp m (k + 2 ^ 32)) (tree_of (map_trees m))) (Root_link, 0, True) = Some (Inr (Inr a))"
    using a by simp
  moreover have "last_hit m (k + 2 ^ 32) = Inr False" using last_hit_ok [OF m(2)] neq by (auto split: if_splits)
  ultimately have "get_map (k + 2 ^ 32) (m, []) = Some (Inr (16, m\<lparr>last_ms := 16\<rparr>, []))"
    using at by (simp add: get_map_def)
  moreover have "ms_at m 16 = Some \<lparr>ms_maps = 0, ms_map = k, ms_sym = 0\<rparr>" using m(2) by (simp add: maps_hold_def)
  ultimately show ?thesis using m(1) neq by (intro exI [of _ "m\<lparr>last_ms := 16\<rparr>"]) simp
qed

end
