(* ===== verification/Chain_Data.thy ===== *)
theory Chain_Data
  imports Maps Callstack
begin

text \<open>
  The data of \<open>callchain.h\<close> and the comparisons of \<open>callchain.c\<close>: list entries, cursor
  nodes, and the four comparison functions that order the children of a node.
\<close>

subsection \<open>Symbols, flags, strings\<close>

text \<open>A C string is its bytes, a \<open>char *\<close> an option. Only the sign of \<open>strcmp\<close> is used.\<close>

type_synonym cstring = "u8 list"

fun strcmp :: "cstring \<Rightarrow> cstring \<Rightarrow> int" where
  "strcmp [] [] = 0"
| "strcmp [] (b # bs) = - 1"
| "strcmp (a # as) [] = 1"
| "strcmp (a # as) (b # bs) = (if a = b then strcmp as bs else if a < b then - 1 else 1)"

text \<open>The fields of \<open>struct symbol\<close> the comparisons read.\<close>

record symbol =
  sym_start :: u64
  sym_inlined :: bool
  sym_name :: cstring

type_synonym symtab = "u64 \<Rightarrow> symbol option"

text \<open>\<open>struct branch_flags\<close> is one 64-bit word with bit fields.\<close>

definition flag_predicted :: "u64 \<Rightarrow> bool" where
  "flag_predicted v = bit v 1"

definition flag_abort :: "u64 \<Rightarrow> bool" where
  "flag_abort v = bit v 3"

definition flag_cycles :: "u64 \<Rightarrow> u64" where
  "flag_cycles v = take_bit 16 (drop_bit 4 v)"

subsection \<open>Entries and nodes\<close>

text \<open>Of \<open>struct branch_type_stat\<close> only \<open>branch_to\<close> is ever written.\<close>

record callchain_list =
  cl_ip :: u64
  cl_ms :: map_symbol
  cl_srcline :: "cstring option"
  branch_count :: u64
  from_count :: u64
  cycles_count :: u64
  iter_count :: u64
  iter_cycles :: u64
  brtype_to :: "bool option"
  predicted_count :: u64
  abort_count :: u64

record cursor_node =
  cu_ip :: u64
  cu_ms :: map_symbol
  cu_srcline :: "cstring option"
  cu_branch :: bool
  branch_flags :: u64
  branch_from :: u64
  nr_loop_iter :: u32
  cu_iter_cycles :: u64

definition no_ms :: map_symbol where
  "no_ms = \<lparr>ms_maps = 0, ms_map = 0, ms_sym = 0\<rparr>"

definition zero_list :: callchain_list where
  "zero_list = \<lparr>cl_ip = 0, cl_ms = no_ms, cl_srcline = None, branch_count = 0, from_count = 0,
     cycles_count = 0, iter_count = 0, iter_cycles = 0, brtype_to = None, predicted_count = 0,
     abort_count = 0\<rparr>"

definition zero_cursor_node :: cursor_node where
  "zero_cursor_node = \<lparr>cu_ip = 0, cu_ms = no_ms, cu_srcline = None, cu_branch = False, branch_flags = 0,
     branch_from = 0, nr_loop_iter = 0, cu_iter_cycles = 0\<rparr>"

datatype chain_key = CCKEY_FUNCTION | CCKEY_ADDRESS | CCKEY_SRCLINE

datatype chain_mode = CHAIN_NONE | CHAIN_FLAT | CHAIN_GRAPH_ABS | CHAIN_GRAPH_REL | CHAIN_FOLDED

subsection \<open>Comparisons\<close>

datatype match_result = MATCH_ERROR | MATCH_EQ | MATCH_LT | MATCH_GT

definition match_chain_strings :: "cstring option \<Rightarrow> cstring option \<Rightarrow> match_result" where
  "match_chain_strings left right =
     (case (left, right) of
        (Some l, Some r) \<Rightarrow>
          let cmp = strcmp l r in if cmp \<noteq> 0 then if cmp < 0 then MATCH_LT else MATCH_GT else MATCH_EQ
      | (None, Some r) \<Rightarrow> MATCH_GT
      | (Some l, None) \<Rightarrow> MATCH_LT
      | (None, None) \<Rightarrow> MATCH_ERROR)"

text \<open>\<open>map__dso\<close> is a cast of the map's address, NULL for NULL. What \<open>mjf2\<close> prints is left out.\<close>

definition match_chain_dso_addresses :: "u64 \<Rightarrow> u64 \<Rightarrow> u64 \<Rightarrow> u64 \<Rightarrow> match_result" where
  "match_chain_dso_addresses left_map left_ip right_map right_ip =
     (let left_dso = (if left_map \<noteq> 0 then left_map else 0);
          right_dso = (if right_map \<noteq> 0 then right_map else 0) in
      if left_dso \<noteq> right_dso then if left_dso < right_dso then MATCH_LT else MATCH_GT
      else if left_ip \<noteq> right_ip then if left_ip < right_ip then MATCH_LT else MATCH_GT
      else MATCH_EQ)"

text \<open>The switch of \<open>match_chain\<close> with its fall-throughs.\<close>

definition match_addresses :: "cursor_node \<Rightarrow> callchain_list \<Rightarrow> match_result" where
  "match_addresses node cnode =
     match_chain_dso_addresses (ms_map (cl_ms cnode)) (cl_ip cnode) (ms_map (cu_ms node)) (cu_ip node)"

definition match_function :: "symtab \<Rightarrow> cursor_node \<Rightarrow> callchain_list \<Rightarrow> match_result result" where
  "match_function syms node cnode =
     (if ms_sym (cu_ms node) \<noteq> 0 \<and> ms_sym (cl_ms cnode) \<noteq> 0 then
        rbind (deref (syms (ms_sym (cl_ms cnode)))) (\<lambda>cs.
        rbind (deref (syms (ms_sym (cu_ms node)))) (\<lambda>ns. Inr (
          if sym_inlined cs \<or> sym_inlined ns then
            let match = match_chain_strings (Some (sym_name cs)) (Some (sym_name ns)) in
            if match \<noteq> MATCH_ERROR then match else match_addresses node cnode
          else match_chain_dso_addresses (ms_map (cl_ms cnode)) (sym_start cs) (ms_map (cu_ms node)) (sym_start ns))))
      else Inr (match_addresses node cnode))"

definition match_key :: "chain_key \<Rightarrow> symtab \<Rightarrow> cursor_node \<Rightarrow> callchain_list \<Rightarrow> match_result result" where
  "match_key key syms node cnode =
     (case key of
        CCKEY_SRCLINE \<Rightarrow>
          let match = match_chain_strings (cl_srcline cnode) (cu_srcline node) in
          if match \<noteq> MATCH_ERROR then Inr match else match_function syms node cnode
      | CCKEY_FUNCTION \<Rightarrow> match_function syms node cnode
      | CCKEY_ADDRESS \<Rightarrow> Inr (match_addresses node cnode))"

text \<open>The branch counters of a matched entry; \<open>False\<close> when \<open>ccalloc\<close> fails.\<close>

definition count_branch :: "cursor_node \<Rightarrow> callchain_list \<Rightarrow> alloc_state \<Rightarrow> bool \<times> callchain_list \<times> alloc_state" where
  "count_branch node cnode a =
     (let cnode = cnode\<lparr>branch_count := branch_count cnode + 1\<rparr> in
      if branch_from node \<noteq> 0 then
        let (ok, a) = (if brtype_to cnode = None then ccalloc a else (True, a)) in
        if \<not> ok then (False, cnode, a)
        else (True,
          cnode\<lparr>brtype_to := Some True,
                predicted_count := predicted_count cnode + (if flag_predicted (branch_flags node) then 1 else 0),
                abort_count := abort_count cnode + (if flag_abort (branch_flags node) then 1 else 0)\<rparr>, a)
      else (True,
        cnode\<lparr>brtype_to := map_option (\<lambda>_. False) (brtype_to cnode),
              cycles_count := cycles_count cnode + flag_cycles (branch_flags node),
              iter_count := iter_count cnode + scast (nr_loop_iter node),
              iter_cycles := iter_cycles cnode + cu_iter_cycles node,
              from_count := from_count cnode + 1\<rparr>, a))"

definition match_chain ::
  "chain_key \<Rightarrow> symtab \<Rightarrow> cursor_node \<Rightarrow> callchain_list \<Rightarrow> alloc_state \<Rightarrow>
     (match_result \<times> callchain_list \<times> alloc_state) result" where
  "match_chain key syms node cnode a =
     rbind (match_key key syms node cnode) (\<lambda>match. Inr (
       if match = MATCH_EQ \<and> cu_branch node then
         case count_branch node cnode a of (ok, cnode, a) \<Rightarrow> (if ok then match else MATCH_ERROR, cnode, a)
       else (match, cnode, a)))"

subsection \<open>Matching chains without symbols\<close>

definition chain_match :: "callchain_list \<Rightarrow> callchain_list \<Rightarrow> bool" where
  "chain_match base pair =
     (let match = match_chain_strings (cl_srcline base) (cl_srcline pair) in
      if match \<noteq> MATCH_ERROR then match = MATCH_EQ
      else match_chain_dso_addresses (ms_map (cl_ms base)) (cl_ip base) (ms_map (cl_ms pair)) (cl_ip pair) = MATCH_EQ)"

text \<open>The loop of \<open>callchain_cnode_matched\<close>: the entries of the pair still to come, and \<open>match\<close>.
  \<open>pair_chain\<close> past the last entry is the list head, which ends the loop with \<open>false\<close>.\<close>

fun cnode_matched_loop :: "callchain_list list \<Rightarrow> callchain_list list \<Rightarrow> bool \<Rightarrow> bool" where
  "cnode_matched_loop [] [] match = match"
| "cnode_matched_loop [] (p # ps) match = False"
| "cnode_matched_loop (b # bs) [] match = False"
| "cnode_matched_loop (b # bs) (p # ps) match =
     (if cl_srcline b = None \<or> cl_srcline p = None then cnode_matched_loop bs ps match
      else if chain_match b p then cnode_matched_loop bs ps True else False)"

definition callchain_cnode_matched :: "callchain_list list \<Rightarrow> callchain_list list \<Rightarrow> bool" where
  "callchain_cnode_matched base pair = cnode_matched_loop base pair False"

text \<open>\<open>callchain_avg_cycles\<close>, an \<open>s64\<close> sum of unsigned quotients.\<close>

fun avg_cycles_loop :: "u64 \<Rightarrow> callchain_list list \<Rightarrow> u64" where
  "avg_cycles_loop cycles [] = cycles"
| "avg_cycles_loop cycles (c # cs) =
     avg_cycles_loop
       (if cl_srcline c \<noteq> None \<and> branch_count c \<noteq> 0 then cycles + cycles_count c div branch_count c else cycles) cs"

definition callchain_avg_cycles :: "callchain_list list \<Rightarrow> int" where
  "callchain_avg_cycles val = sint (avg_cycles_loop 0 val)"

subsection \<open>Keys\<close>

text \<open>What an entry is compared by when it has no symbol: map and address, in this order.\<close>

definition cl_key :: "callchain_list \<Rightarrow> u64 \<times> u64" where
  "cl_key c = (ms_map (cl_ms c), cl_ip c)"

definition cu_key :: "cursor_node \<Rightarrow> u64 \<times> u64" where
  "cu_key n = (ms_map (cu_ms n), cu_ip n)"

definition key_less :: "u64 \<times> u64 \<Rightarrow> u64 \<times> u64 \<Rightarrow> bool" where
  "key_less k l \<longleftrightarrow> fst k < fst l \<or> fst k = fst l \<and> snd k < snd l"

definition key_match :: "u64 \<times> u64 \<Rightarrow> u64 \<times> u64 \<Rightarrow> match_result" where
  "key_match k l = (if k = l then MATCH_EQ else if key_less k l then MATCH_LT else MATCH_GT)"

lemma key_less_irrefl [simp]: "\<not> key_less k k"
  by (simp add: key_less_def)

lemma key_less_trans: "key_less k l \<Longrightarrow> key_less l m \<Longrightarrow> key_less k m"
  by (auto simp: key_less_def)

lemma key_less_linear: "key_less k l \<or> k = l \<or> key_less l k"
  by (cases k; cases l) (auto simp: key_less_def)

lemma key_less_asym: "key_less k l \<Longrightarrow> \<not> key_less l k"
  by (auto simp: key_less_def)

lemma key_match_simps [simp]:
  "key_match k l = MATCH_EQ \<longleftrightarrow> k = l" "key_match k l \<noteq> MATCH_ERROR"
  "key_match k l = MATCH_LT \<longleftrightarrow> key_less k l" "key_match k l = MATCH_GT \<longleftrightarrow> key_less l k"
  using key_less_linear [of k l] key_less_asym [of k l] by (auto simp: key_match_def)

lemma match_addresses_key: "match_addresses node cnode = key_match (cl_key cnode) (cu_key node)"
  by (auto simp: match_addresses_def match_chain_dso_addresses_def key_match_def key_less_def cl_key_def cu_key_def Let_def)

text \<open>An entry without symbol, source line and branch, as \<open>main\<close> makes them.\<close>

definition plain :: "cursor_node \<Rightarrow> bool" where
  "plain n \<longleftrightarrow> ms_sym (cu_ms n) = 0 \<and> \<not> cu_branch n"

lemma match_chain_plain:
  "plain n \<Longrightarrow> key \<noteq> CCKEY_SRCLINE \<Longrightarrow>
     match_chain key syms n c a = Inr (key_match (cl_key c) (cu_key n), c, a)"
  by (cases key) (simp_all add: match_chain_def match_key_def match_function_def plain_def match_addresses_key)

subsection \<open>Properties\<close>

text \<open>Without symbols and branches \<open>match_chain\<close> is a total order on map and address: it never
  fails, is EQ exactly on equal pairs, and LT and GT are the two directions of one
  transitive relation. It leaves the entry and the memory alone.\<close>

theorem match_chain_order:
  assumes "plain n" "key \<noteq> CCKEY_SRCLINE"
  shows "\<exists>m. match_chain key syms n c a = Inr (m, c, a) \<and> m \<noteq> MATCH_ERROR \<and>
    (m = MATCH_EQ \<longleftrightarrow> cl_key c = cu_key n) \<and> (m = MATCH_LT \<longleftrightarrow> key_less (cl_key c) (cu_key n)) \<and>
    (m = MATCH_GT \<longleftrightarrow> key_less (cu_key n) (cl_key c))"
  using match_chain_plain [OF assms, of syms c a] by simp

theorem match_chain_order_witness:
  "\<exists>m. match_chain CCKEY_FUNCTION (\<lambda>_. None) (zero_cursor_node\<lparr>cu_ip := 5\<rparr>) (zero_list\<lparr>cl_ip := 3\<rparr>)
      \<lparr>num_allocs = 0, num_frees = 0, leaf_frees = 0, plan = []\<rparr> =
      Inr (m, zero_list\<lparr>cl_ip := 3\<rparr>, \<lparr>num_allocs = 0, num_frees = 0, leaf_frees = 0, plan = []\<rparr>) \<and> m \<noteq> MATCH_ERROR \<and>
    (m = MATCH_EQ \<longleftrightarrow> cl_key (zero_list\<lparr>cl_ip := 3\<rparr>) = cu_key (zero_cursor_node\<lparr>cu_ip := 5\<rparr>)) \<and>
    (m = MATCH_LT \<longleftrightarrow> key_less (cl_key (zero_list\<lparr>cl_ip := 3\<rparr>)) (cu_key (zero_cursor_node\<lparr>cu_ip := 5\<rparr>))) \<and>
    (m = MATCH_GT \<longleftrightarrow> key_less (cu_key (zero_cursor_node\<lparr>cu_ip := 5\<rparr>)) (cl_key (zero_list\<lparr>cl_ip := 3\<rparr>)))"
  by (rule match_chain_order) (simp_all add: plain_def zero_cursor_node_def no_ms_def)

text \<open>Three entries of one map, two with symbols and one without.\<close>

definition cyc_syms :: symtab where
  "cyc_syms = [100 \<mapsto> \<lparr>sym_start = 1, sym_inlined = False, sym_name = []\<rparr>,
     200 \<mapsto> \<lparr>sym_start = 2, sym_inlined = False, sym_name = []\<rparr>]"

definition cyc_list :: "u64 \<Rightarrow> u64 \<Rightarrow> callchain_list" where
  "cyc_list pc y = zero_list\<lparr>cl_ip := pc, cl_ms := \<lparr>ms_maps = 0, ms_map = 64, ms_sym = y\<rparr>\<rparr>"

definition cyc_node :: "u64 \<Rightarrow> u64 \<Rightarrow> cursor_node" where
  "cyc_node pc y = zero_cursor_node\<lparr>cu_ip := pc, cu_ms := \<lparr>ms_maps = 0, ms_map = 64, ms_sym = y\<rparr>\<rparr>"

text \<open>With symbols on some entries only, the comparison by function is no order: of three
  entries the first is less than the second, the second less than the third and the third
  less than the first, for two entries with symbols compare by symbol and all others by
  address. The children of a node are then kept in a search tree without an order.\<close>

theorem match_function_cycle:
  "match_key CCKEY_FUNCTION cyc_syms (cyc_node 10 200) (cyc_list 30 100) = Inr MATCH_LT \<and>
   match_key CCKEY_FUNCTION cyc_syms (cyc_node 20 0) (cyc_list 10 200) = Inr MATCH_LT \<and>
   match_key CCKEY_FUNCTION cyc_syms (cyc_node 30 100) (cyc_list 20 0) = Inr MATCH_LT"
  by (simp add: match_key_def match_function_def cyc_syms_def cyc_list_def cyc_node_def zero_list_def
      zero_cursor_node_def match_addresses_def match_chain_dso_addresses_def)

lemma match_strings_eq: "match_chain_strings (Some s) (Some t) = MATCH_EQ \<longleftrightarrow> s = t"
proof -
  have "strcmp s t = 0 \<longleftrightarrow> s = t" by (induction s t rule: strcmp.induct) auto
  then show ?thesis by (auto simp: match_chain_strings_def Let_def)
qed

lemma chain_match_srcline:
  assumes "cl_srcline b = Some s" "cl_srcline p = Some t"
  shows "chain_match b p \<longleftrightarrow> s = t"
proof -
  have "match_chain_strings (Some s) (Some t) \<noteq> MATCH_ERROR" by (simp add: match_chain_strings_def Let_def)
  then show ?thesis using assms match_strings_eq by (simp add: chain_match_def)
qed

lemma matched_loop_srclines:
  "\<forall>b \<in> set bs. cl_srcline b \<noteq> None \<Longrightarrow> \<forall>p \<in> set ps. cl_srcline p \<noteq> None \<Longrightarrow>
     cnode_matched_loop bs ps m \<longleftrightarrow> map cl_srcline bs = map cl_srcline ps \<and> (m \<or> bs \<noteq> [])"
  by (induction bs ps m rule: cnode_matched_loop.induct) (auto simp: chain_match_srcline)

text \<open>\<open>callchain_cnode_matched\<close> calls two chains with source lines matched exactly when they have
  the same length and the same source lines entry by entry, and are not empty.\<close>

theorem cnode_matched_srclines:
  assumes "\<forall>b \<in> set bs. cl_srcline b \<noteq> None" "\<forall>p \<in> set ps. cl_srcline p \<noteq> None"
  shows "callchain_cnode_matched bs ps \<longleftrightarrow> map cl_srcline bs = map cl_srcline ps \<and> bs \<noteq> []"
  using matched_loop_srclines [OF assms, of False] by (simp add: callchain_cnode_matched_def)

theorem cnode_matched_srclines_witness:
  "callchain_cnode_matched [zero_list\<lparr>cl_srcline := Some [65]\<rparr>] [zero_list\<lparr>cl_srcline := Some [65], cl_ip := 3\<rparr>] \<longleftrightarrow>
     map cl_srcline [zero_list\<lparr>cl_srcline := Some [65]\<rparr>] = map cl_srcline [zero_list\<lparr>cl_srcline := Some [65], cl_ip := 3\<rparr>] \<and>
     [zero_list\<lparr>cl_srcline := Some [65]\<rparr>] \<noteq> []"
  by (rule cnode_matched_srclines) simp_all

end
