(* ===== verification/Cursor.thy ===== *)
theory Cursor
  imports Chain_Data
begin

text \<open>
  The callchain cursor of \<open>callchain.h\<close> and \<open>callchain.c\<close>: a linked list of nodes that is
  filled by one caller and read by another, and keeps its nodes for the next filling. It
  refines a queue of entries.
\<close>

subsection \<open>The code\<close>

text \<open>
  \<open>cu_nodes\<close> is the list from \<open>first\<close> on. \<open>cu_last\<close> is the place of the link \<open>*last\<close>
  denotes: 0 for \<open>&first\<close>, \<open>i + 1\<close> for the \<open>next\<close> field of node \<open>i\<close>. \<open>cu_curr\<close> is the
  place of \<open>curr\<close>, the length of the list for NULL.
\<close>

record cursor =
  cu_nr :: u64
  cu_nodes :: "cursor_node list"
  cu_last :: nat
  cu_pos :: u64
  cu_curr :: nat

definition zero_cursor :: cursor where
  "zero_cursor = \<lparr>cu_nr = 0, cu_nodes = [], cu_last = 0, cu_pos = 0, cu_curr = 0\<rparr>"

definition callchain_cursor_reset :: "cursor \<Rightarrow> cursor" where
  "callchain_cursor_reset c = c\<lparr>cu_nr := 0, cu_last := 0\<rparr>"

definition callchain_cursor_commit :: "cursor option \<Rightarrow> cursor option" where
  "callchain_cursor_commit c = (case c of None \<Rightarrow> None | Some c \<Rightarrow> Some (c\<lparr>cu_curr := 0, cu_pos := 0\<rparr>))"

text \<open>The current node; NULL at the end of the filled part. With \<open>curr\<close> at the end of the list
  the function returns NULL as well, its value then.\<close>

definition callchain_cursor_current :: "cursor option \<Rightarrow> cursor_node option" where
  "callchain_cursor_current c =
     (case c of None \<Rightarrow> None
      | Some c \<Rightarrow> if cu_pos c = cu_nr c then None
          else if cu_curr c < length (cu_nodes c) then Some (cu_nodes c ! cu_curr c) else None)"

definition callchain_cursor_advance :: "cursor \<Rightarrow> cursor result" where
  "callchain_cursor_advance c =
     (if cu_curr c < length (cu_nodes c)
      then Inr (c\<lparr>cu_curr := cu_curr c + 1, cu_pos := cu_pos c + 1\<rparr>)
      else Inl Null_deref)"

text \<open>\<open>callchain_cursor_append\<close>: without flags the node keeps the flags of its last use. The
  result says whether there was memory.\<close>

definition callchain_cursor_append ::
  "u64 \<Rightarrow> map_symbol \<Rightarrow> bool \<Rightarrow> u64 option \<Rightarrow> u32 \<Rightarrow> u64 \<Rightarrow> u64 \<Rightarrow> cstring option \<Rightarrow>
     cursor \<times> alloc_state \<Rightarrow> bool \<times> cursor \<times> alloc_state" where
  "callchain_cursor_append pc ms branch flags loop_iter cycles from src = (\<lambda>(c, a).
     let i = cu_last c;
         (ok, c, a) = (if i < length (cu_nodes c) then (True, c, a)
           else case ccalloc a of (ok, a) \<Rightarrow>
             (ok, if ok then c\<lparr>cu_nodes := cu_nodes c @ [zero_cursor_node]\<rparr> else c, a)) in
     if \<not> ok then (False, c, a)
     else
       let node = (cu_nodes c ! i)\<lparr>cu_ip := pc, cu_ms := ms, cu_branch := branch, nr_loop_iter := loop_iter,
             cu_iter_cycles := cycles, cu_srcline := src, branch_from := from\<rparr>;
           node = (case flags of None \<Rightarrow> node | Some f \<Rightarrow> node\<lparr>branch_flags := f\<rparr>) in
       (True, c\<lparr>cu_nodes := (cu_nodes c)[i := node], cu_nr := cu_nr c + 1, cu_last := i + 1\<rparr>, a))"

text \<open>The loop of \<open>callchain_cursor__copy\<close>, one turn.\<close>

definition copy_step ::
  "cursor \<times> cursor \<times> alloc_state \<Rightarrow>
     (cursor \<times> cursor \<times> alloc_state, bool \<times> cursor \<times> cursor \<times> alloc_state) flow result" where
  "copy_step = (\<lambda>(dst, src, a).
     case callchain_cursor_current (Some src) of
       None \<Rightarrow> Inr (Done (True, dst, src, a))
     | Some node \<Rightarrow>
         (case callchain_cursor_append (cu_ip node) (cu_ms node) (cu_branch node) (Some (branch_flags node))
                 (nr_loop_iter node) (cu_iter_cycles node) (branch_from node) (cu_srcline node) (dst, a) of
            (ok, dst, a) \<Rightarrow>
              if ok then rbind (callchain_cursor_advance src) (\<lambda>src. Inr (Again (dst, src, a)))
              else Inr (Done (False, dst, src, a))))"

definition callchain_cursor_copy :: "cursor \<Rightarrow> cursor \<Rightarrow> alloc_state \<Rightarrow> (bool \<times> cursor \<times> cursor \<times> alloc_state) run" where
  "callchain_cursor_copy dst src a =
     loop copy_step (callchain_cursor_reset dst, the (callchain_cursor_commit (Some src)), a)"

text \<open>\<open>callchain_cursor_snapshot\<close>: the destination starts at the source's current node and keeps
  its link to the end; the nodes stay shared in the code.\<close>

definition callchain_cursor_snapshot :: "cursor \<Rightarrow> cursor" where
  "callchain_cursor_snapshot src =
     src\<lparr>cu_nodes := drop (cu_curr src) (cu_nodes src), cu_nr := cu_nr src - cu_pos src,
         cu_last := cu_last src - cu_curr src, cu_curr := 0\<rparr>"

subsection \<open>The queue it refines\<close>

text \<open>
  \<open>cursor_ok c\<close>: the filled part is a prefix of the nodes, ends where \<open>last\<close> points and has
  the length \<open>nr\<close>. \<open>written c\<close>: what has been appended since the last reset.
\<close>

definition cursor_ok :: "cursor \<Rightarrow> bool" where
  "cursor_ok c \<longleftrightarrow> cu_last c \<le> length (cu_nodes c) \<and> cu_nr c = of_nat (cu_last c) \<and> cu_last c < 2 ^ 32"

definition written :: "cursor \<Rightarrow> cursor_node list" where
  "written c = take (cu_last c) (cu_nodes c)"

text \<open>\<open>reading c ns\<close>: the reader still has the entries \<open>ns\<close> before it.\<close>

definition reading :: "cursor \<Rightarrow> cursor_node list \<Rightarrow> bool" where
  "reading c ns \<longleftrightarrow> cursor_ok c \<and> cu_curr c \<le> cu_last c \<and> cu_pos c = of_nat (cu_curr c) \<and>
     ns = drop (cu_curr c) (written c)"

text \<open>Entries as the callers give them; flags of an entry without flags are not its own.\<close>

record entry =
  e_ip :: u64
  e_ms :: map_symbol
  e_branch :: bool
  e_loop_iter :: u32
  e_cycles :: u64
  e_from :: u64
  e_srcline :: "cstring option"

definition entry_of :: "cursor_node \<Rightarrow> entry" where
  "entry_of n = \<lparr>e_ip = cu_ip n, e_ms = cu_ms n, e_branch = cu_branch n, e_loop_iter = nr_loop_iter n,
     e_cycles = cu_iter_cycles n, e_from = branch_from n, e_srcline = cu_srcline n\<rparr>"

lemma length_written [simp]: "cursor_ok c \<Longrightarrow> length (written c) = cu_last c"
  by (simp add: cursor_ok_def written_def)

lemma cursor_reset_ok: "cursor_ok c \<Longrightarrow> cursor_ok (callchain_cursor_reset c)" "written (callchain_cursor_reset c) = []"
  by (simp_all add: cursor_ok_def written_def callchain_cursor_reset_def)

lemma zero_cursor_ok: "cursor_ok zero_cursor" "written zero_cursor = []"
  by (simp_all add: cursor_ok_def written_def zero_cursor_def)

text \<open>Appending adds the entry at the end.\<close>

lemma cursor_append_ok:
  assumes c: "cursor_ok c" "cu_last c < 2 ^ 32 - 1" and a: "plan a = []"
  shows "\<exists>c' a' n. callchain_cursor_append pc ms branch flags it cy from src (c, a) = (True, c', a') \<and>
    cursor_ok c' \<and> written c' = written c @ [n] \<and> plan a' = [] \<and>
    entry_of n = \<lparr>e_ip = pc, e_ms = ms, e_branch = branch, e_loop_iter = it, e_cycles = cy, e_from = from, e_srcline = src\<rparr> \<and>
    (\<forall>f. flags = Some f \<longrightarrow> branch_flags n = f)"
proof (cases "cu_last c < length (cu_nodes c)")
  case True
  then show ?thesis using c a
    by (cases flags) (auto simp: callchain_cursor_append_def cursor_ok_def written_def entry_of_def take_Suc_conv_app_nth Let_def)
next
  case False
  then have "cu_last c = length (cu_nodes c)" using c(1) by (simp add: cursor_ok_def)
  then show ?thesis using c a ccalloc_plenty [OF a]
    by (cases flags) (auto simp: callchain_cursor_append_def cursor_ok_def written_def entry_of_def take_Suc_conv_app_nth Let_def)
qed

lemma cursor_commit_ok:
  "cursor_ok c \<Longrightarrow> reading (the (callchain_cursor_commit (Some c))) (written c)"
  by (simp add: callchain_cursor_commit_def reading_def cursor_ok_def written_def)

lemma of_nat_u32_inj:
  assumes "m < 2 ^ 32" "n < 2 ^ 32"
  shows "of_nat m = (of_nat n :: u64) \<longleftrightarrow> m = n"
proof -
  have "m < 2 ^ 64" "n < 2 ^ 64" using assms by simp_all
  then show ?thesis by (metis unat_of_nat_u64)
qed

lemma reading_current:
  "reading c ns \<Longrightarrow> callchain_cursor_current (Some c) = (case ns of [] \<Rightarrow> None | n # _ \<Rightarrow> Some n)"
proof -
  assume r: "reading c ns"
  then have b: "cu_curr c \<le> cu_last c" "cu_last c \<le> length (cu_nodes c)" "cu_last c < 2 ^ 32"
      "cu_pos c = of_nat (cu_curr c)" "cu_nr c = of_nat (cu_last c)" "ns = drop (cu_curr c) (take (cu_last c) (cu_nodes c))"
    by (auto simp: reading_def cursor_ok_def written_def)
  then have "cu_pos c = cu_nr c \<longleftrightarrow> cu_curr c = cu_last c" using of_nat_u32_inj by simp
  then show ?thesis using b
    by (cases "cu_curr c = cu_last c") (auto simp: callchain_cursor_current_def Cons_nth_drop_Suc [symmetric] split: list.split)
qed

lemma reading_advance:
  assumes "reading c (n # ns)"
  shows "\<exists>c'. callchain_cursor_advance c = Inr c' \<and> reading c' ns \<and> cu_last c' = cu_last c \<and>
     cu_nodes c' = cu_nodes c \<and> cu_nr c' = cu_nr c"
proof -
  have r: "cursor_ok c" "cu_pos c = of_nat (cu_curr c)" "n # ns = drop (cu_curr c) (written c)"
    using assms by (simp_all add: reading_def)
  have len: "length (written c) = cu_last c" using r(1) by simp
  have lt: "cu_curr c < cu_last c" using arg_cong [OF r(3), of length] len by simp
  then have "cu_curr c < length (cu_nodes c)" using r(1) by (simp add: cursor_ok_def)
  moreover have "ns = drop (Suc (cu_curr c)) (written c)" using r(3) by (metis drop_Suc list.sel(3) tl_drop)
  ultimately show ?thesis using r(1,2) lt
    by (simp add: callchain_cursor_advance_def reading_def cursor_ok_def written_def)
qed

text \<open>Copying appends what is left to read.\<close>

lemma entry_flags_eq: "entry_of m = entry_of n \<Longrightarrow> branch_flags m = branch_flags n \<Longrightarrow> m = n"
  by (cases m; cases n) (simp add: entry_of_def)

lemma copy_loop:
  "reading src ns \<Longrightarrow> cursor_ok dst \<Longrightarrow> cu_last dst + length ns < 2 ^ 32 \<Longrightarrow> plan a = [] \<Longrightarrow>
     \<exists>dst' src' a'. loop copy_step (dst, src, a) = Some (Inr (True, dst', src', a')) \<and>
       cursor_ok dst' \<and> written dst' = written dst @ ns \<and> cu_nodes src' = cu_nodes src \<and>
       cu_nr src' = cu_nr src \<and> cu_last src' = cu_last src \<and> plan a' = []"
proof (induction ns arbitrary: src dst a)
  case Nil
  have "copy_step (dst, src, a) = Inr (Done (True, dst, src, a))"
    using reading_current [OF Nil(1)] by (simp add: copy_step_def)
  then show ?case using Nil by (simp add: loop_step)
next
  case (Cons n ns)
  obtain dst1 a1 m where app: "callchain_cursor_append (cu_ip n) (cu_ms n) (cu_branch n) (Some (branch_flags n))
        (nr_loop_iter n) (cu_iter_cycles n) (branch_from n) (cu_srcline n) (dst, a) = (True, dst1, a1)"
      "cursor_ok dst1" "written dst1 = written dst @ [m]" "plan a1 = []" "m = n"
  proof -
    obtain c' a' m where "callchain_cursor_append (cu_ip n) (cu_ms n) (cu_branch n) (Some (branch_flags n))
        (nr_loop_iter n) (cu_iter_cycles n) (branch_from n) (cu_srcline n) (dst, a) = (True, c', a')"
      "cursor_ok c'" "written c' = written dst @ [m]" "plan a' = []" "entry_of m = entry_of n" "branch_flags m = branch_flags n"
      using cursor_append_ok [OF Cons.prems(2) _ Cons.prems(4), of "cu_ip n" "cu_ms n" "cu_branch n" "Some (branch_flags n)"
          "nr_loop_iter n" "cu_iter_cycles n" "branch_from n" "cu_srcline n"] Cons.prems(3)
      by (auto simp: entry_of_def)
    then show ?thesis using that entry_flags_eq by blast
  qed
  obtain src1 where src1: "callchain_cursor_advance src = Inr src1" "reading src1 ns" "cu_last src1 = cu_last src"
      "cu_nodes src1 = cu_nodes src" "cu_nr src1 = cu_nr src"
    using reading_advance [OF Cons.prems(1)] by blast
  have "copy_step (dst, src, a) = Inr (Again (dst1, src1, a1))"
    using reading_current [OF Cons.prems(1)] app(1) src1(1) by (simp add: copy_step_def)
  moreover have "cu_last dst1 = Suc (cu_last dst)"
    using arg_cong [OF app(3), of length] app(2) Cons.prems(2) by simp
  ultimately show ?case
    using Cons.IH [OF src1(2) app(2) _ app(4)] Cons.prems(3) app(3,5) src1(3-5) by (simp add: loop_step)
qed

subsection \<open>Properties\<close>

text \<open>C9. With enough memory \<open>callchain_cursor__copy\<close> ends, and the destination then holds the entries of the source,
  with all their fields, however the destination was used before.\<close>

theorem cursor_copy_correct:
  assumes "cursor_ok dst" "cursor_ok src" "plan a = []"
  shows "\<exists>dst' src' a'. callchain_cursor_copy dst src a = Some (Inr (True, dst', src', a')) \<and>
    cursor_ok dst' \<and> written dst' = written src \<and> written src' = written src"
proof -
  have len: "cu_last (callchain_cursor_reset dst) + length (written src) < 2 ^ 32"
    using assms(2) by (simp add: callchain_cursor_reset_def cursor_ok_def)
  from copy_loop [OF cursor_commit_ok [OF assms(2)] cursor_reset_ok(1) [OF assms(1)] len assms(3)]
  show ?thesis
    by (auto simp: callchain_cursor_copy_def cursor_reset_ok(2)) (auto simp: written_def callchain_cursor_commit_def)
qed

definition cursor_node_of :: "u64 \<Rightarrow> u64 \<Rightarrow> cursor_node" where
  "cursor_node_of pc m = zero_cursor_node\<lparr>cu_ip := pc, cu_ms := no_ms\<lparr>ms_map := m\<rparr>\<rparr>"

definition two_nodes :: cursor where
  "two_nodes = \<lparr>cu_nr = 2, cu_nodes = [cursor_node_of 1 2, cursor_node_of 3 4, cursor_node_of 5 6], cu_last = 2, cu_pos = 0, cu_curr = 0\<rparr>"

theorem cursor_copy_correct_witness:
  "\<exists>dst' src' a'. callchain_cursor_copy zero_cursor two_nodes \<lparr>num_allocs = 0, num_frees = 0, leaf_frees = 0, plan = []\<rparr> =
      Some (Inr (True, dst', src', a')) \<and>
    cursor_ok dst' \<and> written dst' = written two_nodes \<and> written src' = written two_nodes"
  by (rule cursor_copy_correct) (simp_all add: zero_cursor_def cursor_ok_def two_nodes_def)

text \<open>A node kept from an earlier filling keeps its branch flags when it is reused without
  flags: the new entry then carries the flags of the old one.\<close>

theorem cursor_stale_flags:
  assumes "cu_last c < length (cu_nodes c)" "cu_last c = n"
  shows "\<exists>c'. callchain_cursor_append pc ms True None it cy from src (c, a) = (True, c', a) \<and>
    cu_ip (cu_nodes c' ! n) = pc \<and> branch_flags (cu_nodes c' ! n) = branch_flags (cu_nodes c ! n)"
  using assms by (simp add: callchain_cursor_append_def Let_def)

theorem cursor_stale_flags_witness:
  "\<exists>c'. callchain_cursor_append 7 no_ms True None 0 0 0 None
      (two_nodes\<lparr>cu_nr := 0, cu_last := 0, cu_nodes := [zero_cursor_node\<lparr>branch_flags := 10\<rparr>]\<rparr>,
       \<lparr>num_allocs = 0, num_frees = 0, leaf_frees = 0, plan = []\<rparr>) =
      (True, c', \<lparr>num_allocs = 0, num_frees = 0, leaf_frees = 0, plan = []\<rparr>) \<and>
    cu_ip (cu_nodes c' ! 0) = 7 \<and> branch_flags (cu_nodes c' ! 0) = 10"
  using cursor_stale_flags [of "two_nodes\<lparr>cu_nr := 0, cu_last := 0, cu_nodes := [zero_cursor_node\<lparr>branch_flags := 10\<rparr>]\<rparr>" 0
      7 no_ms 0 0 0 None "\<lparr>num_allocs = 0, num_frees = 0, leaf_frees = 0, plan = []\<rparr>"]
  by simp

end
