(* ===== verification/Chain_Tree.thy ===== *)
theory Chain_Tree
  imports Cursor
begin

text \<open>
  The radix trees of \<open>callchain.c\<close>: nodes in memory, each with a list of entries and a
  red-black tree of children. A node is named by one address, which also stands for the
  red-black nodes inside it.
\<close>

subsection \<open>Memory\<close>

record callchain_node =
  cn_parent :: u64
  cn_val :: "callchain_list list"
  rb_root_in :: u64
  rb_root_out :: u64
  val_nr :: u32
  cn_count :: u32
  children_count :: u32
  cn_hit :: u64
  children_hit :: u64

text \<open>\<open>in_mem\<close> and \<open>out_mem\<close>: the fields \<open>rb_node_in\<close> and \<open>rb_node\<close> of the nodes. \<open>ch_heap\<close>: the
  addresses the coming allocations of nodes return. \<open>deepest\<close> is \<open>__max_depth\<close>.\<close>

record chains =
  cnodes :: "u64 \<Rightarrow> callchain_node option"
  in_mem :: "u64 \<Rightarrow> rb_node option"
  out_mem :: "u64 \<Rightarrow> rb_node option"
  ch_alloc :: alloc_state
  ch_heap :: heap
  deepest :: u64

record callchain_root =
  max_depth :: u64
  cr_node :: u64

text \<open>The key of \<open>callchain_param\<close> and the symbols.\<close>

record match_env =
  env_key :: chain_key
  env_syms :: symtab

definition ld_cn :: "chains \<Rightarrow> u64 \<Rightarrow> callchain_node result" where
  "ld_cn c p = deref (cnodes c p)"

definition upd_cn :: "u64 \<Rightarrow> (callchain_node \<Rightarrow> callchain_node) \<Rightarrow> chains \<Rightarrow> chains result" where
  "upd_cn p f c = rbind (ld_cn c p) (\<lambda>n. Inr (c\<lparr>cnodes := (cnodes c)(p \<mapsto> f n)\<rparr>))"

definition zero_cnode :: callchain_node where
  "zero_cnode = \<lparr>cn_parent = 0, cn_val = [], rb_root_in = 0, rb_root_out = 0, val_nr = 0, cn_count = 0,
     children_count = 0, cn_hit = 0, children_hit = 0\<rparr>"

definition callchain_cumul_hits :: "callchain_node \<Rightarrow> u64" where
  "callchain_cumul_hits n = cn_hit n + children_hit n"

definition callchain_cumul_counts :: "callchain_node \<Rightarrow> u32" where
  "callchain_cumul_counts n = cn_count n + children_count n"

text \<open>\<open>callchain_init\<close>, which leaves the counts of the node as they are.\<close>

definition callchain_init :: "callchain_root \<Rightarrow> chains \<Rightarrow> (callchain_root \<times> chains) result" where
  "callchain_init root c =
     rbind (upd_cn (cr_node root) (\<lambda>n. n\<lparr>cn_val := [], cn_parent := 0, cn_hit := 0, children_hit := 0,
       rb_root_in := 0\<rparr>) c) (\<lambda>c. Inr (root\<lparr>max_depth := 0\<rparr>, c))"

text \<open>The children of a node as a tree the red-black functions work on, and back.\<close>

definition kids_tree :: "chains \<Rightarrow> callchain_node \<Rightarrow> rb_state" where
  "kids_tree c n = \<lparr>mem = in_mem c, rb_root = rb_root_in n\<rparr>"

definition put_kids :: "u64 \<Rightarrow> rb_state \<Rightarrow> chains \<Rightarrow> chains result" where
  "put_kids p s c = upd_cn p (\<lambda>n. n\<lparr>rb_root_in := rb_root s\<rparr>) (c\<lparr>in_mem := mem s\<rparr>)"

text \<open>\<open>rb_link_node\<close> and \<open>rb_insert_color\<close> on the children of \<open>p\<close>.\<close>

definition link_child :: "u64 \<Rightarrow> u64 \<Rightarrow> rb_link \<Rightarrow> u64 \<Rightarrow> chains \<Rightarrow> chains run" where
  "link_child p par lk new c =
     obind (Some (ld_cn c p)) (\<lambda>n.
     obind (Some (rb_link_node new par lk (kids_tree c n))) (\<lambda>s.
     obind (rb_insert_color new s) (\<lambda>s. Some (put_kids p s c))))"

subsection \<open>New nodes\<close>

definition calloc_cnode :: "chains \<Rightarrow> u64 \<times> chains" where
  "calloc_cnode c =
     (case ccalloc (ch_alloc c) of (ok, a) \<Rightarrow>
        (case ch_heap c of
           [] \<Rightarrow> (0, c\<lparr>ch_alloc := a\<rparr>)
         | p # h \<Rightarrow>
             if ok \<and> p \<noteq> 0 then
               (p, c\<lparr>ch_alloc := a, ch_heap := h, cnodes := (cnodes c)(p \<mapsto> zero_cnode),
                     in_mem := (in_mem c)(p \<mapsto> zero_node), out_mem := (out_mem c)(p \<mapsto> zero_node)\<rparr>)
             else (0, c\<lparr>ch_alloc := a\<rparr>)))"

text \<open>\<open>while (n) { child->parent = new; n = rb_next(n); }\<close>\<close>

partial_function (option) adopt :: "u64 \<Rightarrow> u64 \<Rightarrow> chains \<Rightarrow> chains run" where
  [code]: "adopt new n c =
     (if n = 0 then Some (Inr c)
      else obind (Some (upd_cn n (\<lambda>child. child\<lparr>cn_parent := new\<rparr>) c)) (\<lambda>c.
        obind (rb_next \<lparr>mem = in_mem c, rb_root = 0\<rparr> n) (\<lambda>n. adopt new n c)))"

definition create_child :: "u64 \<Rightarrow> bool \<Rightarrow> chains \<Rightarrow> (u64 \<times> chains) run" where
  "create_child parent inherit_children c =
     (case calloc_cnode c of (new, c) \<Rightarrow>
        if new = 0 then Some (Inr (0, c))
        else
          obind (Some (upd_cn new (\<lambda>n. n\<lparr>cn_parent := parent\<rparr>) c)) (\<lambda>c.
            if \<not> inherit_children then Some (Inr (new, c))
            else
              obind (Some (ld_cn c parent)) (\<lambda>pn.
              obind (Some (upd_cn new (\<lambda>n. n\<lparr>rb_root_in := rb_root_in pn\<rparr>) c)) (\<lambda>c.
              obind (Some (upd_cn parent (\<lambda>n. n\<lparr>rb_root_in := 0\<rparr>) c)) (\<lambda>c.
              obind (rb_first (kids_tree c pn)) (\<lambda>n.
              obind (adopt new n c) (\<lambda>c.
              obind (link_child parent 0 Root_link new c) (\<lambda>c. Some (Inr (new, c))))))))))"

text \<open>The entry made of a cursor node; \<open>None\<close> when \<open>ccalloc\<close> fails.\<close>

definition new_entry :: "cursor_node \<Rightarrow> alloc_state \<Rightarrow> callchain_list option \<times> alloc_state" where
  "new_entry n a =
     (case ccalloc a of (ok, a) \<Rightarrow>
        if \<not> ok then (None, a)
        else
          let call = zero_list\<lparr>cl_ip := cu_ip n, cl_ms := cu_ms n, cl_srcline := cu_srcline n\<rparr> in
          if \<not> cu_branch n then (Some call, a)
          else if branch_from n \<noteq> 0 then
            (case ccalloc a of (ok, a) \<Rightarrow>
               if \<not> ok then (None, fst (zfree a (brtype_to call)))
               else (Some (call\<lparr>branch_count := 1, brtype_to := Some True,
                       predicted_count := (if flag_predicted (branch_flags n) then 1 else 0),
                       abort_count := (if flag_abort (branch_flags n) then 1 else 0)\<rparr>), a))
          else
            (Some (call\<lparr>branch_count := 1, cycles_count := flag_cycles (branch_flags n),
               iter_count := scast (nr_loop_iter n), iter_cycles := cu_iter_cycles n\<rparr>), a))"

text \<open>The loop of \<open>fill_node\<close>: entries are added at the tail.\<close>

partial_function (option) fill_loop ::
  "callchain_list list \<Rightarrow> cursor \<Rightarrow> alloc_state \<Rightarrow> (bool \<times> callchain_list list \<times> cursor \<times> alloc_state) run" where
  [code]: "fill_loop val cur a =
     (case callchain_cursor_current (Some cur) of
        None \<Rightarrow> Some (Inr (True, val, cur, a))
      | Some n \<Rightarrow>
          (case new_entry n a of (call, a) \<Rightarrow>
             (case call of
                None \<Rightarrow> Some (Inr (False, val, cur, a))
              | Some e \<Rightarrow>
                  obind (Some (callchain_cursor_advance cur)) (\<lambda>cur. fill_loop (val @ [e]) cur a))))"

definition fill_node :: "u64 \<Rightarrow> cursor \<times> chains \<Rightarrow> (bool \<times> cursor \<times> chains) run" where
  "fill_node node = (\<lambda>(cur, c).
     obind (Some (upd_cn node (\<lambda>n. n\<lparr>val_nr := ucast (cu_nr cur - cu_pos cur)\<rparr>) c)) (\<lambda>c.
     obind (Some (ld_cn c node)) (\<lambda>n.
     obind (fill_loop (cn_val n) cur (ch_alloc c)) (\<lambda>(ok, val, cur, a).
     obind (Some (upd_cn node (\<lambda>n. n\<lparr>cn_val := val\<rparr>) (c\<lparr>ch_alloc := a\<rparr>))) (\<lambda>c.
       Some (Inr (ok, cur, c)))))))"

definition add_child_node :: "u64 \<Rightarrow> u64 \<Rightarrow> cursor \<times> chains \<Rightarrow> (u64 \<times> cursor \<times> chains) run" where
  "add_child_node parent period = (\<lambda>(cur, c).
     obind (create_child parent False c) (\<lambda>(new, c).
       if new = 0 then Some (Inr (0, cur, c))
       else obind (fill_node new (cur, c)) (\<lambda>(ok, cur, c).
         if \<not> ok then
           obind (Some (ld_cn c new)) (\<lambda>n.
             let a = fold (\<lambda>e a. fst (zfree a (brtype_to e))) (cn_val n) (ch_alloc c) in
             Some (Inr (0, cur, c\<lparr>ch_alloc := a, cnodes := (cnodes c)(new := None)\<rparr>)))
         else
           obind (Some (upd_cn new (\<lambda>n. n\<lparr>children_hit := 0, cn_hit := period, children_count := 0, cn_count := 1\<rparr>) c)) (\<lambda>c.
             Some (Inr (new, cur, c))))))"

subsection \<open>Splitting\<close>

text \<open>\<open>match_chain\<close> on the first entry of a node: the code writes through the entry.\<close>

definition match_first :: "match_env \<Rightarrow> cursor_node \<Rightarrow> u64 \<Rightarrow> chains \<Rightarrow> (match_result \<times> chains) result" where
  "match_first env node p c =
     rbind (ld_cn c p) (\<lambda>n. case cn_val n of
       [] \<Rightarrow> Inl Out_of_bounds
     | e # es \<Rightarrow>
         rbind (match_chain (env_key env) (env_syms env) node e (ch_alloc c)) (\<lambda>(m, e, a).
         rbind (upd_cn p (\<lambda>n. n\<lparr>cn_val := e # es\<rparr>) (c\<lparr>ch_alloc := a\<rparr>)) (\<lambda>c. Inr (m, c))))"

text \<open>The entries from \<open>to_split\<close> on, its place in the list here, move to the new node, with the
  parent's hits and children.\<close>

definition move_tail :: "u64 \<Rightarrow> u64 \<Rightarrow> nat \<Rightarrow> u64 \<Rightarrow> chains \<Rightarrow> chains result" where
  "move_tail parent new to_split idx_local c =
     rbind (ld_cn c parent) (\<lambda>p.
       if \<not> to_split < length (cn_val p) then Inl Out_of_bounds
       else
         rbind (upd_cn new (\<lambda>n. n\<lparr>cn_val := drop to_split (cn_val p), cn_hit := cn_hit p,
           children_hit := children_hit p, val_nr := val_nr p - ucast idx_local, cn_count := cn_count p,
           children_count := children_count p\<rparr>) c) (\<lambda>c.
         rbind (ld_cn c new) (\<lambda>n.
           upd_cn parent (\<lambda>p. p\<lparr>cn_val := take to_split (cn_val p), children_hit := callchain_cumul_hits n,
             val_nr := ucast idx_local, children_count := callchain_cumul_counts n\<rparr>) c)))"

text \<open>The second child for what is left of the chain.\<close>

definition add_second :: "match_env \<Rightarrow> u64 \<Rightarrow> u64 \<Rightarrow> cursor \<times> chains \<Rightarrow> (bool \<times> cursor \<times> chains) run" where
  "add_second env parent period = (\<lambda>(cur, c).
     obind (Some (upd_cn parent (\<lambda>p. p\<lparr>cn_hit := 0, children_hit := children_hit p + period, cn_count := 0,
       children_count := children_count p + 1\<rparr>) c)) (\<lambda>c.
     obind (Some (deref (callchain_cursor_current (Some cur)))) (\<lambda>node.
     obind (add_child_node parent period (cur, c)) (\<lambda>(new, cur, c).
       if new = 0 then Some (Inr (False, cur, c))
       else
         obind (Some (ld_cn c parent)) (\<lambda>p.
         obind (Some (match_first env node (rb_root_in p) c)) (\<lambda>(m, c).
         obind (link_child parent (rb_root_in p)
                  (Child_link (if m = MATCH_LT then L else R) (rb_root_in p)) new c) (\<lambda>c.
           Some (Inr (True, cur, c)))))))))"

definition split_add_child ::
  "match_env \<Rightarrow> u64 \<Rightarrow> nat \<Rightarrow> u64 \<Rightarrow> u64 \<Rightarrow> u64 \<Rightarrow> cursor \<times> chains \<Rightarrow> (bool \<times> cursor \<times> chains) run" where
  "split_add_child env parent to_split idx_parents idx_local period = (\<lambda>(cur, c).
     let idx_total = (ucast (idx_parents + idx_local) :: u32) in
     obind (create_child parent True c) (\<lambda>(new, c).
       if new = 0 then Some (Inr (False, cur, c))
       else obind (Some (move_tail parent new to_split idx_local c)) (\<lambda>c.
         if ucast idx_total < cu_nr cur then add_second env parent period (cur, c)
         else obind (Some (upd_cn parent (\<lambda>p. p\<lparr>cn_hit := period, cn_count := 1\<rparr>) c)) (\<lambda>c.
           Some (Inr (True, cur, c))))))"

subsection \<open>Appending\<close>

text \<open>
  The loop of \<open>append_chain\<close> over the entries of a node, against the cursor: the entries
  with their branch counters, the last comparison and the number of entries that matched.
\<close>

fun match_entries ::
  "match_env \<Rightarrow> callchain_list list \<Rightarrow> match_result \<Rightarrow> cursor \<times> alloc_state \<Rightarrow>
     (callchain_list list \<times> match_result \<times> nat \<times> cursor \<times> alloc_state) result" where
  "match_entries env [] cmp (cur, a) = Inr ([], cmp, 0, cur, a)"
| "match_entries env (e # es) cmp (cur, a) =
     (case callchain_cursor_current (Some cur) of
        None \<Rightarrow> Inr (e # es, cmp, 0, cur, a)
      | Some node \<Rightarrow>
          rbind (match_chain (env_key env) (env_syms env) node e a) (\<lambda>(m, e, a).
            if m \<noteq> MATCH_EQ then Inr (e # es, m, 0, cur, a)
            else
              rbind (callchain_cursor_advance cur) (\<lambda>cur.
              rbind (match_entries env es m (cur, a)) (\<lambda>(es, cmp, n, cur, a).
                Inr (e # es, cmp, Suc n, cur, a)))))"

text \<open>\<open>append_chain\<close>, with \<open>append_chain_children\<close> as the argument \<open>rest\<close>.\<close>

definition append_chain ::
  "match_env \<Rightarrow> (u64 \<Rightarrow> cursor \<times> chains \<Rightarrow> (bool \<times> cursor \<times> chains) run) \<Rightarrow> u64 \<Rightarrow> u64 \<Rightarrow> cursor \<times> chains \<Rightarrow>
     (match_result \<times> cursor \<times> chains) run" where
  "append_chain env rest root period = (\<lambda>(cur, c).
     let start = cu_pos cur in
     obind (Some (ld_cn c root)) (\<lambda>n.
     obind (Some (match_entries env (cn_val n) MATCH_ERROR (cur, ch_alloc c))) (\<lambda>(val, cmp, found, cur, a).
     obind (Some (upd_cn root (\<lambda>n. n\<lparr>cn_val := val\<rparr>) (c\<lparr>ch_alloc := a\<rparr>))) (\<lambda>c.
       let matches = cu_pos cur - start in
       if found = 0 then Some (Inr (cmp, cur, c))
       else if matches < ucast (val_nr n) then
         obind (split_add_child env root found start matches period (cur, c)) (\<lambda>(ok, cur, c).
           Some (Inr (if ok then MATCH_EQ else MATCH_ERROR, cur, c)))
       else if matches = ucast (val_nr n) \<and> cu_pos cur = cu_nr cur then
         obind (Some (upd_cn root (\<lambda>n. n\<lparr>cn_hit := cn_hit n + period, cn_count := cn_count n + 1\<rparr>) c)) (\<lambda>c.
           Some (Inr (MATCH_EQ, cur, c)))
       else
         obind (rest root (cur, c)) (\<lambda>(ok, cur, c).
           Some (Inr (if ok then MATCH_EQ else MATCH_ERROR, cur, c)))))))"

lemma append_chain_mono [partial_function_mono]:
  assumes "\<And>r s. mono_option (\<lambda>f. g f r s)"
  shows "mono_option (\<lambda>f. append_chain env (g f) root period s)"
  unfolding append_chain_def split_def Let_def
  by (intro partial_function_mono assms)

text \<open>The end of \<open>append_chain_children\<close>: \<open>inc_children_hit\<close>.\<close>

definition inc_children_hit :: "u64 \<Rightarrow> u64 \<Rightarrow> u64 \<Rightarrow> chains \<Rightarrow> chains result" where
  "inc_children_hit root period depth c =
     rbind (upd_cn root (\<lambda>n. n\<lparr>children_hit := children_hit n + period, children_count := children_count n + 1\<rparr>) c) (\<lambda>c.
       Inr (if deepest c < depth then c\<lparr>deepest := depth\<rparr> else c))"

text \<open>
  \<open>append_chain_children\<close>. \<open>at\<close> is \<open>None\<close> on entry; in the loop it is the link \<open>p\<close>, the node
  \<open>parent\<close> and the depth.
\<close>

partial_function (option) append_children ::
  "match_env \<Rightarrow> u64 \<Rightarrow> u64 \<Rightarrow> (rb_link \<times> u64 \<times> u64) option \<Rightarrow> cursor \<times> chains \<Rightarrow> (bool \<times> cursor \<times> chains) run" where
  [code]: "append_children env root period at s =
     (case at of
        None \<Rightarrow>
          (case callchain_cursor_current (Some (fst s)) of
             None \<Rightarrow> Some (Inr (False, s))
           | Some node \<Rightarrow> append_children env root period (Some (Root_link, 0, 0)) s)
      | Some pos \<Rightarrow>
          obind (Some (ld_cn (snd s) root)) (\<lambda>n.
          obind (Some (get_link (fst pos) (kids_tree (snd s) n))) (\<lambda>p.
            if p \<noteq> 0 then
              obind (append_chain env (\<lambda>r s. append_children env r period None s) p period s) (\<lambda>r.
                if fst r = MATCH_EQ then
                  obind (Some (inc_children_hit root period (snd (snd pos)) (snd (snd r)))) (\<lambda>c.
                    Some (Inr (True, fst (snd r), c)))
                else if fst r = MATCH_ERROR then Some (Inr (False, snd r))
                else append_children env root period
                  (Some (Child_link (if fst r = MATCH_LT then L else R) p, p, snd (snd pos) + 1)) (snd r))
            else
              obind (add_child_node root period s) (\<lambda>r.
                if fst r = 0 then Some (Inr (False, snd r))
                else
                  obind (link_child root (fst (snd pos)) (fst pos) (fst r) (snd (snd r))) (\<lambda>c.
                  obind (Some (inc_children_hit root period (snd (snd pos)) c)) (\<lambda>c.
                    Some (Inr (True, fst (snd r), c))))))))"

definition append_chain_children ::
  "match_env \<Rightarrow> u64 \<Rightarrow> u64 \<Rightarrow> cursor \<times> chains \<Rightarrow> (bool \<times> cursor \<times> chains) run" where
  "append_chain_children env root period s = append_children env root period None s"

text \<open>\<open>callchain_append\<close>, \<open>True\<close> for 0 and \<open>False\<close> for -1.\<close>

definition callchain_append ::
  "match_env \<Rightarrow> callchain_root \<Rightarrow> cursor option \<Rightarrow> u64 \<Rightarrow> chains \<Rightarrow>
     (bool \<times> callchain_root \<times> cursor option \<times> chains) run" where
  "callchain_append env root cursor period c =
     (case cursor of
        None \<Rightarrow> Some (Inr (False, root, cursor, c))
      | Some cur \<Rightarrow>
          if cu_nr cur = 0 then Some (Inr (True, root, cursor, c))
          else
            obind (append_chain_children env (cr_node root) period (the (callchain_cursor_commit cursor), c)) (\<lambda>(ok, cur, c).
              if \<not> ok then Some (Inr (False, root, Some cur, c))
              else Some (Inr (True,
                if max_depth root < cu_nr cur then root\<lparr>max_depth := cu_nr cur\<rparr> else root, Some cur, c))))"

end
