(* ===== verification/Chain_Rep.thy ===== *)
theory Chain_Rep
  imports Chain_Tree
begin

text \<open>
  The chain trees as trees: the abstract side of \<open>Chain_Tree\<close>. \<open>chain_rep\<close> says that the
  memory holds a tree of chains, \<open>app_kids\<close> and \<open>app_node\<close> are \<open>append_chain_children\<close> and
  \<open>append_chain\<close> on such trees.
\<close>

subsection \<open>Trees\<close>

text \<open>Address, entries, hits and count of a node, and its children in order.\<close>

datatype ctree = CT (ct_at: u64) (ct_val: "callchain_list list") (ct_hit: u64) (ct_count: u32) (ct_kids: "ctree list")

primrec nodes :: "ctree \<Rightarrow> u64 list" where
  "nodes (CT a v h n ks) = a # concat (map nodes ks)"

primrec cumul_hit :: "ctree \<Rightarrow> u64" where
  "cumul_hit (CT a v h n ks) = h + sum_list (map cumul_hit ks)"

primrec cumul_count :: "ctree \<Rightarrow> u32" where
  "cumul_count (CT a v h n ks) = n + sum_list (map cumul_count ks)"

text \<open>What the children of a node are ordered by: the key of the first entry.\<close>

definition ct_key :: "ctree \<Rightarrow> u64 \<times> u64" where
  "ct_key k = cl_key (hd (ct_val k))"

text \<open>The shape: entries in every node but the root, children by falling key.\<close>

fun kid_wf :: "ctree \<Rightarrow> bool" where
  "kid_wf (CT a v h n ks) \<longleftrightarrow> v \<noteq> [] \<and> length v < 2 ^ 32 \<and>
     sorted_wrt (\<lambda>k l. key_less (ct_key l) (ct_key k)) ks \<and> (\<forall>k \<in> set ks. kid_wf k)"

definition kids_wf :: "ctree list \<Rightarrow> bool" where
  "kids_wf ks \<longleftrightarrow> sorted_wrt (\<lambda>k l. key_less (ct_key l) (ct_key k)) ks \<and> (\<forall>k \<in> set ks. kid_wf k)"

lemma kid_wf_CT: "kid_wf (CT a v h n ks) \<longleftrightarrow> v \<noteq> [] \<and> length v < 2 ^ 32 \<and> kids_wf ks"
  by (simp add: kids_wf_def)

subsection \<open>The representation\<close>

definition node_rep :: "chains \<Rightarrow> u64 \<Rightarrow> u64 \<Rightarrow> callchain_list list \<Rightarrow> u64 \<Rightarrow> u32 \<Rightarrow> ctree list \<Rightarrow> bool" where
  "node_rep c par a v h n ks \<longleftrightarrow>
     (\<exists>cn t. cnodes c a = Some cn \<and> cn_parent cn = par \<and> cn_val cn = v \<and> val_nr cn = of_nat (length v) \<and>
        cn_hit cn = h \<and> cn_count cn = n \<and> children_hit cn = sum_list (map cumul_hit ks) \<and>
        children_count cn = sum_list (map cumul_count ks) \<and>
        holds_tree (kids_tree c cn) t \<and> red_black t \<and> addrs t = map ct_at ks)"

fun chain_rep :: "chains \<Rightarrow> u64 \<Rightarrow> ctree \<Rightarrow> bool" where
  "chain_rep c par (CT a v h n ks) \<longleftrightarrow> node_rep c par a v h n ks \<and> (\<forall>k \<in> set ks. chain_rep c a k)"

text \<open>Below: the addresses whose \<open>rb_node_in\<close> the tree depends on.\<close>

definition below :: "ctree \<Rightarrow> u64 set" where
  "below k = (\<Union>l \<in> set (ct_kids k). set (nodes l))"

lemma ct_at_nodes [simp]: "ct_at k \<in> set (nodes k)"
  by (cases k) simp

lemma nodes_below: "set (nodes k) = insert (ct_at k) (below k)"
  by (cases k) (simp add: below_def)

lemma stored_cong: "(\<And>a. a \<in> set (addrs t) \<Longrightarrow> m' a = m a) \<Longrightarrow> stored m' par t = stored m par t"
  by (induction t arbitrary: par) auto

lemma holds_tree_cong:
  "(\<And>a. a \<in> set (addrs t) \<Longrightarrow> mem s' a = mem s a) \<Longrightarrow> rb_root s' = rb_root s \<Longrightarrow> holds_tree s' t = holds_tree s t"
  by (simp add: holds_tree_def cong: stored_cong)

lemma node_rep_cong:
  assumes "cnodes c' a = cnodes c a" "\<And>k. k \<in> set ks \<Longrightarrow> in_mem c' (ct_at k) = in_mem c (ct_at k)"
  shows "node_rep c' par a v h n ks = node_rep c par a v h n ks"
proof -
  have "holds_tree (kids_tree c' cn) t = holds_tree (kids_tree c cn) t" if "addrs t = map ct_at ks" for cn t
    using assms(2) that by (intro holds_tree_cong) (auto simp: kids_tree_def)
  then show ?thesis using assms(1) by (auto simp: node_rep_def)
qed

lemma chain_rep_cong:
  "(\<And>x. x \<in> set (nodes k) \<Longrightarrow> cnodes c' x = cnodes c x) \<Longrightarrow> (\<And>x. x \<in> below k \<Longrightarrow> in_mem c' x = in_mem c x) \<Longrightarrow>
     chain_rep c' par k = chain_rep c par k"
proof (induction k arbitrary: par)
  case (CT a v h n ks)
  have "node_rep c' par a v h n ks = node_rep c par a v h n ks"
  proof (rule node_rep_cong)
    show "cnodes c' a = cnodes c a" by (rule CT.prems(1)) simp
    show "in_mem c' (ct_at k) = in_mem c (ct_at k)" if "k \<in> set ks" for k
      by (rule CT.prems(2)) (use that in \<open>auto simp: below_def intro!: bexI [of _ k]\<close>)
  qed
  moreover have "chain_rep c' a k = chain_rep c a k" if "k \<in> set ks" for k
  proof (rule CT.IH [OF that])
    show "cnodes c' x = cnodes c x" if "x \<in> set (nodes k)" for x
      using that \<open>k \<in> set ks\<close> by (intro CT.prems(1)) auto
    show "in_mem c' x = in_mem c x" if x: "x \<in> below k" for x
    proof (rule CT.prems(2))
      have "x \<in> set (nodes k)" using x nodes_below by blast
      then show "x \<in> below (CT a v h n ks)" using \<open>k \<in> set ks\<close> unfolding below_def by auto
    qed
  qed
  ultimately show ?case by simp
qed

subsection \<open>Appending on trees\<close>

definition plain_entry :: "cursor_node \<Rightarrow> callchain_list" where
  "plain_entry n = zero_list\<lparr>cl_ip := cu_ip n, cl_ms := cu_ms n, cl_srcline := cu_srcline n\<rparr>"

lemma plain_entry_key [simp]: "cl_key (plain_entry n) = cu_key n"
  by (simp add: plain_entry_def cl_key_def cu_key_def)

fun common :: "callchain_list list \<Rightarrow> cursor_node list \<Rightarrow> nat" where
  "common (e # es) (n # ns) = (if cl_key e = cu_key n then Suc (common es ns) else 0)"
| "common es ns = 0"

lemma common_le: "common es ns \<le> length es" "common es ns \<le> length ns"
  by (induction es ns rule: common.induct) auto

text \<open>\<open>h\<close> is the list of addresses for new nodes.\<close>

definition new_leaf :: "u64 \<Rightarrow> cursor_node list \<Rightarrow> u64 \<Rightarrow> ctree" where
  "new_leaf a ns period = CT a (map plain_entry ns) period 1 []"

definition pair_kids :: "ctree \<Rightarrow> ctree \<Rightarrow> ctree list" where
  "pair_kids first new = (if key_less (ct_key first) (ct_key new) then [new, first] else [first, new])"

fun app_kids :: "cursor_node list \<Rightarrow> u64 \<Rightarrow> heap \<Rightarrow> ctree list \<Rightarrow> ctree list \<times> heap"
  and app_node :: "cursor_node list \<Rightarrow> u64 \<Rightarrow> heap \<Rightarrow> ctree \<Rightarrow> ctree \<times> heap" where
  "app_kids ns period h [] = ([new_leaf (hd h) ns period], tl h)"
| "app_kids ns period h (k # ks) =
     (if ct_key k = cu_key (hd ns) then (let (k', h') = app_node ns period h k in (k' # ks, h'))
      else if key_less (cu_key (hd ns)) (ct_key k) then (let (ks', h') = app_kids ns period h ks in (k # ks', h'))
      else (new_leaf (hd h) ns period # k # ks, tl h))"
| "app_node ns period h (CT a v hit n ks) =
     (let m = common v ns; rest = drop m ns in
      if m < length v then
        let child = CT (hd h) (drop m v) hit n ks in
        if rest = [] then (CT a (take m v) period 1 [child], tl h)
        else (CT a (take m v) 0 0 (pair_kids child (new_leaf (hd (tl h)) rest period)), tl (tl h))
      else if rest = [] then (CT a v (hit + period) (n + 1) ks, h)
      else (let (ks', h') = app_kids rest period h ks in (CT a v hit n ks', h')))"

subsection \<open>Reading the cursor\<close>

lemma reading_Nil: "reading c [] \<longleftrightarrow> cursor_ok c \<and> cu_curr c = cu_last c \<and> cu_pos c = of_nat (cu_curr c)"
  by (auto simp: reading_def)

lemma reading_pos:
  assumes "reading c ns"
  shows "cu_pos c = cu_nr c \<longleftrightarrow> ns = []" "cu_nr c - cu_pos c = of_nat (length ns)" "length ns < 2 ^ 32"
    "cu_curr c + length ns = cu_last c"
proof -
  have r: "cursor_ok c" "cu_curr c \<le> cu_last c" "cu_pos c = of_nat (cu_curr c)" "ns = drop (cu_curr c) (written c)"
    using assms by (simp_all add: reading_def)
  have len: "length ns = cu_last c - cu_curr c" using r by simp
  then show "cu_curr c + length ns = cu_last c" using r(2) by simp
  show "length ns < 2 ^ 32" using len r(1) unfolding cursor_ok_def by linarith
  show "cu_nr c - cu_pos c = of_nat (length ns)" using r(1-3) len by (simp add: cursor_ok_def of_nat_diff)
  have "cu_curr c < 2 ^ 32" "cu_last c < 2 ^ 32" "cu_nr c = of_nat (cu_last c)" using r(1,2) by (auto simp: cursor_ok_def)
  then have "cu_pos c = cu_nr c \<longleftrightarrow> cu_curr c = cu_last c" using of_nat_u32_inj r(3) by simp
  then show "cu_pos c = cu_nr c \<longleftrightarrow> ns = []" using len r(2) by auto
qed

text \<open>Cursors over the same nodes.\<close>

definition same_list :: "cursor \<Rightarrow> cursor \<Rightarrow> bool" where
  "same_list c c' \<longleftrightarrow> cu_nodes c' = cu_nodes c \<and> cu_last c' = cu_last c \<and> cu_nr c' = cu_nr c"

lemma same_list_refl [simp]: "same_list c c"
  by (simp add: same_list_def)

lemma same_list_trans: "same_list c d \<Longrightarrow> same_list d e \<Longrightarrow> same_list c e"
  by (simp add: same_list_def)

lemma reading_next:
  assumes "reading c (n # ns)"
  shows "\<exists>c'. callchain_cursor_advance c = Inr c' \<and> reading c' ns \<and> same_list c c' \<and> cu_pos c' = cu_pos c + 1"
proof -
  obtain c' where "callchain_cursor_advance c = Inr c'" "reading c' ns" "cu_last c' = cu_last c"
     "cu_nodes c' = cu_nodes c" "cu_nr c' = cu_nr c" using reading_advance [OF assms] by blast
  then show ?thesis by (auto simp: same_list_def callchain_cursor_advance_def split: if_splits)
qed

lemma match_entries_ok:
  assumes "env_key env \<noteq> CCKEY_SRCLINE"
  shows "reading cur ns \<Longrightarrow> \<forall>n \<in> set ns. plain n \<Longrightarrow>
    \<exists>cur'. match_entries env es cmp (cur, a) =
      Inr (es, if common es ns < length es \<and> common es ns < length ns
               then key_match (cl_key (es ! common es ns)) (cu_key (ns ! common es ns))
               else if common es ns = 0 then cmp else MATCH_EQ, common es ns, cur', a) \<and>
      reading cur' (drop (common es ns) ns) \<and> same_list cur cur' \<and> cu_pos cur' = cu_pos cur + of_nat (common es ns)"
proof (induction es ns arbitrary: cur cmp rule: common.induct [case_names Both No_entry No_node])
  case (Both e es n ns)
  have cur: "callchain_cursor_current (Some cur) = Some n" using reading_current [OF Both.prems(1)] by simp
  have m: "match_chain (env_key env) (env_syms env) n e a = Inr (key_match (cl_key e) (cu_key n), e, a)"
    using match_chain_plain [of n "env_key env"] Both.prems(2) assms by simp
  show ?case
  proof (cases "cl_key e = cu_key n")
    case True
    obtain c1 where c1: "callchain_cursor_advance cur = Inr c1" "reading c1 ns" "same_list cur c1" "cu_pos c1 = cu_pos cur + 1"
      using reading_next [OF Both.prems(1)] by blast
    have pl: "\<forall>n \<in> set ns. plain n" using Both.prems(2) by simp
    obtain cur' where r: "match_entries env es MATCH_EQ (c1, a) =
      Inr (es, if common es ns < length es \<and> common es ns < length ns
               then key_match (cl_key (es ! common es ns)) (cu_key (ns ! common es ns))
               else MATCH_EQ, common es ns, cur', a)"
      "reading cur' (drop (common es ns) ns)" "same_list c1 cur'" "cu_pos cur' = cu_pos c1 + of_nat (common es ns)"
      using Both.IH [OF True c1(2) pl, of MATCH_EQ] by auto
    have eq: "key_match (cl_key e) (cu_key n) = MATCH_EQ" using True by simp
    have "match_entries env (e # es) cmp (cur, a) = Inr (e # es, if common es ns < length es \<and> common es ns < length ns
               then key_match (cl_key (es ! common es ns)) (cu_key (ns ! common es ns))
               else MATCH_EQ, Suc (common es ns), cur', a)"
      by (simp add: cur m eq c1(1) r(1) del: key_match_simps)
    then show ?thesis using True r(2-4) c1(3,4) same_list_trans by (auto simp: add.assoc add.commute)
  next
    case False
    then show ?thesis using cur m Both.prems(1) by (intro exI [of _ cur]) simp
  qed
next
  case (No_entry ns)
  then show ?case by auto
next
  case (No_node es)
  then have "callchain_cursor_current (Some cur) = None" using reading_current [OF No_node(1)] by simp
  then show ?case using No_node by (cases es) auto
qed

lemma fill_loop_ok:
  "reading cur ns \<Longrightarrow> \<forall>n \<in> set ns. plain n \<Longrightarrow> plan a = [] \<Longrightarrow>
     \<exists>cur' a'. fill_loop val cur a = Some (Inr (True, val @ map plain_entry ns, cur', a')) \<and>
       reading cur' [] \<and> same_list cur cur' \<and> plan a' = []"
proof (induction ns arbitrary: val cur a)
  case Nil
  then show ?case using reading_current [OF Nil(1)] by (subst fill_loop.simps) simp
next
  case (Cons n ns)
  have cur: "callchain_cursor_current (Some cur) = Some n" using reading_current [OF Cons.prems(1)] by simp
  obtain c1 where c1: "callchain_cursor_advance cur = Inr c1" "reading c1 ns" "same_list cur c1"
    using reading_next [OF Cons.prems(1)] by blast
  let ?a = "a\<lparr>num_allocs := num_allocs a + 1\<rparr>"
  have e: "new_entry n a = (Some (plain_entry n), ?a)"
    using Cons.prems(2) ccalloc_plenty [OF Cons.prems(3)] by (simp add: new_entry_def plain_def plain_entry_def)
  have "fill_loop val cur a = fill_loop (val @ [plain_entry n]) c1 ?a"
    by (subst fill_loop.simps) (simp add: cur e c1(1))
  moreover obtain cur' a' where "fill_loop (val @ [plain_entry n]) c1 ?a = Some (Inr (True, (val @ [plain_entry n]) @ map plain_entry ns, cur', a'))"
      "reading cur' []" "same_list c1 cur'" "plan a' = []"
    using Cons.IH [OF c1(2), of ?a "val @ [plain_entry n]"] Cons.prems by auto
  ultimately show ?case using c1(3) same_list_trans by auto
qed

end
