(* ===== verification/Chain_Ops.thy ===== *)
theory Chain_Ops
  imports Chain_Rep
begin

text \<open>What the operations that make and link nodes do to the memory.\<close>

subsection \<open>Linking a child\<close>

lemma link_child_ok:
  assumes cn: "cnodes c p = Some cn" and t: "holds_tree (kids_tree c cn) (plug Lf ctx)" "red_black (plug Lf ctx)"
    and new: "new \<notin> set (ctx_addrs ctx)" "new \<noteq> 0" "aligned new" "in_mem c new \<noteq> None"
  shows "\<exists>m r t'. link_child p (ctx_addr ctx) (hole_link ctx) new c =
      Some (Inr (c\<lparr>in_mem := m, cnodes := (cnodes c)(p \<mapsto> cn\<lparr>rb_root_in := r\<rparr>)\<rparr>)) \<and>
    holds_tree \<lparr>mem = m, rb_root = r\<rparr> t' \<and> red_black t' \<and> addrs t' = ctx_before ctx @ new # ctx_after ctx \<and>
    (\<forall>x. x \<noteq> new \<and> x \<notin> set (ctx_addrs ctx) \<longrightarrow> m x = in_mem c x)"
proof -
  have "fresh_node (kids_tree c cn) new (set (ctx_addrs ctx))"
    using new by (simp add: fresh_node_def kids_tree_def)
  from link_and_fix [OF t this] obtain s1 s' t' where s: "rb_link_node new (ctx_addr ctx) (hole_link ctx) (kids_tree c cn) = Inr s1"
      "rb_insert_color new s1 = Some (Inr s')" "holds_tree s' t'" "red_black t'"
      "addrs t' = ctx_before ctx @ new # ctx_after ctx" "only_touches (kids_tree c cn) s' (insert new (set (ctx_addrs ctx)))"
    by blast
  have "link_child p (ctx_addr ctx) (hole_link ctx) new c =
      Some (Inr (c\<lparr>in_mem := mem s', cnodes := (cnodes c)(p \<mapsto> cn\<lparr>rb_root_in := rb_root s'\<rparr>)\<rparr>))"
    using s(1,2) cn by (simp add: link_child_def ld_cn_def put_kids_def upd_cn_def)
  moreover have "holds_tree \<lparr>mem = mem s', rb_root = rb_root s'\<rparr> t'" using s(3) by (cases s') simp
  moreover have "\<forall>x. x \<noteq> new \<and> x \<notin> set (ctx_addrs ctx) \<longrightarrow> mem s' x = in_mem c x"
    using s(6) by (auto simp: only_touches_def kids_tree_def)
  ultimately show ?thesis using s(4,5) by blast
qed

subsection \<open>Adopting the children\<close>

lemma rb_next_mem: "mem s = mem s' \<Longrightarrow> rb_next s a = rb_next s' a"
proof -
  assume m: "mem s = mem s'"
  have "ld s = ld s'" by (simp add: fun_eq_iff ld_def m)
  then have g: "get_child d s = get_child d s'" "rb_parent s = rb_parent s'" "rb_empty_node s = rb_empty_node s'" for d
    by (simp_all add: fun_eq_iff get_child_def rb_parent_def rb_empty_node_def)
  have d: "descend_step d s = descend_step d s'" for d by (rule ext) (simp only: descend_step_def g)
  have "ascend_step d s = ascend_step d s'" for d by (rule ext) (simp only: ascend_step_def g)
  then show ?thesis by (simp only: rb_next_def rb_step_def g d)
qed

lemma adopt_ok:
  "holds_tree \<lparr>mem = in_mem c, rb_root = r\<rparr> t \<Longrightarrow> addrs t = xs @ ys \<Longrightarrow> \<forall>y \<in> set ys. cnodes c y \<noteq> None \<Longrightarrow>
     adopt new (hd0 ys) c = Some (Inr (c\<lparr>cnodes := \<lambda>x. if x \<in> set ys
       then map_option (\<lambda>n. n\<lparr>cn_parent := new\<rparr>) (cnodes c x) else cnodes c x\<rparr>))"
proof (induction ys arbitrary: xs c)
  case Nil
  then show ?case by (subst adopt.simps) simp
next
  case (Cons y ys)
  obtain n where n: "cnodes c y = Some n" using Cons.prems(3) by auto
  have y: "y \<noteq> 0" "y \<notin> set ys" using Cons.prems(1,2) by (auto simp: holds_tree_def valid_addrs_def)
  let ?c = "c\<lparr>cnodes := (cnodes c)(y \<mapsto> n\<lparr>cn_parent := new\<rparr>)\<rparr>"
  have "rb_next \<lparr>mem = in_mem ?c, rb_root = 0\<rparr> y = Some (Inr (hd0 ys))"
    using rb_step_correct [OF Cons.prems(1), of R xs y ys] Cons.prems(2)
      rb_next_mem [of "\<lparr>mem = in_mem ?c, rb_root = 0\<rparr>" "\<lparr>mem = in_mem c, rb_root = r\<rparr>" y]
    by (simp add: rb_next_def daddrs_def)
  then have "adopt new (hd0 (y # ys)) c = adopt new (hd0 ys) ?c"
    using y n by (subst adopt.simps) (simp add: upd_cn_def ld_cn_def)
  also have "\<dots> = Some (Inr (?c\<lparr>cnodes := \<lambda>x. if x \<in> set ys
       then map_option (\<lambda>n. n\<lparr>cn_parent := new\<rparr>) (cnodes ?c x) else cnodes ?c x\<rparr>))"
    using Cons.prems by (intro Cons.IH [of ?c "xs @ [y]"]) auto
  also have "?c\<lparr>cnodes := \<lambda>x. if x \<in> set ys
       then map_option (\<lambda>n. n\<lparr>cn_parent := new\<rparr>) (cnodes ?c x) else cnodes ?c x\<rparr> =
     c\<lparr>cnodes := \<lambda>x. if x \<in> set (y # ys)
       then map_option (\<lambda>n. n\<lparr>cn_parent := new\<rparr>) (cnodes c x) else cnodes c x\<rparr>"
    using y n by (auto simp: fun_eq_iff)
  finally show ?case .
qed

subsection \<open>New nodes\<close>

text \<open>The memory after the allocation of a node.\<close>

definition with_new :: "callchain_node \<Rightarrow> chains \<Rightarrow> chains" where
  "with_new n c = c\<lparr>ch_alloc := (ch_alloc c)\<lparr>num_allocs := num_allocs (ch_alloc c) + 1\<rparr>, ch_heap := tl (ch_heap c),
     cnodes := (cnodes c)(hd (ch_heap c) \<mapsto> n), in_mem := (in_mem c)(hd (ch_heap c) \<mapsto> zero_node),
     out_mem := (out_mem c)(hd (ch_heap c) \<mapsto> zero_node)\<rparr>"

definition can_alloc :: "chains \<Rightarrow> bool" where
  "can_alloc c \<longleftrightarrow> plan (ch_alloc c) = [] \<and> ch_heap c \<noteq> [] \<and> hd (ch_heap c) \<noteq> 0"

lemma with_new_simps [simp]:
  "cnodes (with_new n c) = (cnodes c)(hd (ch_heap c) \<mapsto> n)"
  "in_mem (with_new n c) = (in_mem c)(hd (ch_heap c) \<mapsto> zero_node)"
  "ch_heap (with_new n c) = tl (ch_heap c)" "plan (ch_alloc (with_new n c)) = plan (ch_alloc c)"
  "deepest (with_new n c) = deepest c"
  by (simp_all add: with_new_def)

lemma calloc_cnode_ok: "can_alloc c \<Longrightarrow> calloc_cnode c = (hd (ch_heap c), with_new zero_cnode c)"
  by (cases "ch_heap c") (simp_all add: can_alloc_def calloc_cnode_def with_new_def ccalloc_plenty)

lemma with_new_upd: "upd_cn (hd (ch_heap c)) f (with_new n c) = Inr (with_new (f n) c)"
  by (simp add: upd_cn_def ld_cn_def with_new_def)

lemma create_child_plain:
  assumes "can_alloc c"
  shows "create_child parent False c = Some (Inr (hd (ch_heap c), with_new (zero_cnode\<lparr>cn_parent := parent\<rparr>) c))"
  using assms by (simp add: create_child_def calloc_cnode_ok with_new_upd can_alloc_def)

lemma create_child_inherit:
  assumes a: "can_alloc c" and p: "cnodes c parent = Some cn" "parent \<noteq> hd (ch_heap c)"
    and t: "holds_tree (kids_tree c cn) t" "hd (ch_heap c) \<notin> set (addrs t)" "aligned (hd (ch_heap c))"
    and kids: "\<forall>y \<in> set (addrs t). cnodes c y \<noteq> None" "parent \<notin> set (addrs t)"
  shows "\<exists>c' r t1. create_child parent True c = Some (Inr (hd (ch_heap c), c')) \<and>
    cnodes c' = (\<lambda>x. if x = parent then Some (cn\<lparr>rb_root_in := r\<rparr>)
      else if x = hd (ch_heap c) then Some (zero_cnode\<lparr>cn_parent := parent, rb_root_in := rb_root_in cn\<rparr>)
      else if x \<in> set (addrs t) then map_option (\<lambda>n. n\<lparr>cn_parent := hd (ch_heap c)\<rparr>) (cnodes c x) else cnodes c x) \<and>
    holds_tree \<lparr>mem = in_mem c', rb_root = r\<rparr> t1 \<and> red_black t1 \<and> addrs t1 = [hd (ch_heap c)] \<and>
    (\<forall>x. x \<noteq> hd (ch_heap c) \<longrightarrow> in_mem c' x = in_mem c x) \<and> ch_heap c' = tl (ch_heap c) \<and>
    plan (ch_alloc c') = [] \<and> deepest c' = deepest c"
proof -
  let ?new = "hd (ch_heap c)"
  let ?n = "zero_cnode\<lparr>cn_parent := parent, rb_root_in := rb_root_in cn\<rparr>"
  let ?c1 = "with_new (zero_cnode\<lparr>cn_parent := parent\<rparr>) c"
  let ?c2 = "with_new ?n c"
  define c3 where "c3 = ?c2\<lparr>cnodes := (cnodes ?c2)(parent \<mapsto> cn\<lparr>rb_root_in := 0\<rparr>)\<rparr>"
  define c4 where "c4 = c3\<lparr>cnodes := \<lambda>x. if x \<in> set (addrs t)
    then map_option (\<lambda>n. n\<lparr>cn_parent := ?new\<rparr>) (cnodes c3 x) else cnodes c3 x\<rparr>"
  have new: "?new \<noteq> 0" using a by (simp add: can_alloc_def)
  have h3: "holds_tree (kids_tree c3 cn) t"
    using t(1,2) by (simp add: kids_tree_def holds_tree_def c3_def)
  have first: "rb_first (kids_tree c3 cn) = Some (Inr (hd0 (addrs t)))"
    using rb_end_correct [OF h3, of L] by (simp add: rb_first_def daddrs_def)
  have ad: "adopt ?new (hd0 (addrs t)) c3 = Some (Inr c4)"
    using adopt_ok [of c3 "rb_root_in cn" t "[]" "addrs t" ?new] h3 kids t(2) unfolding c4_def
    by (auto simp: kids_tree_def c3_def)
  have empty: "holds_tree (kids_tree c4 (cn\<lparr>rb_root_in := 0\<rparr>)) (plug Lf [])" "red_black (plug Lf [])"
    by (simp_all add: holds_tree_def kids_tree_def valid_addrs_def red_black_def)
  have p4: "cnodes c4 parent = Some (cn\<lparr>rb_root_in := 0\<rparr>)" using kids(2) by (simp add: c4_def c3_def)
  have new4: "in_mem c4 ?new \<noteq> None" by (simp add: c4_def c3_def)
  obtain m r t1 where l: "link_child parent 0 Root_link ?new c4 =
      Some (Inr (c4\<lparr>in_mem := m, cnodes := (cnodes c4)(parent \<mapsto> cn\<lparr>rb_root_in := r\<rparr>)\<rparr>))"
      "holds_tree \<lparr>mem = m, rb_root = r\<rparr> t1" "red_black t1" "addrs t1 = [?new]"
      "\<forall>x. x \<noteq> ?new \<longrightarrow> m x = in_mem c4 x"
    using link_child_ok [OF p4 empty _ new t(3) new4] by auto
  define c5 where "c5 = c4\<lparr>in_mem := m, cnodes := (cnodes c4)(parent \<mapsto> cn\<lparr>rb_root_in := r\<rparr>)\<rparr>"
  have step: "ld_cn ?c1 parent = Inr cn" "upd_cn parent (\<lambda>n. n\<lparr>rb_root_in := 0\<rparr>) ?c2 = Inr c3"
    using p by (simp_all add: ld_cn_def upd_cn_def c3_def)
  have "create_child parent True c = Some (Inr (?new, c5))"
    unfolding create_child_def calloc_cnode_ok [OF a] using new
    by (simp add: with_new_upd step first ad l(1) c5_def del: with_new_simps)
  moreover have "cnodes c5 = (\<lambda>x. if x = parent then Some (cn\<lparr>rb_root_in := r\<rparr>)
      else if x = ?new then Some ?n
      else if x \<in> set (addrs t) then map_option (\<lambda>n. n\<lparr>cn_parent := ?new\<rparr>) (cnodes c x) else cnodes c x)"
    using t(2) kids(2) by (auto simp: fun_eq_iff c5_def c4_def c3_def)
  ultimately show ?thesis using l(2-5) a
    by (intro exI [of _ c5] exI [of _ r] exI [of _ t1]) (simp add: can_alloc_def c5_def c4_def c3_def)
qed

text \<open>A new child with the rest of the chain.\<close>

definition leaf_cnode :: "u64 \<Rightarrow> cursor_node list \<Rightarrow> u64 \<Rightarrow> callchain_node" where
  "leaf_cnode parent ns period = zero_cnode\<lparr>cn_parent := parent, cn_val := map plain_entry ns,
     val_nr := of_nat (length ns), cn_hit := period, cn_count := 1\<rparr>"

lemma ucast_of_nat_u32: "(ucast (of_nat n :: u64) :: u32) = of_nat n"
  by (simp add: unsigned_of_nat word_of_nat_eq_iff)

lemma add_child_ok:
  assumes a: "can_alloc c" and r: "reading cur ns" "\<forall>n \<in> set ns. plain n"
  shows "\<exists>cur' al. add_child_node parent period (cur, c) = Some (Inr (hd (ch_heap c), cur',
      (with_new (leaf_cnode parent ns period) c)\<lparr>ch_alloc := al\<rparr>)) \<and>
    reading cur' [] \<and> same_list cur cur' \<and> plan al = []"
proof -
  let ?new = "hd (ch_heap c)" and ?n = "zero_cnode\<lparr>cn_parent := parent, val_nr := of_nat (length ns)\<rparr>"
  let ?c1 = "with_new (zero_cnode\<lparr>cn_parent := parent\<rparr>) c"
  have nr: "ucast (cu_nr cur - cu_pos cur) = (of_nat (length ns) :: u32)"
    using reading_pos(2) [OF r(1)] ucast_of_nat_u32 by simp
  have pl: "plan (ch_alloc (with_new ?n c)) = []" using a by (simp add: can_alloc_def)
  obtain cur' al where f: "fill_loop [] cur (ch_alloc (with_new ?n c)) = Some (Inr (True, map plain_entry ns, cur', al))"
      "reading cur' []" "same_list cur cur'" "plan al = []"
    using fill_loop_ok [OF r pl, of "[]"] by auto
  have ld: "ld_cn (with_new m c) ?new = Inr m" for m by (simp add: ld_cn_def)
  have up: "upd_cn ?new g ((with_new m c)\<lparr>ch_alloc := b\<rparr>) = Inr ((with_new (g m) c)\<lparr>ch_alloc := b\<rparr>)" for g m b
    by (simp add: upd_cn_def ld_cn_def with_new_def)
  have "fill_node ?new (cur, ?c1) = Some (Inr (True, cur', (with_new (?n\<lparr>cn_val := map plain_entry ns\<rparr>) c)\<lparr>ch_alloc := al\<rparr>))"
    using f(1) nr by (simp add: fill_node_def with_new_upd ld up zero_cnode_def del: with_new_simps)
  then have "add_child_node parent period (cur, c) = Some (Inr (?new, cur',
      (with_new (leaf_cnode parent ns period) c)\<lparr>ch_alloc := al\<rparr>))"
    using a by (simp add: add_child_node_def create_child_plain up leaf_cnode_def zero_cnode_def can_alloc_def del: with_new_simps)
  then show ?thesis using f(2-4) by blast
qed

end
