(* ===== verification/Chain_Descend.thy ===== *)
theory Chain_Descend
  imports Chain_Ops "HOL-Library.Multiset"
begin

text \<open>
  \<open>append_chain_children\<close> and \<open>append_chain\<close> refine \<open>app_kids\<close> and \<open>app_node\<close>: on memory that
  holds a tree of chains the code ends and leaves memory that holds the tree the abstract
  functions give.
\<close>

subsection \<open>The abstract functions\<close>

lemma app_kids_hit:
  "\<forall>u \<in> set us. key_less (cu_key (hd ns)) (ct_key u) \<Longrightarrow> ct_key k = cu_key (hd ns) \<Longrightarrow>
     app_kids ns p h (us @ k # vs) = (us @ fst (app_node ns p h k) # vs, snd (app_node ns p h k))"
proof (induction us)
  case (Cons u us)
  then have "ct_key u \<noteq> cu_key (hd ns)" by auto
  then show ?case using Cons by simp
qed (simp add: split_def Let_def)

lemma app_kids_miss:
  "\<forall>u \<in> set us. key_less (cu_key (hd ns)) (ct_key u) \<Longrightarrow> \<forall>v \<in> set vs. key_less (ct_key v) (cu_key (hd ns)) \<Longrightarrow>
     app_kids ns p h (us @ vs) = (us @ new_leaf (hd h) ns p # vs, tl h)"
proof (induction us)
  case Nil
  then show ?case by (cases vs) (auto dest: key_less_asym)
next
  case (Cons u us)
  then have "ct_key u \<noteq> cu_key (hd ns)" by auto
  then show ?case using Cons by simp
qed

text \<open>New nodes come from the heap, one or two.\<close>

lemma app_nodes:
  "2 \<le> length h \<Longrightarrow> \<exists>j \<le> 2. snd (app_kids ns p h ks) = drop j h \<and>
     mset (concat (map nodes (fst (app_kids ns p h ks)))) = mset (concat (map nodes ks)) + mset (take j h)"
  "2 \<le> length h \<Longrightarrow> \<exists>j \<le> 2. snd (app_node ns p h k) = drop j h \<and>
     mset (nodes (fst (app_node ns p h k))) = mset (nodes k) + mset (take j h)"
proof (induction ns p h ks and ns p h k rule: app_kids_app_node.induct)
  case (1 ns period h)
  then obtain x h' where "h = x # h'" by (cases h) auto
  then show ?case by (intro exI [of _ 1]) (simp add: new_leaf_def)
next
  case (2 ns period h k ks)
  consider "ct_key k = cu_key (hd ns)" | "ct_key k \<noteq> cu_key (hd ns)" "key_less (cu_key (hd ns)) (ct_key k)"
    | "ct_key k \<noteq> cu_key (hd ns)" "\<not> key_less (cu_key (hd ns)) (ct_key k)" by blast
  then show ?case
  proof cases
    case 1
    then show ?thesis using "2.IH"(1) [OF 1] 2(3) by (auto simp: split_def Let_def)
  next
    case 2
    then show ?thesis using "2.IH"(2) [OF 2] \<open>2 \<le> length h\<close> by (auto simp: split_def Let_def)
  next
    case 3
    obtain x h' where "h = x # h'" using \<open>2 \<le> length h\<close> by (cases h) auto
    then show ?thesis using 3 by (intro exI [of _ 1]) (simp add: new_leaf_def)
  qed
next
  case (3 ns period h a v hit n ks)
  obtain x y h' where h: "h = x # y # h'" using 3(2) by (cases h; cases "tl h") auto
  let ?m = "common v ns"
  consider "?m < length v" "drop ?m ns = []" | "?m < length v" "drop ?m ns \<noteq> []"
    | "\<not> ?m < length v" "drop ?m ns = []" | "\<not> ?m < length v" "drop ?m ns \<noteq> []" by blast
  then show ?case
  proof cases
    case 1
    then show ?thesis by (intro exI [of _ 1]) (simp add: h Let_def)
  next
    case 2
    then show ?thesis by (intro exI [of _ 2]) (simp add: h Let_def new_leaf_def pair_kids_def numeral_2_eq_2)
  next
    case 3
    then show ?thesis by (intro exI [of _ 0]) (simp add: Let_def)
  next
    case 4
    then show ?thesis using "3.IH" [OF refl refl] 3(2) by (auto simp: split_def Let_def)
  qed
qed

lemma ct_at_app [simp]: "ct_at (fst (app_node ns p h k)) = ct_at k"
  by (cases k) (simp add: Let_def split_def)

text \<open>Both cumulative counters grow by what was appended.\<close>

lemma app_cumul:
  "sum_list (map cumul_hit (fst (app_kids ns p h ks))) = sum_list (map cumul_hit ks) + p"
  "cumul_hit (fst (app_node ns p h k)) = cumul_hit k + p"
  by (induction ns p h ks and ns p h k rule: app_kids_app_node.induct)
    (simp_all add: Let_def split_def new_leaf_def pair_kids_def algebra_simps)

lemma app_cumul_count:
  "sum_list (map cumul_count (fst (app_kids ns p h ks))) = sum_list (map cumul_count ks) + 1"
  "cumul_count (fst (app_node ns p h k)) = cumul_count k + 1"
  by (induction ns p h ks and ns p h k rule: app_kids_app_node.induct)
    (simp_all add: Let_def split_def new_leaf_def pair_kids_def algebra_simps)

subsection \<open>The descent\<close>

text \<open>The rest of \<open>append_chain_children\<close> when no child matched.\<close>

definition add_here :: "u64 \<Rightarrow> u64 \<Rightarrow> rb_link \<Rightarrow> u64 \<Rightarrow> u64 \<Rightarrow> cursor \<times> chains \<Rightarrow> (bool \<times> cursor \<times> chains) run" where
  "add_here root period lk par d s =
     obind (add_child_node root period s) (\<lambda>r.
       if fst r = 0 then Some (Inr (False, snd r))
       else
         obind (link_child root par lk (fst r) (snd (snd r))) (\<lambda>c.
         obind (Some (inc_children_hit root period d c)) (\<lambda>c. Some (Inr (True, fst (snd r), c)))))"

text \<open>A child that compares equal decides: how the search in \<open>root\<close>, with the result \<open>res\<close>, goes on when
  \<open>append_chain\<close> at the child took the chain and when it failed.\<close>

definition kid_decides ::
  "match_env \<Rightarrow> u64 \<Rightarrow> u64 \<Rightarrow> u64 \<Rightarrow> u64 \<Rightarrow> cursor \<times> chains \<Rightarrow> (bool \<times> cursor \<times> chains) run \<Rightarrow> bool" where
  "kid_decides env root period a d s res \<longleftrightarrow>
     (\<forall>m cur' c'. append_chain env (\<lambda>r s. append_children env r period None s) a period s = Some (Inr (m, cur', c')) \<longrightarrow>
       (m = MATCH_EQ \<longrightarrow> res = obind (Some (inc_children_hit root period d c')) (\<lambda>c. Some (Inr (True, cur', c)))) \<and>
       (m = MATCH_ERROR \<longrightarrow> res = Some (Inr (False, cur', c'))))"

lemma children_descent:
  assumes cn: "cnodes c root = Some cn"
  shows "holds_tree (kids_tree c cn) (plug t ctx) \<Longrightarrow> falling f (addrs t) \<Longrightarrow>
    \<forall>a \<in> set (addrs t). f a \<noteq> 0 \<longrightarrow> append_chain env (\<lambda>r s. append_children env r period None s) a period (cur, c) =
      Some (Inr (if f a < 0 then MATCH_LT else MATCH_GT, cur, c)) \<Longrightarrow>
    (\<exists>a \<in> set (addrs t). f a = 0 \<and> (\<exists>d. kid_decides env root period a d (cur, c)
      (append_children env root period (Some (hole_link ctx, ctx_addr ctx, d0)) (cur, c)))) \<or>
    (\<exists>ctx' xs ys d. append_children env root period (Some (hole_link ctx, ctx_addr ctx, d0)) (cur, c) =
        add_here root period (hole_link ctx') (ctx_addr ctx') d (cur, c) \<and>
      plug Lf ctx' = plug t ctx \<and> addrs t = xs @ ys \<and> ctx_before ctx' = ctx_before ctx @ xs \<and>
      ctx_after ctx' = ys @ ctx_after ctx \<and> (\<forall>x \<in> set xs. 0 < f x) \<and> (\<forall>y \<in> set ys. f y < 0))"
proof (induction t arbitrary: ctx d0)
  case Lf
  have "append_children env root period (Some (hole_link ctx, ctx_addr ctx, d0)) (cur, c) =
      add_here root period (hole_link ctx) (ctx_addr ctx) d0 (cur, c)"
    using get_hole_link [OF Lf(1)] cn by (subst append_children.simps) (simp add: ld_cn_def add_here_def cong: if_cong)
  then show ?case by (intro disjI2 exI [of _ ctx] exI [of _ "[]"] exI [of _ d0]) simp
next
  case (Nd co l a r)
  let ?rest = "\<lambda>r s. append_children env r period None s"
  have a: "a \<noteq> 0" using holds_tree_addr_0 [OF Nd.prems(1)] by simp
  have go: "append_children env root period (Some (hole_link ctx, ctx_addr ctx, d0)) (cur, c) =
      obind (append_chain env ?rest a period (cur, c)) (\<lambda>r.
        if fst r = MATCH_EQ then
          obind (Some (inc_children_hit root period d0 (snd (snd r)))) (\<lambda>c. Some (Inr (True, fst (snd r), c)))
        else if fst r = MATCH_ERROR then Some (Inr (False, snd r))
        else append_children env root period
          (Some (Child_link (if fst r = MATCH_LT then L else R) a, a, d0 + 1)) (snd r))"
    using get_hole_link [OF Nd.prems(1)] cn a by (subst append_children.simps) (simp add: ld_cn_def cong: if_cong)
  note fall = falling_cases [of f "addrs l" a "addrs r"]
  have sub: "falling f (addrs l)" "falling f (addrs r)"
    using Nd.prems(2) by (simp_all add: falling_append falling_Cons)
  consider "f a < 0" | "0 < f a" | "f a = 0" by linarith
  then show ?case
  proof cases
    case 1
    let ?ctx = "Fr L co a r # ctx"
    have step: "append_children env root period (Some (hole_link ctx, ctx_addr ctx, d0)) (cur, c) =
        append_children env root period (Some (hole_link ?ctx, ctx_addr ?ctx, d0 + 1)) (cur, c)"
      using go Nd.prems(3) 1 by simp
    have "holds_tree (kids_tree c cn) (plug l ?ctx)" "\<forall>a \<in> set (addrs l). f a \<noteq> 0 \<longrightarrow>
        append_chain env ?rest a period (cur, c) = Some (Inr (if f a < 0 then MATCH_LT else MATCH_GT, cur, c))"
      using Nd.prems by simp_all
    from Nd.IH(1) [OF this(1) sub(1) this(2), of "d0 + 1"] show ?thesis
    proof (elim disjE)
      assume "\<exists>a \<in> set (addrs l). f a = 0 \<and> (\<exists>d. kid_decides env root period a d (cur, c)
        (append_children env root period (Some (hole_link ?ctx, ctx_addr ?ctx, d0 + 1)) (cur, c)))"
      then show ?thesis unfolding step by (intro disjI1) (simp only: addrs.simps set_append list.set, blast)
    next
      assume "\<exists>ctx' xs ys d. append_children env root period (Some (hole_link ?ctx, ctx_addr ?ctx, d0 + 1)) (cur, c) =
          add_here root period (hole_link ctx') (ctx_addr ctx') d (cur, c) \<and> plug Lf ctx' = plug l ?ctx \<and>
        addrs l = xs @ ys \<and> ctx_before ctx' = ctx_before ?ctx @ xs \<and> ctx_after ctx' = ys @ ctx_after ?ctx \<and>
        (\<forall>x \<in> set xs. 0 < f x) \<and> (\<forall>y \<in> set ys. f y < 0)"
      then obtain ctx' xs ys d where h: "append_children env root period (Some (hole_link ?ctx, ctx_addr ?ctx, d0 + 1)) (cur, c) =
          add_here root period (hole_link ctx') (ctx_addr ctx') d (cur, c)" "plug Lf ctx' = plug l ?ctx"
        "addrs l = xs @ ys" "ctx_before ctx' = ctx_before ?ctx @ xs" "ctx_after ctx' = ys @ ctx_after ?ctx"
        "\<forall>x \<in> set xs. 0 < f x" "\<forall>y \<in> set ys. f y < 0" by blast
      have "\<forall>y \<in> set (addrs r). f y < 0" using fall(1) Nd.prems(2) 1 by simp
      then show ?thesis using 1 h step
        by (intro disjI2 exI [of _ ctx'] exI [of _ xs] exI [of _ "ys @ a # addrs r"] exI [of _ d]) auto
    qed
  next
    case 2
    let ?ctx = "Fr R co a l # ctx"
    have step: "append_children env root period (Some (hole_link ctx, ctx_addr ctx, d0)) (cur, c) =
        append_children env root period (Some (hole_link ?ctx, ctx_addr ?ctx, d0 + 1)) (cur, c)"
      using go Nd.prems(3) 2 by simp
    have "holds_tree (kids_tree c cn) (plug r ?ctx)" "\<forall>a \<in> set (addrs r). f a \<noteq> 0 \<longrightarrow>
        append_chain env ?rest a period (cur, c) = Some (Inr (if f a < 0 then MATCH_LT else MATCH_GT, cur, c))"
      using Nd.prems by simp_all
    from Nd.IH(2) [OF this(1) sub(2) this(2), of "d0 + 1"] show ?thesis
    proof (elim disjE)
      assume "\<exists>a \<in> set (addrs r). f a = 0 \<and> (\<exists>d. kid_decides env root period a d (cur, c)
        (append_children env root period (Some (hole_link ?ctx, ctx_addr ?ctx, d0 + 1)) (cur, c)))"
      then show ?thesis unfolding step by (intro disjI1) (simp only: addrs.simps set_append list.set, blast)
    next
      assume "\<exists>ctx' xs ys d. append_children env root period (Some (hole_link ?ctx, ctx_addr ?ctx, d0 + 1)) (cur, c) =
          add_here root period (hole_link ctx') (ctx_addr ctx') d (cur, c) \<and> plug Lf ctx' = plug r ?ctx \<and>
        addrs r = xs @ ys \<and> ctx_before ctx' = ctx_before ?ctx @ xs \<and> ctx_after ctx' = ys @ ctx_after ?ctx \<and>
        (\<forall>x \<in> set xs. 0 < f x) \<and> (\<forall>y \<in> set ys. f y < 0)"
      then obtain ctx' xs ys d where h: "append_children env root period (Some (hole_link ?ctx, ctx_addr ?ctx, d0 + 1)) (cur, c) =
          add_here root period (hole_link ctx') (ctx_addr ctx') d (cur, c)" "plug Lf ctx' = plug r ?ctx"
        "addrs r = xs @ ys" "ctx_before ctx' = ctx_before ?ctx @ xs" "ctx_after ctx' = ys @ ctx_after ?ctx"
        "\<forall>x \<in> set xs. 0 < f x" "\<forall>y \<in> set ys. f y < 0" by blast
      have "\<forall>y \<in> set (addrs l). 0 < f y" using fall(2) Nd.prems(2) 2 by simp
      then show ?thesis using 2 h step
        by (intro disjI2 exI [of _ ctx'] exI [of _ "addrs l @ a # xs"] exI [of _ ys] exI [of _ d]) auto
    qed
  next
    case 3
    have "kid_decides env root period a d0 (cur, c)
        (append_children env root period (Some (hole_link ctx, ctx_addr ctx, d0)) (cur, c))"
      unfolding kid_decides_def go by (auto simp del: obind_Some)
    then show ?thesis using 3 by auto
  qed
qed

subsection \<open>Preconditions and results\<close>

definition app_ready :: "chains \<Rightarrow> cursor \<Rightarrow> cursor_node list \<Rightarrow> ctree \<Rightarrow> bool" where
  "app_ready c cur ns k \<longleftrightarrow> reading cur ns \<and> ns \<noteq> [] \<and> (\<forall>n \<in> set ns. plain n) \<and> plan (ch_alloc c) = [] \<and>
     good_heap (ch_heap c) (set (nodes k)) \<and> 2 \<le> length (ch_heap c) \<and> distinct (nodes k)"

text \<open>The memory outside a tree and the new nodes is as before, and so is the node of the tree
  in the tree of its siblings.\<close>

definition kept :: "chains \<Rightarrow> chains \<Rightarrow> ctree \<Rightarrow> bool" where
  "kept c c' k \<longleftrightarrow> (\<forall>x. x \<notin> set (nodes k) \<and> x \<notin> set (ch_heap c) \<longrightarrow> cnodes c' x = cnodes c x \<and> in_mem c' x = in_mem c x) \<and>
     in_mem c' (ct_at k) = in_mem c (ct_at k)"

definition appended :: "chains \<Rightarrow> cursor \<Rightarrow> ctree \<Rightarrow> u64 \<Rightarrow> ctree \<Rightarrow> heap \<Rightarrow> chains \<Rightarrow> cursor \<Rightarrow> bool" where
  "appended c cur k par k' h' c' cur' \<longleftrightarrow> chain_rep c' par k' \<and> ch_heap c' = h' \<and> plan (ch_alloc c') = [] \<and>
     reading cur' [] \<and> same_list cur cur' \<and> kept c c' k"

lemma app_ready_kid:
  assumes "app_ready c cur ns (CT a v h n ks)" "k \<in> set ks"
  shows "app_ready c cur ns k"
proof -
  have "set (nodes k) \<subseteq> set (nodes (CT a v h n ks))" using assms(2) by auto
  moreover have "distinct (nodes k)" using assms by (auto simp: app_ready_def distinct_concat_iff)
  ultimately show ?thesis using assms(1) unfolding app_ready_def good_heap_def by blast
qed

text \<open>A child whose first entry differs sends the search on and changes nothing.\<close>

lemma append_chain_mismatch:
  assumes env: "env_key env \<noteq> CCKEY_SRCLINE" and r: "reading cur (n # ns)" "plain n"
    and k: "chain_rep c par k" "ct_val k \<noteq> []" "ct_key k \<noteq> cu_key n"
  shows "append_chain env rest (ct_at k) period (cur, c) = Some (Inr (key_match (ct_key k) (cu_key n), cur, c))"
proof -
  obtain a v h m ks where CT: "k = CT a v h m ks" by (cases k)
  obtain e es where v: "v = e # es" using k(2) CT by (cases v) auto
  obtain cn where cn: "cnodes c a = Some cn" "cn_val cn = v" using k(1) CT by (auto simp: node_rep_def)
  have cur: "callchain_cursor_current (Some cur) = Some n" using reading_current [OF r(1)] by simp
  have key: "cl_key e = ct_key k" by (simp add: ct_key_def CT v)
  have "match_chain (env_key env) (env_syms env) n e (ch_alloc c) = Inr (key_match (ct_key k) (cu_key n), e, ch_alloc c)"
    using match_chain_plain [OF r(2) env] key by simp
  moreover have "key_match (ct_key k) (cu_key n) \<noteq> MATCH_EQ" using k(3) by simp
  ultimately have "match_entries env v MATCH_ERROR (cur, ch_alloc c) =
      Inr (v, key_match (ct_key k) (cu_key n), 0, cur, ch_alloc c)"
    by (simp add: v cur del: key_match_simps)
  moreover have "upd_cn a (\<lambda>n. n\<lparr>cn_val := v\<rparr>) (c\<lparr>ch_alloc := ch_alloc c\<rparr>) = Inr c"
  proof -
    have "cn\<lparr>cn_val := v\<rparr> = cn" "c\<lparr>ch_alloc := ch_alloc c\<rparr> = c" using cn(2) by auto
    moreover have "c\<lparr>cnodes := (cnodes c)(a \<mapsto> cn)\<rparr> = c" using fun_upd_triv [of "cnodes c" a] cn(1) by simp
    ultimately show ?thesis using cn(1) by (simp add: upd_cn_def ld_cn_def)
  qed
  ultimately show ?thesis using cn by (simp add: append_chain_def CT ld_cn_def del: key_match_simps)
qed

text \<open>How the keys of the children steer the search.\<close>

definition kid_sign :: "ctree list \<Rightarrow> u64 \<times> u64 \<Rightarrow> u64 \<Rightarrow> int" where
  "kid_sign ks k a =
     (case map_of (map (\<lambda>k. (ct_at k, ct_key k)) ks) a of
        None \<Rightarrow> 0 | Some j \<Rightarrow> if j = k then 0 else if key_less j k then - 1 else 1)"

lemma kid_sign_at:
  assumes "distinct (map ct_at ks)" "k \<in> set ks"
  shows "kid_sign ks j (ct_at k) = (if ct_key k = j then 0 else if key_less (ct_key k) j then - 1 else 1)"
proof -
  have "map_of (map (\<lambda>k. (ct_at k, ct_key k)) ks) (ct_at k) = Some (ct_key k)"
    using assms by (intro map_of_is_SomeI) (auto simp: o_def)
  then show ?thesis by (simp add: kid_sign_def)
qed

lemma kid_sign_falling:
  assumes d: "distinct (map ct_at ks)" and wf: "kids_wf ks"
  shows "falling (kid_sign ks j) (map ct_at ks)"
  unfolding falling_def sorted_wrt_map
proof (rule sorted_wrt_mono_rel)
  show "sorted_wrt (\<lambda>k l. key_less (ct_key l) (ct_key k)) ks" using wf by (simp add: kids_wf_def)
  fix k l assume kl: "k \<in> set ks" "l \<in> set ks" "key_less (ct_key l) (ct_key k)"
  then show "(kid_sign ks j (ct_at k) \<le> 0 \<longrightarrow> kid_sign ks j (ct_at l) \<le> 0) \<and>
      (kid_sign ks j (ct_at k) < 0 \<longrightarrow> kid_sign ks j (ct_at l) < 0)"
    unfolding kid_sign_at [OF d kl(1)] kid_sign_at [OF d kl(2)]
    using key_less_trans [of "ct_key l" "ct_key k" j] by auto
qed

lemma distinct_kids: "distinct (nodes (CT a v h n ks)) \<Longrightarrow> distinct (map ct_at ks)"
proof (induction ks)
  case (Cons k ks)
  have "ct_at k \<noteq> ct_at l" if "l \<in> set ks" for l
  proof -
    have "set (nodes k) \<inter> set (nodes l) = {}" using Cons.prems that by auto
    then show ?thesis using ct_at_nodes [of k] ct_at_nodes [of l] by (metis disjoint_iff)
  qed
  then show ?case using Cons by (auto simp: distinct_concat_iff)
qed simp

end
