(* ===== verification/Chain_Kids.thy ===== *)
theory Chain_Kids
  imports Chain_Descend
begin

text \<open>
  \<open>append_chain_children\<close> and \<open>append_chain\<close> refine \<open>app_kids\<close> and \<open>app_node\<close>: on memory that
  holds a tree of chains the code ends and leaves memory that holds the tree the abstract
  functions give.
\<close>

subsection \<open>Addresses of a tree\<close>

lemma kid_nodes: "k \<in> set ks \<Longrightarrow> x \<in> set (nodes k) \<Longrightarrow> x \<in> set (nodes (CT a v h n ks))"
  by auto

lemma not_kid_at: "x \<notin> set (nodes (CT a v h n ks)) \<Longrightarrow> x \<notin> ct_at ` set ks"
  by (metis imageE kid_nodes ct_at_nodes)

lemma kid_not_at: "distinct (nodes (CT a v h n ks)) \<Longrightarrow> k \<in> set ks \<Longrightarrow> a \<notin> set (nodes k)"
  by auto

lemma kid_other:
  assumes "distinct (nodes (CT a v h n (us @ k # vs)))" "l \<in> set us \<union> set vs" "x \<in> set (nodes l)"
  shows "x \<notin> set (nodes k)"
  using assms by auto

lemma two_kids:
  assumes d: "distinct (nodes (CT a v h n ks))" and "k \<in> set ks" "l \<in> set ks" "x \<in> set (nodes k)" "x \<in> set (nodes l)"
  shows "k = l"
proof (rule ccontr)
  assume "k \<noteq> l"
  obtain us vs where ks: "ks = us @ k # vs" using \<open>k \<in> set ks\<close> by (auto dest: split_list)
  then have "l \<in> set us \<union> set vs" using \<open>l \<in> set ks\<close> \<open>k \<noteq> l\<close> by auto
  then show False using kid_other [of a v h n us k vs l x] d assms(4,5) unfolding ks by simp
qed

lemma at_not_below: "distinct (nodes k) \<Longrightarrow> ct_at k \<notin> below k"
  by (cases k) (auto simp: below_def)

lemma below_kid:
  assumes "distinct (nodes (CT a v h n ks))" "k \<in> set ks" "l \<in> set ks" "x \<in> below k"
  shows "x \<noteq> ct_at l"
proof
  assume x: "x = ct_at l"
  have "x \<in> set (nodes k)" using assms(4) nodes_below by blast
  then have "k = l" using two_kids [OF assms(1-3)] x by simp
  moreover have "distinct (nodes k)" using assms(1,2) by (auto simp: distinct_concat_iff)
  ultimately show False using assms(4) x at_not_below by simp
qed

lemma chain_rep_kid: "chain_rep c par (CT a v h n ks) \<Longrightarrow> k \<in> set ks \<Longrightarrow> chain_rep c a k"
  by simp

lemma app_ready_alloc:
  assumes "app_ready c cur ns k"
  shows "can_alloc c" "aligned (hd (ch_heap c))" "hd (ch_heap c) \<notin> set (nodes k)"
    "hd (ch_heap c) \<in> set (ch_heap c)" "distinct (nodes k)" "\<forall>x \<in> set (ch_heap c). x \<notin> set (nodes k)"
proof -
  obtain x xs where "ch_heap c = x # xs" using assms by (cases "ch_heap c") (auto simp: app_ready_def)
  then show "can_alloc c" "aligned (hd (ch_heap c))" "hd (ch_heap c) \<notin> set (nodes k)"
    "hd (ch_heap c) \<in> set (ch_heap c)" "distinct (nodes k)" "\<forall>x \<in> set (ch_heap c). x \<notin> set (nodes k)"
    using assms by (auto simp: app_ready_def good_heap_def can_alloc_def)
qed

subsection \<open>Changing the numbers of a node\<close>

lemma inc_children_ok:
  assumes "cnodes c a = Some cn"
  shows "\<exists>c'. inc_children_hit a period d c = Inr c' \<and>
    cnodes c' = (cnodes c)(a \<mapsto> cn\<lparr>children_hit := children_hit cn + period, children_count := children_count cn + 1\<rparr>) \<and>
    in_mem c' = in_mem c \<and> ch_heap c' = ch_heap c \<and> ch_alloc c' = ch_alloc c"
  using assms by (simp add: inc_children_hit_def upd_cn_def ld_cn_def)

lemma set_hits:
  assumes r: "chain_rep c par (CT a v h n ks)" and d: "distinct (nodes (CT a v h n ks))"
  shows "\<exists>cn. cnodes c a = Some cn \<and> cn_hit cn = h \<and> cn_count cn = n \<and>
    upd_cn a (\<lambda>n. n\<lparr>cn_hit := h', cn_count := n'\<rparr>) c =
      Inr (c\<lparr>cnodes := (cnodes c)(a \<mapsto> cn\<lparr>cn_hit := h', cn_count := n'\<rparr>)\<rparr>) \<and>
    chain_rep (c\<lparr>cnodes := (cnodes c)(a \<mapsto> cn\<lparr>cn_hit := h', cn_count := n'\<rparr>)\<rparr>) par (CT a v h' n' ks)"
proof -
  obtain cn where cn: "cnodes c a = Some cn" "cn_hit cn = h" "cn_count cn = n"
    using r by (auto simp: node_rep_def)
  let ?cn = "cn\<lparr>cn_hit := h', cn_count := n'\<rparr>"
  let ?c = "c\<lparr>cnodes := (cnodes c)(a \<mapsto> ?cn)\<rparr>"
  have kt: "kids_tree ?c ?cn = kids_tree c cn" by (simp add: kids_tree_def)
  have "node_rep ?c par a v h' n' ks" using r cn by (auto simp: node_rep_def kt)
  moreover have "chain_rep ?c a k" if k: "k \<in> set ks" for k
  proof -
    have "chain_rep ?c a k = chain_rep c a k" using kid_not_at [OF d k] by (intro chain_rep_cong) auto
    then show ?thesis using r k by simp
  qed
  ultimately have "chain_rep ?c par (CT a v h' n' ks)" by simp
  then show ?thesis using cn by (auto simp: upd_cn_def ld_cn_def)
qed

subsection \<open>Adding a child\<close>

text \<open>The memory after a leaf has been added to the children of \<open>a\<close>.\<close>

definition leaf_added :: "chains \<Rightarrow> u64 \<Rightarrow> callchain_node \<Rightarrow> cursor_node list \<Rightarrow> u64 \<Rightarrow> u64 list \<Rightarrow> u64 list \<Rightarrow> chains \<Rightarrow> bool" where
  "leaf_added c a cn ns period xs ys c' \<longleftrightarrow>
     (\<exists>r t. cnodes c' = (cnodes c)(hd (ch_heap c) \<mapsto> leaf_cnode a ns period, a \<mapsto> cn\<lparr>rb_root_in := r\<rparr>) \<and>
        holds_tree \<lparr>mem = in_mem c', rb_root = r\<rparr> t \<and> red_black t \<and> addrs t = xs @ hd (ch_heap c) # ys) \<and>
     (\<forall>x. x \<noteq> hd (ch_heap c) \<and> x \<notin> set (xs @ ys) \<longrightarrow> in_mem c' x = in_mem c x) \<and>
     ch_heap c' = tl (ch_heap c) \<and> plan (ch_alloc c') = []"

lemma add_and_link:
  assumes cn: "cnodes c a = Some cn" and t: "holds_tree (kids_tree c cn) (plug Lf ctx)" "red_black (plug Lf ctx)"
    and a: "can_alloc c" "aligned (hd (ch_heap c))" "hd (ch_heap c) \<notin> set (ctx_addrs ctx)" "hd (ch_heap c) \<noteq> a"
    and r: "reading cur ns" "\<forall>n \<in> set ns. plain n"
  shows "\<exists>cur' c1 c'. add_child_node a period (cur, c) = Some (Inr (hd (ch_heap c), cur', c1)) \<and>
    cnodes c1 = (cnodes c)(hd (ch_heap c) \<mapsto> leaf_cnode a ns period) \<and>
    link_child a (ctx_addr ctx) (hole_link ctx) (hd (ch_heap c)) c1 = Some (Inr c') \<and>
    reading cur' [] \<and> same_list cur cur' \<and> leaf_added c a cn ns period (ctx_before ctx) (ctx_after ctx) c'"
proof -
  let ?new = "hd (ch_heap c)"
  obtain cur' al where f: "add_child_node a period (cur, c) = Some (Inr (?new, cur',
      (with_new (leaf_cnode a ns period) c)\<lparr>ch_alloc := al\<rparr>))" "reading cur' []" "same_list cur cur'" "plan al = []"
    using add_child_ok [OF a(1) r] by blast
  define c1 where "c1 = (with_new (leaf_cnode a ns period) c)\<lparr>ch_alloc := al\<rparr>"
  have c1: "cnodes c1 = (cnodes c)(?new \<mapsto> leaf_cnode a ns period)" "in_mem c1 = (in_mem c)(?new \<mapsto> zero_node)"
    "ch_heap c1 = tl (ch_heap c)" "plan (ch_alloc c1) = []" using f(4) by (simp_all add: c1_def)
  have ad: "set (addrs (plug Lf ctx)) = set (ctx_addrs ctx)" by (simp add: set_addrs_plug)
  have cn1: "cnodes c1 a = Some cn" using cn a(4) c1(1) by simp
  have "holds_tree (kids_tree c1 cn) (plug Lf ctx) = holds_tree (kids_tree c cn) (plug Lf ctx)"
    using a(3) ad c1(2) by (intro holds_tree_cong) (auto simp: kids_tree_def)
  then have t1: "holds_tree (kids_tree c1 cn) (plug Lf ctx)" using t(1) by simp
  have new: "?new \<noteq> 0" "in_mem c1 ?new \<noteq> None" using a(1) c1(2) by (simp_all add: can_alloc_def)
  obtain m r t' where l: "link_child a (ctx_addr ctx) (hole_link ctx) ?new c1 =
      Some (Inr (c1\<lparr>in_mem := m, cnodes := (cnodes c1)(a \<mapsto> cn\<lparr>rb_root_in := r\<rparr>)\<rparr>))"
     "holds_tree \<lparr>mem = m, rb_root = r\<rparr> t'" "red_black t'" "addrs t' = ctx_before ctx @ ?new # ctx_after ctx"
     "\<forall>x. x \<noteq> ?new \<and> x \<notin> set (ctx_addrs ctx) \<longrightarrow> m x = in_mem c1 x"
    using link_child_ok [OF cn1 t1 t(2) a(3) new(1) a(2) new(2)] by blast
  have set_ad: "set (ctx_before ctx @ ctx_after ctx) = set (ctx_addrs ctx)"
    using ad addrs_plug [of Lf ctx] by simp
  have "leaf_added c a cn ns period (ctx_before ctx) (ctx_after ctx)
      (c1\<lparr>in_mem := m, cnodes := (cnodes c1)(a \<mapsto> cn\<lparr>rb_root_in := r\<rparr>)\<rparr>)"
    unfolding leaf_added_def set_ad
    using l(2-5) c1 by (intro conjI exI [of _ r] exI [of _ t']) auto
  then show ?thesis using f(1-3) l(1) c1(1) unfolding c1_def by blast
qed

text \<open>The other children are not affected, and the new one is a leaf.\<close>

lemma leaf_added_kids:
  assumes la: "leaf_added c a cn ns period (map ct_at us) (map ct_at vs) c'"
    and r: "\<forall>k \<in> set (us @ vs). chain_rep c a k" and d: "distinct (nodes (CT a v h n (us @ vs)))"
    and new: "hd (ch_heap c) \<notin> set (nodes (CT a v h n (us @ vs)))"
    and k: "k \<in> set (us @ new_leaf (hd (ch_heap c)) ns period # vs)"
  shows "chain_rep c' a k"
proof -
  let ?new = "hd (ch_heap c)"
  obtain rt t where l: "cnodes c' = (cnodes c)(?new \<mapsto> leaf_cnode a ns period, a \<mapsto> cn\<lparr>rb_root_in := rt\<rparr>)"
    "\<forall>x. x \<noteq> ?new \<and> x \<notin> set (map ct_at (us @ vs)) \<longrightarrow> in_mem c' x = in_mem c x"
    using la unfolding leaf_added_def by (metis map_append)
  consider "k = new_leaf ?new ns period" | "k \<in> set (us @ vs)" using k by auto
  then show ?thesis
  proof cases
    case 1
    have "?new \<noteq> a" using new by simp
    moreover have "holds_tree (kids_tree c' (leaf_cnode a ns period)) Lf" "red_black Lf"
      by (simp_all add: kids_tree_def leaf_cnode_def zero_cnode_def holds_tree_def valid_addrs_def red_black_def)
    ultimately show ?thesis using l(1) unfolding 1 new_leaf_def chain_rep.simps node_rep_def
      by (auto simp: leaf_cnode_def zero_cnode_def intro!: exI [of _ Lf])
  next
    case 2
    have "chain_rep c' a k = chain_rep c a k"
    proof (rule chain_rep_cong)
      fix x assume x: "x \<in> set (nodes k)"
      then have "x \<noteq> ?new" using kid_nodes [OF 2 x] new by blast
      moreover have "x \<noteq> a" using kid_not_at [OF d 2] x by blast
      ultimately show "cnodes c' x = cnodes c x" using l(1) by simp
    next
      fix x assume x: "x \<in> below k"
      then have xk: "x \<in> set (nodes k)" using nodes_below by blast
      then have "x \<noteq> ?new" using kid_nodes [OF 2 xk] new by blast
      moreover have "x \<notin> set (map ct_at (us @ vs))" using below_kid [OF d 2 _ x] by auto
      ultimately show "in_mem c' x = in_mem c x" using l(2) by blast
    qed
    then show ?thesis using r 2 by blast
  qed
qed

subsection \<open>\<open>append_chain_children\<close>\<close>

lemma append_children_start:
  assumes "reading cur (n # ns)"
  shows "append_children env a period None (cur, c) =
    append_children env a period (Some (hole_link [], ctx_addr [], 0)) (cur, c)"
  using reading_current [OF assms] by (subst append_children.simps) simp

text \<open>A child took the chain.\<close>

lemma kid_appended:
  assumes r: "chain_rep c par (CT a v h n (us @ k # vs))" and ready: "app_ready c cur ns (CT a v h n (us @ k # vs))"
    and ap: "appended c cur k a k' h' c1 cur'" and h': "h' = drop j (ch_heap c)"
    and k': "ct_at k' = ct_at k" "cumul_hit k' = cumul_hit k + period" "cumul_count k' = cumul_count k + 1"
      "set (nodes k') \<subseteq> set (nodes k) \<union> set (ch_heap c)"
  shows "\<exists>c'. inc_children_hit a period d c1 = Inr c' \<and>
    appended c cur (CT a v h n (us @ k # vs)) par (CT a v h n (us @ k' # vs)) h' c' cur'"
proof -
  let ?k = "CT a v h n (us @ k # vs)"
  note al = app_ready_alloc [OF ready]
  have d: "distinct (nodes ?k)" by (rule al(5))
  have a: "a \<notin> set (nodes k)" "a \<notin> set (ch_heap c)" using d al(6) by auto
  have kept1: "\<And>x. x \<notin> set (nodes k) \<Longrightarrow> x \<notin> set (ch_heap c) \<Longrightarrow> cnodes c1 x = cnodes c x \<and> in_mem c1 x = in_mem c x"
    "in_mem c1 (ct_at k) = in_mem c (ct_at k)" using ap by (simp_all add: appended_def kept_def)
  obtain cn t where cn: "cnodes c a = Some cn" "cn_parent cn = par" "cn_val cn = v" "val_nr cn = of_nat (length v)"
    "cn_hit cn = h" "cn_count cn = n" "children_hit cn = sum_list (map cumul_hit (us @ k # vs))"
    "children_count cn = sum_list (map cumul_count (us @ k # vs))"
    "holds_tree (kids_tree c cn) t" "red_black t" "addrs t = map ct_at (us @ k # vs)"
    using r by (auto simp: node_rep_def)
  have "cnodes c1 a = Some cn" using kept1(1) a cn(1) by simp
  then obtain c' where c': "inc_children_hit a period d c1 = Inr c'"
    "cnodes c' = (cnodes c1)(a \<mapsto> cn\<lparr>children_hit := children_hit cn + period, children_count := children_count cn + 1\<rparr>)"
    "in_mem c' = in_mem c1" "ch_heap c' = ch_heap c1" "ch_alloc c' = ch_alloc c1"
    using inc_children_ok [of c1 a cn period d] by blast
  have outside: "in_mem c' (ct_at l) = in_mem c (ct_at l)" if l: "l \<in> set (us @ k # vs)" for l
  proof (cases "l = k")
    case False
    then have "ct_at l \<notin> set (nodes k)" using two_kids [OF d _ l, of k "ct_at l"] by auto
    moreover have "ct_at l \<notin> set (ch_heap c)" using al(6) kid_nodes [OF l ct_at_nodes] by blast
    ultimately show ?thesis using kept1(1) c'(3) by simp
  qed (simp add: c'(3) kept1(2))
  have "holds_tree (kids_tree c' (cn\<lparr>children_hit := children_hit cn + period, children_count := children_count cn + 1\<rparr>)) t"
    using cn(9) holds_tree_cong [of t "kids_tree c' (cn\<lparr>children_hit := children_hit cn + period,
      children_count := children_count cn + 1\<rparr>)" "kids_tree c cn"] outside cn(11)
    by (force simp: kids_tree_def)
  then have node: "node_rep c' par a v h n (us @ k' # vs)"
    unfolding node_rep_def c'(2) using cn(2-8,10,11) k'(1-3)
    by (intro exI [of _ "cn\<lparr>children_hit := children_hit cn + period, children_count := children_count cn + 1\<rparr>"]
      exI [of _ t]) (simp add: algebra_simps)
  have "chain_rep c' a k'"
  proof -
    have "a \<notin> set (nodes k')" using a k'(4) by blast
    then have "chain_rep c' a k' = chain_rep c1 a k'" using c'(2,3) by (intro chain_rep_cong) auto
    then show ?thesis using ap by (simp add: appended_def)
  qed
  moreover have "chain_rep c' a l" if l: "l \<in> set us \<union> set vs" for l
  proof -
    have "x \<notin> set (nodes k) \<and> x \<notin> set (ch_heap c) \<and> x \<noteq> a" if "x \<in> set (nodes l)" for x
      using kid_other [OF d l that] kid_nodes [of l "us @ k # vs" x] that l al(6) kid_not_at [OF d, of l] by auto
    then have "chain_rep c' a l = chain_rep c a l"
      using kept1(1) c'(2,3) nodes_below by (intro chain_rep_cong) auto
    then show ?thesis using r l by auto
  qed
  ultimately have "chain_rep c' par (CT a v h n (us @ k' # vs))" using node by auto
  moreover have "kept c c' ?k"
    unfolding kept_def using kept1(1) c'(2,3) a by auto
  ultimately show ?thesis using ap c' unfolding appended_def by auto
qed

text \<open>No child took it: a leaf is added, between the children of higher and of lower keys.\<close>

lemma leaf_appended:
  assumes r: "chain_rep c par (CT a v h n (us @ vs))" and ready: "app_ready c cur ns (CT a v h n (us @ vs))"
    and cn: "cnodes c a = Some cn" and t: "holds_tree (kids_tree c cn) (plug Lf ctx)" "red_black (plug Lf ctx)"
    and xs: "ctx_before ctx = map ct_at us" "ctx_after ctx = map ct_at vs"
  shows "\<exists>cur' c'. add_here a period (hole_link ctx) (ctx_addr ctx) d (cur, c) = Some (Inr (True, cur', c')) \<and>
    appended c cur (CT a v h n (us @ vs)) par (CT a v h n (us @ new_leaf (hd (ch_heap c)) ns period # vs)) (tl (ch_heap c)) c' cur'"
proof -
  let ?k = "CT a v h n (us @ vs)" and ?new = "hd (ch_heap c)"
  note al = app_ready_alloc [OF ready]
  have ns: "reading cur ns" "\<forall>n \<in> set ns. plain n" using ready by (simp_all add: app_ready_def)
  have "set (addrs (plug Lf ctx)) = set (map ct_at (us @ vs))" unfolding addrs_plug by (simp add: xs)
  then have ctx: "set (ctx_addrs ctx) = ct_at ` set (us @ vs)" unfolding set_addrs_plug by (simp add: image_Un)
  have nin: "?new \<notin> set (ctx_addrs ctx)" using not_kid_at [OF al(3)] unfolding ctx .
  have nea: "?new \<noteq> a" using al(3) by simp
  obtain cur' c1 c2 where s: "add_child_node a period (cur, c) = Some (Inr (?new, cur', c1))"
    "link_child a (ctx_addr ctx) (hole_link ctx) ?new c1 = Some (Inr c2)" "reading cur' []" "same_list cur cur'"
    and la: "leaf_added c a cn ns period (map ct_at us) (map ct_at vs) c2"
    using add_and_link [OF cn t al(1,2) nin nea ns] unfolding xs by blast
  obtain rt t' where l: "cnodes c2 = (cnodes c)(?new \<mapsto> leaf_cnode a ns period, a \<mapsto> cn\<lparr>rb_root_in := rt\<rparr>)"
    "holds_tree \<lparr>mem = in_mem c2, rb_root = rt\<rparr> t'" "red_black t'" "addrs t' = map ct_at us @ ?new # map ct_at vs"
    "\<And>x. x \<noteq> ?new \<Longrightarrow> x \<notin> ct_at ` set (us @ vs) \<Longrightarrow> in_mem c2 x = in_mem c x"
    "ch_heap c2 = tl (ch_heap c)" "plan (ch_alloc c2) = []"
    using la unfolding leaf_added_def by (auto simp: image_Un)
  have "cnodes c2 a = Some (cn\<lparr>rb_root_in := rt\<rparr>)" using l(1) by simp
  then obtain c' where c': "inc_children_hit a period d c2 = Inr c'"
    "cnodes c' = (cnodes c2)(a \<mapsto> cn\<lparr>rb_root_in := rt, children_hit := children_hit cn + period, children_count := children_count cn + 1\<rparr>)"
    "in_mem c' = in_mem c2" "ch_heap c' = ch_heap c2" "ch_alloc c' = ch_alloc c2"
    using inc_children_ok [of c2 a "cn\<lparr>rb_root_in := rt\<rparr>" period d] by auto
  have hd0: "?new \<noteq> 0" using al(1) by (simp add: can_alloc_def)
  have "add_here a period (hole_link ctx) (ctx_addr ctx) d (cur, c) = Some (Inr (True, cur', c'))"
    using s(1,2) c'(1) hd0 by (simp add: add_here_def)
  moreover have "chain_rep c' a k" if "k \<in> set (us @ new_leaf ?new ns period # vs)" for k
  proof -
    have "a \<notin> set (nodes k)" using that kid_not_at [OF al(5)] nea by (auto simp: new_leaf_def)
    then have "chain_rep c' a k = chain_rep c2 a k" using c'(2,3) by (intro chain_rep_cong) auto
    then show ?thesis using leaf_added_kids [OF la _ al(5) al(3) that] r by simp
  qed
  moreover have "node_rep c' par a v h n (us @ new_leaf ?new ns period # vs)"
    using r cn l(2-4) c'(2,3) unfolding chain_rep.simps node_rep_def
    by (intro exI [of _ "cn\<lparr>rb_root_in := rt, children_hit := children_hit cn + period, children_count := children_count cn + 1\<rparr>"]
      exI [of _ t']) (auto simp: kids_tree_def new_leaf_def algebra_simps)
  moreover have "kept c c' ?k"
  proof -
    have "a \<notin> ct_at ` set (us @ vs)" using kid_not_at [OF al(5)] ct_at_nodes by (metis imageE)
    moreover have "x \<notin> ct_at ` set (us @ vs)" if "x \<notin> set (nodes ?k)" for x
      by (rule not_kid_at [OF that])
    ultimately show ?thesis using l(1,5) c'(2,3) nea al(4) unfolding kept_def by auto
  qed
  ultimately show ?thesis using s(3,4) l(6,7) c'(4,5) unfolding appended_def by auto
qed

lemma kids_wf_append:
  "kids_wf (us @ vs) \<longleftrightarrow> kids_wf us \<and> kids_wf vs \<and> (\<forall>u \<in> set us. \<forall>v \<in> set vs. key_less (ct_key v) (ct_key u))"
  by (auto simp: kids_wf_def sorted_wrt_append)

lemma kids_wf_Cons:
  "kids_wf (k # vs) \<longleftrightarrow> kid_wf k \<and> kids_wf vs \<and> (\<forall>v \<in> set vs. key_less (ct_key v) (ct_key k))"
  by (auto simp: kids_wf_def)

lemma kid_wf_val: "kid_wf k \<Longrightarrow> ct_val k \<noteq> []"
  by (cases k) simp

text \<open>The search ends at the child with the key of the chain, or in the place for it.\<close>

lemma children_search:
  assumes env: "env_key env \<noteq> CCKEY_SRCLINE" and r: "chain_rep c par (CT a v h n ks)" and wf: "kids_wf ks"
    and d: "distinct (nodes (CT a v h n ks))" and rd: "reading cur (m # ms)" "plain m"
  shows "(\<exists>us k vs d. ks = us @ k # vs \<and> ct_key k = cu_key m \<and>
      kid_decides env a period (ct_at k) d (cur, c) (append_children env a period None (cur, c))) \<or>
    (\<exists>us vs cn ctx d. ks = us @ vs \<and> cnodes c a = Some cn \<and> holds_tree (kids_tree c cn) (plug Lf ctx) \<and>
      red_black (plug Lf ctx) \<and> ctx_before ctx = map ct_at us \<and> ctx_after ctx = map ct_at vs \<and>
      (\<forall>u \<in> set us. key_less (cu_key m) (ct_key u)) \<and> (\<forall>u \<in> set vs. key_less (ct_key u) (cu_key m)) \<and>
      append_children env a period None (cur, c) = add_here a period (hole_link ctx) (ctx_addr ctx) d (cur, c))"
proof -
  let ?rest = "\<lambda>r s. append_children env r period None s" and ?key = "cu_key m" and ?f = "kid_sign ks (cu_key m)"
  have dk: "distinct (map ct_at ks)" by (rule distinct_kids [OF d])
  obtain cn t where cn: "cnodes c a = Some cn" "holds_tree (kids_tree c cn) t" "red_black t" "addrs t = map ct_at ks"
    using r by (auto simp: node_rep_def)
  have other: "\<forall>x \<in> set (addrs t). ?f x \<noteq> 0 \<longrightarrow> append_chain env ?rest x period (cur, c) =
      Some (Inr (if ?f x < 0 then MATCH_LT else MATCH_GT, cur, c))"
  proof (intro ballI impI)
    fix x assume "x \<in> set (addrs t)" "?f x \<noteq> 0"
    then obtain k where k: "k \<in> set ks" "x = ct_at k" using cn(4) by auto
    then have ne: "ct_key k \<noteq> ?key" using \<open>?f x \<noteq> 0\<close> kid_sign_at [OF dk k(1)] by auto
    have "chain_rep c a k" "ct_val k \<noteq> []" using r wf k(1) kid_wf_val by (auto simp: kids_wf_def)
    then show "append_chain env ?rest x period (cur, c) = Some (Inr (if ?f x < 0 then MATCH_LT else MATCH_GT, cur, c))"
      using append_chain_mismatch [OF env rd, of c a k ?rest period] ne kid_sign_at [OF dk k(1)] k(2)
      by (simp add: key_match_def)
  qed
  have fall: "falling ?f (addrs t)" using kid_sign_falling [OF dk wf] cn(4) by simp
  have start: "append_children env a period None (cur, c) =
      append_children env a period (Some (hole_link [], ctx_addr [], 0)) (cur, c)"
    by (rule append_children_start [OF rd(1)])
  have ht: "holds_tree (kids_tree c cn) (plug t [])" using cn(2) by simp
  from children_descent [OF cn(1) ht fall other, of 0] show ?thesis
  proof (elim disjE bexE conjE exE)
    fix x d assume x: "x \<in> set (addrs t)" "?f x = 0" and go: "kid_decides env a period x d (cur, c)
        (append_children env a period (Some (hole_link [], ctx_addr [], 0)) (cur, c))"
    obtain k where k: "k \<in> set ks" "x = ct_at k" using x(1) cn(4) by auto
    have "ct_key k = ?key" using x(2) kid_sign_at [OF dk k(1)] k(2) by (simp split: if_splits)
    then show ?thesis using go split_list [OF k(1)] unfolding start k(2) by blast
  next
    fix ctx xs ys d assume go: "append_children env a period (Some (hole_link [], ctx_addr [], 0)) (cur, c) =
        add_here a period (hole_link ctx) (ctx_addr ctx) d (cur, c)" and ctx: "plug Lf ctx = plug t []"
      "addrs t = xs @ ys" "ctx_before ctx = ctx_before [] @ xs" "ctx_after ctx = ys @ ctx_after []"
      "\<forall>x \<in> set xs. 0 < ?f x" "\<forall>y \<in> set ys. ?f y < 0"
    obtain us vs where ks: "ks = us @ vs" "xs = map ct_at us" "ys = map ct_at vs"
      using ctx(2) cn(4) by (metis map_eq_append_conv)
    have up: "\<forall>u \<in> set us. key_less ?key (ct_key u)"
    proof
      fix u assume u: "u \<in> set us"
      then have "0 < ?f (ct_at u)" using ctx(5) ks(2) by simp
      then show "key_less ?key (ct_key u)" using kid_sign_at [OF dk, of u ?key] u ks(1) key_less_linear [of "ct_key u" ?key]
        by (auto split: if_splits)
    qed
    have down: "\<forall>u \<in> set vs. key_less (ct_key u) ?key"
    proof
      fix u assume u: "u \<in> set vs"
      then have "?f (ct_at u) < 0" using ctx(6) ks(3) by simp
      then show "key_less (ct_key u) ?key" using kid_sign_at [OF dk, of u ?key] u ks(1) by (auto split: if_splits)
    qed
    have t: "holds_tree (kids_tree c cn) (plug Lf ctx)" "red_black (plug Lf ctx)" using cn(2,3) ctx(1) by simp_all
    have ends: "ctx_before ctx = map ct_at us" "ctx_after ctx = map ct_at vs" using ctx(3,4) ks by simp_all
    show ?thesis using ks(1) cn(1) t ends up down go unfolding start by (intro disjI2) blast
  qed
qed

text \<open>What \<open>append_chain\<close> does to a child fits into the tree of the parent.\<close>

lemma app_node_fits:
  assumes "2 \<le> length hp"
  shows "\<exists>j. snd (app_node ns p hp k) = drop j hp \<and> set (nodes (fst (app_node ns p hp k))) \<subseteq> set (nodes k) \<union> set hp"
proof -
  obtain j where j: "snd (app_node ns p hp k) = drop j hp"
    "mset (nodes (fst (app_node ns p hp k))) = mset (nodes k) + mset (take j hp)"
    using app_nodes(2) [OF assms] by blast
  have eq: "set (nodes (fst (app_node ns p hp k))) = set (nodes k) \<union> set (take j hp)"
    using arg_cong [OF j(2), of set_mset] by simp
  have "set (nodes (fst (app_node ns p hp k))) \<subseteq> set (nodes k) \<union> set hp"
    unfolding eq by (intro Un_mono order_refl set_take_subset)
  then show ?thesis using j(1) by blast
qed

lemma append_children_ok:
  assumes env: "env_key env \<noteq> CCKEY_SRCLINE"
    and IH: "\<And>k cur c. k \<in> set ks \<Longrightarrow> chain_rep c a k \<Longrightarrow> ct_key k = cu_key (hd ns) \<Longrightarrow> app_ready c cur ns k \<Longrightarrow>
      \<exists>cur' c'. append_chain env (\<lambda>r s. append_children env r period None s) (ct_at k) period (cur, c) =
          Some (Inr (MATCH_EQ, cur', c')) \<and>
        appended c cur k a (fst (app_node ns period (ch_heap c) k)) (snd (app_node ns period (ch_heap c) k)) c' cur'"
    and r: "chain_rep c par (CT a v h n ks)" and wf: "kids_wf ks" and ready: "app_ready c cur ns (CT a v h n ks)"
  shows "\<exists>cur' c'. append_children env a period None (cur, c) = Some (Inr (True, cur', c')) \<and>
    appended c cur (CT a v h n ks) par (CT a v h n (fst (app_kids ns period (ch_heap c) ks)))
      (snd (app_kids ns period (ch_heap c) ks)) c' cur'"
proof -
  obtain m ms where ns: "ns = m # ms" using ready by (cases ns) (auto simp: app_ready_def)
  have rd: "reading cur (m # ms)" "plain m" using ready ns by (simp_all add: app_ready_def)
  from children_search [OF env r wf app_ready_alloc(5) [OF ready] rd, of period] show ?thesis
  proof (elim disjE exE conjE)
    fix us k vs d assume ks: "ks = us @ k # vs" and key: "ct_key k = cu_key m"
      and go: "kid_decides env a period (ct_at k) d (cur, c) (append_children env a period None (cur, c))"
    have k: "k \<in> set ks" using ks by simp
    let ?k' = "fst (app_node ns period (ch_heap c) k)" and ?h' = "snd (app_node ns period (ch_heap c) k)"
    have "chain_rep c a k" "ct_key k = cu_key (hd ns)" using r k key ns by simp_all
    then obtain cur' c1 where s: "append_chain env (\<lambda>r s. append_children env r period None s) (ct_at k) period (cur, c) =
        Some (Inr (MATCH_EQ, cur', c1))" "appended c cur k a ?k' ?h' c1 cur'"
      using IH [OF k _ _ app_ready_kid [OF ready k]] by blast
    have "2 \<le> length (ch_heap c)" using ready by (simp add: app_ready_def)
    then obtain j where j: "?h' = drop j (ch_heap c)" "set (nodes ?k') \<subseteq> set (nodes k) \<union> set (ch_heap c)"
      using app_node_fits by blast
    obtain c' where c': "inc_children_hit a period d c1 = Inr c'" "appended c cur (CT a v h n ks) par (CT a v h n (us @ ?k' # vs)) ?h' c' cur'"
      using kid_appended [OF r [unfolded ks] ready [unfolded ks] s(2) j(1) ct_at_app app_cumul(2) app_cumul_count(2) j(2)] ks by blast
    have "app_kids ns period (ch_heap c) ks = (us @ ?k' # vs, ?h')"
      using app_kids_hit [of us ns k period "ch_heap c" vs] wf key ns unfolding ks by (simp add: kids_wf_append)
    moreover have "append_children env a period None (cur, c) = Some (Inr (True, cur', c'))"
      using go s(1) c'(1) unfolding kid_decides_def by simp
    ultimately show ?thesis using c'(2) by simp
  next
    fix us vs cn ctx d assume ks: "ks = us @ vs" and hole: "cnodes c a = Some cn" "holds_tree (kids_tree c cn) (plug Lf ctx)"
        "red_black (plug Lf ctx)" "ctx_before ctx = map ct_at us" "ctx_after ctx = map ct_at vs"
      and sides: "\<forall>u \<in> set us. key_less (cu_key m) (ct_key u)" "\<forall>u \<in> set vs. key_less (ct_key u) (cu_key m)"
      and go: "append_children env a period None (cur, c) = add_here a period (hole_link ctx) (ctx_addr ctx) d (cur, c)"
    have "app_kids ns period (ch_heap c) ks = (us @ new_leaf (hd (ch_heap c)) ns period # vs, tl (ch_heap c))"
      using app_kids_miss [of us ns vs period "ch_heap c"] sides ns ks by simp
    then show ?thesis using leaf_appended [OF r [unfolded ks] ready [unfolded ks] hole, of period d] unfolding go ks by simp
  qed
qed

end
