(* ===== verification/Chain_Append.thy ===== *)
theory Chain_Append
  imports Chain_Kids
begin

text \<open>
  \<open>append_chain\<close>: a node that agrees with the chain in its first entries takes the chain,
  split where they part.
\<close>

subsection \<open>Splitting a node\<close>

lemma reparent:
  assumes r: "chain_rep c a k" and d: "distinct (nodes k)"
    and at: "cnodes c' (ct_at k) = map_option (\<lambda>n. n\<lparr>cn_parent := p\<rparr>) (cnodes c (ct_at k))"
    and same: "\<And>x. x \<in> below k \<Longrightarrow> cnodes c' x = cnodes c x \<and> in_mem c' x = in_mem c x"
  shows "chain_rep c' p k"
proof -
  obtain b v h n ks where k: "k = CT b v h n ks" by (cases k)
  have kid: "x \<in> below k" if "l \<in> set ks" "x \<in> set (nodes l)" for l x using that by (auto simp: k below_def)
  obtain cn t where cn: "cnodes c b = Some cn" "cn_val cn = v" "val_nr cn = of_nat (length v)"
    "cn_hit cn = h" "cn_count cn = n" "children_hit cn = sum_list (map cumul_hit ks)"
    "children_count cn = sum_list (map cumul_count ks)" "holds_tree (kids_tree c cn) t" "red_black t" "addrs t = map ct_at ks"
    using r by (auto simp: k node_rep_def)
  have "holds_tree (kids_tree c' (cn\<lparr>cn_parent := p\<rparr>)) t = holds_tree (kids_tree c cn) t"
    using same kid [OF _ ct_at_nodes] cn(10) by (intro holds_tree_cong) (auto simp: kids_tree_def)
  then have "node_rep c' p b v h n ks"
    using cn at unfolding node_rep_def by (intro exI [of _ "cn\<lparr>cn_parent := p\<rparr>"] exI [of _ t]) (simp add: k)
  moreover have "chain_rep c' b l" if l: "l \<in> set ks" for l
  proof -
    have "chain_rep c' b l = chain_rep c b l"
      using same kid [OF l] nodes_below by (intro chain_rep_cong) auto
    then show ?thesis using r l by (simp add: k)
  qed
  ultimately show ?thesis by (simp add: k)
qed

lemma split_tail_ok:
  assumes r: "chain_rep c par (CT a v h n ks)" and ready: "app_ready c cur ns (CT a v h n ks)" and m: "m < length v"
    "length v < 2 ^ 32"
  shows "\<exists>c1 c2. create_child a True c = Some (Inr (hd (ch_heap c), c1)) \<and>
    move_tail a (hd (ch_heap c)) m (of_nat m) c1 = Inr c2 \<and>
    chain_rep c2 par (CT a (take m v) h n [CT (hd (ch_heap c)) (drop m v) h n ks]) \<and>
    (\<forall>x. x \<notin> set (nodes (CT a v h n ks)) \<and> x \<noteq> hd (ch_heap c) \<longrightarrow> cnodes c2 x = cnodes c x) \<and>
    (\<forall>x. x \<noteq> hd (ch_heap c) \<longrightarrow> in_mem c2 x = in_mem c x) \<and>
    ch_heap c2 = tl (ch_heap c) \<and> plan (ch_alloc c2) = []"
proof -
  let ?k = "CT a v h n ks" and ?new = "hd (ch_heap c)"
  note al = app_ready_alloc [OF ready]
  obtain cn t where cn: "cnodes c a = Some cn" "cn_parent cn = par" "cn_val cn = v" "val_nr cn = of_nat (length v)"
    "cn_hit cn = h" "cn_count cn = n" "children_hit cn = sum_list (map cumul_hit ks)"
    "children_count cn = sum_list (map cumul_count ks)" "holds_tree (kids_tree c cn) t" "red_black t" "addrs t = map ct_at ks"
    using r by (auto simp: node_rep_def)
  have nea: "a \<noteq> ?new" using al(3) by auto
  have nin: "?new \<notin> set (addrs t)" using not_kid_at [OF al(3)] cn(11) by simp
  have "a \<notin> ct_at ` set ks" using kid_not_at [OF al(5)] ct_at_nodes by (metis imageE)
  then have at: "a \<notin> set (addrs t)" using cn(11) by simp
  have mapped: "\<forall>y \<in> set (addrs t). cnodes c y \<noteq> None"
  proof
    fix y assume "y \<in> set (addrs t)"
    then obtain l where l: "l \<in> set ks" "y = ct_at l" using cn(11) by auto
    show "cnodes c y \<noteq> None" using chain_rep_kid [OF r l(1)] l(2) by (cases l) (auto simp: node_rep_def)
  qed
  obtain c1 rt t1 where c1: "create_child a True c = Some (Inr (?new, c1))"
    "cnodes c1 = (\<lambda>x. if x = a then Some (cn\<lparr>rb_root_in := rt\<rparr>)
      else if x = ?new then Some (zero_cnode\<lparr>cn_parent := a, rb_root_in := rb_root_in cn\<rparr>)
      else if x \<in> set (addrs t) then map_option (\<lambda>n. n\<lparr>cn_parent := ?new\<rparr>) (cnodes c x) else cnodes c x)"
    "holds_tree \<lparr>mem = in_mem c1, rb_root = rt\<rparr> t1" "red_black t1" "addrs t1 = [?new]"
    "\<forall>x. x \<noteq> ?new \<longrightarrow> in_mem c1 x = in_mem c x" "ch_heap c1 = tl (ch_heap c)" "plan (ch_alloc c1) = []"
    using create_child_inherit [OF al(1) cn(1) nea cn(9) nin al(2) mapped at] by blast
  define N where "N = zero_cnode\<lparr>cn_parent := a, rb_root_in := rb_root_in cn, cn_val := drop m v, cn_hit := h,
    children_hit := children_hit cn, val_nr := of_nat (length v) - of_nat m, cn_count := n, children_count := children_count cn\<rparr>"
  define P where "P = cn\<lparr>rb_root_in := rt, cn_val := take m v, children_hit := callchain_cumul_hits N,
    val_nr := of_nat m, children_count := callchain_cumul_counts N\<rparr>"
  define c2 where "c2 = c1\<lparr>cnodes := (cnodes c1)(?new \<mapsto> N, a \<mapsto> P)\<rparr>"
  have mv: "move_tail a ?new m (of_nat m) c1 = Inr c2"
    using c1(2) nea m(1) cn(3-6) unfolding move_tail_def c2_def P_def N_def
    by (simp add: upd_cn_def ld_cn_def ucast_of_nat_u32 fun_upd_twist)
  have c2: "cnodes c2 a = Some P" "cnodes c2 ?new = Some N" "in_mem c2 = in_mem c1"
    "\<And>x. x \<noteq> a \<Longrightarrow> x \<noteq> ?new \<Longrightarrow> cnodes c2 x = cnodes c1 x" using nea by (simp_all add: c2_def)
  have kids: "chain_rep c2 ?new k" if k: "k \<in> set ks" for k
  proof (rule reparent)
    have out: "x \<noteq> a \<and> x \<noteq> ?new" if "x \<in> set (nodes k)" for x
      using that kid_not_at [OF al(5) k] kid_nodes [OF k that] al(3) by blast
    show "chain_rep c a k" using r k by simp
    show "distinct (nodes k)" using al(5) k by (auto simp: distinct_concat_iff)
    show "cnodes c2 (ct_at k) = map_option (\<lambda>n. n\<lparr>cn_parent := ?new\<rparr>) (cnodes c (ct_at k))"
      using out [OF ct_at_nodes] c2(4) c1(2) k cn(11) by simp
    show "cnodes c2 x = cnodes c x \<and> in_mem c2 x = in_mem c x" if x: "x \<in> below k" for x
    proof -
      have "x \<in> set (nodes k)" using x nodes_below by blast
      moreover have "x \<notin> set (addrs t)" using below_kid [OF al(5) k _ x] cn(11) by auto
      ultimately show ?thesis using out c2(3,4) c1(2,6) by simp
    qed
  qed
  have "holds_tree (kids_tree c2 N) t = holds_tree (kids_tree c cn) t"
    using nin c2(3) c1(6) by (intro holds_tree_cong) (simp_all add: kids_tree_def N_def, metis)
  then have "node_rep c2 a ?new (drop m v) h n ks"
    using c2(2) cn(7-11) m(1) unfolding node_rep_def
    by (intro exI [of _ N] exI [of _ t]) (simp add: N_def zero_cnode_def of_nat_diff)
  moreover have "node_rep c2 par a (take m v) h n [CT ?new (drop m v) h n ks]"
    using c2(1,3) cn(2,5-8) m(1) c1(3-5) unfolding node_rep_def
    by (intro exI [of _ P] exI [of _ t1])
      (simp add: P_def N_def kids_tree_def callchain_cumul_hits_def callchain_cumul_counts_def)
  ultimately have "chain_rep c2 par (CT a (take m v) h n [CT ?new (drop m v) h n ks])" using kids by simp
  moreover have "cnodes c2 x = cnodes c x" if "x \<notin> set (nodes ?k)" "x \<noteq> ?new" for x
    using c2(4) [of x] that not_kid_at [OF that(1)] c1(2) cn(11) by simp
  moreover have "ch_heap c2 = tl (ch_heap c)" "plan (ch_alloc c2) = []" using c1(7,8) by (simp_all add: c2_def)
  ultimately show ?thesis using c1(1,6) mv c2(3) by auto
qed

lemma addrs_Nil: "addrs t = [] \<longleftrightarrow> t = Lf"
  by (cases t) simp_all

text \<open>Comparing writes the entry back as it was.\<close>

lemma match_first_plain:
  assumes env: "env_key env \<noteq> CCKEY_SRCLINE" and cn: "cnodes c b = Some cn" "cn_val cn = e # es" and pl: "plain n"
  shows "match_first env n b c = Inr (key_match (cl_key e) (cu_key n), c)"
proof -
  have "cn\<lparr>cn_val := e # es\<rparr> = cn" using cn(2) by simp
  then have "upd_cn b (\<lambda>n. n\<lparr>cn_val := e # es\<rparr>) (c\<lparr>ch_alloc := ch_alloc c\<rparr>) = Inr c"
    using cn(1) fun_upd_triv [of "cnodes c" b] by (simp add: upd_cn_def ld_cn_def)
  then show ?thesis using match_chain_plain [OF pl env] cn by (simp add: match_first_def ld_cn_def)
qed

lemma add_second_ok:
  assumes env: "env_key env \<noteq> CCKEY_SRCLINE"
    and r: "chain_rep c par (CT a v h n [f])" "distinct (nodes (CT a v h n [f]))"
    and al: "can_alloc c" "aligned (hd (ch_heap c))" "hd (ch_heap c) \<notin> set (nodes (CT a v h n [f]))"
    and rd: "reading cur (m # ns)" "\<forall>n \<in> set (m # ns). plain n"
    and f: "ct_val f \<noteq> []" "ct_key f \<noteq> cu_key m"
  shows "\<exists>cur' c'. add_second env a period (cur, c) = Some (Inr (True, cur', c')) \<and>
    chain_rep c' par (CT a v 0 0 (if key_less (ct_key f) (cu_key m) then [new_leaf (hd (ch_heap c)) (m # ns) period, f]
      else [f, new_leaf (hd (ch_heap c)) (m # ns) period])) \<and> reading cur' [] \<and> same_list cur cur' \<and>
    (\<forall>x. x \<noteq> a \<and> x \<noteq> hd (ch_heap c) \<longrightarrow> cnodes c' x = cnodes c x) \<and>
    (\<forall>x. x \<noteq> hd (ch_heap c) \<and> x \<noteq> ct_at f \<longrightarrow> in_mem c' x = in_mem c x) \<and>
    ch_heap c' = tl (ch_heap c) \<and> plan (ch_alloc c') = []"
proof -
  let ?new = "hd (ch_heap c)" and ?b = "ct_at f"
  obtain cn t where cn: "cnodes c a = Some cn" "cn_parent cn = par" "cn_val cn = v" "val_nr cn = of_nat (length v)"
    "children_hit cn = cumul_hit f + 0" "children_count cn = cumul_count f + 0"
    "holds_tree (kids_tree c cn) t" "red_black t" "addrs t = [?b]"
    using r(1) by (auto simp: node_rep_def)
  define cu where "cu = cn\<lparr>cn_hit := 0, children_hit := children_hit cn + period, cn_count := 0,
    children_count := children_count cn + 1\<rparr>"
  define c0 where "c0 = c\<lparr>cnodes := (cnodes c)(a \<mapsto> cu)\<rparr>"
  have c0: "cnodes c0 = (cnodes c)(a \<mapsto> cu)" "in_mem c0 = in_mem c" "ch_heap c0 = ch_heap c" "ch_alloc c0 = ch_alloc c"
    by (simp_all add: c0_def)
  have kt: "kids_tree c0 cu = kids_tree c cn" by (simp add: kids_tree_def cu_def c0_def)
  obtain col where t: "t = Nd col Lf ?b Lf" using cn(9) by (cases t) (auto simp: append_eq_Cons_conv addrs_Nil)
  define d where "d = (if key_less (ct_key f) (cu_key m) then L else R)"
  define ctx where "ctx = [Fr d col ?b Lf]"
  have ctx: "plug Lf ctx = t" "ctx_addr ctx = ?b" "hole_link ctx = Child_link d ?b" "set (ctx_addrs ctx) = {?b}"
    by (simp_all add: ctx_def d_def t)
  have ba: "?b \<noteq> a" using r(2) ct_at_nodes [of f] by auto
  have bn: "?new \<noteq> ?b" "?new \<noteq> a" using al(3) ct_at_nodes [of f] by auto
  have al0: "can_alloc c0" using al(1) by (simp add: can_alloc_def c0(3,4))
  obtain cur' c1 c' where s: "add_child_node a period (cur, c0) = Some (Inr (?new, cur', c1))"
    "cnodes c1 = (cnodes c0)(?new \<mapsto> leaf_cnode a (m # ns) period)"
    "link_child a ?b (Child_link d ?b) ?new c1 = Some (Inr c')" "reading cur' []" "same_list cur cur'"
    and la: "leaf_added c0 a cu (m # ns) period (ctx_before ctx) (ctx_after ctx) c'"
    using add_and_link [of c0 a cu ctx cur "m # ns" period] cn(7,8) al0 al(2) bn rd unfolding c0(3) ctx kt by (auto simp: c0(1))
  obtain fn e es where fn: "cnodes c ?b = Some fn" "cn_val fn = e # es" "cl_key e = ct_key f"
    using r(1) f(1) by (cases f; cases "ct_val f") (auto simp: node_rep_def ct_key_def)
  have "cnodes c1 ?b = Some fn" using s(2) c0(1) fn(1) ba bn by simp
  note mf = match_first_plain [OF env this fn(2), of m]
  have root: "rb_root_in cu = ?b" using cn(7) by (simp add: t holds_tree_def kids_tree_def cu_def)
  have up: "upd_cn a (\<lambda>p. p\<lparr>cn_hit := 0, children_hit := children_hit p + period, cn_count := 0,
       children_count := children_count p + 1\<rparr>) c = Inr c0" using cn(1) by (simp add: upd_cn_def ld_cn_def c0_def cu_def)
  have ld: "ld_cn c1 a = Inr cu" using s(2) c0(1) bn by (simp add: ld_cn_def)
  have side: "(if key_match (cl_key e) (cu_key m) = MATCH_LT then L else R) = d" by (simp add: d_def fn(3))
  have nz: "?new \<noteq> 0" using al(1) by (simp add: can_alloc_def)
  have res: "add_second env a period (cur, c) = Some (Inr (True, cur', c'))"
    using rd(2) by (simp add: add_second_def up reading_current [OF rd(1)] s(1) nz ld root mf side s(3) del: key_match_simps)
  define us where "us = (if d = L then [] else [f])"
  define vs where "vs = (if d = L then [f] else [])"
  have uv: "us @ vs = [f]" "ctx_before ctx = map ct_at us" "ctx_after ctx = map ct_at vs"
    "us @ new_leaf ?new (m # ns) period # vs = (if key_less (ct_key f) (cu_key m) then [new_leaf ?new (m # ns) period, f]
      else [f, new_leaf ?new (m # ns) period])"
    by (simp_all add: us_def vs_def ctx_def d_def)
  let ?ks = "us @ new_leaf ?new (m # ns) period # vs"
  obtain rt t' where l: "cnodes c' = (cnodes c)(?new \<mapsto> leaf_cnode a (m # ns) period, a \<mapsto> cu\<lparr>rb_root_in := rt\<rparr>)"
    "holds_tree \<lparr>mem = in_mem c', rb_root = rt\<rparr> t'" "red_black t'" "addrs t' = map ct_at us @ ?new # map ct_at vs"
    "\<And>x. x \<noteq> ?new \<Longrightarrow> x \<notin> set (map ct_at (us @ vs)) \<Longrightarrow> in_mem c' x = in_mem c x"
    "ch_heap c' = tl (ch_heap c)" "plan (ch_alloc c') = []"
    using la bn unfolding leaf_added_def uv(2,3) c0(1-3) map_append by (auto simp: fun_upd_twist)
  have "chain_rep c0 a f"
  proof -
    have "chain_rep c0 a f = chain_rep c a f" using r(2) c0(1,2) by (intro chain_rep_cong) auto
    then show ?thesis using r(1) by simp
  qed
  then have "chain_rep c' a k" if "k \<in> set ?ks" for k
    using leaf_added_kids [OF la [unfolded uv(2,3)] _ _ _ , of v h n k] that r(2) al(3) unfolding uv(1) c0(3) by simp
  moreover have "node_rep c' par a v 0 0 ?ks"
    using l(1-4) cn(2-6) uv(1) unfolding node_rep_def
    by (intro exI [of _ "cu\<lparr>rb_root_in := rt\<rparr>"] exI [of _ t'])
      (auto simp: kids_tree_def cu_def new_leaf_def us_def vs_def algebra_simps)
  ultimately have "chain_rep c' par (CT a v 0 0 ?ks)" by simp
  then show ?thesis using res s(4,5) l(1,5-7) unfolding uv(1,4) by auto
qed

subsection \<open>\<open>append_chain\<close>\<close>

lemma entries_u32:
  assumes "m \<le> l" "l < 2 ^ 32"
  shows "(of_nat m :: u64) < ucast (of_nat l :: u32) \<longleftrightarrow> m < l" "(of_nat m :: u64) = ucast (of_nat l :: u32) \<longleftrightarrow> m = l"
proof -
  have "(ucast (of_nat l :: u32) :: u64) = of_nat l" using assms(2) by (simp add: unsigned_of_nat take_bit_nat_eq_self)
  moreover have "take_bit 64 m = m" "take_bit 64 l = l" using assms by (auto intro!: take_bit_nat_eq_self)
  ultimately show "(of_nat m :: u64) < ucast (of_nat l :: u32) \<longleftrightarrow> m < l" "(of_nat m :: u64) = ucast (of_nat l :: u32) \<longleftrightarrow> m = l"
    by (simp_all add: word_of_nat_less_iff word_of_nat_eq_iff)
qed

text \<open>\<open>idx_total\<close>, a 32-bit number, against the length of the cursor.\<close>

lemma more_to_read:
  assumes "reading cur ns"
  shows "(ucast (ucast (cu_pos cur) :: u32) :: u64) < cu_nr cur \<longleftrightarrow> ns \<noteq> []"
proof -
  have r: "cursor_ok cur" "cu_curr cur \<le> cu_last cur" "cu_pos cur = of_nat (cu_curr cur)"
    using assms by (simp_all add: reading_def)
  have b: "cu_last cur < 2 ^ 32" "cu_nr cur = of_nat (cu_last cur)" using r(1) by (simp_all add: cursor_ok_def)
  have "(ucast (cu_pos cur) :: u32) = of_nat (cu_curr cur)" unfolding r(3) by (rule ucast_of_nat_u32)
  moreover have "(ucast (of_nat (cu_curr cur) :: u32) :: u64) = of_nat (cu_curr cur)"
    using r(2) b(1) by (simp add: unsigned_of_nat take_bit_nat_eq_self)
  moreover have "take_bit 64 (cu_curr cur) = cu_curr cur" "take_bit 64 (cu_last cur) = cu_last cur"
    using r(2) b(1) by (auto intro!: take_bit_nat_eq_self)
  ultimately have "(ucast (ucast (cu_pos cur) :: u32) :: u64) < cu_nr cur \<longleftrightarrow> cu_curr cur < cu_last cur"
    using b(2) by (simp add: word_of_nat_less_iff)
  then show ?thesis using reading_pos(4) [OF assms] by (cases ns) auto
qed

lemma common_first: "v \<noteq> [] \<Longrightarrow> ns \<noteq> [] \<Longrightarrow> cl_key (hd v) = cu_key (hd ns) \<Longrightarrow> 0 < common v ns"
  by (cases v; cases ns) simp_all

text \<open>Where the entries and the chain part, the keys differ.\<close>

lemma common_part:
  "common v ns < length v \<Longrightarrow> drop (common v ns) ns = m # ms \<Longrightarrow> cl_key (hd (drop (common v ns) v)) \<noteq> cu_key m"
  by (induction v ns rule: common.induct) (auto split: if_splits)

lemma append_chain_step:
  assumes env: "env_key env \<noteq> CCKEY_SRCLINE" and r: "chain_rep c par (CT a v h n ks)" and v: "v \<noteq> []" "length v < 2 ^ 32"
    and rd: "reading cur ns" "ns \<noteq> []" "\<forall>n \<in> set ns. plain n" and key: "cl_key (hd v) = cu_key (hd ns)"
  shows "\<exists>cur1. reading cur1 (drop (common v ns) ns) \<and> same_list cur cur1 \<and> cu_pos cur1 = cu_pos cur + of_nat (common v ns) \<and>
    append_chain env rest a period (cur, c) =
      (if common v ns < length v then
         obind (split_add_child env a (common v ns) (cu_pos cur) (of_nat (common v ns)) period (cur1, c)) (\<lambda>(ok, cur, c).
           Some (Inr (if ok then MATCH_EQ else MATCH_ERROR, cur, c)))
       else if drop (common v ns) ns = [] then
         obind (Some (upd_cn a (\<lambda>n. n\<lparr>cn_hit := cn_hit n + period, cn_count := cn_count n + 1\<rparr>) c)) (\<lambda>c.
           Some (Inr (MATCH_EQ, cur1, c)))
       else
         obind (rest a (cur1, c)) (\<lambda>(ok, cur, c).
           Some (Inr (if ok then MATCH_EQ else MATCH_ERROR, cur, c))))"
proof -
  let ?m = "common v ns"
  obtain cn where cn: "cnodes c a = Some cn" "cn_val cn = v" "val_nr cn = of_nat (length v)"
    using r by (auto simp: node_rep_def)
  obtain cmp cur1 where m: "match_entries env v MATCH_ERROR (cur, ch_alloc c) = Inr (v, cmp, ?m, cur1, ch_alloc c)"
      "reading cur1 (drop ?m ns)" "same_list cur cur1" "cu_pos cur1 = cu_pos cur + of_nat ?m"
    using match_entries_ok [OF env rd(1,3), of v MATCH_ERROR "ch_alloc c"] by blast
  have up: "upd_cn a (\<lambda>n. n\<lparr>cn_val := v\<rparr>) (c\<lparr>ch_alloc := ch_alloc c\<rparr>) = Inr c"
  proof -
    have "cn\<lparr>cn_val := v\<rparr> = cn" using cn(2) by simp
    then show ?thesis using cn(1) fun_upd_triv [of "cnodes c" a] by (simp add: upd_cn_def ld_cn_def)
  qed
  have diff: "cu_pos cur1 - cu_pos cur = of_nat ?m" using m(4) by simp
  have pos: "0 < ?m" by (rule common_first [OF v(1) rd(2) key])
  have le: "?m \<le> length v" by (rule common_le)
  have "append_chain env rest a period (cur, c) =
      (if ?m < length v then
         obind (split_add_child env a ?m (cu_pos cur) (of_nat ?m) period (cur1, c)) (\<lambda>(ok, cur, c).
           Some (Inr (if ok then MATCH_EQ else MATCH_ERROR, cur, c)))
       else if drop ?m ns = [] then
         obind (Some (upd_cn a (\<lambda>n. n\<lparr>cn_hit := cn_hit n + period, cn_count := cn_count n + 1\<rparr>) c)) (\<lambda>c.
           Some (Inr (MATCH_EQ, cur1, c)))
       else
         obind (rest a (cur1, c)) (\<lambda>(ok, cur, c).
           Some (Inr (if ok then MATCH_EQ else MATCH_ERROR, cur, c))))"
  proof (cases "?m < length v")
    case True
    then show ?thesis using pos cn up by (simp add: append_chain_def ld_cn_def m(1) Let_def diff entries_u32(1) [OF le v(2)])
  next
    case False
    then have "?m = length v" using le by simp
    then have "(of_nat ?m = (ucast (of_nat (length v) :: u32) :: u64)) = True" using entries_u32(2) [OF le v(2)] by simp
    then show ?thesis using False pos cn up
      by (simp add: append_chain_def ld_cn_def m(1) Let_def diff entries_u32(1) [OF le v(2)] reading_pos(1) [OF m(2)] del: drop_eq_Nil)
  qed
  then show ?thesis using m(2-4) by blast
qed

text \<open>The split, for a chain that ends in the node and for one that goes on.\<close>

lemma split_ok:
  assumes env: "env_key env \<noteq> CCKEY_SRCLINE" and r: "chain_rep c par (CT a v h n ks)" and v: "length v < 2 ^ 32"
    and ready: "app_ready c cur0 ns (CT a v h n ks)" and m: "common v ns < length v"
    and rd: "reading cur (drop (common v ns) ns)" "same_list cur0 cur" "start + of_nat (common v ns) = cu_pos cur"
  shows "\<exists>cur' c'. split_add_child env a (common v ns) start (of_nat (common v ns)) period (cur, c) = Some (Inr (True, cur', c')) \<and>
    appended c cur0 (CT a v h n ks) par (fst (app_node ns period (ch_heap c) (CT a v h n ks)))
      (snd (app_node ns period (ch_heap c) (CT a v h n ks))) c' cur'"
proof -
  let ?k = "CT a v h n ks" and ?m = "common v ns" and ?new = "hd (ch_heap c)"
  let ?child = "CT ?new (drop ?m v) h n ks"
  note al = app_ready_alloc [OF ready]
  obtain c1 c2 where s: "create_child a True c = Some (Inr (?new, c1))" "move_tail a ?new ?m (of_nat ?m) c1 = Inr c2"
    and r2: "chain_rep c2 par (CT a (take ?m v) h n [?child])"
    and f: "\<And>x. x \<notin> set (nodes ?k) \<Longrightarrow> x \<noteq> ?new \<Longrightarrow> cnodes c2 x = cnodes c x"
      "\<And>x. x \<noteq> ?new \<Longrightarrow> in_mem c2 x = in_mem c x" "ch_heap c2 = tl (ch_heap c)" "plan (ch_alloc c2) = []"
    using split_tail_ok [OF r ready m v] by blast
  have d2: "distinct (nodes (CT a (take ?m v) h n [?child]))" using al(3,5) by auto
  have nz: "?new \<noteq> 0" using al(1) by (simp add: can_alloc_def)
  have out: "x \<notin> set (nodes ?k) \<Longrightarrow> x \<notin> set (ch_heap c) \<Longrightarrow> x \<noteq> a \<and> x \<noteq> ?new" for x using al(4) by auto
  have ane: "a \<noteq> ?new" using al(3) by auto
  have idx: "(ucast (ucast (start + of_nat ?m) :: u32) :: u64) < cu_nr cur \<longleftrightarrow> drop ?m ns \<noteq> []"
    unfolding rd(3) by (rule more_to_read [OF rd(1)])
  have step: "split_add_child env a ?m start (of_nat ?m) period (cur, c) =
      (if drop ?m ns \<noteq> [] then add_second env a period (cur, c2)
       else obind (Some (upd_cn a (\<lambda>p. p\<lparr>cn_hit := period, cn_count := 1\<rparr>) c2)) (\<lambda>c. Some (Inr (True, cur, c))))"
    by (simp add: split_add_child_def Let_def s nz idx del: drop_eq_Nil)
  show ?thesis
  proof (cases "drop ?m ns")
    case Nil
    obtain c' where c': "upd_cn a (\<lambda>n. n\<lparr>cn_hit := period, cn_count := 1\<rparr>) c2 = Inr c'"
      "chain_rep c' par (CT a (take ?m v) period 1 [?child])" "in_mem c' = in_mem c2"
      "ch_heap c' = ch_heap c2" "ch_alloc c' = ch_alloc c2" "\<And>x. x \<noteq> a \<Longrightarrow> cnodes c' x = cnodes c2 x"
      using set_hits [OF r2 d2, where h' = period and n' = 1] by auto
    have "kept c c' ?k" unfolding kept_def using out f(1,2) c'(3,6) ane by auto
    then show ?thesis using step c' f(3,4) rd(1,2) Nil m by (auto simp: appended_def Let_def)
  next
    case (Cons q qs)
    have len: "\<exists>x y xs. ch_heap c = x # y # xs" using ready by (cases "ch_heap c"; cases "tl (ch_heap c)") (auto simp: app_ready_def)
    have heap: "good_heap (ch_heap c) (set (nodes ?k))" using ready by (simp add: app_ready_def)
    have al2: "can_alloc c2" "aligned (hd (ch_heap c2))" "hd (ch_heap c2) \<notin> set (nodes (CT a (take ?m v) h n [?child]))"
      "hd (ch_heap c2) \<in> set (ch_heap c)"
      using len heap f(3,4) by (auto simp: can_alloc_def good_heap_def)
    have rd2: "reading cur (q # qs)" "\<forall>n \<in> set (q # qs). plain n"
    proof -
      show "reading cur (q # qs)" using rd(1) Cons by simp
      have "set (q # qs) \<subseteq> set ns" unfolding Cons [symmetric] by (rule set_drop_subset)
      then show "\<forall>n \<in> set (q # qs). plain n" using ready by (auto simp: app_ready_def)
    qed
    have fk: "ct_val ?child \<noteq> []" "ct_key ?child \<noteq> cu_key q"
      using m common_part [OF m Cons] by (simp_all add: ct_key_def)
    obtain cur' c' where t: "add_second env a period (cur, c2) = Some (Inr (True, cur', c'))"
      "chain_rep c' par (CT a (take ?m v) 0 0 (if key_less (ct_key ?child) (cu_key q)
         then [new_leaf (hd (ch_heap c2)) (q # qs) period, ?child] else [?child, new_leaf (hd (ch_heap c2)) (q # qs) period]))"
      "reading cur' []" "same_list cur cur'" "\<And>x. x \<noteq> a \<Longrightarrow> x \<noteq> hd (ch_heap c2) \<Longrightarrow> cnodes c' x = cnodes c2 x"
      "\<And>x. x \<noteq> hd (ch_heap c2) \<Longrightarrow> x \<noteq> ?new \<Longrightarrow> in_mem c' x = in_mem c2 x"
      "ch_heap c' = tl (ch_heap c2)" "plan (ch_alloc c') = []"
      using add_second_ok [OF env r2 d2 al2(1-3) rd2 fk, of period] by auto
    have kept: "kept c c' ?k"
    proof -
      have ah: "a \<noteq> hd (ch_heap c2)" using al2(3) by auto
      have oh: "x \<noteq> hd (ch_heap c2)" if "x \<notin> set (ch_heap c)" for x using that al2(4) by auto
      have "cnodes c' x = cnodes c x \<and> in_mem c' x = in_mem c x" if x: "x \<notin> set (nodes ?k)" "x \<notin> set (ch_heap c)" for x
        using out [OF x] oh [OF x(2)] t(5,6) [of x] f(1) [OF x(1)] f(2) [of x] by simp
      moreover have "in_mem c' a = in_mem c a" using t(6) [of a] f(2) [of a] ah ane by simp
      ultimately show ?thesis by (simp add: kept_def)
    qed
    have "app_node ns period (ch_heap c) ?k = (CT a (take ?m v) 0 0 (if key_less (ct_key ?child) (cu_key q)
         then [new_leaf (hd (ch_heap c2)) (q # qs) period, ?child] else [?child, new_leaf (hd (ch_heap c2)) (q # qs) period]),
       tl (ch_heap c2))"
      using m Cons f(3) by (simp add: Let_def pair_kids_def ct_key_def new_leaf_def del: drop_eq_Nil)
    then show ?thesis using step t(1-4,7,8) kept rd(2) Cons same_list_trans unfolding appended_def by auto
  qed
qed

theorem append_chain_ok:
  assumes env: "env_key env \<noteq> CCKEY_SRCLINE"
  shows "kid_wf k \<Longrightarrow> chain_rep c par k \<Longrightarrow> ct_key k = cu_key (hd ns) \<Longrightarrow> app_ready c cur ns k \<Longrightarrow>
    \<exists>cur' c'. append_chain env (\<lambda>r s. append_children env r period None s) (ct_at k) period (cur, c) =
        Some (Inr (MATCH_EQ, cur', c')) \<and>
      appended c cur k par (fst (app_node ns period (ch_heap c) k)) (snd (app_node ns period (ch_heap c) k)) c' cur'"
proof (induction k arbitrary: c par ns cur)
  case (CT a v h n ks)
  let ?k = "CT a v h n ks" and ?m = "common v ns"
  let ?rest = "\<lambda>r s. append_children env r period None s"
  note r = CT.prems(2) and ready = CT.prems(4)
  note al = app_ready_alloc [OF ready]
  have wf: "v \<noteq> []" "length v < 2 ^ 32" "kids_wf ks" using CT.prems(1) unfolding kid_wf_CT by blast+
  have ns: "reading cur ns" "ns \<noteq> []" "\<forall>n \<in> set ns. plain n" using ready by (simp_all add: app_ready_def)
  have key: "cl_key (hd v) = cu_key (hd ns)" using CT.prems(3) by (simp add: ct_key_def)
  obtain cur1 where c1: "reading cur1 (drop ?m ns)" "same_list cur cur1" "cu_pos cur1 = cu_pos cur + of_nat ?m"
    and step: "append_chain env ?rest a period (cur, c) =
      (if ?m < length v then
         obind (split_add_child env a ?m (cu_pos cur) (of_nat ?m) period (cur1, c)) (\<lambda>(ok, cur, c).
           Some (Inr (if ok then MATCH_EQ else MATCH_ERROR, cur, c)))
       else if drop ?m ns = [] then
         obind (Some (upd_cn a (\<lambda>n. n\<lparr>cn_hit := cn_hit n + period, cn_count := cn_count n + 1\<rparr>) c)) (\<lambda>c.
           Some (Inr (MATCH_EQ, cur1, c)))
       else
         obind (?rest a (cur1, c)) (\<lambda>(ok, cur, c).
           Some (Inr (if ok then MATCH_EQ else MATCH_ERROR, cur, c))))"
    using append_chain_step [OF env r wf(1,2) ns key, of ?rest period] by blast
  consider "?m < length v" | "\<not> ?m < length v" "drop ?m ns = []" | "\<not> ?m < length v" "drop ?m ns \<noteq> []" by blast
  then show ?case
  proof cases
    case 1
    have "cu_pos cur + of_nat ?m = cu_pos cur1" using c1(3) by simp
    from split_ok [OF env r wf(2) ready 1 c1(1,2) this, of period] show ?thesis
      unfolding ctree.sel step using 1 by fastforce
  next
    case 2
    obtain cn where cn: "cnodes c a = Some cn" "cn_hit cn = h" "cn_count cn = n"
      and s: "chain_rep (c\<lparr>cnodes := (cnodes c)(a \<mapsto> cn\<lparr>cn_hit := h + period, cn_count := n + 1\<rparr>)\<rparr>) par (CT a v (h + period) (n + 1) ks)"
      using set_hits [OF r al(5), where h' = "h + period" and n' = "n + 1"] by blast
    let ?c = "c\<lparr>cnodes := (cnodes c)(a \<mapsto> cn\<lparr>cn_hit := h + period, cn_count := n + 1\<rparr>)\<rparr>"
    have "append_chain env ?rest a period (cur, c) = Some (Inr (MATCH_EQ, cur1, ?c))"
      unfolding step using 2 cn by (simp add: upd_cn_def ld_cn_def del: drop_eq_Nil)
    moreover have "app_node ns period (ch_heap c) ?k = (CT a v (h + period) (n + 1) ks, ch_heap c)"
      using 2 by (simp add: Let_def del: drop_eq_Nil)
    moreover have "appended c cur ?k par (CT a v (h + period) (n + 1) ks) (ch_heap c) ?c cur1"
      using s c1(1,2) 2(2) ready by (simp add: appended_def kept_def app_ready_def)
    ultimately show ?thesis by auto
  next
    case 3
    have "set (drop ?m ns) \<subseteq> set ns" by (rule set_drop_subset)
    then have ready1: "app_ready c cur1 (drop ?m ns) ?k"
      using ready c1(1) 3(2) unfolding app_ready_def by blast
    have IH: "\<exists>cur' c'. append_chain env ?rest (ct_at k) period (cur, c) = Some (Inr (MATCH_EQ, cur', c')) \<and>
        appended c cur k a (fst (app_node (drop ?m ns) period (ch_heap c) k)) (snd (app_node (drop ?m ns) period (ch_heap c) k)) c' cur'"
      if "k \<in> set ks" "chain_rep c a k" "ct_key k = cu_key (hd (drop ?m ns))" "app_ready c cur (drop ?m ns) k" for k cur c
      using CT.IH [OF that(1) _ that(2-4)] wf(3) that(1) by (simp add: kids_wf_def)
    obtain cur' c' where s: "?rest a (cur1, c) = Some (Inr (True, cur', c'))"
      "appended c cur1 ?k par (CT a v h n (fst (app_kids (drop ?m ns) period (ch_heap c) ks)))
        (snd (app_kids (drop ?m ns) period (ch_heap c) ks)) c' cur'"
      using append_children_ok [OF env IH r wf(3) ready1] by blast
    have "app_node ns period (ch_heap c) ?k = (CT a v h n (fst (app_kids (drop ?m ns) period (ch_heap c) ks)),
        snd (app_kids (drop ?m ns) period (ch_heap c) ks))"
      using 3 by (simp add: Let_def split_def del: drop_eq_Nil)
    moreover have "append_chain env ?rest a period (cur, c) = Some (Inr (MATCH_EQ, cur', c'))"
      unfolding step using 3 s(1) by (simp del: drop_eq_Nil)
    moreover have "appended c cur ?k par k' h' c' cur'" if "appended c cur1 ?k par k' h' c' cur'" for k' h'
      using that c1(2) same_list_trans unfolding appended_def by blast
    ultimately show ?thesis using s(2) by auto
  qed
qed

theorem append_chain_children_ok:
  assumes env: "env_key env \<noteq> CCKEY_SRCLINE" and r: "chain_rep c par (CT a v h n ks)" and wf: "kids_wf ks"
    and ready: "app_ready c cur ns (CT a v h n ks)"
  shows "\<exists>cur' c'. append_chain_children env a period (cur, c) = Some (Inr (True, cur', c')) \<and>
    appended c cur (CT a v h n ks) par (CT a v h n (fst (app_kids ns period (ch_heap c) ks)))
      (snd (app_kids ns period (ch_heap c) ks)) c' cur'"
  unfolding append_chain_children_def
proof (rule append_children_ok [OF env _ r wf ready])
  fix k cur c assume "k \<in> set ks" "chain_rep c a k" "ct_key k = cu_key (hd ns)" "app_ready c cur ns k"
  then show "\<exists>cur' c'. append_chain env (\<lambda>r s. append_children env r period None s) (ct_at k) period (cur, c) =
        Some (Inr (MATCH_EQ, cur', c')) \<and>
      appended c cur k a (fst (app_node ns period (ch_heap c) k)) (snd (app_node ns period (ch_heap c) k)) c' cur'"
    using append_chain_ok [OF env _ \<open>chain_rep c a k\<close>] wf by (simp add: kids_wf_def)
qed

end
