(* ===== verification/Chain_Count.thy ===== *)
theory Chain_Count
  imports Chain_Append
begin

text \<open>
  What appending means: the tree of chains keeps, for every chain, how often it was appended
  and the sum of the periods, and its shape is the one the search needs.
\<close>

subsection \<open>Shape\<close>

lemma kids_wf_Nil [simp]: "kids_wf []"
  by (simp add: kids_wf_def)

lemma common_keys: "map cl_key (take (common v ns) v) = map cu_key (take (common v ns) ns)"
  by (induction v ns rule: common.induct) simp_all

lemma new_leaf_wf: "ns \<noteq> [] \<Longrightarrow> length ns < 2 ^ 32 \<Longrightarrow> kid_wf (new_leaf a ns p)"
  by (simp add: new_leaf_def)

lemma new_leaf_key [simp]: "ns \<noteq> [] \<Longrightarrow> ct_key (new_leaf a ns p) = cu_key (hd ns)"
  by (cases ns) (simp_all add: new_leaf_def ct_key_def)

lemma pair_kids_wf:
  assumes "kid_wf f" "kid_wf g" "ct_key f \<noteq> ct_key g"
  shows "kids_wf (pair_kids f g)"
  using assms key_less_linear [of "ct_key f" "ct_key g"] by (auto simp: pair_kids_def kids_wf_Cons)

lemma app_wf:
  "ns \<noteq> [] \<Longrightarrow> length ns < 2 ^ 32 \<Longrightarrow> kids_wf ks \<Longrightarrow>
     kids_wf (fst (app_kids ns p h ks)) \<and> ct_key ` set (fst (app_kids ns p h ks)) = insert (cu_key (hd ns)) (ct_key ` set ks)"
  "ns \<noteq> [] \<Longrightarrow> length ns < 2 ^ 32 \<Longrightarrow> kid_wf k \<Longrightarrow> ct_key k = cu_key (hd ns) \<Longrightarrow>
     kid_wf (fst (app_node ns p h k)) \<and> ct_key (fst (app_node ns p h k)) = ct_key k"
proof (induction ns p h ks and ns p h k rule: app_kids_app_node.induct)
  case (1 ns period h)
  then show ?case by (simp add: kids_wf_Cons new_leaf_wf)
next
  case (2 ns period h k ks)
  have k: "kid_wf k" "kids_wf ks" "\<forall>v \<in> set ks. key_less (ct_key v) (ct_key k)"
    using "2.prems" by (auto simp: kids_wf_Cons)
  have keys: "(\<forall>v \<in> set xs. P (ct_key v)) \<longleftrightarrow> (\<forall>j \<in> ct_key ` set xs. P j)" for xs P by blast
  consider "ct_key k = cu_key (hd ns)" | "ct_key k \<noteq> cu_key (hd ns)" "key_less (cu_key (hd ns)) (ct_key k)"
    | "ct_key k \<noteq> cu_key (hd ns)" "\<not> key_less (cu_key (hd ns)) (ct_key k)" by blast
  then show ?case
  proof cases
    case 1
    from "2.IH"(1) [OF 1 "2.prems"(1,2) k(1) 1] k show ?thesis
      using 1 by (simp add: split_def Let_def kids_wf_Cons)
  next
    case 2
    have IH: "kids_wf (fst (app_kids ns period h ks))"
      "ct_key ` set (fst (app_kids ns period h ks)) = insert (cu_key (hd ns)) (ct_key ` set ks)"
      using "2.IH"(2) [OF 2 "2.prems"(1,2) k(2)] by blast+
    have "kids_wf (k # fst (app_kids ns period h ks))"
      unfolding kids_wf_Cons using IH(1) k(1,3) 2(2) keys [of "fst (app_kids ns period h ks)" "\<lambda>j. key_less j (ct_key k)"]
      unfolding IH(2) by simp
    then show ?thesis using 2 IH(2) by (simp add: split_def Let_def insert_commute)
  next
    case 3
    then have "key_less (ct_key k) (cu_key (hd ns))" using key_less_linear by blast
    then have "\<forall>v \<in> set (k # ks). key_less (ct_key v) (cu_key (hd ns))" using k(3) by (metis key_less_trans set_ConsD)
    then show ?thesis using 3 "2.prems" new_leaf_wf [OF "2.prems"(1,2)] by (simp add: kids_wf_Cons)
  qed
next
  case (3 ns period h a v hit n ks)
  let ?m = "common v ns"
  have v: "v \<noteq> []" "length v < 2 ^ 32" "kids_wf ks" using "3.prems"(3) unfolding kid_wf_CT by blast+
  have pos: "0 < ?m" using common_first [OF v(1) "3.prems"(1)] "3.prems"(4) by (simp add: ct_key_def)
  then have "hd (take ?m v) = hd v" by (cases v; cases ?m) simp_all
  then have hd: "ct_key (CT a (take ?m v) h1 n1 k1) = ct_key (CT a v hit n ks)" for h1 n1 k1 by (simp add: ct_key_def)
  have child: "kid_wf (CT b (drop ?m v) hit n ks)" if "?m < length v" for b using that v by (auto simp: kids_wf_def)
  consider "?m < length v" "drop ?m ns = []" | "?m < length v" "drop ?m ns \<noteq> []"
    | "\<not> ?m < length v" "drop ?m ns = []" | "\<not> ?m < length v" "drop ?m ns \<noteq> []" by blast
  then show ?case
  proof cases
    case 1
    then have "fst (app_node ns period h (CT a v hit n ks)) = CT a (take ?m v) period 1 [CT (hd h) (drop ?m v) hit n ks]"
      by (simp add: Let_def del: drop_eq_Nil)
    then show ?thesis using hd child [OF 1(1)] v pos by (simp only: kid_wf_CT kids_wf_Cons) auto
  next
    case 2
    let ?f = "CT (hd h) (drop ?m v) hit n ks" and ?g = "new_leaf (hd (tl h)) (drop ?m ns) period"
    obtain q qs where q: "drop ?m ns = q # qs" using 2(2) by (cases "drop ?m ns") auto
    have "kids_wf (pair_kids ?f ?g)"
    proof (rule pair_kids_wf)
      show "kid_wf ?f" by (rule child [OF 2(1)])
      show "kid_wf ?g" using 2(2) "3.prems"(2) by (intro new_leaf_wf) auto
      show "ct_key ?f \<noteq> ct_key ?g" unfolding new_leaf_key [OF 2(2)] using common_part [OF 2(1) q] q by (simp add: ct_key_def)
    qed
    moreover have "fst (app_node ns period h (CT a v hit n ks)) = CT a (take ?m v) 0 0 (pair_kids ?f ?g)"
      using 2 by (simp add: Let_def del: drop_eq_Nil)
    ultimately show ?thesis using hd v pos by (simp only: kid_wf_CT) auto
  next
    case 3
    then show ?thesis using "3.prems" by (simp add: Let_def ct_key_def del: drop_eq_Nil)
  next
    case 4
    have "length (drop ?m ns) < 2 ^ 32" using "3.prems"(2) by auto
    then have "kids_wf (fst (app_kids (drop ?m ns) period h ks))"
      using "3.IH" [OF refl refl _ _ 4(2)] 4 v(3) by blast
    then show ?thesis using 4 v by (simp add: Let_def split_def ct_key_def kid_wf_CT del: drop_eq_Nil kid_wf.simps)
  qed
qed

subsection \<open>Tallies\<close>

text \<open>
  What the tree records for a chain, given by the keys of its entries: the numbers of the node
  where the chain ends. \<open>f\<close> picks the hits or the count.
\<close>

primrec node_tally :: "(u64 \<Rightarrow> u32 \<Rightarrow> 'b::comm_monoid_add) \<Rightarrow> ctree \<Rightarrow> (u64 \<times> u64) list \<Rightarrow> 'b" where
  "node_tally f (CT a v h n ks) p =
     (if take (length v) p \<noteq> map cl_key v then 0
      else if drop (length v) p = [] then f h n
      else sum_list (map (\<lambda>k. node_tally f k (drop (length v) p)) ks))"

definition chain_tally :: "(u64 \<Rightarrow> u32 \<Rightarrow> 'b::comm_monoid_add) \<Rightarrow> ctree list \<Rightarrow> (u64 \<times> u64) list \<Rightarrow> 'b" where
  "chain_tally f ks p = sum_list (map (\<lambda>k. node_tally f k p) ks)"

lemma node_tally_CT: "node_tally f (CT a v h n ks) p =
     (if take (length v) p \<noteq> map cl_key v then 0
      else if drop (length v) p = [] then f h n else chain_tally f ks (drop (length v) p))"
  by (simp add: chain_tally_def)

declare node_tally.simps [simp del]

lemma chain_tally_simps [simp]: "chain_tally f [] p = 0" "chain_tally f (k # ks) p = node_tally f k p + chain_tally f ks p"
  by (simp_all add: chain_tally_def)

text \<open>Cutting the entries of a node in two does not change what is recorded.\<close>

lemma tally_cut:
  assumes "m < length v" "f h1 n1 = 0"
  shows "node_tally f (CT a (take m v) h1 n1 [CT b (drop m v) h n ks]) p = node_tally f (CT a v h n ks) p"
proof -
  have "take (length v) p = take m p @ take (length v - m) (drop m p)"
    using assms(1) by (metis le_add_diff_inverse less_imp_le take_add)
  moreover have "map cl_key v = map cl_key (take m v) @ map cl_key (drop m v)" by (metis append_take_drop_id map_append)
  ultimately have "take (length v) p = map cl_key v \<longleftrightarrow>
      take m p = map cl_key (take m v) \<and> take (length v - m) (drop m p) = map cl_key (drop m v)"
    if "m \<le> length p" using that assms(1) by simp
  moreover have "take (length v) p \<noteq> map cl_key v" "take m p \<noteq> map cl_key (take m v)" if "\<not> m \<le> length p"
    using that assms(1) by (auto dest!: arg_cong [where f = length])
  moreover have "take (length v - m) (drop m p) \<noteq> map cl_key (drop m v)" if "length p \<le> m"
    using that assms(1) by simp
  ultimately show ?thesis using assms unfolding node_tally_CT by (auto simp: node_tally_CT)
qed

lemma node_tally_hit:
  assumes "v \<noteq> []"
  shows "node_tally f (CT a v h' n' ks) p =
    (if p = map cl_key v then f h' n' else node_tally f (CT a v h n ks) p)"
  unfolding node_tally_CT by (cases "length p \<le> length v") auto

lemma leaf_tally: "node_tally f (new_leaf a ns period) p = (if p = map cu_key ns then f period 1 else 0)"
  unfolding new_leaf_def node_tally_CT by (auto simp: o_def)

lemma path_cut:
  "p = map cu_key ns \<longleftrightarrow> take (common v ns) p = map cl_key (take (common v ns) v) \<and> drop (common v ns) p = map cu_key (drop (common v ns) ns)"
proof -
  have "p = q \<longleftrightarrow> take m p = take m q \<and> drop m p = drop m q" for m and q :: "(u64 \<times> u64) list"
    by (metis append_take_drop_id)
  from this [of "map cu_key ns" "common v ns"] show ?thesis
    unfolding common_keys unfolding take_map [symmetric] drop_map [symmetric] .
qed

lemma tally_short: "length p < length v \<Longrightarrow> node_tally f (CT a v h n ks) p = 0"
  unfolding node_tally_CT by (auto dest!: arg_cong [where f = length])

lemma tally_pair: "chain_tally f (pair_kids k l) p = node_tally f k p + node_tally f l p"
  by (cases "key_less (ct_key k) (ct_key l)") (simp_all add: pair_kids_def add.commute)

lemma node_tally_two:
  "f 0 0 = 0 \<Longrightarrow> node_tally f (CT a v 0 0 (pair_kids k l)) p = node_tally f (CT a v 0 0 [k]) p +
     (if take (length v) p = map cl_key v \<and> drop (length v) p \<noteq> [] then node_tally f l (drop (length v) p) else 0)"
  unfolding node_tally_CT [of f a v] tally_pair chain_tally_simps by simp

text \<open>Appending a chain records the chain and nothing else.\<close>

theorem app_tally:
  assumes f: "f 0 0 = 0" "\<And>h n q. f (h + q) (n + 1) = f h n + f q 1"
  shows "ns \<noteq> [] \<Longrightarrow> kids_wf ks \<Longrightarrow>
      chain_tally f (fst (app_kids ns period hp ks)) p = chain_tally f ks p + (if p = map cu_key ns then f period 1 else 0)"
    and "ns \<noteq> [] \<Longrightarrow> kid_wf k \<Longrightarrow> ct_key k = cu_key (hd ns) \<Longrightarrow>
      node_tally f (fst (app_node ns period hp k)) p = node_tally f k p + (if p = map cu_key ns then f period 1 else 0)"
proof (induction ns period hp ks and ns period hp k arbitrary: p and p rule: app_kids_app_node.induct)
  case (1 ns period h)
  then show ?case by (simp add: leaf_tally)
next
  case (2 ns period h k ks)
  have k: "kid_wf k" "kids_wf ks" using "2.prems" by (auto simp: kids_wf_Cons)
  consider "ct_key k = cu_key (hd ns)" | "ct_key k \<noteq> cu_key (hd ns)" "key_less (cu_key (hd ns)) (ct_key k)"
    | "ct_key k \<noteq> cu_key (hd ns)" "\<not> key_less (cu_key (hd ns)) (ct_key k)" by blast
  then show ?case
  proof cases
    case 1
    then show ?thesis using "2.IH"(1) [OF 1 "2.prems"(1) k(1) 1] by (simp add: split_def Let_def algebra_simps)
  next
    case 2
    then show ?thesis using "2.IH"(2) [OF 2 "2.prems"(1) k(2)] by (simp add: split_def Let_def algebra_simps)
  next
    case 3
    then show ?thesis by (simp add: leaf_tally algebra_simps)
  qed
next
  case (3 ns period h a v hit n ks)
  let ?k = "CT a v hit n ks" and ?m = "common v ns"
  have v: "v \<noteq> []" "kids_wf ks" using "3.prems"(2) unfolding kid_wf_CT by blast+
  have "0 < ?m" using common_first [OF v(1) "3.prems"(1)] "3.prems"(3) by (simp add: ct_key_def)
  then have tk: "take ?m v \<noteq> []" using v(1) by auto
  note cut = path_cut [of p ns v]
  consider "?m < length v" "drop ?m ns = []" | "?m < length v" "drop ?m ns \<noteq> []"
    | "\<not> ?m < length v" "drop ?m ns = []" | "\<not> ?m < length v" "drop ?m ns \<noteq> []" by blast
  then show ?case
  proof cases
    case 1
    have "p = map cu_key ns \<longleftrightarrow> p = map cl_key (take ?m v)" using 1(2) common_keys [of v ns] by simp
    moreover have "node_tally f ?k (map cl_key (take ?m v)) = 0" using 1(1) by (intro tally_short) simp
    moreover have "node_tally f (CT a (take ?m v) period 1 [CT (hd h) (drop ?m v) hit n ks]) p =
        (if p = map cl_key (take ?m v) then f period 1 else node_tally f ?k p)"
      unfolding node_tally_hit [OF tk, of f a period 1 _ p 0 0] tally_cut [of ?m v f 0 0, OF 1(1) f(1)] ..
    ultimately show ?thesis using 1 by (auto simp: Let_def simp del: drop_eq_Nil)
  next
    case 2
    let ?f = "CT (hd h) (drop ?m v) hit n ks" and ?g = "new_leaf (hd (tl h)) (drop ?m ns) period"
    have "node_tally f (CT a (take ?m v) 0 0 (pair_kids ?f ?g)) p =
        node_tally f (CT a (take ?m v) 0 0 [?f]) p + (if p = map cu_key ns then f period 1 else 0)"
      using 2 cut unfolding node_tally_two [of f, OF f(1)] leaf_tally by (auto simp: min_absorb2 simp del: drop_eq_Nil)
    then show ?thesis using 2 tally_cut [of ?m v f 0 0, OF 2(1) f(1)] by (simp add: Let_def del: drop_eq_Nil)
  next
    case 3
    have m: "?m = length v" using 3(1) common_le(1) [of v ns] by simp
    then have "p = map cu_key ns \<longleftrightarrow> p = map cl_key v" using 3(2) common_keys [of v ns] by simp
    moreover have "node_tally f ?k (map cl_key v) = f hit n" by (simp add: node_tally_CT)
    ultimately show ?thesis using 3 node_tally_hit [OF v(1), of f a "hit + period" "n + 1" ks p hit n] f(2)
      by (auto simp: Let_def simp del: drop_eq_Nil)
  next
    case 4
    have m: "?m = length v" using 4(1) common_le(1) [of v ns] by simp
    have "chain_tally f (fst (app_kids (drop ?m ns) period h ks)) q = chain_tally f ks q + (if q = map cu_key (drop ?m ns) then f period 1 else 0)" for q
      using "3.IH" [OF refl refl _ _ 4(2) v(2)] 4 by blast
    then have "node_tally f (CT a v hit n (fst (app_kids (drop ?m ns) period h ks))) p =
        node_tally f ?k p + (if p = map cu_key ns then f period 1 else 0)"
      using cut 4(2) unfolding node_tally_CT m by auto
    then show ?thesis using 4 by (simp add: Let_def split_def del: drop_eq_Nil)
  qed
qed

subsection \<open>\<open>callchain_append\<close>\<close>

text \<open>The memory below a root: the children \<open>ks\<close>, apart from the memory still free.\<close>

definition holds_chains :: "chains \<Rightarrow> u64 \<Rightarrow> ctree list \<Rightarrow> bool" where
  "holds_chains c r ks \<longleftrightarrow> chain_rep c 0 (CT r [] 0 0 ks) \<and> kids_wf ks \<and> distinct (nodes (CT r [] 0 0 ks)) \<and>
     good_heap (ch_heap c) (set (nodes (CT r [] 0 0 ks)))"

definition count_at :: "ctree list \<Rightarrow> (u64 \<times> u64) list \<Rightarrow> u32" where
  "count_at = chain_tally (\<lambda>h n. n)"

definition hits_at :: "ctree list \<Rightarrow> (u64 \<times> u64) list \<Rightarrow> u64" where
  "hits_at = chain_tally (\<lambda>h n. h)"

lemma app_tally_kids:
  assumes "ns \<noteq> []" "kids_wf ks"
  shows "count_at (fst (app_kids ns period h ks)) p = count_at ks p + (if p = map cu_key ns then 1 else 0)"
    "hits_at (fst (app_kids ns period h ks)) p = hits_at ks p + (if p = map cu_key ns then period else 0)"
  unfolding count_at_def hits_at_def
  by (simp_all add: app_tally(1) [of "\<lambda>h n. n", OF _ _ assms] app_tally(1) [of "\<lambda>h n. h", OF _ _ assms])

lemma fresh_distinct:
  assumes "mset ys = mset xs + mset zs" "distinct xs" "distinct zs" "set xs \<inter> set zs = {}"
  shows "distinct ys" "set ys = set xs \<union> set zs"
proof -
  have m: "mset ys = mset (xs @ zs)" using assms(1) by simp
  show "distinct ys" using assms(2-4) mset_eq_imp_distinct_iff [OF m] by simp
  show "set ys = set xs \<union> set zs" using mset_eq_setD [OF m] by simp
qed

lemma good_heap_drop:
  assumes "good_heap h A"
  shows "good_heap (drop j h) (A \<union> set (take j h))"
proof -
  have d: "distinct h" "\<And>a. a \<in> set h \<Longrightarrow> a \<noteq> 0 \<and> aligned a \<and> a \<notin> A" using assms by (simp_all add: good_heap_def)
  have "a \<notin> set (take j h)" if "a \<in> set (drop j h)" for a
    using set_take_disj_set_drop_if_distinct [OF d(1), of j j] that by blast
  then show ?thesis using d in_set_dropD [of _ j h] by (simp add: good_heap_def)
qed

lemma append_root_ok:
  fixes period :: u64
  assumes c: "holds_chains c r ks" and env: "env_key env \<noteq> CCKEY_SRCLINE"
    and cur: "cursor_ok cur" "\<forall>n \<in> set (written cur). plain n" and ns: "written cur \<noteq> []"
    and mem: "plan (ch_alloc c) = []" "2 \<le> length (ch_heap c)"
  defines "ks' \<equiv> fst (app_kids (written cur) period (ch_heap c) ks)"
  shows "\<exists>cur' c' j. append_chain_children env r period (the (callchain_cursor_commit (Some cur)), c) = Some (Inr (True, cur', c')) \<and>
    holds_chains c' r ks' \<and> cursor_ok cur' \<and> written cur' = written cur \<and> cu_nr cur' = cu_nr cur \<and>
    plan (ch_alloc c') = [] \<and> j \<le> 2 \<and> ch_heap c' = drop j (ch_heap c) \<and> kept c c' (CT r [] 0 0 ks) \<and>
    set (nodes (CT r [] 0 0 ks')) = set (nodes (CT r [] 0 0 ks)) \<union> set (take j (ch_heap c))"
proof -
  let ?ns = "written cur" and ?r = "CT r [] 0 0 ks"
  have len: "length ?ns = cu_last cur" "cu_last cur < 2 ^ 32" using cur(1) by (simp_all add: cursor_ok_def written_def)
  obtain cur0 where cur0: "callchain_cursor_commit (Some cur) = Some cur0" "same_list cur cur0"
    by (simp add: callchain_cursor_commit_def same_list_def)
  have rd: "reading cur0 ?ns" using cursor_commit_ok [OF cur(1)] cur0(1) by simp
  have rep: "chain_rep c 0 ?r" "kids_wf ks" "distinct (nodes ?r)" "good_heap (ch_heap c) (set (nodes ?r))"
    using c unfolding holds_chains_def by blast+
  have ready: "app_ready c cur0 ?ns ?r" using rd ns cur(2) mem rep(3,4) by (simp add: app_ready_def)
  obtain cur' c' where s: "append_chain_children env r period (cur0, c) = Some (Inr (True, cur', c'))"
    and ap: "appended c cur0 ?r 0 (CT r [] 0 0 ks') (snd (app_kids ?ns period (ch_heap c) ks)) c' cur'"
    using append_chain_children_ok [OF env rep(1,2) ready] unfolding ks'_def by blast
  obtain j where j: "j \<le> 2" "snd (app_kids ?ns period (ch_heap c) ks) = drop j (ch_heap c)"
    "mset (concat (map nodes ks')) = mset (concat (map nodes ks)) + mset (take j (ch_heap c))"
    using app_nodes(1) [OF mem(2)] unfolding ks'_def by blast
  let ?r' = "CT r [] 0 0 ks'"
  have "mset (nodes ?r') = mset (nodes ?r) + mset (take j (ch_heap c))" using j(3) by simp
  moreover have "distinct (take j (ch_heap c))" "set (nodes ?r) \<inter> set (take j (ch_heap c)) = {}"
    using rep(4) by (auto simp: good_heap_def dest!: in_set_takeD)
  ultimately have r': "distinct (nodes ?r')" "set (nodes ?r') = set (nodes ?r) \<union> set (take j (ch_heap c))"
    using fresh_distinct [OF _ rep(3)] by blast+
  have "good_heap (drop j (ch_heap c)) (set (nodes ?r'))" unfolding r'(2) by (rule good_heap_drop [OF rep(4)])
  moreover have "kids_wf ks'" using app_wf(1) [OF ns _ rep(2)] len by (simp add: ks'_def)
  ultimately have "holds_chains c' r ks'"
    using ap r'(1) j(2) unfolding appended_def holds_chains_def by metis
  moreover have "cursor_ok cur'" using ap by (simp add: appended_def reading_def)
  moreover have "written cur' = ?ns" "cu_nr cur' = cu_nr cur"
    using ap cur0(2) by (simp_all add: appended_def same_list_def written_def)
  moreover have "plan (ch_alloc c') = []" "ch_heap c' = drop j (ch_heap c)" "kept c c' ?r" using ap j(2) by (simp_all add: appended_def)
  ultimately show ?thesis using s cur0(1) j(1) r'(2) by auto
qed

lemma callchain_append_ok:
  assumes c: "holds_chains c (cr_node root) ks" and env: "env_key env \<noteq> CCKEY_SRCLINE"
    and cur: "cursor_ok cur" "\<forall>n \<in> set (written cur). plain n"
    and mem: "plan (ch_alloc c) = []" "2 \<le> length (ch_heap c)"
  shows "\<exists>root' cur' c' ks' j. callchain_append env root (Some cur) period c = Some (Inr (True, root', Some cur', c')) \<and>
    cr_node root' = cr_node root \<and> holds_chains c' (cr_node root) ks' \<and> cursor_ok cur' \<and> written cur' = written cur \<and>
    plan (ch_alloc c') = [] \<and> j \<le> 2 \<and> ch_heap c' = drop j (ch_heap c) \<and>
    ks' = (if written cur = [] then ks else fst (app_kids (written cur) period (ch_heap c) ks))"
proof (cases "written cur = []")
  case True
  then have "cu_nr cur = 0" using cur(1) length_written [OF cur(1)] by (simp add: cursor_ok_def)
  then show ?thesis using True c cur mem(1) by (intro exI [of _ root] exI [of _ cur] exI [of _ c] exI [of _ ks] exI [of _ 0])
      (simp add: callchain_append_def)
next
  case False
  have len: "length (written cur) = cu_last cur" "cu_last cur < 2 ^ 32" using cur(1) by (simp_all add: cursor_ok_def written_def)
  have nr: "cu_nr cur \<noteq> 0"
    using len False cur(1) of_nat_u32_inj [of "cu_last cur" 0] by (auto simp: cursor_ok_def simp flip: length_0_conv)
  obtain cur' c' j where s: "append_chain_children env (cr_node root) period (the (callchain_cursor_commit (Some cur)), c) =
      Some (Inr (True, cur', c'))" "holds_chains c' (cr_node root) (fst (app_kids (written cur) period (ch_heap c) ks))"
    "cursor_ok cur'" "written cur' = written cur" "plan (ch_alloc c') = []" "j \<le> 2" "ch_heap c' = drop j (ch_heap c)"
    using append_root_ok [OF c env cur False mem, of period] by blast
  have "callchain_append env root (Some cur) period c = Some (Inr (True,
      if max_depth root < cu_nr cur' then root\<lparr>max_depth := cu_nr cur'\<rparr> else root, Some cur', c'))"
    using nr s(1) by (simp add: callchain_append_def)
  then show ?thesis using s(2-7) False by auto
qed

text \<open>C2. With enough memory, for a cursor of plain entries that is not empty and every key but the
  source line, \<open>callchain_append\<close> ends, leaves a tree of chains, adds one to the count and the period
  to the hits of exactly the chain the cursor holds, whether the chain was there, ends inside
  a node, goes on below one or starts anew, and leaves the cursor's entries alone.\<close>

theorem callchain_append_correct:
  assumes "holds_chains c (cr_node root) ks" "env_key env \<noteq> CCKEY_SRCLINE" "cursor_ok cur" "written cur \<noteq> []"
    and "\<forall>n \<in> set (written cur). plain n" "plan (ch_alloc c) = []" "2 \<le> length (ch_heap c)"
  shows "\<exists>root' cur' c' ks'. callchain_append env root (Some cur) period c = Some (Inr (True, root', Some cur', c')) \<and>
    holds_chains c' (cr_node root) ks' \<and> written cur' = written cur \<and>
    (\<forall>p. count_at ks' p = count_at ks p + (if p = map cu_key (written cur) then 1 else 0) \<and>
         hits_at ks' p = hits_at ks p + (if p = map cu_key (written cur) then period else 0))"
proof -
  have "kids_wf ks" using assms(1) by (simp add: holds_chains_def)
  then show ?thesis
    using callchain_append_ok [OF assms(1-3,5-7), of period] assms(4) app_tally_kids by fastforce
qed

definition one_root :: chains where
  "one_root = \<lparr>cnodes = [16 \<mapsto> zero_cnode], in_mem = [16 \<mapsto> zero_node], out_mem = [16 \<mapsto> zero_node],
     ch_alloc = \<lparr>num_allocs = 0, num_frees = 0, leaf_frees = 0, plan = []\<rparr>, ch_heap = [32, 48], deepest = 0\<rparr>"

lemma one_root_holds: "holds_chains one_root 16 []"
proof -
  have "node_rep one_root 0 16 [] 0 0 []" unfolding node_rep_def
    by (intro exI [of _ zero_cnode] exI [of _ Lf])
      (simp add: one_root_def zero_cnode_def kids_tree_def holds_tree_def valid_addrs_def red_black_def)
  then show ?thesis by (simp add: holds_chains_def one_root_def good_heap_def aligned_def)
qed

theorem callchain_append_correct_witness:
  "\<exists>root' cur' c' ks'. callchain_append \<lparr>env_key = CCKEY_FUNCTION, env_syms = (\<lambda>_. None)\<rparr> \<lparr>max_depth = 0, cr_node = 16\<rparr>
      (Some two_nodes) 5 one_root = Some (Inr (True, root', Some cur', c')) \<and>
    holds_chains c' (cr_node \<lparr>max_depth = 0, cr_node = 16\<rparr>) ks' \<and> written cur' = written two_nodes \<and>
    (\<forall>p. count_at ks' p = count_at [] p + (if p = map cu_key (written two_nodes) then 1 else 0) \<and>
         hits_at ks' p = hits_at [] p + (if p = map cu_key (written two_nodes) then 5 else 0))"
  by (rule callchain_append_correct)
    (simp_all add: one_root_holds, simp_all add: one_root_def two_nodes_def cursor_ok_def written_def cursor_node_of_def
      plain_def zero_cursor_node_def no_ms_def)

end
