(* ===== verification/Chain_Merge.thy ===== *)
theory Chain_Merge
  imports Chain_Count Rbtree_Walk
begin

text \<open>
  \<open>callchain_merge\<close>: the chains of a source tree are appended to a destination tree while the
  source is taken apart, entry by entry and child by child; and the end of a thread's cursor.
\<close>

text \<open>The entries of a node go to the end of the cursor and are freed. Of the map symbol only
  the maps and the map are passed on, and a failed append is not noticed.\<close>

definition give_entry :: "callchain_list \<Rightarrow> cursor \<times> alloc_state \<Rightarrow> cursor \<times> alloc_state" where
  "give_entry e s =
     (case callchain_cursor_append (cl_ip e) ((cl_ms e)\<lparr>ms_sym := 0\<rparr>) False None 0 0 0 (cl_srcline e) s of
        (ok, cur, a) \<Rightarrow> (cur, fst (zfree a (brtype_to e))))"

definition give_entries :: "u64 \<Rightarrow> cursor \<times> chains \<Rightarrow> (cursor \<times> chains) result" where
  "give_entries src = (\<lambda>(cur, c).
     rbind (ld_cn c src) (\<lambda>n.
       case fold give_entry (cn_val n) (cur, ch_alloc c) of (cur, a) \<Rightarrow>
         rbind (upd_cn src (\<lambda>n. n\<lparr>cn_val := []\<rparr>) (c\<lparr>ch_alloc := a\<rparr>)) (\<lambda>c. Inr (cur, c))))"

text \<open>The cursor's length goes through an \<open>int\<close>.\<close>

definition restore_cursor :: "cursor \<Rightarrow> cursor \<Rightarrow> cursor" where
  "restore_cursor old cur = cur\<lparr>cu_nr := scast (ucast (cu_nr old) :: 32 word), cu_last := cu_last old\<rparr>"

definition free_child :: "u64 \<Rightarrow> chains \<Rightarrow> chains" where
  "free_child p c = c\<lparr>cnodes := (cnodes c)(p := None), in_mem := (in_mem c)(p := None), out_mem := (out_mem c)(p := None)\<rparr>"

text \<open>
  \<open>merge_chain_branch\<close>. \<open>at\<close> is \<open>None\<close> on entry; in the loop over the children it is the next
  child and the cursor on entry.
\<close>

partial_function (option) merge_branch ::
  "match_env \<Rightarrow> u64 \<Rightarrow> u64 \<Rightarrow> (u64 \<times> cursor) option \<Rightarrow> cursor \<times> chains \<Rightarrow> (bool \<times> cursor \<times> chains) run" where
  [code]: "merge_branch env dst src at s =
     (case at of
        None \<Rightarrow>
          obind (Some (give_entries src s)) (\<lambda>g.
          obind (Some (ld_cn (snd g) src)) (\<lambda>n.
          obind (if cn_hit n = 0 then Some (Inr (True, g))
                 else append_chain_children env dst (cn_hit n) (the (callchain_cursor_commit (Some (fst g))), snd g)) (\<lambda>r.
            if \<not> fst r then Some (Inr (False, snd r))
            else
              obind (Some (ld_cn (snd (snd r)) src)) (\<lambda>n.
              obind (rb_first (kids_tree (snd (snd r)) n)) (\<lambda>k.
                merge_branch env dst src (Some (k, fst s)) (snd r))))))
      | Some pos \<Rightarrow>
          if fst pos = 0 then Some (Inr (True, restore_cursor (snd pos) (fst s), snd s))
          else
            obind (Some (ld_cn (snd s) src)) (\<lambda>n.
            obind (rb_next (kids_tree (snd s) n) (fst pos)) (\<lambda>k.
            obind (rb_erase (fst pos) (kids_tree (snd s) n)) (\<lambda>t.
            obind (Some (put_kids src t (snd s))) (\<lambda>c.
            obind (merge_branch env dst (fst pos) None (fst s, c)) (\<lambda>r.
              if \<not> fst r then Some (Inr (False, restore_cursor (snd pos) (fst (snd r)), snd (snd r)))
              else merge_branch env dst src (Some (k, snd pos)) (fst (snd r), free_child (fst pos) (snd (snd r)))))))))"

definition merge_chain_branch :: "match_env \<Rightarrow> u64 \<Rightarrow> u64 \<Rightarrow> cursor \<times> chains \<Rightarrow> (bool \<times> cursor \<times> chains) run" where
  "merge_chain_branch env dst src s = merge_branch env dst src None s"

definition callchain_merge ::
  "match_env \<Rightarrow> callchain_root \<Rightarrow> callchain_root \<Rightarrow> cursor \<times> chains \<Rightarrow> (bool \<times> cursor \<times> chains) run" where
  "callchain_merge env dst src s = merge_chain_branch env (cr_node dst) (cr_node src) s"

subsection \<open>What merging forgets\<close>

text \<open>A source with one chain that came twice with 40 hits and whose entry has a symbol, and an
  empty destination: the hits arrive, the count becomes 1 and the symbol is gone.\<close>

definition one_entry :: callchain_list where
  "one_entry = zero_list\<lparr>cl_ip := 5, cl_ms := \<lparr>ms_maps = 0, ms_map = 7, ms_sym = 9\<rparr>\<rparr>"

definition two_trees :: chains where
  "two_trees = \<lparr>cnodes = [16 \<mapsto> zero_cnode\<lparr>rb_root_in := 32, children_hit := 40, children_count := 2\<rparr>,
       32 \<mapsto> zero_cnode\<lparr>cn_parent := 16, cn_val := [one_entry], val_nr := 1, cn_hit := 40, cn_count := 2\<rparr>, 64 \<mapsto> zero_cnode],
     in_mem = [16 \<mapsto> zero_node, 32 \<mapsto> \<lparr>parent_color = RB_BLACK, rb_right = 0, rb_left = 0\<rparr>, 64 \<mapsto> zero_node],
     out_mem = [16 \<mapsto> zero_node, 32 \<mapsto> zero_node, 64 \<mapsto> zero_node],
     ch_alloc = \<lparr>num_allocs = 0, num_frees = 0, leaf_frees = 0, plan = []\<rparr>, ch_heap = [80, 96, 112, 128], deepest = 0\<rparr>"

lemma merge_forgets:
  "obind (callchain_merge \<lparr>env_key = CCKEY_FUNCTION, env_syms = (\<lambda>_. None)\<rparr> \<lparr>max_depth = 0, cr_node = 64\<rparr>
      \<lparr>max_depth = 0, cr_node = 16\<rparr> (zero_cursor, two_trees)) (\<lambda>(ok, cur, c).
     obind (Some (ld_cn c 80)) (\<lambda>n. Some (Inr (ok, cn_hit n, cn_count n, map (ms_sym \<circ> cl_ms) (cn_val n))))) =
   Some (Inr (True, 40, 1, [0]))"
  by code_simp

end
