(* ===== verification/Merge_Correct.thy ===== *)
theory Merge_Correct
  imports Chain_Merge Rbtree_Remove
begin

text \<open>
  \<open>callchain_merge\<close> ends, and the destination then has the hits of both trees for every chain.
\<close>

subsection \<open>The entries of a node\<close>

lemma scast_ucast_u31:
  assumes "n < 2 ^ 31"
  shows "scast (ucast (of_nat n :: u64) :: 32 word) = (of_nat n :: u64)"
proof -
  have u: "(ucast (of_nat n :: u64) :: 32 word) = of_nat n"
    using assms by (simp add: unsigned_of_nat take_bit_nat_eq_self)
  have "sint (of_nat n :: 32 word) = int n"
    using assms by (simp add: signed_of_nat signed_take_bit_int_eq_self)
  then show ?thesis unfolding u by (simp add: signed_of_nat signed_take_bit_int_eq_self assms)
qed

lemma give_entry_ok:
  assumes "cursor_ok cur" "cu_last cur < 2 ^ 32 - 1" "plan a = []"
  shows "\<exists>cur' a' n. give_entry e (cur, a) = (cur', a') \<and> cursor_ok cur' \<and> written cur' = written cur @ [n] \<and>
    plan a' = [] \<and> plain n \<and> cu_key n = cl_key e"
proof -
  obtain cur' a' n where s: "callchain_cursor_append (cl_ip e) ((cl_ms e)\<lparr>ms_sym := 0\<rparr>) False None 0 0 0 (cl_srcline e) (cur, a) =
      (True, cur', a')" "cursor_ok cur'" "written cur' = written cur @ [n]" "plan a' = []"
    "entry_of n = \<lparr>e_ip = cl_ip e, e_ms = (cl_ms e)\<lparr>ms_sym := 0\<rparr>, e_branch = False, e_loop_iter = 0, e_cycles = 0,
       e_from = 0, e_srcline = cl_srcline e\<rparr>"
    using cursor_append_ok [OF assms] by metis
  have "plain n" "cu_key n = cl_key e"
    using s(5) by (simp_all add: entry_of_def plain_def cu_key_def cl_key_def)
  then show ?thesis using s by (simp add: give_entry_def zfree_def)
qed

lemma give_all_ok:
  "cursor_ok cur \<Longrightarrow> cu_last cur + length es < 2 ^ 32 \<Longrightarrow> plan a = [] \<Longrightarrow>
    \<exists>cur' a' ns. fold give_entry es (cur, a) = (cur', a') \<and> cursor_ok cur' \<and> written cur' = written cur @ ns \<and>
      plan a' = [] \<and> (\<forall>n \<in> set ns. plain n) \<and> map cu_key ns = map cl_key es"
proof (induction es arbitrary: cur a)
  case (Cons e es)
  obtain c1 a1 n where n: "give_entry e (cur, a) = (c1, a1)" "cursor_ok c1" "written c1 = written cur @ [n]"
      "plan a1 = []" "plain n" "cu_key n = cl_key e"
    using give_entry_ok [of cur a e] Cons.prems by auto
  have "cu_last c1 = Suc (cu_last cur)"
    using arg_cong [OF n(3), of length] n(2) Cons.prems(1) by simp
  then obtain cur' a' ns where "fold give_entry es (c1, a1) = (cur', a')" "cursor_ok cur'" "written cur' = written c1 @ ns"
      "plan a' = []" "\<forall>n \<in> set ns. plain n" "map cu_key ns = map cl_key es"
    using Cons.IH [OF n(2) _ n(4)] Cons.prems(2) by auto
  then show ?case using n by (intro exI [of _ cur'] exI [of _ a'] exI [of _ "n # ns"]) simp
qed simp

lemma restore_ok:
  assumes "cursor_ok old" "cu_last old < 2 ^ 31" "cursor_ok cur" "written cur = written old @ ns"
  shows "cursor_ok (restore_cursor old cur)" "written (restore_cursor old cur) = written old"
proof -
  have le: "cu_last old \<le> cu_last cur"
    using arg_cong [OF assms(4), of length] assms(1,3) by simp
  have nr: "cu_nr (restore_cursor old cur) = of_nat (cu_last old)"
    using assms(1) scast_ucast_u31 [OF assms(2)] by (simp add: restore_cursor_def cursor_ok_def)
  show "cursor_ok (restore_cursor old cur)"
    using assms(1,3) le nr by (simp add: cursor_ok_def) (simp add: restore_cursor_def)
  have "take (cu_last old) (take (cu_last cur) (cu_nodes cur)) = take (cu_last old) (written old @ ns)"
    using assms(4) by (simp add: written_def)
  then have "take (cu_last old) (cu_nodes cur) = written old"
    using le assms(1) by (simp add: min_absorb1)
  then show "written (restore_cursor old cur) = written old"
    by (simp add: written_def restore_cursor_def)
qed

subsection \<open>The state of a merge\<close>

definition dst_nodes :: "u64 \<Rightarrow> ctree list \<Rightarrow> u64 set" where
  "dst_nodes dst ds = set (nodes (CT dst [] 0 0 ds))"

text \<open>The destination is in order and the nodes \<open>S\<close> of the source are apart from it.\<close>

definition merge_ready :: "u64 \<Rightarrow> ctree list \<Rightarrow> u64 set \<Rightarrow> chains \<Rightarrow> bool" where
  "merge_ready dst ds S c \<longleftrightarrow> holds_chains c dst ds \<and> S \<inter> dst_nodes dst ds = {} \<and> S \<inter> set (ch_heap c) = {} \<and>
     plan (ch_alloc c) = []"

text \<open>The children of a node that are left, in memory.\<close>

definition kids_left :: "chains \<Rightarrow> u64 \<Rightarrow> ctree list \<Rightarrow> bool" where
  "kids_left c a ks \<longleftrightarrow> (\<exists>cn t. cnodes c a = Some cn \<and> holds_tree (kids_tree c cn) t \<and> red_black t \<and> addrs t = map ct_at ks) \<and>
     (\<forall>k \<in> set ks. chain_rep c a k)"

primrec total :: "ctree \<Rightarrow> nat" where
  "total (CT a v h n ks) = length v + sum_list (map total ks)"

text \<open>What the merge of the subtree \<open>k\<close> below the path \<open>pre\<close> adds for the chain \<open>p\<close>.\<close>

definition below_path :: "(u64 \<Rightarrow> u32 \<Rightarrow> 'b::comm_monoid_add) \<Rightarrow> (u64 \<times> u64) list \<Rightarrow> ctree \<Rightarrow> (u64 \<times> u64) list \<Rightarrow> 'b" where
  "below_path f pre k p = (if take (length pre) p = pre then node_tally f k (drop (length pre) p) else 0)"

definition once :: "u64 \<Rightarrow> u32 \<Rightarrow> u32" where
  "once h n = (if h = 0 then 0 else 1)"

lemma below_path_CT:
  assumes "\<forall>k \<in> set ks. ct_val k \<noteq> []"
  shows "below_path f pre (CT a v h n ks) p =
    (if p = pre @ map cl_key v then f h n else 0) + sum_list (map (\<lambda>k. below_path f (pre @ map cl_key v) k p) ks)"
proof -
  let ?q = "drop (length pre) p" and ?w = "map cl_key v"
  have zero: "sum_list (map (\<lambda>k. below_path f (pre @ ?w) k p) ks) = 0"
    if "\<And>k. k \<in> set ks \<Longrightarrow> below_path f (pre @ ?w) k p = 0"
    using that by (induction ks) auto
  have cut: "take (length (pre @ ?w)) p = pre @ ?w \<longleftrightarrow> take (length pre) p = pre \<and> take (length v) ?q = ?w"
  proof (cases "length pre \<le> length p")
    case True
    then have "length (take (length pre) p) = length pre" by simp
    then show ?thesis by (simp add: take_add append_eq_append_conv)
  next
    case False
    then have "length (take n p) < length pre" for n by simp
    then show ?thesis by (metis length_append not_add_less1 order_less_irrefl)
  qed
  have eq: "p = pre @ ?w \<longleftrightarrow> take (length pre) p = pre \<and> ?q = ?w" by (metis append_eq_conv_conj)
  show ?thesis
  proof (cases "take (length pre) p = pre \<and> take (length v) ?q = ?w")
    case False
    then have "p \<noteq> pre @ ?w" unfolding eq by auto
    moreover have "sum_list (map (\<lambda>k. below_path f (pre @ ?w) k p) ks) = 0"
      using False cut by (intro zero) (auto simp: below_path_def)
    ultimately show ?thesis using False by (auto simp: below_path_def node_tally_CT)
  next
    case True
    show ?thesis
    proof (cases "drop (length v) ?q = []")
      case end_here: True
      then have q: "?q = ?w" using True by (metis append_Nil2 append_take_drop_id)
      have "below_path f (pre @ ?w) k p = 0" if "k \<in> set ks" for k
      proof -
        have "ct_val k \<noteq> []" using assms that by blast
        then have "node_tally f k [] = 0" by (cases k) (simp add: tally_short)
        then show ?thesis using end_here by (simp add: below_path_def add.commute)
      qed
      then show ?thesis using True q eq zero by (simp add: below_path_def node_tally_CT)
    next
      case go_on: False
      then have "p \<noteq> pre @ ?w" using eq by auto
      moreover have "below_path f (pre @ ?w) k p = node_tally f k (drop (length v) ?q)" for k
        using True cut by (simp add: below_path_def add.commute)
      ultimately show ?thesis using True go_on by (simp add: below_path_def node_tally_CT chain_tally_def)
    qed
  qed
qed

subsection \<open>What a merge does\<close>

definition merged ::
  "u64 \<Rightarrow> ctree list \<Rightarrow> u64 set \<Rightarrow> chains \<Rightarrow> ctree list \<Rightarrow> chains \<Rightarrow> nat \<Rightarrow>
     ((u64 \<times> u64) list \<Rightarrow> u64) \<Rightarrow> ((u64 \<times> u64) list \<Rightarrow> u32) \<Rightarrow> bool" where
  "merged dst ds S c ds' c' j dh dc \<longleftrightarrow>
     holds_chains c' dst ds' \<and> dst_nodes dst ds' \<subseteq> dst_nodes dst ds \<union> set (ch_heap c) \<and>
     plan (ch_alloc c') = [] \<and> ch_heap c' = drop j (ch_heap c) \<and>
     (\<forall>x. x \<notin> S \<longrightarrow> x \<notin> dst_nodes dst ds \<longrightarrow> x \<notin> set (ch_heap c) \<longrightarrow> cnodes c' x = cnodes c x \<and> in_mem c' x = in_mem c x) \<and>
     (\<forall>p. hits_at ds' p = hits_at ds p + dh p \<and> count_at ds' p = count_at ds p + dc p)"

lemma merged_ready:
  assumes "merge_ready dst ds T c" "merged dst ds S c ds' c' j dh dc"
  shows "merge_ready dst ds' T c'"
proof -
  have h: "set (ch_heap c') \<subseteq> set (ch_heap c)"
    using assms(2) set_drop_subset [of j "ch_heap c"] by (simp add: merged_def)
  have d: "dst_nodes dst ds' \<subseteq> dst_nodes dst ds \<union> set (ch_heap c)" using assms(2) by (simp add: merged_def)
  have "T \<inter> dst_nodes dst ds' = {}" "T \<inter> set (ch_heap c') = {}"
    using assms(1) h d by (auto simp: merge_ready_def)
  then show ?thesis using assms by (simp add: merge_ready_def merged_def)
qed

lemma merged_mono: "merged dst ds S c ds' c' j dh dc \<Longrightarrow> S \<subseteq> T \<Longrightarrow> merged dst ds T c ds' c' j dh dc"
  unfolding merged_def by blast

lemma merged_keeps:
  "merged dst ds S c ds' c' j dh dc \<Longrightarrow> merge_ready dst ds T c \<Longrightarrow> x \<in> T \<Longrightarrow> x \<notin> S \<Longrightarrow>
     cnodes c' x = cnodes c x \<and> in_mem c' x = in_mem c x"
  unfolding merged_def merge_ready_def by blast

lemma merged_trans:
  assumes "merged dst ds S c ds1 c1 i dh dc" "merged dst ds1 T c1 ds2 c2 j dh' dc'"
  shows "merged dst ds (S \<union> T) c ds2 c2 (j + i) (\<lambda>p. dh p + dh' p) (\<lambda>p. dc p + dc' p)"
proof -
  have h: "set (ch_heap c1) \<subseteq> set (ch_heap c)"
    using assms(1) set_drop_subset [of i "ch_heap c"] by (simp add: merged_def)
  have d: "dst_nodes dst ds1 \<subseteq> dst_nodes dst ds \<union> set (ch_heap c)" using assms(1) by (simp add: merged_def)
  have "dst_nodes dst ds2 \<subseteq> dst_nodes dst ds \<union> set (ch_heap c)"
    using assms(2) h d unfolding merged_def by blast
  moreover have "cnodes c2 x = cnodes c x \<and> in_mem c2 x = in_mem c x"
    if "x \<notin> S \<union> T" "x \<notin> dst_nodes dst ds" "x \<notin> set (ch_heap c)" for x
  proof -
    have "x \<notin> dst_nodes dst ds1" "x \<notin> set (ch_heap c1)" using that h d by auto
    then show ?thesis using assms that by (simp add: merged_def)
  qed
  ultimately show ?thesis using assms by (simp add: merged_def add.assoc)
qed

text \<open>A change of the source's memory.\<close>

lemma merged_apart:
  assumes "merge_ready dst ds S c" "\<And>x. x \<notin> S \<Longrightarrow> cnodes c' x = cnodes c x \<and> in_mem c' x = in_mem c x"
    and "ch_heap c' = ch_heap c" "plan (ch_alloc c') = []"
  shows "merged dst ds S c ds c' 0 (\<lambda>p. 0) (\<lambda>p. 0)"
proof -
  have r: "holds_chains c dst ds" "S \<inter> dst_nodes dst ds = {}" using assms(1) by (simp_all add: merge_ready_def)
  have same: "cnodes c' x = cnodes c x \<and> in_mem c' x = in_mem c x" if "x \<in> set (nodes (CT dst [] 0 0 ds))" for x
    using that r(2) by (intro assms(2)) (auto simp: dst_nodes_def)
  have "below (CT dst [] 0 0 ds) \<subseteq> set (nodes (CT dst [] 0 0 ds))" using nodes_below by blast
  then have "chain_rep c' 0 (CT dst [] 0 0 ds) = chain_rep c 0 (CT dst [] 0 0 ds)"
    using same by (intro chain_rep_cong) blast+
  then have "holds_chains c' dst ds" using r(1) assms(3) unfolding holds_chains_def by metis
  then show ?thesis using assms(2-4) by (simp add: merged_def)
qed

lemma merge_append:
  assumes "merge_ready dst ds S c" "env_key env \<noteq> CCKEY_SRCLINE" "cursor_ok cur" "written cur \<noteq> []"
    and "\<forall>n \<in> set (written cur). plain n" "2 \<le> length (ch_heap c)"
  shows "\<exists>cur' c' ds' j. append_chain_children env dst h (the (callchain_cursor_commit (Some cur)), c) = Some (Inr (True, cur', c')) \<and>
    cursor_ok cur' \<and> written cur' = written cur \<and> j \<le> 2 \<and>
    merged dst ds {} c ds' c' j (\<lambda>p. if p = map cu_key (written cur) then h else 0)
      (\<lambda>p. if p = map cu_key (written cur) then 1 else 0)"
proof -
  have r: "holds_chains c dst ds" "plan (ch_alloc c) = []" using assms(1) by (simp_all add: merge_ready_def)
  have wf: "kids_wf ds" using r(1) by (simp add: holds_chains_def)
  let ?ds = "fst (app_kids (written cur) h (ch_heap c) ds)"
  obtain cur' c' j where a: "append_chain_children env dst h (the (callchain_cursor_commit (Some cur)), c) = Some (Inr (True, cur', c'))"
      "holds_chains c' dst ?ds" "cursor_ok cur'" "written cur' = written cur" "plan (ch_alloc c') = []" "j \<le> 2"
      "ch_heap c' = drop j (ch_heap c)" "kept c c' (CT dst [] 0 0 ds)"
      "dst_nodes dst ?ds = dst_nodes dst ds \<union> set (take j (ch_heap c))"
    using append_root_ok [OF r(1) assms(2,3,5,4) r(2) assms(6), of h] unfolding dst_nodes_def by blast
  have "dst_nodes dst ?ds \<subseteq> dst_nodes dst ds \<union> set (ch_heap c)"
    using a(9) set_take_subset [of j "ch_heap c"] by blast
  moreover have "\<forall>x. x \<notin> dst_nodes dst ds \<longrightarrow> x \<notin> set (ch_heap c) \<longrightarrow> cnodes c' x = cnodes c x \<and> in_mem c' x = in_mem c x"
    using a(8) unfolding kept_def dst_nodes_def by blast
  ultimately have "merged dst ds {} c ?ds c' j (\<lambda>p. if p = map cu_key (written cur) then h else 0)
      (\<lambda>p. if p = map cu_key (written cur) then 1 else 0)"
    unfolding merged_def using a app_tally_kids [OF assms(4) wf] by simp
  then show ?thesis using a(1,3,4,6) by blast
qed

subsection \<open>One child\<close>

lemma merge_ready_less: "merge_ready dst ds T c \<Longrightarrow> S \<subseteq> T \<Longrightarrow> merge_ready dst ds S c"
  unfolding merge_ready_def by blast

lemma kids_left_cong:
  assumes "kids_left c a ks" "cnodes c' a = cnodes c a"
    and "\<And>k x. k \<in> set ks \<Longrightarrow> x \<in> set (nodes k) \<Longrightarrow> cnodes c' x = cnodes c x \<and> in_mem c' x = in_mem c x"
  shows "kids_left c' a ks"
proof -
  obtain cn t where t: "cnodes c a = Some cn" "holds_tree (kids_tree c cn) t" "red_black t" "addrs t = map ct_at ks"
    using assms(1) by (auto simp: kids_left_def)
  have "holds_tree (kids_tree c' cn) t = holds_tree (kids_tree c cn) t"
    using assms(3) t(4) by (intro holds_tree_cong) (auto simp: kids_tree_def)
  moreover have "chain_rep c' a k" if k: "k \<in> set ks" for k
  proof -
    have "chain_rep c' a k = chain_rep c a k"
      using assms(3) [OF k] nodes_below [of k] by (intro chain_rep_cong) auto
    then show ?thesis using assms(1) k by (simp add: kids_left_def)
  qed
  ultimately show ?thesis using t assms(2) by (auto simp: kids_left_def)
qed

text \<open>The child \<open>y\<close> leaves the tree of the children of \<open>a\<close>.\<close>

lemma take_child:
  assumes "kids_left c a (y # zs)" "distinct (a # concat (map nodes (y # zs)))" "merge_ready dst ds S c"
    and S: "S = insert a (set (concat (map nodes (y # zs))))"
  obtains cn s' c1 where "ld_cn c a = Inr cn" "rb_next (kids_tree c cn) (ct_at y) = Some (Inr (hd0 (map ct_at zs)))"
    "rb_erase (ct_at y) (kids_tree c cn) = Some (Inr s')" "put_kids a s' c = Inr c1"
    "kids_left c1 a zs" "chain_rep c1 a y" "merged dst ds S c ds c1 0 (\<lambda>p. 0) (\<lambda>p. 0)" "ct_at y \<noteq> 0"
proof -
  obtain cn t where t: "cnodes c a = Some cn" "holds_tree (kids_tree c cn) t" "red_black t" "addrs t = map ct_at (y # zs)"
    using assms(1) by (auto simp: kids_left_def)
  have ats: "addrs t = [] @ ct_at y # map ct_at zs" using t(4) by simp
  obtain s' t' where e: "rb_erase (ct_at y) (kids_tree c cn) = Some (Inr s')" "holds_tree s' t'" "red_black t'"
      "addrs t' = map ct_at zs" "only_touches (kids_tree c cn) s' (set (addrs t))"
    using rb_erase_whole [OF t(2,3) ats] by auto
  have nx: "rb_next (kids_tree c cn) (ct_at y) = Some (Inr (hd0 (map ct_at zs)))"
    unfolding rb_next_def using ats by (intro rb_step_correct [OF t(2), of R "[]"]) (simp add: daddrs_def)
  define c1 where "c1 = c\<lparr>in_mem := mem s', cnodes := (cnodes c)(a \<mapsto> cn\<lparr>rb_root_in := rb_root s'\<rparr>)\<rparr>"
  have p: "put_kids a s' c = Inr c1" using t(1) by (simp add: put_kids_def upd_cn_def ld_cn_def c1_def deref_def)
  have same: "in_mem c1 x = in_mem c x" if "x \<notin> ct_at ` set (y # zs)" for x
    using e(5) t(4) that by (simp add: only_touches_def kids_tree_def c1_def)
  have tr: "kids_tree c1 (cn\<lparr>rb_root_in := rb_root s'\<rparr>) = s'" by (simp add: kids_tree_def c1_def)
  have d: "distinct (nodes (CT a [] 0 0 (y # zs)))" using assms(2) by simp
  have rep: "chain_rep c1 a k" if k: "k \<in> set (y # zs)" for k
  proof -
    have "chain_rep c1 a k = chain_rep c a k"
    proof (rule chain_rep_cong)
      show "cnodes c1 x = cnodes c x" if "x \<in> set (nodes k)" for x
        using kid_not_at [OF d k] that by (auto simp: c1_def)
      show "in_mem c1 x = in_mem c x" if "x \<in> below k" for x
        using below_kid [OF d k _ that] by (intro same) blast
    qed
    then show ?thesis using assms(1) k unfolding kids_left_def by blast
  qed
  have c1a: "cnodes c1 a = Some (cn\<lparr>rb_root_in := rb_root s'\<rparr>)" by (simp add: c1_def)
  have "kids_left c1 a zs"
    unfolding kids_left_def using c1a tr e(2-4) rep by (metis list.set_intros(2))
  moreover have "merged dst ds S c ds c1 0 (\<lambda>p. 0) (\<lambda>p. 0)"
  proof (rule merged_apart [OF assms(3)])
    show "cnodes c1 x = cnodes c x \<and> in_mem c1 x = in_mem c x" if x: "x \<notin> S" for x
    proof
      show "cnodes c1 x = cnodes c x" using x S by (simp add: c1_def)
      have "ct_at k \<in> S" if "k \<in> set (y # zs)" for k
        using kid_nodes [OF that ct_at_nodes, of a "[]" 0 0] S by simp
      then show "in_mem c1 x = in_mem c x" using x by (intro same) blast
    qed
    show "ch_heap c1 = ch_heap c" "plan (ch_alloc c1) = []" using assms(3) by (simp_all add: c1_def merge_ready_def)
  qed
  moreover have "ct_at y \<noteq> 0" using t(2,4) by (auto simp: holds_tree_def valid_addrs_def)
  ultimately show ?thesis using that t(1) nx e(1) p rep by (simp add: ld_cn_def deref_def)
qed

text \<open>The claim about one branch, for all states.\<close>

definition branch_ends :: "match_env \<Rightarrow> u64 \<Rightarrow> ctree \<Rightarrow> bool" where
  "branch_ends env dst k \<longleftrightarrow> (\<forall>par cur c ds.
     merge_ready dst ds (set (nodes k)) c \<longrightarrow> chain_rep c par k \<longrightarrow> cursor_ok cur \<longrightarrow> (\<forall>n \<in> set (written cur). plain n) \<longrightarrow>
     cu_last cur + total k < 2 ^ 31 \<longrightarrow> 2 * length (nodes k) \<le> length (ch_heap c) \<longrightarrow>
     (\<exists>cur' c' ds' j. merge_branch env dst (ct_at k) None (cur, c) = Some (Inr (True, cur', c')) \<and>
        cursor_ok cur' \<and> written cur' = written cur \<and> j \<le> 2 * length (nodes k) \<and>
        merged dst ds (set (nodes k)) c ds' c' j (below_path (\<lambda>h n. h) (map cu_key (written cur)) k)
          (below_path once (map cu_key (written cur)) k)))"

lemma merge_kids:
  "\<forall>k \<in> set ys. branch_ends env dst k \<Longrightarrow> distinct (a # concat (map nodes ys)) \<Longrightarrow> kids_left c a ys \<Longrightarrow>
    merge_ready dst ds (insert a (set (concat (map nodes ys)))) c \<Longrightarrow> cursor_ok cur \<Longrightarrow> \<forall>n \<in> set (written cur). plain n \<Longrightarrow>
    cu_last cur + sum_list (map total ys) < 2 ^ 31 \<Longrightarrow> 2 * length (concat (map nodes ys)) \<le> length (ch_heap c) \<Longrightarrow>
    cursor_ok old \<Longrightarrow> cu_last old < 2 ^ 31 \<Longrightarrow> written cur = written old @ ns \<Longrightarrow>
    \<exists>cur' c' ds' j. merge_branch env dst a (Some (hd0 (map ct_at ys), old)) (cur, c) = Some (Inr (True, cur', c')) \<and>
      cursor_ok cur' \<and> written cur' = written old \<and> j \<le> 2 * length (concat (map nodes ys)) \<and>
      merged dst ds (insert a (set (concat (map nodes ys)))) c ds' c' j
        (\<lambda>p. sum_list (map (\<lambda>k. below_path (\<lambda>h n. h) (map cu_key (written cur)) k p) ys))
        (\<lambda>p. sum_list (map (\<lambda>k. below_path once (map cu_key (written cur)) k p) ys))"
proof (induction ys arbitrary: cur c ds)
  case Nil
  have "merge_branch env dst a (Some (0, old)) (cur, c) = Some (Inr (True, restore_cursor old cur, c))"
    by (subst merge_branch.simps) simp
  moreover have "merged dst ds {a} c ds c 0 (\<lambda>p. 0) (\<lambda>p. 0)"
    using Nil.prems by (intro merged_apart) (simp_all add: merge_ready_def)
  ultimately show ?case using restore_ok [OF Nil.prems(9,10,5,11)] by auto
next
  case (Cons y zs)
  let ?S = "insert a (set (concat (map nodes (y # zs))))" and ?pre = "map cu_key (written cur)"
  let ?Z = "insert a (set (concat (map nodes zs)))"
  have d: "distinct (a # concat (map nodes zs))" "set (nodes y) \<inter> ?Z = {}" "distinct (nodes y)"
    using Cons.prems(2) by auto
  obtain cn s' c1 where c1: "ld_cn c a = Inr cn" "rb_next (kids_tree c cn) (ct_at y) = Some (Inr (hd0 (map ct_at zs)))"
    "rb_erase (ct_at y) (kids_tree c cn) = Some (Inr s')" "put_kids a s' c = Inr c1"
    "kids_left c1 a zs" "chain_rep c1 a y" "merged dst ds ?S c ds c1 0 (\<lambda>p. 0) (\<lambda>p. 0)" "ct_at y \<noteq> 0"
    using take_child [OF Cons.prems(3,2,4) refl] by metis
  have r1: "merge_ready dst ds ?S c1" by (rule merged_ready [OF Cons.prems(4) c1(7)])
  have h1: "ch_heap c1 = ch_heap c" using c1(7) by (simp add: merged_def)
  obtain cur2 c2 ds2 i where c2: "merge_branch env dst (ct_at y) None (cur, c1) = Some (Inr (True, cur2, c2))"
      "cursor_ok cur2" "written cur2 = written cur" "i \<le> 2 * length (nodes y)"
      "merged dst ds (set (nodes y)) c1 ds2 c2 i (below_path (\<lambda>h n. h) ?pre y) (below_path once ?pre y)"
  proof -
    have "merge_ready dst ds (set (nodes y)) c1" by (rule merge_ready_less [OF r1]) auto
    moreover have "cu_last cur + total y < 2 ^ 31" "2 * length (nodes y) \<le> length (ch_heap c1)"
      using Cons.prems(7,8) h1 by simp_all
    moreover have "branch_ends env dst y" using Cons.prems(1) by simp
    ultimately show ?thesis using that c1(6) Cons.prems(5,6) unfolding branch_ends_def by metis
  qed
  define c3 where "c3 = free_child (ct_at y) c2"
  have r2: "merge_ready dst ds2 ?S c2" by (rule merged_ready [OF r1 c2(5)])
  have m3: "merged dst ds2 {ct_at y} c2 ds2 c3 0 (\<lambda>p. 0) (\<lambda>p. 0)"
  proof (rule merged_apart)
    show "merge_ready dst ds2 {ct_at y} c2" by (rule merge_ready_less [OF r2]) auto
    show "plan (ch_alloc c3) = []" using r2 by (simp add: c3_def free_child_def merge_ready_def)
  qed (simp_all add: c3_def free_child_def)
  have m: "merged dst ds ?S c ds2 c3 i (below_path (\<lambda>h n. h) ?pre y) (below_path once ?pre y)"
  proof -
    have "?S \<union> set (nodes y) \<union> {ct_at y} = ?S" by auto
    then show ?thesis using merged_trans [OF merged_trans [OF c1(7) c2(5)] m3] by (simp only: add_0 add_0_right)
  qed
  have r3: "merge_ready dst ds2 ?S c3" by (rule merged_ready [OF Cons.prems(4) m])
  have same: "cnodes c3 x = cnodes c1 x \<and> in_mem c3 x = in_mem c1 x" if x: "x \<in> ?Z" for x
  proof -
    have n: "x \<in> ?S" "x \<notin> set (nodes y)" using x d(2) by auto
    then have "x \<noteq> ct_at y" by (metis ct_at_nodes)
    then show ?thesis using n merged_keeps [OF c2(5) r1] by (simp add: c3_def free_child_def)
  qed
  have left: "kids_left c3 a zs" by (rule kids_left_cong [OF c1(5)]) (use same in auto)
  have r4: "merge_ready dst ds2 ?Z c3" by (rule merge_ready_less [OF r3]) auto
  have h3: "ch_heap c3 = drop i (ch_heap c)" using m by (simp add: merged_def)
  have len: "cu_last cur2 = cu_last cur" using arg_cong [OF c2(3), of length] c2(2) Cons.prems(5) by simp
  obtain cur' c' ds' j where n: "merge_branch env dst a (Some (hd0 (map ct_at zs), old)) (cur2, c3) = Some (Inr (True, cur', c'))"
      "cursor_ok cur'" "written cur' = written old" "j \<le> 2 * length (concat (map nodes zs))"
      "merged dst ds2 ?Z c3 ds' c' j (\<lambda>p. sum_list (map (\<lambda>k. below_path (\<lambda>h n. h) ?pre k p) zs))
        (\<lambda>p. sum_list (map (\<lambda>k. below_path once ?pre k p) zs))"
  proof -
    have "\<forall>k \<in> set zs. branch_ends env dst k" "\<forall>n \<in> set (written cur2). plain n" "written cur2 = written old @ ns"
      using Cons.prems c2(3) by simp_all
    moreover have "cu_last cur2 + sum_list (map total zs) < 2 ^ 31" "2 * length (concat (map nodes zs)) \<le> length (ch_heap c3)"
      using Cons.prems(7,8) len h3 c2(4) by simp_all
    ultimately show ?thesis
      using that Cons.IH [OF _ d(1) left r4 c2(2) _ _ _ Cons.prems(9,10), unfolded c2(3)] c2(3) by metis
  qed
  have "merge_branch env dst a (Some (hd0 (map ct_at (y # zs)), old)) (cur, c) = Some (Inr (True, cur', c'))"
    using n(1) c1(1-4,8) c2(1) by (subst merge_branch.simps) (simp add: c3_def)
  moreover have "merged dst ds ?S c ds' c' (j + i) (\<lambda>p. sum_list (map (\<lambda>k. below_path (\<lambda>h n. h) ?pre k p) (y # zs)))
        (\<lambda>p. sum_list (map (\<lambda>k. below_path once ?pre k p) (y # zs)))"
  proof -
    have "?S \<union> ?Z = ?S" by auto
    then show ?thesis using merged_trans [OF m n(5)] by (simp only: list.map sum_list.Cons)
  qed
  moreover have "j + i \<le> 2 * length (concat (map nodes (y # zs)))" using n(4) c2(4) by simp
  ultimately show ?case using n(2,3) by blast
qed

subsection \<open>A branch\<close>

lemma give_entries_ok:
  assumes "cnodes c a = Some cn" "cursor_ok cur" "cu_last cur + length (cn_val cn) < 2 ^ 32" "plan (ch_alloc c) = []"
  obtains cur' a' ns where
    "give_entries a (cur, c) = Inr (cur', c\<lparr>ch_alloc := a', cnodes := (cnodes c)(a \<mapsto> cn\<lparr>cn_val := []\<rparr>)\<rparr>)"
    "cursor_ok cur'" "written cur' = written cur @ ns" "plan a' = []" "\<forall>n \<in> set ns. plain n"
    "map cu_key ns = map cl_key (cn_val cn)"
proof -
  obtain cur' a' ns where g: "fold give_entry (cn_val cn) (cur, ch_alloc c) = (cur', a')" "cursor_ok cur'"
      "written cur' = written cur @ ns" "plan a' = []" "\<forall>n \<in> set ns. plain n" "map cu_key ns = map cl_key (cn_val cn)"
    using give_all_ok [OF assms(2-4)] by metis
  show ?thesis
    by (rule that [of cur' a' ns]) (use g assms(1) in \<open>simp_all add: give_entries_def ld_cn_def upd_cn_def deref_def\<close>)
qed

lemma merge_hit:
  assumes r: "merge_ready dst ds S c" "env_key env \<noteq> CCKEY_SRCLINE" "cursor_ok cur" "h \<noteq> 0 \<Longrightarrow> written cur \<noteq> []"
    "\<forall>n \<in> set (written cur). plain n" "2 \<le> length (ch_heap c)"
  obtains cur' c' ds' j where
    "(if h = 0 then Some (Inr (True, cur, c))
      else append_chain_children env dst h (the (callchain_cursor_commit (Some cur)), c)) = Some (Inr (True, cur', c'))"
    "cursor_ok cur'" "written cur' = written cur" "j \<le> 2"
    "merged dst ds {} c ds' c' j (\<lambda>p. if p = map cu_key (written cur) then h else 0)
      (\<lambda>p. if p = map cu_key (written cur) then once h n else 0)"
proof (cases "h = 0")
  case True
  have "merged dst ds {} c ds c 0 (\<lambda>p. 0) (\<lambda>p. 0)"
    using r(1) by (intro merged_apart merge_ready_less [OF r(1)]) (simp_all add: merge_ready_def)
  then have "merged dst ds {} c ds c 0 (\<lambda>p. if p = map cu_key (written cur) then h else 0)
      (\<lambda>p. if p = map cu_key (written cur) then once h n else 0)"
    by (simp add: True once_def if_distrib cong: if_cong)
  then show ?thesis using True r(3) by (intro that [of cur c 0 ds]) simp_all
next
  case False
  then have o: "once h n = 1" by (simp add: once_def)
  show ?thesis using merge_append [OF r(1-3) r(4) [OF False] r(5,6), of h] that False unfolding o by auto
qed

lemma merge_node:
  assumes env: "env_key env \<noteq> CCKEY_SRCLINE"
    and kids: "\<forall>k \<in> set ks. branch_ends env dst k" "\<forall>k \<in> set ks. ct_val k \<noteq> []"
    and d: "distinct (nodes (CT a v h n ks))" and hv: "h \<noteq> 0 \<Longrightarrow> v \<noteq> []"
  shows "branch_ends env dst (CT a v h n ks)"
  unfolding branch_ends_def
proof (intro allI impI)
  fix par cur c ds
  let ?k = "CT a v h n ks" and ?pre = "map cu_key (written cur)"
  let ?S = "set (nodes ?k)"
  assume r: "merge_ready dst ds ?S c" and rep: "chain_rep c par ?k" and cur: "cursor_ok cur"
    "\<forall>n \<in> set (written cur). plain n" "cu_last cur + total ?k < 2 ^ 31" and hp: "2 * length (nodes ?k) \<le> length (ch_heap c)"
  obtain cn t where cn: "cnodes c a = Some cn" "cn_val cn = v" "cn_hit cn = h" "holds_tree (kids_tree c cn) t" "red_black t"
      "addrs t = map ct_at ks" using rep by (auto simp: node_rep_def)
  have pl: "plan (ch_alloc c) = []" using r by (simp add: merge_ready_def)
  obtain cur1 al ns where g: "give_entries a (cur, c) = Inr (cur1, c\<lparr>ch_alloc := al, cnodes := (cnodes c)(a \<mapsto> cn\<lparr>cn_val := []\<rparr>)\<rparr>)"
    "cursor_ok cur1" "written cur1 = written cur @ ns" "plan al = []" "\<forall>n \<in> set ns. plain n" "map cu_key ns = map cl_key v"
    using give_entries_ok [OF cn(1) cur(1) _ pl] cur(3) unfolding cn(2) by auto
  define c1 where "c1 = c\<lparr>ch_alloc := al, cnodes := (cnodes c)(a \<mapsto> cn\<lparr>cn_val := []\<rparr>)\<rparr>"
  have m1: "merged dst ds ?S c ds c1 0 (\<lambda>p. 0) (\<lambda>p. 0)"
    by (rule merged_apart [OF r]) (use g(4) in \<open>auto simp: c1_def\<close>)
  have r1: "merge_ready dst ds ?S c1" by (rule merged_ready [OF r m1])
  have len1: "cu_last cur1 = cu_last cur + length v"
    using arg_cong [OF g(3), of length] arg_cong [OF g(6), of length] g(2) cur(1) by simp
  have pre1: "map cu_key (written cur1) = ?pre @ map cl_key v" using g(3,6) by simp
  have left1: "kids_left c1 a ks"
  proof -
    have "kids_tree c1 (cn\<lparr>cn_val := []\<rparr>) = kids_tree c cn" by (simp add: kids_tree_def c1_def)
    moreover have "chain_rep c1 a k" if k: "k \<in> set ks" for k
    proof -
      have "chain_rep c1 a k = chain_rep c a k"
        using kid_not_at [OF d k] by (intro chain_rep_cong) (auto simp: c1_def)
      then show ?thesis using rep k by simp
    qed
    ultimately show ?thesis using cn unfolding kids_left_def by (auto simp: c1_def)
  qed
  obtain cur2 c2 ds2 i where s: "(if h = 0 then Some (Inr (True, cur1, c1))
      else append_chain_children env dst h (the (callchain_cursor_commit (Some cur1)), c1)) = Some (Inr (True, cur2, c2))"
    "cursor_ok cur2" "written cur2 = written cur1" "i \<le> 2"
    "merged dst ds {} c1 ds2 c2 i (\<lambda>p. if p = ?pre @ map cl_key v then h else 0)
      (\<lambda>p. if p = ?pre @ map cl_key v then once h n else 0)"
  proof -
    have "written cur1 \<noteq> []" if "h \<noteq> 0" using hv [OF that] g(3,6) by auto
    moreover have "\<forall>n \<in> set (written cur1). plain n" using cur(2) g(3,5) by auto
    moreover have "2 \<le> length (ch_heap c1)" using hp by (simp add: c1_def)
    ultimately show ?thesis using merge_hit [OF r1 env g(2)] that pre1 by metis
  qed
  have r2: "merge_ready dst ds2 ?S c2" by (rule merged_ready [OF r1 s(5)])
  have same: "cnodes c2 x = cnodes c1 x \<and> in_mem c2 x = in_mem c1 x" if "x \<in> ?S" for x
    using merged_keeps [OF s(5) r1 that] by simp
  have left2: "kids_left c2 a ks" by (rule kids_left_cong [OF left1]) (use same in auto)
  have heap2: "ch_heap c2 = drop i (ch_heap c)" using s(5) by (simp add: merged_def c1_def)
  have len2: "cu_last cur2 = cu_last cur + length v"
    using arg_cong [OF s(3), of length] s(2) g(2) len1 by simp
  obtain cur' c' ds' j where l: "merge_branch env dst a (Some (hd0 (map ct_at ks), cur)) (cur2, c2) = Some (Inr (True, cur', c'))"
      "cursor_ok cur'" "written cur' = written cur" "j \<le> 2 * length (concat (map nodes ks))"
      "merged dst ds2 ?S c2 ds' c' j (\<lambda>p. sum_list (map (\<lambda>k. below_path (\<lambda>h n. h) (?pre @ map cl_key v) k p) ks))
        (\<lambda>p. sum_list (map (\<lambda>k. below_path once (?pre @ map cl_key v) k p) ks))"
  proof -
    have f1: "\<forall>n \<in> set (written cur2). plain n" using cur(2) g(3,5) s(3) by auto
    have f2: "cu_last cur2 + sum_list (map total ks) < 2 ^ 31" "cu_last cur < 2 ^ 31" using cur(3) len2 by simp_all
    have f3: "2 * length (concat (map nodes ks)) \<le> length (ch_heap c2)" using hp heap2 s(4) by simp
    have f4: "distinct (a # concat (map nodes ks))" using d by simp
    have f5: "merge_ready dst ds2 (insert a (set (concat (map nodes ks)))) c2" using r2 by simp
    have f6: "written cur2 = written cur @ ns" using s(3) g(3) by simp
    have f7: "map cu_key (written cur2) = ?pre @ map cl_key v" using s(3) pre1 by simp
    have f8: "insert a (set (concat (map nodes ks))) = ?S" by simp
    note merge_kids [OF kids(1) f4 left2 f5 s(2) f1 f2(1) f3 cur(1) f2(2) f6, unfolded f7 f8]
    then show ?thesis using that by blast
  qed
  have first: "rb_first (kids_tree c2 (cn\<lparr>cn_val := []\<rparr>)) = Some (Inr (hd0 (map ct_at ks)))"
  proof -
    have "a \<in> ?S" by simp
    then have "cnodes c2 a = Some (cn\<lparr>cn_val := []\<rparr>)" using same by (simp add: c1_def)
    then obtain t' where "holds_tree (kids_tree c2 (cn\<lparr>cn_val := []\<rparr>)) t'" "addrs t' = map ct_at ks"
      using left2 by (auto simp: kids_left_def)
    then show ?thesis using rb_end_correct [of _ t' L] by (simp add: rb_first_def daddrs_def)
  qed
  have ld: "ld_cn c1 a = Inr (cn\<lparr>cn_val := []\<rparr>)" "ld_cn c2 a = Inr (cn\<lparr>cn_val := []\<rparr>)"
    using same [of a] by (simp_all add: ld_cn_def deref_def c1_def)
  have "merge_branch env dst a None (cur, c) = Some (Inr (True, cur', c'))"
    using g(1) s(1) l(1) first ld cn(3)
    by (cases "h = 0"; subst merge_branch.simps) (simp_all add: c1_def [symmetric])
  moreover have "merged dst ds ?S c ds' c' (j + i) (below_path (\<lambda>h n. h) ?pre ?k) (below_path once ?pre ?k)"
  proof -
    have "merged dst ds (?S \<union> {} \<union> ?S) c ds' c' (j + i) (below_path (\<lambda>h n. h) ?pre ?k) (below_path once ?pre ?k)"
      using merged_trans [OF merged_trans [OF m1 s(5)] l(5)] unfolding below_path_CT [OF kids(2), abs_def]
      by (simp only: add_0 add_0_right)
    then show ?thesis by simp
  qed
  moreover have "j + i \<le> 2 * length (nodes ?k)" using l(4) s(4) by simp
  ultimately show "\<exists>cur' c' ds' j. merge_branch env dst (ct_at ?k) None (cur, c) = Some (Inr (True, cur', c')) \<and>
        cursor_ok cur' \<and> written cur' = written cur \<and> j \<le> 2 * length (nodes ?k) \<and>
        merged dst ds ?S c ds' c' j (below_path (\<lambda>h n. h) ?pre ?k) (below_path once ?pre ?k)"
    using l(2,3) by (metis ctree.sel(1))
qed

lemma merge_all:
  "env_key env \<noteq> CCKEY_SRCLINE \<Longrightarrow> kid_wf k \<Longrightarrow> distinct (nodes k) \<Longrightarrow> branch_ends env dst k"
proof (induction k)
  case (CT a v h n ks)
  have wf: "v \<noteq> []" "kids_wf ks" using CT.prems(2) by (simp_all add: kids_wf_def)
  have "\<forall>k \<in> set ks. branch_ends env dst k"
    using CT.IH CT.prems wf(2) by (auto simp: kids_wf_def distinct_concat_iff)
  moreover have "\<forall>k \<in> set ks. ct_val k \<noteq> []" using wf(2) kid_wf_val by (auto simp: kids_wf_def)
  ultimately show ?case using merge_node [OF CT.prems(1) _ _ CT.prems(3)] wf(1) by blast
qed

lemma below_root:
  assumes "\<forall>k \<in> set ks. ct_val k \<noteq> []" "f 0 0 = 0"
  shows "below_path f [] (CT a [] 0 0 ks) p = chain_tally f ks p"
  using below_path_CT [OF assms(1), of f "[]" a "[]" 0 0 p] assms(2)
  by (simp add: below_path_def chain_tally_def)

text \<open>C6. With enough memory, two trees of different nodes, every key but the source line, an empty
  cursor and fewer than \<open>2 ^ 31\<close> entries in the source, \<open>callchain_merge\<close> ends and appends every chain of the source to the destination: each
  chain has the hits of both trees, its count grows by one when the source had hits for it,
  the destination is a tree of chains in order and the cursor is as empty as before.\<close>

theorem callchain_merge_correct:
  assumes c: "holds_chains c (cr_node dst) ds" "holds_chains c (cr_node src) ss"
    and apart: "set (nodes (CT (cr_node src) [] 0 0 ss)) \<inter> set (nodes (CT (cr_node dst) [] 0 0 ds)) = {}"
    and env: "env_key env \<noteq> CCKEY_SRCLINE" and cur: "cursor_ok cur" "written cur = []"
    and small: "sum_list (map total ss) < 2 ^ 31"
    and mem: "plan (ch_alloc c) = []" "2 * length (nodes (CT (cr_node src) [] 0 0 ss)) \<le> length (ch_heap c)"
  shows "\<exists>cur' c' ds'. callchain_merge env dst src (cur, c) = Some (Inr (True, cur', c')) \<and>
    holds_chains c' (cr_node dst) ds' \<and> cursor_ok cur' \<and> written cur' = [] \<and>
    (\<forall>p. hits_at ds' p = hits_at ds p + hits_at ss p \<and> count_at ds' p = count_at ds p + chain_tally once ss p)"
proof -
  let ?k = "CT (cr_node src) [] 0 0 ss"
  have src: "chain_rep c 0 ?k" "kids_wf ss" "distinct (nodes ?k)" "good_heap (ch_heap c) (set (nodes ?k))"
    using c(2) by (simp_all add: holds_chains_def)
  have v: "\<forall>k \<in> set ss. ct_val k \<noteq> []" using src(2) kid_wf_val by (auto simp: kids_wf_def)
  have "\<forall>k \<in> set ss. branch_ends env (cr_node dst) k"
    using merge_all [OF env] src(2,3) by (auto simp: kids_wf_def distinct_concat_iff)
  then have e: "branch_ends env (cr_node dst) ?k" using merge_node [OF env _ v src(3)] by simp
  have "set (nodes ?k) \<inter> set (ch_heap c) = {}" using src(4) unfolding good_heap_def by blast
  then have r: "merge_ready (cr_node dst) ds (set (nodes ?k)) c"
    using c(1) apart mem(1) unfolding merge_ready_def dst_nodes_def by blast
  have last: "cu_last cur + total ?k < 2 ^ 31"
    using small arg_cong [OF cur(2), of length] cur(1) by simp
  have "\<forall>n \<in> set (written cur). plain n" using cur(2) by simp
  then obtain cur' c' ds' j where m: "merge_branch env (cr_node dst) (cr_node src) None (cur, c) = Some (Inr (True, cur', c'))"
      "cursor_ok cur'" "written cur' = []"
      "merged (cr_node dst) ds (set (nodes ?k)) c ds' c' j (below_path (\<lambda>h n. h) [] ?k) (below_path once [] ?k)"
    using e [unfolded branch_ends_def, rule_format, OF r src(1) cur(1) _ last mem(2)] cur(2) by auto
  have "below_path (\<lambda>h n. h) [] ?k p = hits_at ss p" "below_path once [] ?k p = chain_tally once ss p" for p
    by (simp_all add: below_root [OF v] hits_at_def once_def)
  then show ?thesis
    using m by (auto simp: callchain_merge_def merge_chain_branch_def merged_def)
qed

text \<open>The merge of \<open>two_trees\<close>: 40 hits for the chain of the one entry.\<close>

lemma two_trees_hold: "holds_chains two_trees 16 [CT 32 [one_entry] 40 2 []]" "holds_chains two_trees 64 []"
proof -
  note rep = node_rep_def two_trees_def zero_cnode_def kids_tree_def holds_tree_def valid_addrs_def red_black_def
    aligned_def RB_BLACK_def mk_node_def bit_of_def
  have "node_rep two_trees 16 32 [one_entry] 40 2 []"
    unfolding node_rep_def by (intro exI [of _ "the (cnodes two_trees 32)"] exI [of _ Lf]) (simp add: rep)
  moreover have "node_rep two_trees 0 64 [] 0 0 []"
    unfolding node_rep_def by (intro exI [of _ "the (cnodes two_trees 64)"] exI [of _ Lf]) (simp add: rep)
  moreover have "node_rep two_trees 0 16 [] 0 0 [CT 32 [one_entry] 40 2 []]"
    unfolding node_rep_def
    by (intro exI [of _ "the (cnodes two_trees 16)"] exI [of _ "Nd Black Lf 32 Lf"]) (simp add: rep exI [of _ 1])
  ultimately show "holds_chains two_trees 16 [CT 32 [one_entry] 40 2 []]" "holds_chains two_trees 64 []"
    by (simp_all add: holds_chains_def kids_wf_def good_heap_def aligned_def, simp_all add: two_trees_def)
qed

theorem callchain_merge_correct_witness:
  "\<exists>cur' c' ds'. callchain_merge \<lparr>env_key = CCKEY_FUNCTION, env_syms = (\<lambda>_. None)\<rparr> \<lparr>max_depth = 0, cr_node = 64\<rparr>
      \<lparr>max_depth = 0, cr_node = 16\<rparr> (zero_cursor, two_trees) = Some (Inr (True, cur', c')) \<and>
    holds_chains c' (cr_node \<lparr>max_depth = 0, cr_node = 64\<rparr>) ds' \<and> cursor_ok cur' \<and> written cur' = [] \<and>
    (\<forall>p. hits_at ds' p = hits_at [] p + hits_at [CT 32 [one_entry] 40 2 []] p \<and>
       count_at ds' p = count_at [] p + chain_tally once [CT 32 [one_entry] 40 2 []] p)"
  by (rule callchain_merge_correct)
    (simp_all add: two_trees_hold, simp_all add: two_trees_def zero_cursor_def cursor_ok_def written_def)

end
