(* ===== verification/Chain_Sort.thy ===== *)
theory Chain_Sort
  imports Chain_Count
begin

text \<open>
  Sorting the chains for output: the second red-black tree through the nodes, ordered by
  hits (flat) or by the hits of whole subtrees (graph).
\<close>

subsection \<open>The code\<close>

text \<open>The descent of \<open>rb_insert_callchain\<close>. Without a mode \<open>p\<close> never moves, and the loop does not
  end once the tree has a node.\<close>

definition out_step ::
  "chain_mode \<Rightarrow> callchain_node \<Rightarrow> chains \<Rightarrow> u64 \<Rightarrow> rb_link \<times> u64 \<Rightarrow> (rb_link \<times> u64, rb_link \<times> u64) flow result" where
  "out_step mode chain c root = (\<lambda>(lk, parent).
     rbind (get_link lk \<lparr>mem = out_mem c, rb_root = root\<rparr>) (\<lambda>p.
       if p = 0 then Inr (Done (lk, parent))
       else rbind (ld_cn c p) (\<lambda>rnode. Inr (Again (
         if mode = CHAIN_FLAT \<or> mode = CHAIN_FOLDED then
           (Child_link (if cn_hit rnode < cn_hit chain then L else R) p, p)
         else if mode = CHAIN_GRAPH_ABS \<or> mode = CHAIN_GRAPH_REL then
           (Child_link (if callchain_cumul_hits rnode < callchain_cumul_hits chain then L else R) p, p)
         else (lk, p))))))"

definition rb_insert_callchain :: "u64 \<Rightarrow> chain_mode \<Rightarrow> u64 \<times> chains \<Rightarrow> (u64 \<times> chains) run" where
  "rb_insert_callchain chain mode = (\<lambda>(root, c).
     obind (Some (ld_cn c chain)) (\<lambda>n.
     obind (loop (out_step mode n c root) (Root_link, 0)) (\<lambda>(lk, parent).
     obind (Some (rb_link_node chain parent lk \<lparr>mem = out_mem c, rb_root = root\<rparr>)) (\<lambda>s.
     obind (rb_insert_color chain s) (\<lambda>s. Some (Inr (rb_root s, c\<lparr>out_mem := mem s\<rparr>)))))))"

text \<open>\<open>__sort_chain_flat\<close>. \<open>at\<close> is \<open>None\<close> on entry; in the loop over the children it is \<open>n\<close>.\<close>

partial_function (option) sort_flat :: "u64 \<Rightarrow> u64 \<Rightarrow> u64 option \<Rightarrow> u64 \<times> chains \<Rightarrow> (u64 \<times> chains) run" where
  [code]: "sort_flat min_hit node at s =
     (case at of
        None \<Rightarrow>
          obind (Some (ld_cn (snd s) node)) (\<lambda>cn.
          obind (rb_first (kids_tree (snd s) cn)) (\<lambda>n. sort_flat min_hit node (Some n) s))
      | Some n \<Rightarrow>
          if n \<noteq> 0 then
            obind (rb_next \<lparr>mem = in_mem (snd s), rb_root = 0\<rparr> n) (\<lambda>next.
            obind (sort_flat min_hit n None s) (\<lambda>s. sort_flat min_hit node (Some next) s))
          else
            obind (Some (ld_cn (snd s) node)) (\<lambda>cn.
              if cn_hit cn \<noteq> 0 \<and> min_hit \<le> cn_hit cn then rb_insert_callchain node CHAIN_FLAT s
              else Some (Inr s)))"

definition sort_chain_flat :: "callchain_root \<Rightarrow> u64 \<Rightarrow> chains \<Rightarrow> (u64 \<times> chains) run" where
  "sort_chain_flat root min_hit c = sort_flat min_hit (cr_node root) None (0, c)"

text \<open>
  The loop of \<open>__sort_chain_graph_abs\<close> and \<open>__sort_chain_graph_rel\<close>, which build the output tree of
  the children in \<open>node->rb_root\<close>. They differ in the mode and in the least number of hits, a
  function of the node's \<open>children_hit\<close> here.
\<close>

definition insert_out :: "u64 \<Rightarrow> u64 \<Rightarrow> chain_mode \<Rightarrow> chains \<Rightarrow> chains run" where
  "insert_out node chain mode c =
     obind (Some (ld_cn c node)) (\<lambda>n.
     obind (rb_insert_callchain chain mode (rb_root_out n, c)) (\<lambda>(root, c).
       Some (upd_cn node (\<lambda>n. n\<lparr>rb_root_out := root\<rparr>) c)))"

partial_function (option) sort_graph ::
  "chain_mode \<Rightarrow> (u64 \<Rightarrow> u64) \<Rightarrow> u64 \<Rightarrow> (u64 \<times> u64) option \<Rightarrow> chains \<Rightarrow> chains run" where
  [code]: "sort_graph mode least node at c =
     (case at of
        None \<Rightarrow>
          obind (Some (upd_cn node (\<lambda>n. n\<lparr>rb_root_out := 0\<rparr>) c)) (\<lambda>c.
          obind (Some (ld_cn c node)) (\<lambda>cn.
          obind (rb_first (kids_tree c cn)) (\<lambda>n. sort_graph mode least node (Some (n, least (children_hit cn))) c)))
      | Some pos \<Rightarrow>
          if fst pos \<noteq> 0 then
            obind (rb_next \<lparr>mem = in_mem c, rb_root = 0\<rparr> (fst pos)) (\<lambda>next.
            obind (sort_graph mode least (fst pos) None c) (\<lambda>c.
            obind (Some (ld_cn c (fst pos))) (\<lambda>child.
            obind (if snd pos \<le> callchain_cumul_hits child then insert_out node (fst pos) mode c else Some (Inr c)) (\<lambda>c.
              sort_graph mode least node (Some (next, snd pos)) c))))
          else Some (Inr c))"

text \<open>The result is what is stored in \<open>rb_root->rb_node\<close>.\<close>

definition sort_chain_graph_abs :: "callchain_root \<Rightarrow> u64 \<Rightarrow> chains \<Rightarrow> (u64 \<times> chains) run" where
  "sort_chain_graph_abs root min_hit c =
     obind (sort_graph CHAIN_GRAPH_ABS (\<lambda>_. min_hit) (cr_node root) None c) (\<lambda>c.
     obind (Some (ld_cn c (cr_node root))) (\<lambda>n. Some (Inr (rb_root_out n, c))))"

text \<open>\<open>share\<close> is the product of \<open>children_hit\<close> and \<open>min_percent\<close>, of doubles, cut to 64 bits; \<open>ceil\<close> is
  the identity here.\<close>

definition sort_chain_graph_rel :: "(u64 \<Rightarrow> u64) \<Rightarrow> callchain_root \<Rightarrow> chains \<Rightarrow> (u64 \<times> chains) run" where
  "sort_chain_graph_rel share root c =
     obind (sort_graph CHAIN_GRAPH_REL share (cr_node root) None c) (\<lambda>c.
     obind (Some (ld_cn c (cr_node root))) (\<lambda>n. Some (Inr (rb_root_out n, c))))"

datatype sort_chain_func = Sort_chain_flat | Sort_chain_graph_abs | Sort_chain_graph_rel

text \<open>The fields of \<open>struct callchain_param\<close> that the program reads or writes.\<close>

record callchain_param =
  cp_mode :: chain_mode
  cp_sort :: "sort_chain_func option"
  cp_key :: chain_key

definition callchain_param_default :: callchain_param where
  "callchain_param_default = \<lparr>cp_mode = CHAIN_GRAPH_ABS, cp_sort = None, cp_key = CCKEY_FUNCTION\<rparr>"

text \<open>\<open>False\<close> is -1.\<close>

definition callchain_register_param :: "callchain_param \<Rightarrow> bool \<times> callchain_param" where
  "callchain_register_param p =
     (case cp_mode p of
        CHAIN_GRAPH_ABS \<Rightarrow> (True, p\<lparr>cp_sort := Some Sort_chain_graph_abs\<rparr>)
      | CHAIN_GRAPH_REL \<Rightarrow> (True, p\<lparr>cp_sort := Some Sort_chain_graph_rel\<rparr>)
      | CHAIN_FLAT \<Rightarrow> (True, p\<lparr>cp_sort := Some Sort_chain_flat\<rparr>)
      | CHAIN_FOLDED \<Rightarrow> (True, p\<lparr>cp_sort := Some Sort_chain_flat\<rparr>)
      | CHAIN_NONE \<Rightarrow> (False, p))"

subsection \<open>Inserting\<close>

text \<open>A loop that does what another does on the images of its states.\<close>

lemma loop_via:
  "loop g s = Some r \<Longrightarrow> (\<And>s. f (h s) = (case g s of Inl e \<Rightarrow> Inl e | Inr w \<Rightarrow>
      (case w of Again t \<Rightarrow> Inr (Again (h t)) | Done r \<Rightarrow> Inr (Done (k r))))) \<Longrightarrow>
    loop f (h s) = (case r of Inl e \<Rightarrow> Some (Inl e) | Inr x \<Rightarrow> Some (Inr (k x)))"
proof (induction g s r rule: loop.raw_induct [rotated, consumes 1, case_names Loop])
  case (Loop lp g s r)
  note IH = Loop(1) and eq = Loop(2) and step = Loop(3) [of s]
  show ?case
  proof (cases "g s")
    case (Inl e)
    then show ?thesis using eq step by (auto simp: loop_step)
  next
    case (Inr w)
    show ?thesis
    proof (cases w)
      case (Again t)
      then have "lp g t = Some r" using eq Inr by simp
      from IH [OF this Loop(3)] show ?thesis using step Inr Again by (simp add: loop_step)
    next
      case (Done x)
      then show ?thesis using eq step Inr by (auto simp: loop_step)
    qed
  qed
qed

text \<open>What a mode orders by.\<close>

definition weight :: "chain_mode \<Rightarrow> callchain_node \<Rightarrow> u64" where
  "weight mode n = (if mode = CHAIN_FLAT \<or> mode = CHAIN_FOLDED then cn_hit n else callchain_cumul_hits n)"

definition weight_at :: "chain_mode \<Rightarrow> chains \<Rightarrow> u64 \<Rightarrow> u64" where
  "weight_at mode c a = (case cnodes c a of None \<Rightarrow> 0 | Some n \<Rightarrow> weight mode n)"

text \<open>\<open>out_ok\<close>: the output tree at \<open>root\<close> holds \<open>t\<close>, heaviest first, and the nodes of \<open>A\<close> are
  not in it yet.\<close>

definition out_tree :: "chain_mode \<Rightarrow> chains \<Rightarrow> u64 \<Rightarrow> u64 list \<Rightarrow> bool" where
  "out_tree mode c root as \<longleftrightarrow> (\<exists>t. holds_tree \<lparr>mem = out_mem c, rb_root = root\<rparr> t \<and> red_black t \<and> addrs t = as \<and>
     (\<forall>a \<in> set as. cnodes c a \<noteq> None) \<and> sorted_wrt (\<lambda>a b. weight_at mode c b \<le> weight_at mode c a) as)"

definition free_nodes :: "chains \<Rightarrow> u64 set \<Rightarrow> u64 list \<Rightarrow> bool" where
  "free_nodes c A as \<longleftrightarrow> (\<forall>a \<in> A. a \<noteq> 0 \<and> aligned a \<and> a \<notin> set as \<and> cnodes c a \<noteq> None \<and> out_mem c a \<noteq> None)"

lemma stored_mapped: "stored m par t \<Longrightarrow> a \<in> set (addrs t) \<Longrightarrow> m a \<noteq> None"
  by (induction t arbitrary: par) auto

lemma holds_tree_mapped: "holds_tree s t \<Longrightarrow> a \<in> set (addrs t) \<Longrightarrow> mem s a \<noteq> None"
  unfolding holds_tree_def using stored_mapped by blast

lemma rb_insert_callchain_ok:
  assumes mode: "mode \<noteq> CHAIN_NONE" and t: "out_tree mode c root as" and n: "free_nodes c {a} as"
  shows "\<exists>root' m as'. rb_insert_callchain a mode (root, c) = Some (Inr (root', c\<lparr>out_mem := m\<rparr>)) \<and>
    out_tree mode (c\<lparr>out_mem := m\<rparr>) root' as' \<and> set as' = insert a (set as) \<and>
    (\<forall>x. x \<notin> set as' \<longrightarrow> m x = out_mem c x) \<and> (\<forall>x. out_mem c x \<noteq> None \<longrightarrow> m x \<noteq> None)"
proof -
  let ?s = "\<lparr>mem = out_mem c, rb_root = root\<rparr>"
  obtain cn where cn: "cnodes c a = Some cn" using n by (auto simp: free_nodes_def)
  obtain t where t: "holds_tree ?s t" "red_black t" "addrs t = as" "\<forall>a \<in> set as. cnodes c a \<noteq> None"
    "sorted_wrt (\<lambda>a b. weight_at mode c b \<le> weight_at mode c a) as" using t by (auto simp: out_tree_def)
  define f where "f x = (if weight_at mode c x < weight mode cn then - 1 else 1 :: int)" for x
  define cmp where "cmp p = rbind (ld_cn c p) (\<lambda>m. Inr (if weight mode m < weight mode cn then - 1 else 1 :: int))" for p
  have cmp: "\<forall>x \<in> set (addrs t). cmp x = Inr (f x)"
  proof
    fix x assume "x \<in> set (addrs t)"
    then obtain m where "cnodes c x = Some m" using t(3,4) by blast
    then show "cmp x = Inr (f x)" by (simp add: cmp_def f_def weight_at_def ld_cn_def)
  qed
  have fall: "falling f (addrs t)"
    unfolding falling_def t(3) by (rule sorted_wrt_mono_rel [OF _ t(5)]) (auto simp: f_def)
  have nz: "f x \<noteq> 0" for x by (simp add: f_def)
  obtain ctx xs ys lm where l: "loop (locate_step cmp ?s) (Root_link, 0, True) = Some (Inr (Inl (hole_link ctx, ctx_addr ctx, lm)))"
    "plug Lf ctx = t" "addrs t = xs @ ys" "ctx_before ctx = xs" "ctx_after ctx = ys"
    "\<forall>x \<in> set xs. 0 < f x" "\<forall>y \<in> set ys. f y < 0"
    using locate_descent [of ?s t "[]" f cmp True] t(1) cmp fall nz by auto
  have "loop (out_step mode cn c root) ((\<lambda>(lk, p, lm). (lk, p)) (Root_link, 0, True)) =
      (case Inr (Inl (hole_link ctx, ctx_addr ctx, lm)) of Inl e \<Rightarrow> Some (Inl e)
       | Inr x \<Rightarrow> Some (Inr ((\<lambda>r. case r of Inl (lk, p, lm) \<Rightarrow> (lk, p) | Inr p \<Rightarrow> (Root_link, p)) x)))"
  proof (rule loop_via [OF l(1)])
    fix s :: "rb_link \<times> u64 \<times> bool"
    obtain lk p lm where s: "s = (lk, p, lm)" by (cases s)
    show "out_step mode cn c root ((\<lambda>(lk, p, lm). (lk, p)) s) = (case locate_step cmp ?s s of Inl e \<Rightarrow> Inl e | Inr w \<Rightarrow>
      (case w of Again t \<Rightarrow> Inr (Again ((\<lambda>(lk, p, lm). (lk, p)) t))
       | Done r \<Rightarrow> Inr (Done ((\<lambda>r. case r of Inl (lk, p, lm) \<Rightarrow> (lk, p) | Inr p \<Rightarrow> (Root_link, p)) r))))"
      using mode unfolding s out_step_def locate_step_def cmp_def
      by (cases mode; cases "get_link lk ?s") (auto simp: weight_def ld_cn_def deref_def split: option.split)
  qed
  then have loop: "loop (out_step mode cn c root) (Root_link, 0) = Some (Inr (hole_link ctx, ctx_addr ctx))" by simp
  have A: "set (ctx_addrs ctx) = set as" using l(2) t(3) set_addrs_plug [of Lf ctx] by simp
  have "fresh_node ?s a (set (ctx_addrs ctx))" using n unfolding A by (simp add: free_nodes_def fresh_node_def)
  then obtain s1 s' t' where s: "rb_link_node a (ctx_addr ctx) (hole_link ctx) ?s = Inr s1" "rb_insert_color a s1 = Some (Inr s')"
     "holds_tree s' t'" "red_black t'" "addrs t' = xs @ a # ys" "only_touches ?s s' (insert a (set as))"
    using link_and_fix [of ?s ctx a] t(1,2) l(2,4,5) A by auto
  have set: "set (xs @ a # ys) = insert a (set as)" using l(3) t(3) by auto
  let ?c = "c\<lparr>out_mem := mem s'\<rparr>"
  have w: "weight_at mode ?c = weight_at mode c" by (simp add: weight_at_def fun_eq_iff)
  have "sorted_wrt (\<lambda>a b. weight_at mode c b \<le> weight_at mode c a) (xs @ a # ys)"
    using t(5) l(3,6,7) t(3) cn unfolding f_def by (auto simp: sorted_wrt_append weight_at_def split: if_splits)
  moreover have "holds_tree \<lparr>mem = mem s', rb_root = rb_root s'\<rparr> t'" using s(3) by (cases s') simp
  ultimately have "out_tree mode ?c (rb_root s') (xs @ a # ys)"
    unfolding out_tree_def w using s(4,5) t(4) cn set by (intro exI [of _ t']) auto
  moreover have "rb_insert_callchain a mode (root, c) = Some (Inr (rb_root s', ?c))"
    using cn loop s(1,2) by (simp add: rb_insert_callchain_def ld_cn_def)
  moreover have "mem s' x = out_mem c x" if "x \<notin> set (xs @ a # ys)" for x
    using s(6) that unfolding set only_touches_def by simp
  moreover have "mem s' x \<noteq> None" if "out_mem c x \<noteq> None" for x
  proof (cases "x \<in> insert a (set as)")
    case True
    then have "x \<in> set (addrs t')" using set s(5) by simp
    then show ?thesis using s(3) by (metis holds_tree_mapped)
  qed (use s(6) that in \<open>simp add: only_touches_def\<close>)
  ultimately show ?thesis using set by blast
qed

subsection \<open>Flat output\<close>

text \<open>The nodes \<open>__sort_chain_flat\<close> selects.\<close>

primrec flat_nodes :: "u64 \<Rightarrow> ctree \<Rightarrow> u64 set" where
  "flat_nodes m (CT a v h n ks) = (if h \<noteq> 0 \<and> m \<le> h then {a} else {}) \<union> \<Union> (set (map (flat_nodes m) ks))"

lemma flat_nodes_sub: "flat_nodes m k \<subseteq> set (nodes k)"
proof (induction k)
  case (CT a v h n ks)
  then show ?case by (auto split: if_splits)
qed

lemma chain_rep_out [simp]: "chain_rep (c\<lparr>out_mem := m\<rparr>) par k = chain_rep c par k"
  by (rule chain_rep_cong) simp_all

lemma ld_cn_out [simp]: "ld_cn (c\<lparr>out_mem := m\<rparr>) a = ld_cn c a"
  by (simp add: ld_cn_def)

lemma kids_tree_out [simp]: "kids_tree (c\<lparr>out_mem := m\<rparr>) n = kids_tree c n"
  by (simp add: kids_tree_def)

text \<open>What a sort may do: it grows the output tree by \<open>A\<close> and touches nothing else.\<close>

definition sorted_in :: "chain_mode \<Rightarrow> u64 set \<Rightarrow> chains \<Rightarrow> u64 list \<Rightarrow> (u64 \<times> chains) run \<Rightarrow> bool" where
  "sorted_in mode A c as r \<longleftrightarrow> (\<exists>root' m as'. r = Some (Inr (root', c\<lparr>out_mem := m\<rparr>)) \<and>
     out_tree mode (c\<lparr>out_mem := m\<rparr>) root' as' \<and> set as' = set as \<union> A \<and>
     (\<forall>x. x \<notin> set as' \<longrightarrow> m x = out_mem c x) \<and> (\<forall>x. out_mem c x \<noteq> None \<longrightarrow> m x \<noteq> None))"

lemma sorted_in_then:
  assumes r: "sorted_in mode A c as r" and A: "A \<subseteq> X" "X \<inter> Y = {}" and free: "free_nodes c Y as"
    and step: "\<And>root' m as'. out_tree mode (c\<lparr>out_mem := m\<rparr>) root' as' \<Longrightarrow> free_nodes (c\<lparr>out_mem := m\<rparr>) Y as' \<Longrightarrow>
      sorted_in mode B (c\<lparr>out_mem := m\<rparr>) as' (g (root', c\<lparr>out_mem := m\<rparr>))"
  shows "sorted_in mode (A \<union> B) c as (obind r g)"
proof -
  obtain root' m as' where r: "r = Some (Inr (root', c\<lparr>out_mem := m\<rparr>))" "out_tree mode (c\<lparr>out_mem := m\<rparr>) root' as'"
     "set as' = set as \<union> A" "\<And>x. x \<notin> set as' \<Longrightarrow> m x = out_mem c x" "\<And>x. out_mem c x \<noteq> None \<Longrightarrow> m x \<noteq> None"
    using r unfolding sorted_in_def by blast
  have "free_nodes (c\<lparr>out_mem := m\<rparr>) Y as'" using free A r(3,5) unfolding free_nodes_def by auto
  from step [OF r(2) this] obtain root'' m' as'' where
    t: "g (root', c\<lparr>out_mem := m\<rparr>) = Some (Inr (root'', c\<lparr>out_mem := m'\<rparr>))" "out_tree mode (c\<lparr>out_mem := m'\<rparr>) root'' as''"
     "set as'' = set as' \<union> B" "\<And>x. x \<notin> set as'' \<Longrightarrow> m' x = m x" "\<And>x. m x \<noteq> None \<Longrightarrow> m' x \<noteq> None"
    unfolding sorted_in_def by auto
  have "set as'' = set as \<union> (A \<union> B)" "\<And>x. x \<notin> set as'' \<Longrightarrow> m' x = out_mem c x"
    "\<And>x. out_mem c x \<noteq> None \<Longrightarrow> m' x \<noteq> None" using r(3-5) t(3-5) by auto
  then show ?thesis unfolding sorted_in_def r(1) using t(1,2) by (intro exI [of _ root''] exI [of _ m'] exI [of _ as'']) simp
qed

lemma sorted_in_same: "out_tree mode c root as \<Longrightarrow> sorted_in mode {} c as (Some (Inr (root, c)))"
  unfolding sorted_in_def by (intro exI [of _ root] exI [of _ "out_mem c"] exI [of _ as]) simp

lemma sorted_in_insert:
  assumes "mode \<noteq> CHAIN_NONE" "out_tree mode c root as" "free_nodes c {a} as"
  shows "sorted_in mode {a} c as (rb_insert_callchain a mode (root, c))"
  using rb_insert_callchain_ok [OF assms] unfolding sorted_in_def by auto

lemma next_kid:
  assumes "chain_rep c par (CT a v h n (us @ k # ys))"
  shows "rb_next \<lparr>mem = in_mem c, rb_root = 0\<rparr> (ct_at k) = Some (Inr (hd0 (map ct_at ys)))" "ct_at k \<noteq> 0"
proof -
  obtain cn t where t: "holds_tree (kids_tree c cn) t" "addrs t = map ct_at (us @ k # ys)"
    using assms by (auto simp: node_rep_def)
  have "rb_next (kids_tree c cn) (ct_at k) = Some (Inr (hd0 (map ct_at ys)))"
    using rb_step_correct [OF t(1), of R "map ct_at us" "ct_at k" "map ct_at ys"] t(2) by (simp add: rb_next_def daddrs_def)
  moreover have "rb_next \<lparr>mem = in_mem c, rb_root = 0\<rparr> (ct_at k) = rb_next (kids_tree c cn) (ct_at k)"
    by (rule rb_next_mem) (simp add: kids_tree_def)
  ultimately show "rb_next \<lparr>mem = in_mem c, rb_root = 0\<rparr> (ct_at k) = Some (Inr (hd0 (map ct_at ys)))" by simp
  show "ct_at k \<noteq> 0" using t by (auto simp: holds_tree_def valid_addrs_def)
qed

lemma first_kid:
  assumes "chain_rep c par (CT a v h n ks)"
  shows "\<exists>cn. cnodes c a = Some cn \<and> cn_hit cn = h \<and> children_hit cn = sum_list (map cumul_hit ks) \<and>
    rb_first (kids_tree c cn) = Some (Inr (hd0 (map ct_at ks)))"
proof -
  obtain cn t where t: "cnodes c a = Some cn" "cn_hit cn = h" "children_hit cn = sum_list (map cumul_hit ks)"
    "holds_tree (kids_tree c cn) t" "addrs t = map ct_at ks"
    using assms by (auto simp: node_rep_def)
  then show ?thesis using rb_end_correct [OF t(4), of L] by (simp add: rb_first_def daddrs_def)
qed

lemma sort_flat_kids:
  assumes IH: "\<And>k c root as. k \<in> set ks \<Longrightarrow> chain_rep c a k \<Longrightarrow> out_tree CHAIN_FLAT c root as \<Longrightarrow>
      free_nodes c (set (nodes k)) as \<Longrightarrow>
      sorted_in CHAIN_FLAT (flat_nodes min_hit k) c as (sort_flat min_hit (ct_at k) None (root, c))"
    and d: "distinct (nodes (CT a v h n ks))"
  shows "chain_rep c par (CT a v h n ks) \<Longrightarrow> ks = us @ ys \<Longrightarrow> out_tree CHAIN_FLAT c root as \<Longrightarrow>
    free_nodes c (insert a (\<Union> (set (map (set \<circ> nodes) ys)))) as \<Longrightarrow>
    sorted_in CHAIN_FLAT (\<Union> (set (map (flat_nodes min_hit) ys)) \<union> (if h \<noteq> 0 \<and> min_hit \<le> h then {a} else {})) c as
      (sort_flat min_hit a (Some (hd0 (map ct_at ys))) (root, c))"
proof (induction ys arbitrary: us c root as)
  case Nil
  obtain cn where cn: "cnodes c a = Some cn" "cn_hit cn = h" using first_kid [OF Nil(1)] by blast
  have eq: "sort_flat min_hit a (Some 0) (root, c) =
      (if h \<noteq> 0 \<and> min_hit \<le> h then rb_insert_callchain a CHAIN_FLAT (root, c) else Some (Inr (root, c)))"
    using cn by (subst sort_flat.simps) (simp add: ld_cn_def)
  have "free_nodes c {a} as" using Nil(4) by (simp add: free_nodes_def)
  moreover have "hd0 (map ct_at []) = 0" by simp
  ultimately show ?case using eq sorted_in_insert [OF _ Nil(3), of a] sorted_in_same [OF Nil(3)] by simp
next
  case (Cons k ys)
  let ?X = "set (nodes k)" and ?Y = "insert a (\<Union> (set (map (set \<circ> nodes) ys)))"
  have k: "k \<in> set ks" "chain_rep c a k" using Cons.prems(1,2) by auto
  have eq: "sort_flat min_hit a (Some (hd0 (map ct_at (k # ys)))) (root, c) =
      obind (sort_flat min_hit (ct_at k) None (root, c)) (\<lambda>s. sort_flat min_hit a (Some (hd0 (map ct_at ys))) s)"
    using next_kid [of c par a v h n us k ys] Cons.prems(1,2) by (subst sort_flat.simps) simp
  have X: "free_nodes c ?X as" and Y: "free_nodes c ?Y as" using Cons.prems(4) by (auto simp: free_nodes_def)
  have XY: "?X \<inter> ?Y = {}" using d unfolding Cons.prems(2) by auto
  have "sorted_in CHAIN_FLAT (flat_nodes min_hit k \<union>
      (\<Union> (set (map (flat_nodes min_hit) ys)) \<union> (if h \<noteq> 0 \<and> min_hit \<le> h then {a} else {}))) c as
      (obind (sort_flat min_hit (ct_at k) None (root, c)) (\<lambda>s. sort_flat min_hit a (Some (hd0 (map ct_at ys))) s))"
  proof (rule sorted_in_then [OF IH [OF k Cons.prems(3) X] flat_nodes_sub XY Y])
    fix root' m as' assume "out_tree CHAIN_FLAT (c\<lparr>out_mem := m\<rparr>) root' as'" "free_nodes (c\<lparr>out_mem := m\<rparr>) ?Y as'"
    moreover have "chain_rep (c\<lparr>out_mem := m\<rparr>) par (CT a v h n ks)" unfolding chain_rep_out by (rule Cons.prems(1))
    moreover have "ks = (us @ [k]) @ ys" using Cons.prems(2) by simp
    ultimately show "sorted_in CHAIN_FLAT (\<Union> (set (map (flat_nodes min_hit) ys)) \<union> (if h \<noteq> 0 \<and> min_hit \<le> h then {a} else {}))
        (c\<lparr>out_mem := m\<rparr>) as' (sort_flat min_hit a (Some (hd0 (map ct_at ys))) (root', c\<lparr>out_mem := m\<rparr>))"
      by (intro Cons.IH)
  qed
  then show ?case unfolding eq by (simp add: Un_assoc)
qed

lemma sort_flat_ok:
  "chain_rep c par k \<Longrightarrow> distinct (nodes k) \<Longrightarrow> out_tree CHAIN_FLAT c root as \<Longrightarrow> free_nodes c (set (nodes k)) as \<Longrightarrow>
     sorted_in CHAIN_FLAT (flat_nodes min_hit k) c as (sort_flat min_hit (ct_at k) None (root, c))"
proof (induction k arbitrary: c par root as)
  case (CT a v h n ks)
  have eq: "sort_flat min_hit a None (root, c) = sort_flat min_hit a (Some (hd0 (map ct_at ks))) (root, c)"
    using first_kid [OF CT.prems(1)] by (subst sort_flat.simps) (auto simp: ld_cn_def)
  have kids: "sorted_in CHAIN_FLAT (flat_nodes min_hit k) c as (sort_flat min_hit (ct_at k) None (root, c))"
    if "k \<in> set ks" "chain_rep c a k" "out_tree CHAIN_FLAT c root as" "free_nodes c (set (nodes k)) as" for k c root as
    using CT.IH [OF that(1,2) _ that(3,4)] CT.prems(2) that(1) by (auto simp: distinct_concat_iff)
  have "free_nodes c (insert a (\<Union> (set (map (set \<circ> nodes) ks)))) as" using CT.prems(4) by (simp add: comp_def)
  then show ?case using sort_flat_kids [OF kids CT.prems(2,1) _ CT.prems(3)] unfolding ctree.sel eq
    by (simp add: Un_commute)
qed

text \<open>C7. On a stored tree of chains \<open>sort_chain_flat\<close> ends and leaves an output tree of exactly the chains with at least
  \<open>min_hit\<close> hits, and at least one, in the order of falling hits.\<close>

theorem sort_chain_flat_correct:
  assumes "holds_chains c (cr_node root) ks" "\<forall>k \<in> set ks. \<forall>a \<in> set (nodes k). out_mem c a \<noteq> None \<and> a \<noteq> 0 \<and> aligned a"
    and "cr_node root \<noteq> 0" "aligned (cr_node root)" "out_mem c (cr_node root) \<noteq> None"
  shows "\<exists>r m t. sort_chain_flat root min_hit c = Some (Inr (r, c\<lparr>out_mem := m\<rparr>)) \<and>
    holds_tree \<lparr>mem = m, rb_root = r\<rparr> t \<and> red_black t \<and> set (addrs t) = \<Union> (set (map (flat_nodes min_hit) ks)) \<and>
    sorted_wrt (\<lambda>a b. weight_at CHAIN_FLAT c b \<le> weight_at CHAIN_FLAT c a) (addrs t)"
proof -
  let ?k = "CT (cr_node root) [] 0 0 ks"
  have k: "chain_rep c 0 ?k" "distinct (nodes ?k)" using assms(1) unfolding holds_chains_def by blast+
  have mapped: "cnodes c a \<noteq> None" if "a \<in> set (nodes k)" "chain_rep c par k" for a k par
    using that
  proof (induction k arbitrary: par)
    case (CT a v h n ks)
    then show ?case by (auto simp: node_rep_def)
  qed
  have "free_nodes c (set (nodes ?k)) []"
    using assms(2-5) mapped [OF _ k(1)] unfolding free_nodes_def by auto
  moreover have "out_tree CHAIN_FLAT c 0 []" unfolding out_tree_def
    by (intro exI [of _ Lf]) (simp add: holds_tree_def valid_addrs_def red_black_def)
  ultimately have "sorted_in CHAIN_FLAT (flat_nodes min_hit ?k) c [] (sort_flat min_hit (ct_at ?k) None (0, c))"
    using sort_flat_ok [OF k] by blast
  then obtain r m as where s: "sort_chain_flat root min_hit c = Some (Inr (r, c\<lparr>out_mem := m\<rparr>))"
    "out_tree CHAIN_FLAT (c\<lparr>out_mem := m\<rparr>) r as" "set as = \<Union> (set (map (flat_nodes min_hit) ks))"
    unfolding sorted_in_def sort_chain_flat_def by auto
  moreover have "weight_at CHAIN_FLAT (c\<lparr>out_mem := m\<rparr>) = weight_at CHAIN_FLAT c" by (simp add: weight_at_def fun_eq_iff)
  ultimately show ?thesis unfolding out_tree_def by auto
qed

text \<open>Two chains, one an entry longer than the other, in a node and its child.\<close>

definition sample_chains :: chains where
  "sample_chains =
     (let e = (\<lambda>pc m. plain_entry (cursor_node_of pc m));
          top = zero_cnode\<lparr>rb_root_in := 32, children_hit := 8, children_count := 2\<rparr>;
          first = zero_cnode\<lparr>cn_parent := 16, cn_val := [e 1 2], val_nr := 1, cn_hit := 3, cn_count := 1,
            rb_root_in := 48, children_hit := 5, children_count := 1\<rparr>;
          second = zero_cnode\<lparr>cn_parent := 32, cn_val := [e 3 4], val_nr := 1, cn_hit := 5, cn_count := 1\<rparr>;
          black = mk_node 0 Black L 0 0 in
      \<lparr>cnodes = [16 \<mapsto> top, 32 \<mapsto> first, 48 \<mapsto> second], in_mem = [16 \<mapsto> zero_node, 32 \<mapsto> black, 48 \<mapsto> black],
       out_mem = [16 \<mapsto> zero_node, 32 \<mapsto> zero_node, 48 \<mapsto> zero_node],
       ch_alloc = \<lparr>num_allocs = 0, num_frees = 0, leaf_frees = 0, plan = []\<rparr>, ch_heap = [], deepest = 0\<rparr>)"

definition sample_kids :: "ctree list" where
  "sample_kids = [CT 32 [plain_entry (cursor_node_of 1 2)] 3 1 [CT 48 [plain_entry (cursor_node_of 3 4)] 5 1 []]]"

lemma one_black: "red_black (Nd Black Lf x Lf)"
  unfolding red_black_def by (intro conjI exI [of _ "Suc 0"]) simp_all

lemma sample_chains_hold: "holds_chains sample_chains 16 sample_kids"
proof -
  have leaf: "red_black Lf" by (simp add: red_black_def)
  have n3: "node_rep sample_chains 32 48 [plain_entry (cursor_node_of 3 4)] 5 1 []"
    unfolding node_rep_def using leaf
    by (intro exI [of _ "the (cnodes sample_chains 48)"] exI [of _ Lf])
      (simp add: sample_chains_def kids_tree_def holds_tree_def valid_addrs_def zero_cnode_def Let_def)
  have n2: "node_rep sample_chains 16 32 [plain_entry (cursor_node_of 1 2)] 3 1 [CT 48 [plain_entry (cursor_node_of 3 4)] 5 1 []]"
    unfolding node_rep_def using one_black
    by (intro exI [of _ "the (cnodes sample_chains 32)"] exI [of _ "Nd Black Lf 48 Lf"])
      (simp add: sample_chains_def kids_tree_def holds_tree_def valid_addrs_def aligned_def zero_cnode_def Let_def)
  have n1: "node_rep sample_chains 0 16 [] 0 0 sample_kids"
    unfolding node_rep_def using one_black
    by (intro exI [of _ "the (cnodes sample_chains 16)"] exI [of _ "Nd Black Lf 32 Lf"])
      (simp add: sample_chains_def sample_kids_def kids_tree_def holds_tree_def valid_addrs_def aligned_def zero_cnode_def Let_def)
  show ?thesis using n1 n2 n3
    by (simp add: holds_chains_def sample_kids_def kids_wf_def good_heap_def sample_chains_def Let_def)
qed

theorem sort_chain_flat_correct_witness:
  "\<exists>r m t. sort_chain_flat \<lparr>max_depth = 2, cr_node = 16\<rparr> 4 sample_chains = Some (Inr (r, sample_chains\<lparr>out_mem := m\<rparr>)) \<and>
    holds_tree \<lparr>mem = m, rb_root = r\<rparr> t \<and> red_black t \<and> set (addrs t) = {48} \<and>
    sorted_wrt (\<lambda>a b. weight_at CHAIN_FLAT sample_chains b \<le> weight_at CHAIN_FLAT sample_chains a) (addrs t)"
  using sort_chain_flat_correct [of sample_chains "\<lparr>max_depth = 2, cr_node = 16\<rparr>" sample_kids 4] sample_chains_hold
  by (simp add: sample_chains_def sample_kids_def aligned_def Let_def)

subsection \<open>Modes\<close>

lemma loop_stuck: "loop g s = Some r \<Longrightarrow> g s \<noteq> Inr (Again s)"
proof (induction g s r rule: loop.raw_induct [rotated, consumes 1, case_names Loop])
  case (Loop lp g s r)
  show ?case
  proof
    assume again: "g s = Inr (Again s)"
    then have "lp g s = Some r" using Loop(2) by simp
    then show False using Loop(1) again by blast
  qed
qed

text \<open>C40. \<open>callchain_register_param\<close> refuses exactly the mode with which \<open>rb_insert_callchain\<close>
  would not come back: without a mode the descent never leaves the root of a tree that has a
  node, with any other it ends.\<close>

theorem register_param_guards:
  assumes "out_tree (cp_mode p) c root as" "as \<noteq> []" "free_nodes c {a} as"
  shows "fst (callchain_register_param p) \<longleftrightarrow> rb_insert_callchain a (cp_mode p) (root, c) \<noteq> None"
proof (cases "cp_mode p = CHAIN_NONE")
  case True
  obtain cn where cn: "cnodes c a = Some cn" using assms(3) by (auto simp: free_nodes_def)
  obtain t where t: "holds_tree \<lparr>mem = out_mem c, rb_root = root\<rparr> t" "addrs t = as" "\<forall>a \<in> set as. cnodes c a \<noteq> None"
    using assms(1) by (auto simp: out_tree_def)
  have "t \<noteq> Lf" using t(2) assms(2) by auto
  then have "addr t \<in> set (addrs t)" by (rule addr_in)
  moreover have "addr t = root" using t(1) by (simp add: holds_tree_def)
  ultimately have root: "root \<noteq> 0" "cnodes c root \<noteq> None" using t by (auto simp: holds_tree_def valid_addrs_def)
  then obtain rn where "cnodes c root = Some rn" by auto
  then have "out_step CHAIN_NONE cn c root (Root_link, 0) = Inr (Again (Root_link, root))"
    "out_step CHAIN_NONE cn c root (Root_link, root) = Inr (Again (Root_link, root))"
    using root by (simp_all add: out_step_def ld_cn_def get_link_def)
  then have "loop (out_step CHAIN_NONE cn c root) (Root_link, 0) = None"
    using loop_stuck [of "out_step CHAIN_NONE cn c root" "(Root_link, root)"] loop_step(1)
    by (metis not_Some_eq)
  then show ?thesis using True cn by (simp add: callchain_register_param_def rb_insert_callchain_def ld_cn_def)
next
  case False
  then show ?thesis using rb_insert_callchain_ok [OF False assms(1,3)]
    by (cases "cp_mode p") (auto simp: callchain_register_param_def)
qed

definition one_out :: chains where
  "one_out = sample_chains\<lparr>out_mem := (out_mem sample_chains)(32 \<mapsto> mk_node 0 Black L 0 0)\<rparr>"

theorem register_param_guards_witness:
  "fst (callchain_register_param (callchain_param_default\<lparr>cp_mode := CHAIN_NONE\<rparr>)) \<longleftrightarrow>
     rb_insert_callchain 48 (cp_mode (callchain_param_default\<lparr>cp_mode := CHAIN_NONE\<rparr>)) (32, one_out) \<noteq> None"
proof (rule register_param_guards)
  show "out_tree (cp_mode (callchain_param_default\<lparr>cp_mode := CHAIN_NONE\<rparr>)) one_out 32 [32]"
    unfolding out_tree_def by (intro exI [of _ "Nd Black Lf 32 Lf"])
      (simp add: one_black, simp add: one_out_def sample_chains_def holds_tree_def valid_addrs_def aligned_def Let_def)
qed (simp_all add: free_nodes_def one_out_def sample_chains_def aligned_def Let_def)

end
