(* ===== verification/Chain_Graph.thy ===== *)
theory Chain_Graph
  imports Chain_Sort
begin

text \<open>
  \<open>sort_chain_graph_abs\<close> and \<open>sort_chain_graph_rel\<close> build at every node the output tree of those
  children whose subtrees have enough hits, heaviest first.
\<close>

subsection \<open>What a sort leaves\<close>

text \<open>The children of a node with at least \<open>least\<close> of the node's \<open>children_hit\<close> hits.\<close>

definition heavy :: "(u64 \<Rightarrow> u64) \<Rightarrow> ctree list \<Rightarrow> ctree list \<Rightarrow> u64 set" where
  "heavy least ks us = {ct_at k |k. k \<in> set us \<and> least (sum_list (map cumul_hit ks)) \<le> cumul_hit k}"

text \<open>The output tree of the node \<open>a\<close> is made of the nodes \<open>A\<close>.\<close>

definition out_at :: "chain_mode \<Rightarrow> chains \<Rightarrow> u64 \<Rightarrow> u64 set \<Rightarrow> bool" where
  "out_at mode c a A \<longleftrightarrow> (\<exists>cn as. cnodes c a = Some cn \<and> out_tree mode c (rb_root_out cn) as \<and> set as = A)"

fun graph_out :: "chain_mode \<Rightarrow> (u64 \<Rightarrow> u64) \<Rightarrow> chains \<Rightarrow> ctree \<Rightarrow> bool" where
  "graph_out mode least c (CT a v h n ks) \<longleftrightarrow> out_at mode c a (heavy least ks ks) \<and> (\<forall>k \<in> set ks. graph_out mode least c k)"

text \<open>The nodes without what a sort writes, and the frame of a sort: it writes the roots of output
  trees in \<open>S\<close> and the links of the nodes \<open>B\<close>.\<close>

definition no_out :: "chains \<Rightarrow> u64 \<Rightarrow> callchain_node option" where
  "no_out c x = map_option (\<lambda>n. n\<lparr>rb_root_out := 0\<rparr>) (cnodes c x)"

definition resorted :: "u64 set \<Rightarrow> u64 set \<Rightarrow> chains \<Rightarrow> chains \<Rightarrow> bool" where
  "resorted S B c c' \<longleftrightarrow> no_out c' = no_out c \<and> in_mem c' = in_mem c \<and> ch_heap c' = ch_heap c \<and> ch_alloc c' = ch_alloc c \<and>
     (\<forall>x. x \<notin> S \<longrightarrow> cnodes c' x = cnodes c x) \<and> (\<forall>x. x \<notin> B \<longrightarrow> out_mem c' x = out_mem c x) \<and>
     (\<forall>x. out_mem c x \<noteq> None \<longrightarrow> out_mem c' x \<noteq> None)"

lemma resorted_refl [simp]: "resorted S B c c"
  by (simp add: resorted_def)

lemma resorted_trans: "resorted S B c c1 \<Longrightarrow> resorted T D c1 c2 \<Longrightarrow> resorted (S \<union> T) (B \<union> D) c c2"
  unfolding resorted_def by auto

lemma resorted_mono: "resorted S B c c' \<Longrightarrow> S \<subseteq> T \<Longrightarrow> B \<subseteq> D \<Longrightarrow> resorted T D c c'"
  unfolding resorted_def by blast

lemma no_out_Some:
  assumes "no_out c' = no_out c" "cnodes c a = Some n"
  obtains r where "cnodes c' a = Some (n\<lparr>rb_root_out := r\<rparr>)"
proof -
  have "no_out c' a = Some (n\<lparr>rb_root_out := 0\<rparr>)" using assms by (simp add: no_out_def)
  then obtain m where m: "cnodes c' a = Some m" "m\<lparr>rb_root_out := 0\<rparr> = n\<lparr>rb_root_out := 0\<rparr>" by (auto simp: no_out_def)
  have "m = (m\<lparr>rb_root_out := 0\<rparr>)\<lparr>rb_root_out := rb_root_out m\<rparr>" by simp
  then have "m = n\<lparr>rb_root_out := rb_root_out m\<rparr>" unfolding m(2) by simp
  then show ?thesis using that m(1) by metis
qed

lemma node_rep_no_out:
  assumes "no_out c' = no_out c" "in_mem c' = in_mem c" "node_rep c par a v h n ks"
  shows "node_rep c' par a v h n ks"
proof -
  obtain cn t where t: "cnodes c a = Some cn" "cn_parent cn = par" "cn_val cn = v" "val_nr cn = of_nat (length v)"
    "cn_hit cn = h" "cn_count cn = n" "children_hit cn = sum_list (map cumul_hit ks)"
    "children_count cn = sum_list (map cumul_count ks)" "holds_tree (kids_tree c cn) t" "red_black t" "addrs t = map ct_at ks"
    using assms(3) by (auto simp: node_rep_def)
  obtain r where "cnodes c' a = Some (cn\<lparr>rb_root_out := r\<rparr>)" using no_out_Some [OF assms(1) t(1)] .
  moreover have "kids_tree c' (cn\<lparr>rb_root_out := r\<rparr>) = kids_tree c cn" using assms(2) by (simp add: kids_tree_def)
  ultimately show ?thesis unfolding node_rep_def using t by (intro exI [of _ "cn\<lparr>rb_root_out := r\<rparr>"] exI [of _ t]) simp
qed

lemma chain_rep_resorted:
  "resorted S B c c' \<Longrightarrow> chain_rep c par k \<Longrightarrow> chain_rep c' par k"
proof (induction k arbitrary: par)
  case (CT a v h n ks)
  then show ?case using node_rep_no_out [of c' c par a v h n ks] by (auto simp: resorted_def)
qed

lemma weight_resorted: "no_out c' = no_out c \<Longrightarrow> weight_at mode c' = weight_at mode c"
proof (rule ext)
  fix a assume no: "no_out c' = no_out c"
  show "weight_at mode c' a = weight_at mode c a"
  proof (cases "cnodes c a")
    case None
    then have "no_out c' a = None" unfolding no by (simp add: no_out_def)
    then show ?thesis using None by (simp add: no_out_def weight_at_def)
  next
    case (Some n)
    obtain r where "cnodes c' a = Some (n\<lparr>rb_root_out := r\<rparr>)" using no_out_Some [OF no Some] .
    then show ?thesis using Some by (simp add: weight_at_def weight_def callchain_cumul_hits_def)
  qed
qed

lemma out_tree_resorted:
  assumes "resorted S B c c'" "out_tree mode c root as" "set as \<inter> B = {}"
  shows "out_tree mode c' root as"
proof -
  have no: "no_out c' = no_out c" using assms(1) by (simp add: resorted_def)
  obtain t where t: "holds_tree \<lparr>mem = out_mem c, rb_root = root\<rparr> t" "red_black t" "addrs t = as" "\<forall>a \<in> set as. cnodes c a \<noteq> None"
     "sorted_wrt (\<lambda>a b. weight_at mode c b \<le> weight_at mode c a) as" using assms(2) by (auto simp: out_tree_def)
  have "\<forall>a \<in> set as. out_mem c' a = out_mem c a" using assms(1,3) unfolding resorted_def by blast
  then have "holds_tree \<lparr>mem = out_mem c', rb_root = root\<rparr> t = holds_tree \<lparr>mem = out_mem c, rb_root = root\<rparr> t"
    using t(3) by (intro holds_tree_cong) simp_all
  moreover have "cnodes c' a \<noteq> None" if a: "a \<in> set as" for a
  proof -
    obtain n where n: "cnodes c a = Some n" using t(4) a by auto
    obtain r where "cnodes c' a = Some (n\<lparr>rb_root_out := r\<rparr>)" using no_out_Some [OF no n] .
    then show ?thesis by simp
  qed
  ultimately show ?thesis unfolding out_tree_def weight_resorted [OF no] using t by blast
qed

lemma out_at_resorted:
  assumes "resorted S B c c'" "out_at mode c a A" "A \<inter> B = {}" "a \<notin> S"
  shows "out_at mode c' a A"
proof -
  have "cnodes c' a = cnodes c a" using assms(1,4) by (simp add: resorted_def)
  then show ?thesis using assms(2,3) out_tree_resorted [OF assms(1)] unfolding out_at_def by metis
qed


lemma heavy_sub: "heavy least ks us \<subseteq> ct_at ` set us"
  by (auto simp: heavy_def)

lemma nodes_in_below: "k \<in> set ks \<Longrightarrow> x \<in> set (nodes k) \<Longrightarrow> x \<in> below (CT a v h n ks)"
  by (auto simp: below_def)

lemma graph_out_resorted:
  assumes "resorted S B c c'"
  shows "graph_out mode least c k \<Longrightarrow> set (nodes k) \<inter> S = {} \<Longrightarrow> below k \<inter> B = {} \<Longrightarrow> graph_out mode least c' k"
proof (induction k)
  case (CT a v h n ks)
  have "ct_at ` set ks \<subseteq> below (CT a v h n ks)" by (rule image_subsetI) (rule nodes_in_below [OF _ ct_at_nodes])
  then have "heavy least ks ks \<inter> B = {}" using CT.prems(3) heavy_sub [of least ks ks] by blast
  then have "out_at mode c' a (heavy least ks ks)"
    using CT.prems(1,2) by (intro out_at_resorted [OF assms]) auto
  moreover have "graph_out mode least c' k" if k: "k \<in> set ks" for k
  proof (rule CT.IH [OF k])
    show "graph_out mode least c k" using CT.prems(1) k by simp
    show "set (nodes k) \<inter> S = {}" using CT.prems(2) k by auto
    have "below k \<subseteq> below (CT a v h n ks)"
      by (rule subsetI) (rule nodes_in_below [OF k], simp add: nodes_below)
    then show "below k \<inter> B = {}" using CT.prems(3) by blast
  qed
  ultimately show ?case by simp
qed

subsection \<open>One child\<close>

lemma resorted_out: 
  assumes "cnodes c a = Some cn" "\<And>x. x \<notin> B \<Longrightarrow> m x = out_mem c x" "\<And>x. out_mem c x \<noteq> None \<Longrightarrow> m x \<noteq> None"
  shows "resorted {a} B c (c\<lparr>out_mem := m, cnodes := (cnodes c)(a \<mapsto> cn\<lparr>rb_root_out := r\<rparr>)\<rparr>)"
  using assms by (auto simp: resorted_def no_out_def fun_eq_iff)

text \<open>A node goes into the output tree of its parent.\<close>

lemma insert_out_ok:
  assumes mode: "mode \<noteq> CHAIN_NONE" and a: "out_at mode c a A"
    and k: "k \<noteq> 0" "aligned k" "k \<notin> A" "cnodes c k \<noteq> None" "out_mem c k \<noteq> None"
  shows "\<exists>c'. insert_out a k mode c = Some (Inr c') \<and> resorted {a} (insert k A) c c' \<and> out_at mode c' a (insert k A)"
proof -
  obtain cn as where cn: "cnodes c a = Some cn" "out_tree mode c (rb_root_out cn) as" "set as = A"
    using a by (auto simp: out_at_def)
  have "free_nodes c {k} as" using k cn(3) by (simp add: free_nodes_def)
  then obtain root' m as' where r: "rb_insert_callchain k mode (rb_root_out cn, c) = Some (Inr (root', c\<lparr>out_mem := m\<rparr>))"
    "out_tree mode (c\<lparr>out_mem := m\<rparr>) root' as'" "set as' = insert k A"
    "\<And>x. x \<notin> set as' \<Longrightarrow> m x = out_mem c x" "\<And>x. out_mem c x \<noteq> None \<Longrightarrow> m x \<noteq> None"
    using rb_insert_callchain_ok [OF mode cn(2), of k] cn(3) by blast
  let ?c = "c\<lparr>out_mem := m, cnodes := (cnodes c)(a \<mapsto> cn\<lparr>rb_root_out := root'\<rparr>)\<rparr>"
  have i: "insert_out a k mode c = Some (Inr ?c)"
    using cn(1) r(1) by (simp add: insert_out_def ld_cn_def upd_cn_def)
  have rs: "resorted {a} (insert k A) c ?c" by (rule resorted_out [OF cn(1)]) (use r(3-5) in auto)
  have "resorted {a} {} (c\<lparr>out_mem := m\<rparr>) ?c"
    using resorted_out [of "c\<lparr>out_mem := m\<rparr>" a cn "{}" m root'] cn(1) by simp
  then have "out_tree mode ?c root' as'" using out_tree_resorted r(2) by blast
  then have "out_at mode ?c a (insert k A)" using r(3) unfolding out_at_def by auto
  then show ?thesis using i rs by blast
qed

lemma cumul_rep: "chain_rep c par k \<Longrightarrow> \<exists>cn. ld_cn c (ct_at k) = Inr cn \<and> callchain_cumul_hits cn = cumul_hit k"
  by (cases k) (auto simp: node_rep_def ld_cn_def callchain_cumul_hits_def)

subsection \<open>The loop over the children\<close>

definition placed_at :: "chains \<Rightarrow> u64 set \<Rightarrow> bool" where
  "placed_at c A \<longleftrightarrow> (\<forall>x \<in> A. x \<noteq> 0 \<and> aligned x \<and> out_mem c x \<noteq> None)"

lemma placed_resorted: "placed_at c A \<Longrightarrow> resorted S B c c' \<Longrightarrow> placed_at c' A"
  by (auto simp: placed_at_def resorted_def)

definition sorts :: "chain_mode \<Rightarrow> (u64 \<Rightarrow> u64) \<Rightarrow> ctree \<Rightarrow> bool" where
  "sorts mode least k \<longleftrightarrow> (\<forall>c par. chain_rep c par k \<longrightarrow> placed_at c (below k) \<longrightarrow>
     (\<exists>c'. sort_graph mode least (ct_at k) None c = Some (Inr c') \<and> resorted (set (nodes k)) (below k) c c' \<and>
        graph_out mode least c' k))"

lemma graph_out_kids:
  assumes d: "distinct (nodes (CT a v h n ks))" and us: "set us \<subseteq> set ks"
    and r: "resorted {a} (ct_at ` set ks) c c'" and g: "\<forall>u \<in> set us. graph_out mode least c u"
  shows "\<forall>u \<in> set us. graph_out mode least c' u"
proof
  fix u assume u: "u \<in> set us"
  show "graph_out mode least c' u"
  proof (rule graph_out_resorted [OF r])
    show "graph_out mode least c u" using g u by blast
    show "set (nodes u) \<inter> {a} = {}" using kid_not_at [OF d, of u] u us by auto
    have "x \<noteq> ct_at l" if "x \<in> below u" "l \<in> set ks" for x l
      using below_kid [OF d _ that(2,1)] u us by blast
    then show "below u \<inter> ct_at ` set ks = {}" by blast
  qed
qed

lemma child_sorted:
  assumes mode: "mode \<noteq> CHAIN_NONE" and d: "distinct (nodes (CT a v h n ks))" and ks: "ks = us @ y # ys"
    and y: "sorts mode least y" and rep: "chain_rep c par (CT a v h n ks)" and pl: "placed_at c (below (CT a v h n ks))"
    and out: "out_at mode c a (heavy least ks us)" and g: "\<forall>u \<in> set us. graph_out mode least c u"
  obtains c1 cn c2 where "sort_graph mode least (ct_at y) None c = Some (Inr c1)" "ld_cn c1 (ct_at y) = Inr cn"
    "(if least (sum_list (map cumul_hit ks)) \<le> callchain_cumul_hits cn then insert_out a (ct_at y) mode c1 else Some (Inr c1)) =
       Some (Inr c2)"
    "resorted (insert a (set (nodes y))) (below (CT a v h n ks)) c c2" "out_at mode c2 a (heavy least ks (us @ [y]))"
    "\<forall>u \<in> set (us @ [y]). graph_out mode least c2 u"
proof -
  let ?k = "CT a v h n ks"
  have yk: "y \<in> set ks" "set us \<subseteq> set ks" using ks by auto
  have repy: "chain_rep c a y" using rep yk(1) by simp
  have sub: "below y \<subseteq> below ?k" by (rule subsetI) (rule nodes_in_below [OF yk(1)], simp add: nodes_below)
  have ats: "ct_at ` set ks \<subseteq> below ?k" by (rule image_subsetI) (rule nodes_in_below [OF _ ct_at_nodes])
  have "placed_at c (below y)" using pl sub unfolding placed_at_def by blast
  then obtain c1 where c1: "sort_graph mode least (ct_at y) None c = Some (Inr c1)" "resorted (set (nodes y)) (below y) c c1"
      "graph_out mode least c1 y"
    using y repy unfolding sorts_def by blast
  have other: "set (nodes u) \<inter> set (nodes y) = {}" if "u \<in> set us" for u
    using kid_other [of a v h n us y ys u] d that unfolding ks by blast
  have no_at: "x \<noteq> ct_at l" if "x \<in> below y" "l \<in> set ks" for x l
    using below_kid [OF d yk(1) that(2,1)] .
  have "heavy least ks us \<inter> below y = {}" using heavy_sub [of least ks us] no_at yk(2) by blast
  then have out1: "out_at mode c1 a (heavy least ks us)"
    using kid_not_at [OF d yk(1)] by (intro out_at_resorted [OF c1(2) out]) auto
  have g1: "\<forall>u \<in> set (us @ [y]). graph_out mode least c1 u"
  proof
    fix u assume "u \<in> set (us @ [y])"
    then consider "u = y" | "u \<in> set us" by auto
    then show "graph_out mode least c1 u"
    proof cases
      case 2
      have "below u \<inter> below y = {}" using other [OF 2] nodes_below [of u] nodes_below [of y] by blast
      then show ?thesis using graph_out_resorted [OF c1(2) _ other [OF 2]] g 2 by blast
    qed (use c1(3) in simp)
  qed
  obtain cn where cn: "ld_cn c1 (ct_at y) = Inr cn" "callchain_cumul_hits cn = cumul_hit y"
    using cumul_rep [OF chain_rep_resorted [OF c1(2) repy]] by blast
  obtain c2 where c2: "(if least (sum_list (map cumul_hit ks)) \<le> callchain_cumul_hits cn then insert_out a (ct_at y) mode c1
      else Some (Inr c1)) = Some (Inr c2)" "resorted {a} (ct_at ` set ks) c1 c2" "out_at mode c2 a (heavy least ks (us @ [y]))"
  proof (cases "least (sum_list (map cumul_hit ks)) \<le> cumul_hit y")
    case True
    have "ct_at y \<in> below ?k" using ats yk(1) by blast
    then have p: "ct_at y \<noteq> 0" "aligned (ct_at y)" "out_mem c1 (ct_at y) \<noteq> None"
      using placed_resorted [OF pl c1(2)] by (simp_all add: placed_at_def)
    have "ct_at y \<noteq> ct_at u" if "u \<in> set us" for u
      using other [OF that] ct_at_nodes [of y] ct_at_nodes [of u] by (metis disjoint_iff)
    then have "ct_at y \<notin> heavy least ks us" using heavy_sub [of least ks us] by blast
    moreover have "cnodes c1 (ct_at y) \<noteq> None" using cn(1) by (auto simp: ld_cn_def)
    ultimately obtain c2 where i: "insert_out a (ct_at y) mode c1 = Some (Inr c2)"
      "resorted {a} (insert (ct_at y) (heavy least ks us)) c1 c2" "out_at mode c2 a (insert (ct_at y) (heavy least ks us))"
      using insert_out_ok [OF mode out1 p(1,2) _ _ p(3)] by blast
    have "insert (ct_at y) (heavy least ks us) = heavy least ks (us @ [y])" using True by (auto simp: heavy_def)
    moreover have "resorted {a} (ct_at ` set ks) c1 c2"
      by (rule resorted_mono [OF i(2)]) (use heavy_sub [of least ks us] yk in blast)+
    ultimately show ?thesis using that i True cn(2) by simp
  next
    case False
    then have "heavy least ks (us @ [y]) = heavy least ks us" by (auto simp: heavy_def)
    then show ?thesis using that [of c1] False cn(2) out1 by simp
  qed
  have "resorted (insert a (set (nodes y))) (below ?k) c c2"
    by (rule resorted_mono [OF resorted_trans [OF c1(2) c2(2)]]) (use sub ats in auto)
  moreover have "\<forall>u \<in> set (us @ [y]). graph_out mode least c2 u"
    using graph_out_kids [OF d _ c2(2) g1] yk by simp
  ultimately show ?thesis using that c1(1) cn(1) c2(1,3) by blast
qed

lemma sort_graph_kids:
  assumes mode: "mode \<noteq> CHAIN_NONE" and d: "distinct (nodes (CT a v h n ks))" and IH: "\<forall>k \<in> set ks. sorts mode least k"
  shows "ks = us @ ys \<Longrightarrow> chain_rep c par (CT a v h n ks) \<Longrightarrow> placed_at c (below (CT a v h n ks)) \<Longrightarrow>
    out_at mode c a (heavy least ks us) \<Longrightarrow> \<forall>u \<in> set us. graph_out mode least c u \<Longrightarrow>
    \<exists>c'. sort_graph mode least a (Some (hd0 (map ct_at ys), least (sum_list (map cumul_hit ks)))) c = Some (Inr c') \<and>
      resorted (set (nodes (CT a v h n ks))) (below (CT a v h n ks)) c c' \<and> out_at mode c' a (heavy least ks ks) \<and>
      (\<forall>u \<in> set ks. graph_out mode least c' u)"
proof (induction ys arbitrary: us c)
  case Nil
  have "sort_graph mode least a (Some (0, least (sum_list (map cumul_hit ks)))) c = Some (Inr c)"
    by (subst sort_graph.simps) simp
  then show ?case using Nil by auto
next
  case (Cons y ys)
  let ?k = "CT a v h n ks"
  have "sorts mode least y" using IH Cons.prems(1) by simp
  from child_sorted [OF mode d Cons.prems(1) this Cons.prems(2-5)] obtain c1 cn c2 where
    s: "sort_graph mode least (ct_at y) None c = Some (Inr c1)" "ld_cn c1 (ct_at y) = Inr cn"
    "(if least (sum_list (map cumul_hit ks)) \<le> callchain_cumul_hits cn then insert_out a (ct_at y) mode c1 else Some (Inr c1)) =
       Some (Inr c2)"
    "resorted (insert a (set (nodes y))) (below ?k) c c2" "out_at mode c2 a (heavy least ks (us @ [y]))"
    "\<forall>u \<in> set (us @ [y]). graph_out mode least c2 u" .
  have r: "resorted (set (nodes ?k)) (below ?k) c c2"
    by (rule resorted_mono [OF s(4)]) (use Cons.prems(1) in auto)
  have "ks = (us @ [y]) @ ys" using Cons.prems(1) by simp
  from Cons.IH [OF this chain_rep_resorted [OF r Cons.prems(2)] placed_resorted [OF Cons.prems(3) r] s(5,6)]
  obtain c' where c': "sort_graph mode least a (Some (hd0 (map ct_at ys), least (sum_list (map cumul_hit ks)))) c2 = Some (Inr c')"
      "resorted (set (nodes ?k)) (below ?k) c2 c'" "out_at mode c' a (heavy least ks ks)" "\<forall>u \<in> set ks. graph_out mode least c' u"
    by blast
  have "sort_graph mode least a (Some (hd0 (map ct_at (y # ys)), least (sum_list (map cumul_hit ks)))) c = Some (Inr c')"
    using next_kid [OF Cons.prems(2) [unfolded Cons.prems(1)]] s(1-3) c'(1)
    by (cases "least (sum_list (map cumul_hit ks)) \<le> callchain_cumul_hits cn"; subst sort_graph.simps) simp_all
  then show ?case using resorted_trans [OF r c'(2)] c'(3,4) by auto
qed

lemma sorts_all: "mode \<noteq> CHAIN_NONE \<Longrightarrow> distinct (nodes k) \<Longrightarrow> sorts mode least k"
proof (induction k)
  case (CT a v h n ks)
  let ?k = "CT a v h n ks"
  have kids: "\<forall>k \<in> set ks. sorts mode least k"
    using CT.IH CT.prems by (auto simp: distinct_concat_iff)
  show ?case unfolding sorts_def
  proof (intro allI impI)
    fix c par assume rep: "chain_rep c par ?k" and pl: "placed_at c (below ?k)"
    obtain cn where cn: "cnodes c a = Some cn" "children_hit cn = sum_list (map cumul_hit ks)"
        "rb_first (kids_tree c cn) = Some (Inr (hd0 (map ct_at ks)))"
      using first_kid [OF rep] by blast
    define c1 where "c1 = c\<lparr>cnodes := (cnodes c)(a \<mapsto> cn\<lparr>rb_root_out := 0\<rparr>)\<rparr>"
    have r1: "resorted (set (nodes ?k)) (below ?k) c c1"
      using resorted_out [OF cn(1), of "{}" "out_mem c" 0] by (auto simp: c1_def intro: resorted_mono)
    have kt: "kids_tree c1 (cn\<lparr>rb_root_out := 0\<rparr>) = kids_tree c cn" by (simp add: c1_def kids_tree_def)
    have "out_tree mode c1 0 []" unfolding out_tree_def
      by (intro exI [of _ Lf]) (simp add: holds_tree_def valid_addrs_def red_black_def)
    then have "out_at mode c1 a (heavy least ks [])"
      unfolding out_at_def by (intro exI [of _ "cn\<lparr>rb_root_out := 0\<rparr>"] exI [of _ "[]"]) (simp add: c1_def heavy_def)
    from sort_graph_kids [OF CT.prems kids _ chain_rep_resorted [OF r1 rep] placed_resorted [OF pl r1] this]
    obtain c' where c': "sort_graph mode least a (Some (hd0 (map ct_at ks), least (sum_list (map cumul_hit ks)))) c1 = Some (Inr c')"
        "resorted (set (nodes ?k)) (below ?k) c1 c'" "out_at mode c' a (heavy least ks ks)" "\<forall>u \<in> set ks. graph_out mode least c' u"
      by auto
    have "sort_graph mode least a None c = Some (Inr c')"
      using cn c'(1) kt by (subst sort_graph.simps) (simp add: upd_cn_def ld_cn_def c1_def)
    then show "\<exists>c'. sort_graph mode least (ct_at ?k) None c = Some (Inr c') \<and> resorted (set (nodes ?k)) (below ?k) c c' \<and>
        graph_out mode least c' ?k"
      using resorted_trans [OF r1 c'(2)] c'(3,4) by auto
  qed
qed

subsection \<open>Properties\<close>

text \<open>C8. Both graph sorts end. Every node then has an output tree, a red-black tree of exactly the
  children whose subtrees have enough hits, heaviest first; the result is the tree of the root;
  and nothing but the output trees is written.\<close>

theorem sort_chain_graph_correct:
  assumes c: "holds_chains c (cr_node root) ks" and pl: "placed_at c (\<Union> (set (map (set \<circ> nodes) ks)))"
  shows "(\<exists>r c' cn. sort_chain_graph_abs root min_hit c = Some (Inr (r, c')) \<and>
      graph_out CHAIN_GRAPH_ABS (\<lambda>_. min_hit) c' (CT (cr_node root) [] 0 0 ks) \<and>
      cnodes c' (cr_node root) = Some cn \<and> rb_root_out cn = r \<and> no_out c' = no_out c \<and> in_mem c' = in_mem c) \<and>
    (\<exists>r c' cn. sort_chain_graph_rel share root c = Some (Inr (r, c')) \<and>
      graph_out CHAIN_GRAPH_REL share c' (CT (cr_node root) [] 0 0 ks) \<and>
      cnodes c' (cr_node root) = Some cn \<and> rb_root_out cn = r \<and> no_out c' = no_out c \<and> in_mem c' = in_mem c)"
proof -
  let ?k = "CT (cr_node root) [] 0 0 ks"
  have k: "chain_rep c 0 ?k" "distinct (nodes ?k)" using c unfolding holds_chains_def by blast+
  have "placed_at c (below ?k)" using pl by (simp add: below_def comp_def)
  then have all: "\<exists>c' cn. sort_graph mode least (cr_node root) None c = Some (Inr c') \<and> graph_out mode least c' ?k \<and>
      cnodes c' (cr_node root) = Some cn \<and> no_out c' = no_out c \<and> in_mem c' = in_mem c" if "mode \<noteq> CHAIN_NONE" for mode least
    using sorts_all [OF that k(2), of least] k(1) unfolding sorts_def resorted_def by (fastforce simp: out_at_def)
  show ?thesis
    using all [of CHAIN_GRAPH_ABS "\<lambda>_. min_hit"] all [of CHAIN_GRAPH_REL share]
    by (auto simp: sort_chain_graph_abs_def sort_chain_graph_rel_def ld_cn_def simp del: graph_out.simps)
qed

theorem sort_chain_graph_correct_witness:
  "(\<exists>r c' cn. sort_chain_graph_abs \<lparr>max_depth = 2, cr_node = 16\<rparr> 4 sample_chains = Some (Inr (r, c')) \<and>
      graph_out CHAIN_GRAPH_ABS (\<lambda>_. 4) c' (CT 16 [] 0 0 sample_kids) \<and>
      cnodes c' 16 = Some cn \<and> rb_root_out cn = r \<and> no_out c' = no_out sample_chains \<and> in_mem c' = in_mem sample_chains) \<and>
    (\<exists>r c' cn. sort_chain_graph_rel (\<lambda>h. h div 2) \<lparr>max_depth = 2, cr_node = 16\<rparr> sample_chains = Some (Inr (r, c')) \<and>
      graph_out CHAIN_GRAPH_REL (\<lambda>h. h div 2) c' (CT 16 [] 0 0 sample_kids) \<and>
      cnodes c' 16 = Some cn \<and> rb_root_out cn = r \<and> no_out c' = no_out sample_chains \<and> in_mem c' = in_mem sample_chains)"
proof -
  have "placed_at sample_chains (\<Union> (set (map (set \<circ> nodes) sample_kids)))"
    by (simp add: placed_at_def sample_kids_def sample_chains_def aligned_def Let_def)
  then show ?thesis
    using sort_chain_graph_correct [of sample_chains "\<lparr>max_depth = 2, cr_node = 16\<rparr>" sample_kids 4 "\<lambda>h. h div 2"]
      sample_chains_hold by (simp del: graph_out.simps)
qed

end
