(* ===== verification/Main_Correct.thy ===== *)
theory Main_Correct
  imports Main_Loop
begin

text \<open>
  The main loop against its abstract view: a map from record ids to backend trees. The
  interface \<open>callstack_backend\<close> is what the loop needs of a backend; inside it the whole run
  is computed.
\<close>

subsection \<open>The trees as a map\<close>

definition id_at :: "'t trees \<Rightarrow> u64 \<Rightarrow> u64" where
  "id_at ts a = (case tree_at ts a of None \<Rightarrow> 0 | Some r \<Rightarrow> tr_id r)"

definition trees_hold :: "'t trees \<Rightarrow> ptree \<Rightarrow> (u64 \<Rightarrow> 't option) \<Rightarrow> bool" where
  "trees_hold ts t M \<longleftrightarrow> keyed (entries ts) t (id_at ts) \<and>
     (\<forall>a \<in> set (addrs t). \<exists>r. tree_at ts a = Some r \<and> M (tr_id r) = Some (cs_tree r)) \<and>
     dom M = id_at ts ` set (addrs t)"

lemma trees_hold_init: "trees_hold \<lparr>entries = RB_ROOT_CACHED, tree_at = (\<lambda>_. None)\<rparr> Lf (\<lambda>_. None)"
  by (simp add: trees_hold_def keyed_empty)

lemma held_at: "trees_hold ts t M \<Longrightarrow> a \<in> set (addrs t) \<Longrightarrow>
    \<exists>x. tree_at ts a = Some \<lparr>tr_id = id_at ts a, cs_tree = x\<rparr> \<and> M (id_at ts a) = Some x"
  by (auto simp: trees_hold_def id_at_def)

lemma tree_locate:
  assumes "trees_hold ts t M"
  shows "if k \<in> dom M
    then \<exists>p \<in> set (addrs t). id_at ts p = k \<and>
      loop (locate_step (tree_cmp ts k) (tree_of (entries ts))) (Root_link, 0, True) = Some (Inr (Inr p))
    else \<exists>l. loop (locate_step (tree_cmp ts k) (tree_of (entries ts))) (Root_link, 0, True) = Some (Inr (Inl l)) \<and>
      (\<forall>n. n \<noteq> 0 \<and> aligned n \<and> n \<notin> set (addrs t) \<longrightarrow>
        (\<exists>c' t'. hang n l (entries ts) = Some (Inr c') \<and> keyed c' t' ((id_at ts)(n := k)) \<and>
          set (addrs t') = insert n (set (addrs t))))"
proof -
  have "tree_cmp ts k a = Inr (if id_at ts a < k then - 1 else if k < id_at ts a then 1 else 0)"
    if a: "a \<in> set (addrs t)" for a
  proof -
    obtain x where "tree_at ts a = Some \<lparr>tr_id = id_at ts a, cs_tree = x\<rparr>" using held_at [OF assms a] by blast
    then show ?thesis by (simp add: tree_cmp_def)
  qed
  moreover have t: "keyed (entries ts) t (id_at ts)" and d: "dom M = id_at ts ` set (addrs t)"
    using assms by (simp_all add: trees_hold_def)
  ultimately show ?thesis unfolding d
    by (intro keyed_locate [OF t, where f = "\<lambda>a. if id_at ts a < k then - 1 else if k < id_at ts a then 1 else 0"]) auto
qed

lemma get_tree_old:
  assumes "trees_hold ts t M" "M k = Some x"
  shows "\<exists>p \<in> set (addrs t). get_tree ops k (ts, g, h) = Some (Inr (p, ts, g, h)) \<and>
    tree_at ts p = Some \<lparr>tr_id = k, cs_tree = x\<rparr>"
proof -
  obtain p where p: "p \<in> set (addrs t)" "id_at ts p = k"
      "loop (locate_step (tree_cmp ts k) (tree_of (entries ts))) (Root_link, 0, True) = Some (Inr (Inr p))"
    using tree_locate [OF assms(1), of k] assms(2) by (auto split: if_splits)
  then show ?thesis using held_at [OF assms(1) p(1)] assms(2) by (intro bexI [of _ p]) (auto simp: get_tree_def)
qed

lemma get_tree_fresh:
  assumes h: "trees_hold ts t M" and k: "M k = None" and new: "op_new ops g = Some (Inr (x, g'))"
    and good: "good_heap (a # h) (set (addrs t))"
  shows "\<exists>ts' t'. get_tree ops k (ts, g, a # h) = Some (Inr (a, ts', g', h)) \<and>
    trees_hold ts' t' (M(k \<mapsto> x)) \<and> a \<in> set (addrs t') \<and> tree_at ts' a = Some \<lparr>tr_id = k, cs_tree = x\<rparr> \<and>
    good_heap h (set (addrs t'))"
proof -
  have a: "a \<noteq> 0" "aligned a" "a \<notin> set (addrs t)" using good by (auto simp: good_heap_def)
  obtain l c' t' where l: "loop (locate_step (tree_cmp ts k) (tree_of (entries ts))) (Root_link, 0, True) = Some (Inr (Inl l))"
      "hang a l (entries ts) = Some (Inr c')" "keyed c' t' ((id_at ts)(a := k))"
      and part: "set (addrs t') = insert a (set (addrs t))"
    using tree_locate [OF h, of k] k a by (auto simp: domIff)
  let ?ts = "\<lparr>entries = c', tree_at = (tree_at ts)(a \<mapsto> \<lparr>tr_id = k, cs_tree = x\<rparr>)\<rparr>"
  have ids: "id_at ?ts = (id_at ts)(a := k)" by (auto simp: id_at_def)
  have "dom (M(k \<mapsto> x)) = id_at ?ts ` set (addrs t')"
    using h a(3) by (auto simp: part ids trees_hold_def)
  moreover have "\<exists>r. tree_at ?ts b = Some r \<and> (M(k \<mapsto> x)) (tr_id r) = Some (cs_tree r)" if "b \<in> set (addrs t')" for b
  proof (cases "b = a")
    case False
    then have "b \<in> set (addrs t)" using that part by simp
    then obtain r where "tree_at ts b = Some r" "M (tr_id r) = Some (cs_tree r)" using h by (auto simp: trees_hold_def)
    then show ?thesis using False k by auto
  qed simp
  ultimately have "trees_hold ?ts t' (M(k \<mapsto> x))" using l(3) unfolding trees_hold_def ids by simp
  moreover have "good_heap h (set (addrs t'))" using good part by (auto simp: good_heap_def)
  moreover have "get_tree ops k (ts, g, a # h) = Some (Inr (a, ?ts, g', h))"
    using l(1,2) new a(1) by (simp add: get_tree_def calloc_or_die_def)
  ultimately show ?thesis using part by (intro exI [of _ ?ts] exI [of _ t']) simp
qed

lemma trees_hold_update:
  assumes h: "trees_hold ts t M" and p: "p \<in> set (addrs t)" "tree_at ts p = Some \<lparr>tr_id = k, cs_tree = x\<rparr>"
  shows "trees_hold (ts\<lparr>tree_at := (tree_at ts)(p \<mapsto> \<lparr>tr_id = k, cs_tree = y\<rparr>)\<rparr>) t (M(k \<mapsto> y))"
proof -
  let ?ts = "ts\<lparr>tree_at := (tree_at ts)(p \<mapsto> \<lparr>tr_id = k, cs_tree = y\<rparr>)\<rparr>"
  have ids: "id_at ?ts = id_at ts" using p(2) by (auto simp: id_at_def)
  have "\<exists>r. tree_at ?ts b = Some r \<and> (M(k \<mapsto> y)) (tr_id r) = Some (cs_tree r)" if b: "b \<in> set (addrs t)" for b
  proof (cases "b = p")
    case False
    moreover have "id_at ts p = k" using p(2) by (simp add: id_at_def)
    ultimately have "id_at ts b \<noteq> k"
      using keyed_inj [of "entries ts" t "id_at ts" b p] b p(1) h by (auto simp: trees_hold_def)
    then show ?thesis using held_at [OF h b] False by auto
  qed simp
  moreover have "k \<in> dom M" using held_at [OF h p(1)] p(2) by (auto simp: id_at_def)
  ultimately show ?thesis using h unfolding trees_hold_def ids by auto
qed

subsection \<open>One record\<close>

definition state_ok :: "('t, 'g) main_state \<Rightarrow> (u64 \<Rightarrow> 't option) \<Rightarrow> bool" where
  "state_ok s M \<longleftrightarrow> (\<exists>t. trees_hold (trees s) t M \<and> good_heap (free_mem s) (set (addrs t)))"

text \<open>The tree \<open>get_tree\<close> returns is the one of the map, or a new one.\<close>

lemma get_tree_ok:
  assumes s: "state_ok s M" "M k = None \<longrightarrow> free_mem s \<noteq> []"
    and new: "(case M k of Some x \<Rightarrow> Some (Inr (x, shared s)) | None \<Rightarrow> op_new ops (shared s)) = Some (Inr (x, g))"
  shows "\<exists>p ts t M'. get_tree ops k (trees s, shared s, free_mem s) =
      Some (Inr (p, ts, g, if M k = None then tl (free_mem s) else free_mem s)) \<and>
    trees_hold ts t M' \<and> (\<forall>y. M'(k \<mapsto> y) = M(k \<mapsto> y)) \<and> p \<in> set (addrs t) \<and>
    tree_at ts p = Some \<lparr>tr_id = k, cs_tree = x\<rparr> \<and>
    good_heap (if M k = None then tl (free_mem s) else free_mem s) (set (addrs t))"
proof -
  obtain t where t: "trees_hold (trees s) t M" "good_heap (free_mem s) (set (addrs t))"
    using s(1) by (auto simp: state_ok_def)
  show ?thesis
  proof (cases "M k")
    case None
    then obtain a h where h: "free_mem s = a # h" using s(2) by (cases "free_mem s") auto
    have "op_new ops (shared s) = Some (Inr (x, g))" using new None by simp
    from get_tree_fresh [OF t(1) None this t(2) [unfolded h]] obtain ts t' where
      "get_tree ops k (trees s, shared s, a # h) = Some (Inr (a, ts, g, h))"
      "trees_hold ts t' (M(k \<mapsto> x))" "a \<in> set (addrs t')" "tree_at ts a = Some \<lparr>tr_id = k, cs_tree = x\<rparr>"
      "good_heap h (set (addrs t'))" by blast
    then show ?thesis using None h
      by (intro exI [of _ a] exI [of _ ts] exI [of _ t'] exI [of _ "M(k \<mapsto> x)"]) simp
  next
    case (Some z)
    then have "z = x" "g = shared s" using new by auto
    then show ?thesis using get_tree_old [OF t(1) Some, of ops "shared s" "free_mem s"] Some t
      by (auto intro!: exI [of _ M])
  qed
qed

lemma process_ok:
  assumes s: "state_ok s M" "M (r_id r) = None \<longrightarrow> free_mem s \<noteq> []"
    and new: "(case M (r_id r) of Some x \<Rightarrow> Some (Inr (x, shared s)) | None \<Rightarrow> op_new ops (shared s)) = Some (Inr (x, g))"
    and ins: "op_insert ops x g (r_stack r) = Some (Inr (y, g'))"
  shows "\<exists>s'. process ops r s = Some (Inr s') \<and> state_ok s' (M(r_id r \<mapsto> y)) \<and> shared s' = g' \<and>
    num_records s' = num_records s + 1 \<and>
    free_mem s' = (if M (r_id r) = None then tl (free_mem s) else free_mem s)"
proof -
  let ?h = "if M (r_id r) = None then tl (free_mem s) else free_mem s"
  obtain p ts t M' where g: "get_tree ops (r_id r) (trees s, shared s, free_mem s) = Some (Inr (p, ts, g, ?h))"
      "trees_hold ts t M'" "M'(r_id r \<mapsto> y) = M(r_id r \<mapsto> y)" "p \<in> set (addrs t)"
      "tree_at ts p = Some \<lparr>tr_id = r_id r, cs_tree = x\<rparr>" "good_heap ?h (set (addrs t))"
    using get_tree_ok [OF s new] by blast
  let ?s = "\<lparr>trees = ts\<lparr>tree_at := (tree_at ts)(p \<mapsto> \<lparr>tr_id = r_id r, cs_tree = y\<rparr>)\<rparr>, shared = g', free_mem = ?h,
    num_records = num_records s + 1\<rparr>"
  have "process ops r s = Some (Inr ?s)" using g(1,5) ins by (simp add: process_def)
  moreover have "state_ok ?s (M(r_id r \<mapsto> y))"
    using trees_hold_update [OF g(2,4,5), of y] g(3,6) by (auto simp: state_ok_def)
  ultimately show ?thesis by (intro exI [of _ ?s]) simp
qed

text \<open>An insertion that fails ends the run.\<close>

lemma process_fails:
  assumes s: "state_ok s M" "M (r_id r) = None \<longrightarrow> free_mem s \<noteq> []"
    and new: "(case M (r_id r) of Some x \<Rightarrow> Some (Inr (x, shared s)) | None \<Rightarrow> op_new ops (shared s)) = Some (Inr (x, g))"
    and ins: "op_insert ops x g (r_stack r) = Some (Inl e)"
  shows "process ops r s = Some (Inl e)"
  using get_tree_ok [OF s new] ins by (auto simp: process_def)

end
