(* ===== verification/Main_Run.thy ===== *)
theory Main_Run
  imports Main_Correct
begin

text \<open>
  The run of \<open>main\<close> for any backend that keeps the contract \<open>callstack_backend\<close>: every tree
  ends with the stacks of its id in order of arrival, and the walk at the end visits the
  trees by falling id.
\<close>

subsection \<open>Stacks by id\<close>

definition stacks_of :: "u64 \<Rightarrow> crecord list \<Rightarrow> callstack_entry list list" where
  "stacks_of k rs = map r_stack (filter (\<lambda>r. r_id r = k) rs)"

lemma stacks_of_simps [simp]:
  "stacks_of k [] = []"
  "stacks_of k (rs @ [r]) = stacks_of k rs @ (if r_id r = k then [r_stack r] else [])"
  by (simp_all add: stacks_of_def)

lemma stacks_of_append: "stacks_of k (rs @ rs') = stacks_of k rs @ stacks_of k rs'"
  by (simp add: stacks_of_def)

lemma stacks_of_Nil: "k \<notin> r_id ` set rs \<Longrightarrow> stacks_of k rs = []"
  by (induction rs) (auto simp: stacks_of_def)

lemma stacks_of_repeat: "stacks_of k (concat (replicate n rs)) = concat (replicate n (stacks_of k rs))"
  by (induction n) (simp_all add: stacks_of_append)

definition ids_of :: "crecord list \<Rightarrow> u64 list" where
  "ids_of rs = rev (sorted_list_of_set (r_id ` set rs))"

lemma rounds_flat: "rounds n ops rs s = process_all ops (concat (replicate n rs)) s"
proof (induction n arbitrary: s)
  case (Suc n)
  have "process_all ops (xs @ ys) s = obind (process_all ops xs s) (process_all ops ys)" for xs ys s
  proof (induction xs arbitrary: s)
    case (Cons x xs)
    then show ?case by (auto simp: obind_def split: option.split sum.split)
  qed simp
  then show ?case by (simp add: Suc.IH obind_def split: option.split sum.split)
qed simp

text \<open>All stacks of a list are accepted, each after those before it.\<close>

definition all_accepted :: "('s list \<Rightarrow> 's \<Rightarrow> bool) \<Rightarrow> 's list \<Rightarrow> bool" where
  "all_accepted acc ss \<longleftrightarrow> (\<forall>i<length ss. acc (take i ss) (ss ! i))"

lemma all_accepted_mid: "all_accepted acc (xs @ y # ys) \<Longrightarrow> acc xs y"
  by (auto simp: all_accepted_def dest!: spec [of _ "length xs"])

subsection \<open>The contract\<close>

text \<open>
  \<open>holds g t ss\<close>: the tree has been given the stacks \<open>ss\<close>, with \<open>g\<close> as the shared state.
  \<open>ready n g\<close>: the shared state serves \<open>n\<close> more calls. \<open>accepts ss s\<close>: the backend can take \<open>s\<close>
  after \<open>ss\<close>. A call for one tree leaves the others as they are.
\<close>

locale callstack_backend =
  fixes ops :: "('t, 'g, 'o) callstack_ops"
    and holds :: "'g \<Rightarrow> 't \<Rightarrow> callstack_entry list list \<Rightarrow> bool"
    and ready :: "nat \<Rightarrow> 'g \<Rightarrow> bool"
    and accepts :: "callstack_entry list list \<Rightarrow> callstack_entry list \<Rightarrow> bool"
    and report :: "callstack_entry list list \<Rightarrow> 'o"
  assumes new_holds: "ready (Suc n) g \<Longrightarrow> \<exists>t g'. op_new ops g = Some (Inr (t, g')) \<and> ready n g' \<and> holds g' t [] \<and>
      (\<forall>u us. holds g u us \<longrightarrow> holds g' u us)"
    and insert_holds: "ready (Suc n) g \<Longrightarrow> holds g t ss \<Longrightarrow> accepts ss s \<Longrightarrow>
      \<exists>t' g'. op_insert ops t g s = Some (Inr (t', g')) \<and> ready n g' \<and> holds g' t' (ss @ [s]) \<and>
      (\<forall>u us. holds g u us \<longrightarrow> holds g' u us)"
    and stats_report: "holds g t ss \<Longrightarrow> op_stats ops t = Some (Inr (report ss))"
    and ready_less: "ready (Suc n) g \<Longrightarrow> ready n g"
begin

definition loop_inv :: "('t, 'g) main_state \<Rightarrow> crecord list \<Rightarrow> nat \<Rightarrow> bool" where
  "loop_inv s seen n \<longleftrightarrow> (\<exists>M. state_ok s M \<and> dom M = r_id ` set seen \<and>
     (\<forall>k t. M k = Some t \<longrightarrow> holds (shared s) t (stacks_of k seen)) \<and>
     num_records s = of_nat (length seen) \<and> ready (2 * n) (shared s))"

lemma process_holds:
  assumes s: "loop_inv s seen (Suc n)" and acc: "accepts (stacks_of (r_id r) seen) (r_stack r)"
    and mem: "r_id r \<in> r_id ` set seen \<or> free_mem s \<noteq> []"
  shows "\<exists>s'. process ops r s = Some (Inr s') \<and> loop_inv s' (seen @ [r]) n \<and>
    free_mem s' = (if r_id r \<in> r_id ` set seen then free_mem s else tl (free_mem s))"
proof -
  obtain M where M: "state_ok s M" "dom M = r_id ` set seen"
      "\<And>k t. M k = Some t \<Longrightarrow> holds (shared s) t (stacks_of k seen)"
      "num_records s = of_nat (length seen)" "ready (Suc (Suc (2 * n))) (shared s)"
    using s by (auto simp: loop_inv_def)
  obtain x g where x: "(case M (r_id r) of Some x \<Rightarrow> Some (Inr (x, shared s)) | None \<Rightarrow> op_new ops (shared s)) = Some (Inr (x, g))"
      "ready (Suc (2 * n)) g" "holds g x (stacks_of (r_id r) seen)" "\<And>u us. holds (shared s) u us \<Longrightarrow> holds g u us"
  proof (cases "M (r_id r)")
    case None
    then have "r_id r \<notin> r_id ` set seen" using M(2) by auto
    then have "stacks_of (r_id r) seen = []" by (rule stacks_of_Nil)
    then show ?thesis using that new_holds [OF M(5)] None by auto
  next
    case (Some x)
    then show ?thesis using that M(3) ready_less [OF M(5)] by auto
  qed
  obtain y g' where y: "op_insert ops x g (r_stack r) = Some (Inr (y, g'))" "ready (2 * n) g'"
      "holds g' y (stacks_of (r_id r) seen @ [r_stack r])" "\<And>u us. holds g u us \<Longrightarrow> holds g' u us"
    using insert_holds [OF x(2,3) acc] by blast
  have m: "M (r_id r) = None \<longleftrightarrow> r_id r \<notin> r_id ` set seen" using M(2) by auto
  obtain s' where s': "process ops r s = Some (Inr s')" "state_ok s' (M(r_id r \<mapsto> y))" "shared s' = g'"
      "num_records s' = num_records s + 1" "free_mem s' = (if M (r_id r) = None then tl (free_mem s) else free_mem s)"
    using process_ok [OF M(1) _ x(1) y(1)] mem m by blast
  have "holds g' t (stacks_of k (seen @ [r]))" if "(M(r_id r \<mapsto> y)) k = Some t" for k t
    using that y(3) y(4) [OF x(4) [OF M(3)]] by (auto split: if_splits)
  then have "loop_inv s' (seen @ [r]) n"
    unfolding loop_inv_def using s'(2-4) M(2,4) y(2) by (intro exI [of _ "M(r_id r \<mapsto> y)"]) auto
  then show ?thesis using s'(1,5) m by (auto simp del: image_iff)
qed

text \<open>The invariant of the whole loop; the memory has to last for the ids still to come.\<close>

lemma process_all_holds:
  assumes "loop_inv s seen (length rs)" "\<forall>k. all_accepted accepts (stacks_of k (seen @ rs))"
    and "card (r_id ` set rs - r_id ` set seen) \<le> length (free_mem s)"
  shows "\<exists>s'. process_all ops rs s = Some (Inr s') \<and> loop_inv s' (seen @ rs) 0"
  using assms
proof (induction rs arbitrary: s seen)
  case (Cons r rs)
  have "stacks_of (r_id r) (seen @ r # rs) = stacks_of (r_id r) seen @ r_stack r # stacks_of (r_id r) rs"
    by (simp add: stacks_of_def)
  then have acc: "accepts (stacks_of (r_id r) seen) (r_stack r)"
    using Cons.prems(2) all_accepted_mid by metis
  let ?new = "r_id ` set (r # rs) - r_id ` set seen" and ?rest = "r_id ` set rs - r_id ` set (seen @ [r])"
  have rest: "?new = (if r_id r \<in> r_id ` set seen then ?rest else insert (r_id r) ?rest)" by auto
  then have card: "card ?new = (if r_id r \<in> r_id ` set seen then card ?rest else Suc (card ?rest))" by simp
  then have mem: "r_id r \<in> r_id ` set seen \<or> free_mem s \<noteq> []" using Cons.prems(3) by auto
  obtain s1 where s1: "process ops r s = Some (Inr s1)" "loop_inv s1 (seen @ [r]) (length rs)"
      "free_mem s1 = (if r_id r \<in> r_id ` set seen then free_mem s else tl (free_mem s))"
    using process_holds [OF _ acc mem, of "length rs"] Cons.prems(1) by auto
  have "card ?rest \<le> length (free_mem s1)"
    using card Cons.prems(3) s1(3) by (auto split: if_splits)
  moreover have "\<forall>k. all_accepted accepts (stacks_of k ((seen @ [r]) @ rs))" using Cons.prems(2) by simp
  ultimately obtain s' where "process_all ops rs s1 = Some (Inr s')" "loop_inv s' ((seen @ [r]) @ rs) 0"
    using Cons.IH [OF s1(2)] by blast
  then show ?case using s1(1) by auto
qed simp

lemma init_inv: "good_heap h {} \<Longrightarrow> ready (2 * n) g \<Longrightarrow> loop_inv (init_state g h) [] n"
  using trees_hold_init by (auto simp: loop_inv_def init_state_def state_ok_def intro!: exI [of _ "\<lambda>_. None"] exI [of _ Lf])

text \<open>The walk from a node on.\<close>

lemma walk_holds:
  assumes t: "trees_hold ts t M" "\<forall>k x. M k = Some x \<longrightarrow> holds g x (S k)"
  shows "addrs t = xs @ ys \<Longrightarrow> walk ops ts (hd0 ys) acc =
    Some (Inr (fst acc @ map (report \<circ> S \<circ> id_at ts) ys, snd acc + of_nat (length ys)))"
proof (induction ys arbitrary: xs acc)
  case Nil
  then show ?case by (simp add: walk.simps)
next
  case (Cons a ys)
  have h: "holds_tree (tree_of (entries ts)) t" using t(1) by (auto simp: trees_hold_def dest: keyed_holds)
  have a: "a \<in> set (addrs t)" "a \<noteq> 0" using Cons.prems h by (auto simp: holds_tree_def valid_addrs_def)
  obtain x where x: "tree_at ts a = Some \<lparr>tr_id = id_at ts a, cs_tree = x\<rparr>" "M (id_at ts a) = Some x"
    using held_at [OF t(1) a(1)] by blast
  have "rb_next (tree_of (entries ts)) a = Some (Inr (hd0 ys))"
    using rb_step_correct [OF h, of R xs a ys] Cons.prems by (simp add: rb_next_def daddrs_def)
  moreover have "op_stats ops x = Some (Inr (report (S (id_at ts a))))" using stats_report t(2) x(2) by blast
  ultimately have "walk ops ts (hd0 (a # ys)) acc = walk ops ts (hd0 ys) (fst acc @ [report (S (id_at ts a))], snd acc + 1)"
    using a(2) x(1) by (subst walk.simps) simp
  then show ?case using Cons.IH [of "xs @ [a]"] Cons.prems by (simp add: add.assoc add.commute)
qed

text \<open>After the rounds every id has its tree, which has been given the stacks of its id and no
  others; the lookup changes nothing.\<close>

lemma rounds_hold:
  fixes records :: "crecord list"
  assumes h: "good_heap h {}" "card (r_id ` set records) \<le> length h" and g: "ready (2 * (n * length records)) g"
    and acc: "\<forall>k. all_accepted accepts (concat (replicate n (stacks_of k records)))"
  shows "\<exists>s. rounds n ops records (init_state g h) = Some (Inr s) \<and> loop_inv s (concat (replicate n records)) 0"
proof -
  let ?rs = "concat (replicate n records)"
  have set: "set ?rs \<subseteq> set records" by auto
  have len: "length ?rs = n * length records" by (simp add: length_concat sum_list_replicate)
  have "loop_inv (init_state g h) [] (length ?rs)" using init_inv [OF h(1), of "length ?rs" g] g by (simp add: len)
  moreover have "\<forall>k. all_accepted accepts (stacks_of k ([] @ ?rs))"
    using acc by (simp add: stacks_of_repeat)
  moreover have "card (r_id ` set ?rs - r_id ` set []) \<le> length (free_mem (init_state g h))"
  proof -
    have "card (r_id ` set ?rs) \<le> card (r_id ` set records)" using set by (intro card_mono) auto
    then show ?thesis using h(2) by (simp add: init_state_def)
  qed
  ultimately show ?thesis using process_all_holds [of "init_state g h" "[]" ?rs] by (simp add: rounds_flat)
qed

lemma loop_inv_tree:
  assumes s: "loop_inv s seen n" and k: "k \<in> r_id ` set seen"
  shows "\<exists>p t. get_tree ops k (trees s, shared s, free_mem s) = Some (Inr (p, trees s, shared s, free_mem s)) \<and>
    tree_at (trees s) p = Some \<lparr>tr_id = k, cs_tree = t\<rparr> \<and> holds (shared s) t (stacks_of k seen)"
proof -
  obtain M t where M: "trees_hold (trees s) t M" "dom M = r_id ` set seen" "\<forall>k t. M k = Some t \<longrightarrow> holds (shared s) t (stacks_of k seen)"
    using s by (auto simp: loop_inv_def state_ok_def)
  obtain x where "M k = Some x" using k M(2) by blast
  then show ?thesis using get_tree_old [OF M(1), of k x ops "shared s" "free_mem s"] M(3) by blast
qed

lemma main_result:
  fixes records :: "crecord list"
  assumes h: "good_heap h {}" "card (r_id ` set records) \<le> length h" and g: "ready (40 * length records) g"
    and acc: "\<forall>k. all_accepted accepts (concat (replicate 20 (stacks_of k records)))"
  shows "main_loop ops records g h = Some (Inr (of_nat (20 * length records),
    map (\<lambda>k. report (concat (replicate 20 (stacks_of k records)))) (ids_of records),
    of_nat (card (r_id ` set records))))"
proof -
  let ?rs = "concat (replicate 20 records)"
  have set: "set ?rs = set records" by (simp add: set_replicate_conv_if)
  have len: "length ?rs = 20 * length records" by (simp add: length_concat sum_list_replicate)
  obtain s where s: "rounds 20 ops records (init_state g h) = Some (Inr s)" "loop_inv s ?rs 0"
    using rounds_hold [OF h _ acc] g by auto
  then obtain M t where M: "trees_hold (trees s) t M" "dom M = r_id ` set ?rs"
      "\<forall>k x. M k = Some x \<longrightarrow> holds (shared s) x (stacks_of k ?rs)" "num_records s = of_nat (length ?rs)"
    by (auto simp: loop_inv_def state_ok_def)
  have h: "holds_tree (tree_of (entries (trees s))) t" using M(1) by (auto simp: trees_hold_def dest: keyed_holds)
  have ids: "map (id_at (trees s)) (addrs t) = ids_of records"
  proof -
    have "sorted_wrt (<) (rev (map (id_at (trees s)) (addrs t)))"
      using M(1) by (simp add: trees_hold_def keyed_def sorted_wrt_rev)
    moreover have "set (rev (map (id_at (trees s)) (addrs t))) = r_id ` set records"
      using M(1,2) set by (simp add: trees_hold_def)
    ultimately have "rev (map (id_at (trees s)) (addrs t)) = sorted_list_of_set (r_id ` set records)"
      using sorted_list_of_set.idem_if_sorted_distinct strict_sorted_iff by metis
    then show ?thesis unfolding ids_of_def by (metis rev_rev_ident)
  qed
  have "rb_first (tree_of (entries (trees s))) = Some (Inr (hd0 (addrs t)))"
    using rb_end_correct [OF h, of L] by (simp add: rb_first_def daddrs_def)
  moreover have "walk ops (trees s) (hd0 (addrs t)) ([], 0) =
      Some (Inr (map (report \<circ> (\<lambda>k. stacks_of k ?rs)) (ids_of records), of_nat (length (ids_of records))))"
    using walk_holds [OF M(1,3), of "[]" "addrs t" "([], 0)"]
    by (simp only: append_Nil fst_conv snd_conv add_0 ids [symmetric] map_map length_map)
  moreover have "length (ids_of records) = card (r_id ` set records)" by (simp add: ids_of_def)
  ultimately show ?thesis
    unfolding main_loop_def using s(1) M(4)
    by (simp only: obind_simps prod.case len) (simp only: o_def stacks_of_repeat)
qed

end

end
