(* ===== verification/Linux_Backend.thy ===== *)
theory Linux_Backend
  imports Chain_Sort Main_Run
begin

text \<open>
  The backend \<open>linux_ops\<close> (\<open>lib/linux/callstack.c\<close>): every stack is turned into a cursor, its
  maps looked up with \<open>get_map\<close>, and appended to the tree of chains.
\<close>

subsection \<open>The code\<close>

text \<open>
  A tree of the backend: the root of its chains and the memory its nodes lie in, which no
  other tree points into. The globals: the cursor of the thread, NULL before the first
  call, the maps with the memory that \<open>calloc\<close> gives to \<open>get_map\<close> in \<open>main.c\<close>, the allocator of
  the backend with the addresses its nodes get, and \<open>__max_depth\<close>.
\<close>

record linux_tree =
  lt_root :: callchain_root
  lt_nodes :: "u64 \<Rightarrow> callchain_node option"
  lt_in :: "u64 \<Rightarrow> rb_node option"
  lt_out :: "u64 \<Rightarrow> rb_node option"

record linux_globals =
  tls_cursor :: "cursor option"
  lg_maps :: maps_state
  lg_map_heap :: heap
  lg_alloc :: alloc_state
  lg_heap :: heap
  lg_deepest :: u64

definition chains_of :: "linux_globals \<Rightarrow> linux_tree \<Rightarrow> chains" where
  "chains_of g t = \<lparr>cnodes = lt_nodes t, in_mem = lt_in t, out_mem = lt_out t, ch_alloc = lg_alloc g,
     ch_heap = lg_heap g, deepest = lg_deepest g\<rparr>"

definition put_chains :: "chains \<Rightarrow> linux_globals \<Rightarrow> linux_globals" where
  "put_chains c g = g\<lparr>lg_alloc := ch_alloc c, lg_heap := ch_heap c, lg_deepest := deepest c\<rparr>"

text \<open>\<open>get_tls_callchain_cursor\<close>.\<close>

definition get_tls_callchain_cursor :: "linux_globals \<Rightarrow> cursor option \<times> linux_globals" where
  "get_tls_callchain_cursor g =
     (case tls_cursor g of
        Some c \<Rightarrow> (Some c, g)
      | None \<Rightarrow>
          (case ccalloc (lg_alloc g) of (ok, a) \<Rightarrow>
             let c = (if ok then Some zero_cursor else None) in (c, g\<lparr>tls_cursor := c, lg_alloc := a\<rparr>)))"

text \<open>The loop that fills the cursor. What \<open>callchain_cursor_append\<close> returns is not looked at.\<close>

fun build_cursor :: "callstack_entry list \<Rightarrow> cursor \<times> linux_globals \<Rightarrow> (cursor \<times> linux_globals) run" where
  "build_cursor [] s = Some (Inr s)"
| "build_cursor (e # es) (cur, g) =
     (if ip e = 0 then Some (Inr (cur, g))
      else
        obind (get_map (cmap e) (lg_maps g, lg_map_heap g)) (\<lambda>(p, m, h).
        obind (Some (deref (ms_at m p))) (\<lambda>ms.
          (case callchain_cursor_append (ip e) ms False None 0 0 0 None (cur, lg_alloc g) of (ok, cur, a) \<Rightarrow>
             build_cursor es (cur, g\<lparr>lg_maps := m, lg_map_heap := h, lg_alloc := a\<rparr>)))))"

text \<open>\<open>callchain_param\<close> has its default key, and no symbols are ever read.\<close>

definition default_env :: match_env where
  "default_env = \<lparr>env_key = CCKEY_FUNCTION, env_syms = (\<lambda>_. None)\<rparr>"

definition linux_insert :: "linux_tree \<Rightarrow> linux_globals \<Rightarrow> callstack_entry list \<Rightarrow> (linux_tree \<times> linux_globals) run" where
  "linux_insert t g stack =
     (case get_tls_callchain_cursor g of (cursor, g) \<Rightarrow>
        obind (Some (deref cursor)) (\<lambda>cur.
        obind (build_cursor (take MAX_STACK_ENTRIES stack) (cur\<lparr>cu_nr := 0, cu_last := 0\<rparr>, g)) (\<lambda>(cur, g).
          if cu_nr cur = 0 then Some (Inr (t, g\<lparr>tls_cursor := Some cur\<rparr>))
          else
            obind (callchain_append default_env (lt_root t) (Some cur) 0 (chains_of g t)) (\<lambda>(ok, root, cur, c).
              Some (Inr (\<lparr>lt_root = root, lt_nodes = cnodes c, lt_in = in_mem c, lt_out = out_mem c\<rparr>,
                (put_chains c g)\<lparr>tls_cursor := cur\<rparr>))))))"

text \<open>The second structure holds the root node; its address is the next of the free memory.\<close>

definition linux_tree_new :: "linux_globals \<Rightarrow> (linux_tree \<times> linux_globals) result" where
  "linux_tree_new g =
     (case ccalloc (lg_alloc g) of (ok, a) \<Rightarrow>
        if \<not> ok then Inl Exit_failure
        else case ccalloc a of (ok, a) \<Rightarrow>
          if \<not> ok then Inl Exit_failure
          else
            rbind (calloc_or_die (lg_heap g)) (\<lambda>(r, h).
              let g = g\<lparr>lg_alloc := a, lg_heap := h\<rparr>;
                  t = \<lparr>lt_root = \<lparr>max_depth = 0, cr_node = r\<rparr>, lt_nodes = [r \<mapsto> zero_cnode],
                       lt_in = [r \<mapsto> zero_node], lt_out = [r \<mapsto> zero_node]\<rparr> in
              rbind (callchain_init (lt_root t) (chains_of g t)) (\<lambda>(root, c).
                Inr (t\<lparr>lt_root := root, lt_nodes := cnodes c\<rparr>, g))))"

definition linux_put :: "alloc_state \<Rightarrow> alloc_state" where
  "linux_put a = cfree False a"

text \<open>The loop of \<open>callstack_stats\<close> with its two sums, which the code computes and drops.\<close>

partial_function (option) stats_loop :: "linux_tree \<Rightarrow> u64 \<Rightarrow> u64 \<times> u64 \<Rightarrow> (u64 \<times> u64) run" where
  [code]: "stats_loop t n sums =
     (if n = 0 then Some (Inr sums)
      else
        obind (Some (deref (lt_nodes t n))) (\<lambda>cnode.
        obind (rb_next \<lparr>mem = lt_in t, rb_root = 0\<rparr> n) (\<lambda>next.
          stats_loop t next (fst sums + ucast (cn_count cnode), snd sums + ucast (callchain_cumul_counts cnode)))))"

definition linux_stats :: "linux_tree \<Rightarrow> (u64 \<times> u64) run" where
  "linux_stats t =
     obind (Some (deref (lt_nodes t (cr_node (lt_root t))))) (\<lambda>r.
     obind (rb_first \<lparr>mem = lt_in t, rb_root = rb_root_in r\<rparr>) (\<lambda>n. stats_loop t n (0, 0)))"

definition linux_ops :: "(linux_tree, linux_globals, unit) callstack_ops" where
  "linux_ops = \<lparr>op_new = (\<lambda>g. Some (linux_tree_new g)), op_insert = linux_insert,
     op_stats = (\<lambda>t. obind (linux_stats t) (\<lambda>sums. Some (Inr ())))\<rparr>"

subsection \<open>Stacks and cursors\<close>

text \<open>What of a stack is read, and the chain it stands for.\<close>

definition used :: "callstack_entry list \<Rightarrow> callstack_entry list" where
  "used stack = takeWhile (\<lambda>e. ip e \<noteq> 0) (take MAX_STACK_ENTRIES stack)"

definition chain_path :: "callstack_entry list \<Rightarrow> (u64 \<times> u64) list" where
  "chain_path stack = map (\<lambda>e. (cmap e, ip e)) (used stack)"

text \<open>Maps of \<open>K\<close> are in the table, and the backend has addresses for \<open>n\<close> nodes.\<close>

definition maps_known :: "u64 set \<Rightarrow> nat \<Rightarrow> linux_globals \<Rightarrow> (u64 \<Rightarrow> u64 option) \<Rightarrow> bool" where
  "maps_known K n g T \<longleftrightarrow> maps_ok (lg_maps g, lg_map_heap g) T \<and> dom T \<subseteq> K \<and>
     good_heap (lg_heap g) {} \<and> n \<le> length (lg_heap g)"

text \<open>All maps of \<open>K\<close> can still be looked up, and no allocation fails.\<close>

definition maps_ready :: "u64 set \<Rightarrow> nat \<Rightarrow> linux_globals \<Rightarrow> bool" where
  "maps_ready K n g \<longleftrightarrow> plan (lg_alloc g) = [] \<and>
     (\<exists>T. maps_known K n g T \<and> 2 * card (K - dom T) \<le> length (lg_map_heap g))"

lemma good_heap_dropped: "good_heap h A \<Longrightarrow> good_heap (drop j h) A"
  using in_set_dropD [of _ j h] by (simp add: good_heap_def)

lemma maps_known_drop:
  assumes "maps_known K n g T" "lg_maps g' = lg_maps g" "lg_map_heap g' = lg_map_heap g" "lg_heap g' = drop j (lg_heap g)"
    and "i + j \<le> n"
  shows "maps_known K i g' T"
  using assms good_heap_dropped by (auto simp: maps_known_def)

lemma maps_ready_drop:
  assumes "maps_ready K n g" "lg_maps g' = lg_maps g" "lg_map_heap g' = lg_map_heap g" "plan (lg_alloc g') = []"
    and "lg_heap g' = drop j (lg_heap g)" "i + j \<le> n"
  shows "maps_ready K i g'"
  using maps_known_drop [OF _ assms(2,3,5,6)] assms(1,3,4) unfolding maps_ready_def by metis

lemma get_map_known:
  assumes g: "maps_known K n g T" and K: "near K" "k \<in> K" and mem: "T k = None \<longrightarrow> 2 \<le> length (lg_map_heap g)"
  shows "\<exists>p m h. get_map k (lg_maps g, lg_map_heap g) = Some (Inr (p, m, h)) \<and>
    ms_at m p = Some \<lparr>ms_maps = 0, ms_map = k, ms_sym = 0\<rparr> \<and>
    h = (if T k = None then drop 2 (lg_map_heap g) else lg_map_heap g) \<and>
    maps_known K n (g\<lparr>lg_maps := m, lg_map_heap := h\<rparr>) (T(k \<mapsto> p))"
proof -
  have T: "maps_ok (lg_maps g, lg_map_heap g) T" "dom T \<subseteq> K" using g by (simp_all add: maps_known_def)
  have near: "near (insert k (dom T))" using K T(2) by (auto simp: near_def)
  obtain p m h where s: "get_map k (lg_maps g, lg_map_heap g) = Some (Inr (p, m, h))" "maps_ok (m, h) (T(k \<mapsto> p))"
    "ms_at m p = Some \<lparr>ms_maps = 0, ms_map = k, ms_sym = 0\<rparr>"
    "h = (if T k = None then drop 2 (lg_map_heap g) else lg_map_heap g)"
    using get_map_ok [OF T(1) near mem] by blast
  have "maps_known K n (g\<lparr>lg_maps := m, lg_map_heap := h\<rparr>) (T(k \<mapsto> p))"
    using g s(2) T(2) K(2) by (simp add: maps_known_def)
  then show ?thesis using s(1,3,4) by blast
qed

lemma get_map_ready:
  assumes g: "maps_ready K n g" and K: "finite K" "near K" "k \<in> K"
  shows "\<exists>p m h. get_map k (lg_maps g, lg_map_heap g) = Some (Inr (p, m, h)) \<and>
    ms_at m p = Some \<lparr>ms_maps = 0, ms_map = k, ms_sym = 0\<rparr> \<and>
    maps_ready K n (g\<lparr>lg_maps := m, lg_map_heap := h\<rparr>)"
proof -
  obtain T where T: "maps_known K n g T" "2 * card (K - dom T) \<le> length (lg_map_heap g)"
    using g by (auto simp: maps_ready_def)
  have card: "card (K - dom T) = Suc (card (K - insert k (dom T)))" if "T k = None"
  proof -
    have "K - dom T = insert k (K - insert k (dom T))" using that K(3) by auto
    then show ?thesis using K(1) by (metis card_insert_disjoint finite_Diff insertCI Diff_iff)
  qed
  have mem: "T k = None \<longrightarrow> 2 \<le> length (lg_map_heap g)" using card T(2) by auto
  obtain p m h where s: "get_map k (lg_maps g, lg_map_heap g) = Some (Inr (p, m, h))"
    "ms_at m p = Some \<lparr>ms_maps = 0, ms_map = k, ms_sym = 0\<rparr>"
    "h = (if T k = None then drop 2 (lg_map_heap g) else lg_map_heap g)"
    "maps_known K n (g\<lparr>lg_maps := m, lg_map_heap := h\<rparr>) (T(k \<mapsto> p))"
    using get_map_known [OF T(1) K(2,3) mem] by blast
  have "2 * card (K - dom (T(k \<mapsto> p))) \<le> length h"
    using card T(2) s(3) by (auto simp: insert_absorb domIff split: if_splits)
  moreover have "plan (lg_alloc g) = []" using g by (simp add: maps_ready_def)
  ultimately have "maps_ready K n (g\<lparr>lg_maps := m, lg_map_heap := h\<rparr>)"
    unfolding maps_ready_def using s(4) by (intro conjI exI [of _ "T(k \<mapsto> p)"]) simp_all
  then show ?thesis using s(1,2) by blast
qed

lemma build_cursor_ok:
  assumes K: "finite K" "near K"
  shows "cursor_ok cur \<Longrightarrow> \<forall>n \<in> set (written cur). plain n \<Longrightarrow> cu_last cur + length es < 2 ^ 32 \<Longrightarrow> maps_ready K l g \<Longrightarrow>
    cmap ` set (takeWhile (\<lambda>e. ip e \<noteq> 0) es) \<subseteq> K \<Longrightarrow>
    \<exists>cur' g' j. build_cursor es (cur, g) = Some (Inr (cur', g')) \<and> cursor_ok cur' \<and> (\<forall>n \<in> set (written cur'). plain n) \<and>
      map cu_key (written cur') = map cu_key (written cur) @ map (\<lambda>e. (cmap e, ip e)) (takeWhile (\<lambda>e. ip e \<noteq> 0) es) \<and>
      maps_ready K l g' \<and> lg_heap g' = drop j (lg_heap g)"
proof (induction es arbitrary: cur g)
  case Nil
  then show ?case by (auto intro!: exI [of _ 0])
next
  case (Cons e es)
  show ?case
  proof (cases "ip e = 0")
    case True
    then show ?thesis using Cons.prems by (auto intro!: exI [of _ 0])
  next
    case False
    then have k: "cmap e \<in> K" and rest: "cmap ` set (takeWhile (\<lambda>e. ip e \<noteq> 0) es) \<subseteq> K" using Cons.prems(5) by auto
    obtain p m h where s: "get_map (cmap e) (lg_maps g, lg_map_heap g) = Some (Inr (p, m, h))"
      "ms_at m p = Some \<lparr>ms_maps = 0, ms_map = cmap e, ms_sym = 0\<rparr>" "maps_ready K l (g\<lparr>lg_maps := m, lg_map_heap := h\<rparr>)"
      using get_map_ready [OF Cons.prems(4) K k] by blast
    let ?ms = "\<lparr>ms_maps = 0, ms_map = cmap e, ms_sym = 0\<rparr>"
    have pl: "plan (lg_alloc g) = []" using Cons.prems(4) by (simp add: maps_ready_def)
    have lt: "cu_last cur < 2 ^ 32 - 1" using Cons.prems(3) by simp
    obtain c1 a1 n where c: "callchain_cursor_append (ip e) ?ms False None 0 0 0 None (cur, lg_alloc g) = (True, c1, a1)"
      "cursor_ok c1" "written c1 = written cur @ [n]" "plan a1 = []"
      "entry_of n = \<lparr>e_ip = ip e, e_ms = ?ms, e_branch = False, e_loop_iter = 0, e_cycles = 0, e_from = 0, e_srcline = None\<rparr>"
      using cursor_append_ok [OF Cons.prems(1) lt pl] by blast
    have n: "plain n" "cu_key n = (cmap e, ip e)" using c(5) by (simp_all add: entry_of_def plain_def cu_key_def)
    let ?g = "g\<lparr>lg_maps := m, lg_map_heap := h, lg_alloc := a1\<rparr>"
    have ready: "maps_ready K l ?g" using s(3) c(4) by (auto simp: maps_ready_def maps_known_def)
    have len: "cu_last c1 = Suc (cu_last cur)" using arg_cong [OF c(3), of length] c(2) Cons.prems(1) by simp
    have "\<forall>n \<in> set (written c1). plain n" "cu_last c1 + length es < 2 ^ 32"
      using c(3) n(1) Cons.prems(2,3) len by auto
    then obtain cur' g' i where t: "build_cursor es (c1, ?g) = Some (Inr (cur', g'))" "cursor_ok cur'"
      "\<forall>n \<in> set (written cur'). plain n"
      "map cu_key (written cur') = map cu_key (written c1) @ map (\<lambda>e. (cmap e, ip e)) (takeWhile (\<lambda>e. ip e \<noteq> 0) es)"
      "maps_ready K l g'" "lg_heap g' = drop i (lg_heap ?g)"
      using Cons.IH [OF c(2) _ _ ready rest] by blast
    have "build_cursor (e # es) (cur, g) = Some (Inr (cur', g'))" using False s(1,2) c(1) t(1) by simp
    moreover have "lg_heap g' = drop i (lg_heap g)" using t(6) by simp
    ultimately show ?thesis using t(2-5) c(3) n(2) False by auto
  qed
qed

subsection \<open>The contract\<close>

definition linux_ready :: "u64 set \<Rightarrow> nat \<Rightarrow> linux_globals \<Rightarrow> bool" where
  "linux_ready K n g \<longleftrightarrow> finite K \<and> near K \<and> maps_ready K (2 * n) g \<and>
     (\<forall>c. tls_cursor g = Some c \<longrightarrow> cursor_ok c)"

text \<open>Every chain is in the tree with the number of its stacks.\<close>

definition linux_holds :: "linux_globals \<Rightarrow> linux_tree \<Rightarrow> callstack_entry list list \<Rightarrow> bool" where
  "linux_holds g t ss \<longleftrightarrow> (\<exists>ks. holds_chains (chains_of g t) (cr_node (lt_root t)) ks \<and>
     (\<forall>p. p \<noteq> [] \<longrightarrow> count_at ks p = of_nat (count_list (map chain_path ss) p)))"

definition linux_accepts :: "u64 set \<Rightarrow> callstack_entry list \<Rightarrow> bool" where
  "linux_accepts K s \<longleftrightarrow> cmap ` set (used s) \<subseteq> K"

lemma holds_chains_cong:
  assumes "cnodes c' = cnodes c" "in_mem c' = in_mem c" "ch_heap c' = drop j (ch_heap c)" "holds_chains c r ks"
  shows "holds_chains c' r ks"
proof -
  have "chain_rep c' 0 (CT r [] 0 0 ks) = chain_rep c 0 (CT r [] 0 0 ks)"
    using assms(1,2) by (intro chain_rep_cong) simp_all
  moreover have "good_heap (ch_heap c') (set (nodes (CT r [] 0 0 ks)))"
    using assms(4) unfolding assms(3) holds_chains_def by (intro good_heap_dropped) blast
  ultimately show ?thesis using assms(4) unfolding holds_chains_def by metis
qed

text \<open>A call for another tree only takes memory that is free.\<close>

lemma linux_keeps:
  assumes "linux_holds g u us" "lg_heap g' = drop j (lg_heap g)"
  shows "linux_holds g' u us"
proof -
  obtain ks where ks: "holds_chains (chains_of g u) (cr_node (lt_root u)) ks"
    "\<forall>p. p \<noteq> [] \<longrightarrow> count_at ks p = of_nat (count_list (map chain_path us) p)"
    using assms(1) by (auto simp: linux_holds_def)
  have "holds_chains (chains_of g' u) (cr_node (lt_root u)) ks"
    using assms(2) by (intro holds_chains_cong [OF _ _ _ ks(1), of _ j]) (simp_all add: chains_of_def)
  then show ?thesis using ks(2) unfolding linux_holds_def by blast
qed

lemma tls_cursor_ok:
  assumes "linux_ready K n g"
  shows "\<exists>cur g1. get_tls_callchain_cursor g = (Some cur, g1) \<and> cursor_ok cur \<and> maps_ready K (2 * n) g1 \<and>
    lg_heap g1 = lg_heap g"
proof (cases "tls_cursor g")
  case None
  have pl: "plan (lg_alloc g) = []" using assms by (simp add: linux_ready_def maps_ready_def)
  let ?g = "g\<lparr>tls_cursor := Some zero_cursor, lg_alloc := (lg_alloc g)\<lparr>num_allocs := num_allocs (lg_alloc g) + 1\<rparr>\<rparr>"
  have "get_tls_callchain_cursor g = (Some zero_cursor, ?g)"
    using None ccalloc_plenty [OF pl] by (simp add: get_tls_callchain_cursor_def Let_def)
  moreover have "maps_ready K (2 * n) ?g"
    using maps_ready_drop [of K "2 * n" g ?g 0 "2 * n"] assms pl by (simp add: linux_ready_def)
  ultimately show ?thesis using zero_cursor_ok(1) by auto
next
  case (Some c)
  then show ?thesis using assms by (simp add: get_tls_callchain_cursor_def linux_ready_def)
qed

lemma used_take: "takeWhile (\<lambda>e. ip e \<noteq> 0) (take MAX_STACK_ENTRIES s) = used s"
  by (simp add: used_def)

lemma linux_insert_ok:
  assumes g: "linux_ready K (Suc n) g" and t: "linux_holds g t ss" and s: "linux_accepts K s"
  shows "\<exists>t' g' j. linux_insert t g s = Some (Inr (t', g')) \<and> linux_ready K n g' \<and> linux_holds g' t' (ss @ [s]) \<and>
    lg_heap g' = drop j (lg_heap g)"
proof -
  have K: "finite K" "near K" using g by (simp_all add: linux_ready_def)
  obtain cur g1 where c: "get_tls_callchain_cursor g = (Some cur, g1)" "cursor_ok cur" "maps_ready K (2 * Suc n) g1"
      "lg_heap g1 = lg_heap g"
    using tls_cursor_ok [OF g] by blast
  let ?cur = "cur\<lparr>cu_nr := 0, cu_last := 0\<rparr>"
  have c0: "cursor_ok ?cur" "written ?cur = []"
    using cursor_reset_ok(1) [OF c(2)] cursor_reset_ok(2) [of cur] by (simp_all add: callchain_cursor_reset_def)
  have len: "cu_last ?cur + length (take MAX_STACK_ENTRIES s) < 2 ^ 32" by (simp add: MAX_STACK_ENTRIES_def)
  obtain cur1 g2 j where b: "build_cursor (take MAX_STACK_ENTRIES s) (?cur, g1) = Some (Inr (cur1, g2))" "cursor_ok cur1"
    "\<forall>n \<in> set (written cur1). plain n" "map cu_key (written cur1) = chain_path s" "maps_ready K (2 * Suc n) g2"
    "lg_heap g2 = drop j (lg_heap g)"
    using build_cursor_ok [OF K c0(1) _ len c(3)] s c(4) c0(2)
    unfolding used_take linux_accepts_def chain_path_def by auto
  have t2: "linux_holds g2 t ss" by (rule linux_keeps [OF t b(6)])
  obtain ks where ks: "holds_chains (chains_of g2 t) (cr_node (lt_root t)) ks"
    "\<And>p. p \<noteq> [] \<Longrightarrow> count_at ks p = of_nat (count_list (map chain_path ss) p)"
    using t2 by (auto simp: linux_holds_def)
  show ?thesis
  proof (cases "cu_nr cur1 = 0")
    case True
    have "written cur1 = []"
      using True b(2) of_nat_u32_inj [of "cu_last cur1" 0] by (auto simp: cursor_ok_def written_def)
    then have "chain_path s = []" using b(4) by simp
    then have "linux_holds g2 t (ss @ [s])" using ks unfolding linux_holds_def by auto
    then have "linux_holds (g2\<lparr>tls_cursor := Some cur1\<rparr>) t (ss @ [s])" using linux_keeps [of g2 t _ _ 0] by simp
    moreover have "linux_ready K n (g2\<lparr>tls_cursor := Some cur1\<rparr>)"
      using K b(2,5) maps_ready_drop [OF b(5), of "g2\<lparr>tls_cursor := Some cur1\<rparr>" 0 "2 * n"]
      by (simp add: linux_ready_def maps_ready_def)
    moreover have "linux_insert t g s = Some (Inr (t, g2\<lparr>tls_cursor := Some cur1\<rparr>))"
      using c(1) b(1) True by (simp add: linux_insert_def)
    ultimately show ?thesis using b(6) by auto
  next
    case False
    have mem: "plan (ch_alloc (chains_of g2 t)) = []" "2 \<le> length (ch_heap (chains_of g2 t))"
      using b(5) by (auto simp: chains_of_def maps_ready_def maps_known_def)
    obtain root' cur' c' ks' i where a: "callchain_append default_env (lt_root t) (Some cur1) 0 (chains_of g2 t) =
        Some (Inr (True, root', Some cur', c'))" "cr_node root' = cr_node (lt_root t)"
      "holds_chains c' (cr_node (lt_root t)) ks'" "cursor_ok cur'" "plan (ch_alloc c') = []" "i \<le> 2"
      "ch_heap c' = drop i (ch_heap (chains_of g2 t))"
      "ks' = (if written cur1 = [] then ks else fst (app_kids (written cur1) 0 (ch_heap (chains_of g2 t)) ks))"
      using callchain_append_ok [OF ks(1) _ b(2,3) mem, of default_env 0] by (auto simp: default_env_def)
    let ?t = "\<lparr>lt_root = root', lt_nodes = cnodes c', lt_in = in_mem c', lt_out = out_mem c'\<rparr>"
    let ?g = "(put_chains c' g2)\<lparr>tls_cursor := Some cur'\<rparr>"
    have heap: "lg_heap ?g = drop i (lg_heap g2)" using a(7) by (simp add: put_chains_def chains_of_def)
    have "linux_insert t g s = Some (Inr (?t, ?g))"
      using c(1) b(1) False a(1) by (simp add: linux_insert_def)
    moreover have "linux_ready K n ?g"
      using K a(4-6) heap maps_ready_drop [OF b(5), of ?g i "2 * n"] by (simp add: linux_ready_def put_chains_def)
    moreover have "linux_holds ?g ?t (ss @ [s])"
    proof -
      have "holds_chains (chains_of ?g ?t) (cr_node (lt_root t)) ks'"
        by (rule holds_chains_cong [OF _ _ _ a(3), of _ 0]) (simp_all add: chains_of_def put_chains_def)
      moreover have "count_at ks' p = of_nat (count_list (map chain_path (ss @ [s])) p)" if p: "p \<noteq> []" for p
      proof -
        have wf: "kids_wf ks" using ks(1) by (simp add: holds_chains_def)
        have "written cur1 \<noteq> []"
        proof
          assume "written cur1 = []"
          then have "cu_last cur1 = 0" using b(2) length_written [OF b(2)] by simp
          then show False using False b(2) by (simp add: cursor_ok_def)
        qed
        then show ?thesis using ks(2) [OF p] a(8) app_tally_kids(1) [OF _ wf] b(4) by simp
      qed
      ultimately show ?thesis using a(2) unfolding linux_holds_def by auto
    qed
    moreover have "lg_heap ?g = drop (i + j) (lg_heap g)" using heap b(6) by simp
    ultimately show ?thesis by blast
  qed
qed

lemma linux_new_ok:
  assumes g: "linux_ready K (Suc n) g"
  shows "\<exists>t g' j. linux_tree_new g = Inr (t, g') \<and> linux_ready K n g' \<and> linux_holds g' t [] \<and> lg_heap g' = drop j (lg_heap g)"
proof -
  have ready: "maps_ready K (2 * Suc n) g" using g by (simp add: linux_ready_def)
  then have T: "good_heap (lg_heap g) {}" "2 * Suc n \<le> length (lg_heap g)" and pl: "plan (lg_alloc g) = []"
    by (auto simp: maps_ready_def maps_known_def)
  obtain r h where h: "lg_heap g = r # h" using T(2) by (cases "lg_heap g") auto
  have good: "good_heap (r # h) {}" using T(1) unfolding h .
  let ?a = "(lg_alloc g)\<lparr>num_allocs := num_allocs (lg_alloc g) + 1\<rparr>"
  let ?g = "g\<lparr>lg_alloc := ?a\<lparr>num_allocs := num_allocs ?a + 1\<rparr>, lg_heap := h\<rparr>"
  let ?t = "\<lparr>lt_root = \<lparr>max_depth = 0, cr_node = r\<rparr>, lt_nodes = [r \<mapsto> zero_cnode], lt_in = [r \<mapsto> zero_node], lt_out = [r \<mapsto> zero_node]\<rparr>"
  have al: "ccalloc (lg_alloc g) = (True, ?a)" "ccalloc ?a = (True, ?a\<lparr>num_allocs := num_allocs ?a + 1\<rparr>)"
    using ccalloc_plenty [OF pl] ccalloc_plenty [of ?a] pl by simp_all
  have "calloc_or_die (lg_heap g) = Inr (r, h)" using good by (simp add: calloc_or_die_def h good_heap_def)
  then have "linux_tree_new g = Inr (?t, ?g)"
    using al by (simp add: linux_tree_new_def Let_def callchain_init_def upd_cn_def ld_cn_def chains_of_def zero_cnode_def)
  moreover have "node_rep (chains_of ?g ?t) 0 r [] 0 0 []"
    unfolding node_rep_def by (intro exI [of _ zero_cnode] exI [of _ Lf])
      (simp add: chains_of_def zero_cnode_def kids_tree_def holds_tree_def valid_addrs_def red_black_def)
  then have "linux_holds ?g ?t []"
    using good unfolding linux_holds_def
    by (intro exI [of _ "[]"]) (auto simp: holds_chains_def chains_of_def good_heap_def count_at_def)
  moreover have drop: "lg_heap ?g = drop 1 (lg_heap g)" by (simp add: h)
  moreover have "linux_ready K n ?g"
    using g pl drop maps_ready_drop [OF ready, of ?g 1 "2 * n"] by (simp add: linux_ready_def)
  ultimately show ?thesis by blast
qed

lemma stats_loop_ok:
  "chain_rep (chains_of g t) par (CT a v h n (us @ ys)) \<Longrightarrow> stats_loop t (hd0 (map ct_at ys)) acc =
     Some (Inr (fst acc + sum_list (map (\<lambda>k. ucast (ct_count k)) ys), snd acc + sum_list (map (\<lambda>k. ucast (cumul_count k)) ys)))"
proof (induction ys arbitrary: us acc)
  case Nil
  then show ?case by (subst stats_loop.simps) simp
next
  case (Cons k ys)
  have k: "chain_rep (chains_of g t) a k" using Cons.prems by simp
  obtain cn where cn: "lt_nodes t (ct_at k) = Some cn" "cn_count cn = ct_count k" "callchain_cumul_counts cn = cumul_count k"
    using k by (cases k) (auto simp: node_rep_def chains_of_def callchain_cumul_counts_def)
  have "rb_next \<lparr>mem = lt_in t, rb_root = 0\<rparr> (ct_at k) = Some (Inr (hd0 (map ct_at ys)))" "ct_at k \<noteq> 0"
    using next_kid [OF Cons.prems] by (simp_all add: chains_of_def)
  then have "stats_loop t (hd0 (map ct_at (k # ys))) acc =
      stats_loop t (hd0 (map ct_at ys)) (fst acc + ucast (ct_count k), snd acc + ucast (cumul_count k))"
    using cn by (subst stats_loop.simps) simp
  then show ?case using Cons.IH [of "us @ [k]"] Cons.prems by (simp add: add.assoc)
qed

lemma linux_stats_ok:
  assumes "holds_chains (chains_of g t) (cr_node (lt_root t)) ks"
  shows "\<exists>sums. linux_stats t = Some (Inr sums)"
proof -
  have ks: "chain_rep (chains_of g t) 0 (CT (cr_node (lt_root t)) [] 0 0 ks)"
    using assms by (simp add: holds_chains_def)
  obtain cn where "lt_nodes t (cr_node (lt_root t)) = Some cn"
    "rb_first \<lparr>mem = lt_in t, rb_root = rb_root_in cn\<rparr> = Some (Inr (hd0 (map ct_at ks)))"
    using first_kid [OF ks] by (auto simp: chains_of_def kids_tree_def)
  then show ?thesis using stats_loop_ok [of g t 0 _ _ _ _ "[]" ks "(0, 0)"] ks by (simp add: linux_stats_def)
qed

interpretation linux_main: callstack_backend linux_ops linux_holds "linux_ready K" "\<lambda>ss. linux_accepts K" "\<lambda>ss. ()" for K
proof
  show "\<exists>t g'. op_new linux_ops g = Some (Inr (t, g')) \<and> linux_ready K n g' \<and> linux_holds g' t [] \<and>
      (\<forall>u us. linux_holds g u us \<longrightarrow> linux_holds g' u us)" if "linux_ready K (Suc n) g" for n g
    using linux_new_ok [OF that] linux_keeps by (fastforce simp: linux_ops_def)
  show "\<exists>t' g'. op_insert linux_ops t g s = Some (Inr (t', g')) \<and> linux_ready K n g' \<and> linux_holds g' t' (ss @ [s]) \<and>
      (\<forall>u us. linux_holds g u us \<longrightarrow> linux_holds g' u us)"
    if "linux_ready K (Suc n) g" "linux_holds g t ss" "linux_accepts K s" for n g t ss s
    using linux_insert_ok [OF that] linux_keeps by (fastforce simp: linux_ops_def)
  show "op_stats linux_ops t = Some (Inr ())" if "linux_holds g t ss" for g t ss
    using linux_stats_ok that by (auto simp: linux_ops_def linux_holds_def)
  show "linux_ready K n g" if "linux_ready K (Suc n) g" for n g
    using that maps_ready_drop [of K "2 * Suc n" g g 0 "2 * n"] by (auto simp: linux_ready_def maps_ready_def)
qed

subsection \<open>Whole runs\<close>

text \<open>Before the first record: no cursor, no maps, nothing allocated but what is free.\<close>

definition first_globals :: "alloc_state \<Rightarrow> heap \<Rightarrow> heap \<Rightarrow> linux_globals" where
  "first_globals a hm h =
     \<lparr>tls_cursor = None, lg_maps = init_maps, lg_map_heap = hm, lg_alloc = a, lg_heap = h, lg_deepest = 0\<rparr>"

lemma first_known:
  "good_heap hm {} \<Longrightarrow> good_heap h {} \<Longrightarrow> n \<le> length h \<Longrightarrow> maps_known K n (first_globals a hm h) (\<lambda>_. None)"
  using maps_ok_init by (simp add: maps_known_def first_globals_def)

lemma first_ready:
  assumes "good_heap hm {}" "good_heap h {}" "plan a = []" "finite K" "near K" "2 * card K \<le> length hm" "2 * n \<le> length h"
  shows "linux_ready K n (first_globals a hm h)"
  using assms first_known [OF assms(1,2,7), of K a] unfolding linux_ready_def maps_ready_def
  by (auto simp: first_globals_def intro!: exI [of _ "\<lambda>_. None"])

text \<open>The maps of all entries that are read.\<close>

definition maps_of :: "crecord list \<Rightarrow> u64 set" where
  "maps_of records = (\<Union>r \<in> set records. cmap ` set (used (r_stack r)))"

lemma linux_accepts_all: "all_accepted (\<lambda>ss. linux_accepts (maps_of records)) (concat (replicate n (stacks_of k records)))"
proof -
  have "\<forall>s \<in> set (concat (replicate n (stacks_of k records))). linux_accepts (maps_of records) s"
    by (auto simp: stacks_of_def set_replicate_conv_if linux_accepts_def maps_of_def split: if_splits)
  then show ?thesis unfolding all_accepted_def using nth_mem by blast
qed

lemma finite_maps_of: "finite (maps_of records)"
  by (simp add: maps_of_def)

text \<open>C1. A run with the Linux backend over records whose maps lie less than \<open>2 ^ 31\<close> apart: with
  enough memory the rounds end, and then every id has a tree in which every chain is found
  with 20 times the number of the id's stacks that are this chain, all other chains with 0.\<close>

theorem main_linux_trees:
  assumes "good_heap h {}" "card (r_id ` set records) \<le> length h" "near (maps_of records)" "plan a = []"
    and "good_heap hm {}" "2 * card (maps_of records) \<le> length hm" "good_heap h' {}" "80 * length records \<le> length h'"
  shows "\<exists>s. rounds 20 linux_ops records (init_state (first_globals a hm h') h) = Some (Inr s) \<and>
    num_records s = of_nat (20 * length records) \<and>
    (\<forall>k \<in> r_id ` set records. \<exists>q t ks.
       get_tree linux_ops k (trees s, shared s, free_mem s) = Some (Inr (q, trees s, shared s, free_mem s)) \<and>
       tree_at (trees s) q = Some \<lparr>tr_id = k, cs_tree = t\<rparr> \<and>
       holds_chains (chains_of (shared s) t) (cr_node (lt_root t)) ks \<and>
       (\<forall>p. p \<noteq> [] \<longrightarrow> count_at ks p = of_nat (20 * count_list (map chain_path (stacks_of k records)) p)))"
proof -
  let ?K = "maps_of records" and ?rs = "concat (replicate 20 records)"
  have ready: "linux_ready ?K (2 * (20 * length records)) (first_globals a hm h')"
    using assms(3-8) finite_maps_of by (intro first_ready) auto
  have len: "length ?rs = 20 * length records" by (simp add: length_concat sum_list_replicate)
  obtain s where s: "rounds 20 linux_ops records (init_state (first_globals a hm h') h) = Some (Inr s)"
    "linux_main.loop_inv ?K s ?rs 0"
    using linux_main.rounds_hold [OF assms(1,2) ready] linux_accepts_all by blast
  have "num_records s = of_nat (20 * length records)"
    using s(2) len unfolding linux_main.loop_inv_def by metis
  moreover have "\<exists>q t ks. get_tree linux_ops k (trees s, shared s, free_mem s) = Some (Inr (q, trees s, shared s, free_mem s)) \<and>
       tree_at (trees s) q = Some \<lparr>tr_id = k, cs_tree = t\<rparr> \<and>
       holds_chains (chains_of (shared s) t) (cr_node (lt_root t)) ks \<and>
       (\<forall>p. p \<noteq> [] \<longrightarrow> count_at ks p = of_nat (20 * count_list (map chain_path (stacks_of k records)) p))"
    if k: "k \<in> r_id ` set records" for k
  proof -
    have kr: "k \<in> r_id ` set ?rs" using k by (simp add: set_replicate_conv_if)
    have times: "count_list (map chain_path (concat (replicate n (stacks_of k records)))) p =
        n * count_list (map chain_path (stacks_of k records)) p" for n p
      by (induction n) simp_all
    obtain q t where q: "get_tree linux_ops k (trees s, shared s, free_mem s) = Some (Inr (q, trees s, shared s, free_mem s))"
      "tree_at (trees s) q = Some \<lparr>tr_id = k, cs_tree = t\<rparr>" "linux_holds (shared s) t (stacks_of k ?rs)"
      using linux_main.loop_inv_tree [OF s(2) kr] by blast
    obtain ks where ks: "holds_chains (chains_of (shared s) t) (cr_node (lt_root t)) ks"
      "\<forall>p. p \<noteq> [] \<longrightarrow> count_at ks p = of_nat (20 * count_list (map chain_path (stacks_of k records)) p)"
      using q(3) unfolding linux_holds_def stacks_of_repeat times by blast
    show ?thesis using q(1,2) ks by blast
  qed
  ultimately show ?thesis using s(1) by blast
qed

text \<open>C5. The run of the whole program with the Linux backend over records whose maps lie less than
  \<open>2 ^ 31\<close> apart ends, with enough memory, and prints 20 times the number of records and one tree
  per id.\<close>

theorem main_linux:
  assumes "good_heap h {}" "card (r_id ` set records) \<le> length h" "near (maps_of records)" "plan a = []"
    and "good_heap hm {}" "2 * card (maps_of records) \<le> length hm" "good_heap h' {}" "80 * length records \<le> length h'"
  shows "main_loop linux_ops records (first_globals a hm h') h = Some (Inr (of_nat (20 * length records),
    replicate (card (r_id ` set records)) (), of_nat (card (r_id ` set records))))"
proof -
  have ready: "linux_ready (maps_of records) (40 * length records) (first_globals a hm h')"
    using assms(3-8) finite_maps_of by (intro first_ready) auto
  have "main_loop linux_ops records (first_globals a hm h') h = Some (Inr (of_nat (20 * length records),
    map (\<lambda>k. ()) (ids_of records), of_nat (card (r_id ` set records))))"
    using linux_main.main_result [OF assms(1,2) ready] linux_accepts_all by blast
  moreover have "length (ids_of records) = card (r_id ` set records)" by (simp add: ids_of_def)
  ultimately show ?thesis by (simp add: map_replicate_const)
qed

definition addresses :: "nat \<Rightarrow> u64 list" where
  "addresses n = map (\<lambda>i. of_nat (16 * Suc i)) [0..<n]"

lemma good_addresses:
  assumes "n < 2 ^ 32"
  shows "good_heap (addresses n) {}"
proof -
  have small: "take_bit 64 (16 * Suc i) = 16 * Suc i" if "i < n" for i
    using that assms by (intro take_bit_nat_eq_self) simp
  have "inj_on (\<lambda>i. of_nat (16 * Suc i) :: u64) {0..<n}"
  proof (rule inj_onI)
    fix i j assume "i \<in> {0..<n}" "j \<in> {0..<n}" "(of_nat (16 * Suc i) :: u64) = of_nat (16 * Suc j)"
    then have "take_bit 64 (16 * Suc i) = take_bit 64 (16 * Suc j)" "i < n" "j < n"
      unfolding word_of_nat_eq_iff by simp_all
    then show "i = j" using small by simp
  qed
  then have "distinct (addresses n)" by (simp add: addresses_def distinct_map)
  moreover have "a \<noteq> 0 \<and> aligned a" if a: "a \<in> set (addresses n)" for a
  proof -
    obtain i where i: "i < n" "a = of_nat (16 * Suc i)" using a by (auto simp: addresses_def)
    have "a \<noteq> 0"
    proof
      assume "a = 0"
      then have "(of_nat (16 * Suc i) :: u64) = of_nat 0" using i(2) by simp
      then have "take_bit 64 (16 * Suc i) = take_bit 64 (0 :: nat)" unfolding word_of_nat_eq_iff by simp
      then show False using small [OF i(1)] by simp
    qed
    moreover have "aligned a"
    proof -
      have z: "take_bit 2 (16 * Suc i) = 0" by (simp add: take_bit_eq_mod)
      have "take_bit 2 a = of_nat (take_bit 2 (16 * Suc i))" unfolding i(2) by (rule take_bit_of_nat)
      also have "\<dots> = 0" unfolding z by simp
      finally show ?thesis by (simp add: aligned_def take_bit_eq_mask mask_eq_exp_minus_1)
    qed
    ultimately show ?thesis by simp
  qed
  ultimately show ?thesis by (simp add: good_heap_def)
qed

definition linux_records :: "crecord list" where
  "linux_records = [\<lparr>r_id = 4369, r_stack = [\<lparr>ip = 1, cmap = 2\<rparr>, \<lparr>ip = 5, cmap = 3\<rparr>, \<lparr>ip = 0, cmap = 0\<rparr>]\<rparr>,
     \<lparr>r_id = 7, r_stack = [\<lparr>ip = 1, cmap = 3\<rparr>, \<lparr>ip = 0, cmap = 0\<rparr>]\<rparr>]"

definition some_alloc :: alloc_state where
  "some_alloc = \<lparr>num_allocs = 0, num_frees = 0, leaf_frees = 0, plan = []\<rparr>"

lemma linux_records_simps: "r_id ` set linux_records = {4369, 7}" "length linux_records = 2" "maps_of linux_records = {2, 3}"
  by (auto simp: linux_records_def maps_of_def used_def MAX_STACK_ENTRIES_def)

lemma linux_memory: "good_heap [16, 32] {}" "card (r_id ` set linux_records) \<le> length [16, 32 :: u64]" "near (maps_of linux_records)"
  "plan some_alloc = []" "good_heap [16, 32, 48, 64] {}" "2 * card (maps_of linux_records) \<le> length [16, 32, 48, 64 :: u64]"
  "good_heap (addresses 200) {}" "80 * length linux_records \<le> length (addresses 200)"
  by (simp_all add: linux_records_simps good_addresses near_def some_alloc_def)
    (simp_all add: good_heap_def aligned_def addresses_def)

theorem main_linux_witness:
  "main_loop linux_ops linux_records (first_globals some_alloc [16, 32, 48, 64] (addresses 200)) [16, 32] =
     Some (Inr (of_nat (20 * length linux_records), replicate (card (r_id ` set linux_records)) (),
       of_nat (card (r_id ` set linux_records))))"
  by (rule main_linux [OF linux_memory])

theorem main_linux_trees_witness:
  "\<exists>s. rounds 20 linux_ops linux_records (init_state (first_globals some_alloc [16, 32, 48, 64] (addresses 200)) [16, 32]) = Some (Inr s) \<and>
    num_records s = of_nat (20 * length linux_records) \<and>
    (\<forall>k \<in> r_id ` set linux_records. \<exists>q t ks.
       get_tree linux_ops k (trees s, shared s, free_mem s) = Some (Inr (q, trees s, shared s, free_mem s)) \<and>
       tree_at (trees s) q = Some \<lparr>tr_id = k, cs_tree = t\<rparr> \<and>
       holds_chains (chains_of (shared s) t) (cr_node (lt_root t)) ks \<and>
       (\<forall>p. p \<noteq> [] \<longrightarrow> count_at ks p = of_nat (20 * count_list (map chain_path (stacks_of k linux_records)) p)))"
  by (rule main_linux_trees [OF linux_memory])

subsection \<open>Memory runs out\<close>

text \<open>When there is no memory for the cursor, \<open>insert\<close> writes through the NULL it was given.\<close>

theorem linux_insert_no_cursor:
  assumes "tls_cursor g = None" "plan (lg_alloc g) = False # fs"
  shows "linux_insert t g stack = Some (Inl Null_deref)"
  using assms by (simp add: linux_insert_def get_tls_callchain_cursor_def ccalloc_def calloc_ok_def Let_def deref_def)

definition no_tree :: linux_tree where
  "no_tree = \<lparr>lt_root = \<lparr>max_depth = 0, cr_node = 16\<rparr>, lt_nodes = [16 \<mapsto> zero_cnode], lt_in = [16 \<mapsto> zero_node], lt_out = [16 \<mapsto> zero_node]\<rparr>"

theorem linux_insert_no_cursor_witness:
  "linux_insert no_tree (first_globals (some_alloc\<lparr>plan := [False]\<rparr>) [] []) [] = Some (Inl Null_deref)"
  by (rule linux_insert_no_cursor [where fs = "[]"]) (simp_all add: first_globals_def some_alloc_def)

text \<open>When there is no memory for a further node of the cursor, the entry is left out and the
  loop goes on: what is appended is another chain.\<close>

theorem linux_drops_entry:
  assumes "ip e \<noteq> 0" "get_map (cmap e) (lg_maps g, lg_map_heap g) = Some (Inr (p, m, h))" "ms_at m p = Some ms"
    and "cu_last cur = length (cu_nodes cur)" "plan (lg_alloc g) = False # fs"
  shows "\<exists>a. build_cursor (e # es) (cur, g) = build_cursor es (cur, g\<lparr>lg_maps := m, lg_map_heap := h, lg_alloc := a\<rparr>) \<and> plan a = fs"
  using assms by (intro exI [of _ "(lg_alloc g)\<lparr>plan := fs, num_allocs := num_allocs (lg_alloc g) + 1\<rparr>"])
    (simp add: callchain_cursor_append_def ccalloc_def calloc_ok_def Let_def)

lemma first_map: "\<exists>m. get_map 2 (init_maps, [16, 32]) = Some (Inr (16, m, [])) \<and> ms_at m 16 = Some \<lparr>ms_maps = 0, ms_map = 2, ms_sym = 0\<rparr>"
proof -
  have h: "maps_hold init_maps Lf (\<lambda>_. None)" by (simp add: maps_hold_def init_maps_def keyed_empty)
  have good: "good_heap [16, 32] (set (addrs Lf) \<union> ran (\<lambda>_. None))" by (simp add: good_heap_def aligned_def)
  obtain m t where m: "get_map 2 (init_maps, [16, 32]) = Some (Inr (16, m, []))" "maps_hold m t [2 \<mapsto> 16]"
    using get_map_fresh [OF h _ _ good, of 2] by (auto simp: near_def)
  have "ms_at m 16 = Some \<lparr>ms_maps = 0, ms_map = 2, ms_sym = 0\<rparr>" using m(2) by (simp add: maps_hold_def)
  then show ?thesis using m(1) by blast
qed

theorem linux_drops_entry_witness:
  "\<exists>m a. build_cursor [\<lparr>ip = 1, cmap = 2\<rparr>] (zero_cursor, first_globals (some_alloc\<lparr>plan := [False]\<rparr>) [16, 32] []) =
     Some (Inr (zero_cursor, (first_globals (some_alloc\<lparr>plan := [False]\<rparr>) [16, 32] [])\<lparr>lg_maps := m, lg_map_heap := [], lg_alloc := a\<rparr>))"
proof -
  obtain m where m: "get_map 2 (init_maps, [16, 32]) = Some (Inr (16, m, []))"
    "ms_at m 16 = Some \<lparr>ms_maps = 0, ms_map = 2, ms_sym = 0\<rparr>" using first_map by blast
  show ?thesis
    using linux_drops_entry [of "\<lparr>ip = 1, cmap = 2\<rparr>" "first_globals (some_alloc\<lparr>plan := [False]\<rparr>) [16, 32] []" 16 m "[]" _ zero_cursor "[]" "[]"] m
    by (auto simp: first_globals_def zero_cursor_def some_alloc_def)
qed

end
