(* ===== verification/Backends.thy ===== *)
theory Backends
  imports Main_Run Hashtable_Props Art_Props
begin

text \<open>
  The backends \<open>art_ops\<close> and \<open>hash_ops\<close> as \<open>main\<close> calls them: both keep the contract of the
  main loop, so the whole run is known for both.
\<close>

subsection \<open>The adaptive radix tree\<close>

definition art_ops :: "(art_node option, alloc_state, unit) callstack_ops" where
  "art_ops = \<lparr>op_new = (\<lambda>a. Some (art_tree_new a)),
     op_insert = (\<lambda>t a stack. Some (art_tree_insert t stack a)),
     op_stats = (\<lambda>t. Some (Inr ()))\<rparr>"

text \<open>The tree after the stacks \<open>ss\<close>, and whether a further stack avoids the losing situations.\<close>

definition art_holds :: "art_node option \<Rightarrow> callstack_entry list list \<Rightarrow> bool" where
  "art_holds t ss \<longleftrightarrow> run art_step (None, enough) ss = Inr (t, enough) \<and> art_rep t (tally (map stack_key ss))"

definition art_accepts :: "callstack_entry list list \<Rightarrow> callstack_entry list \<Rightarrow> bool" where
  "art_accepts ss s \<longleftrightarrow>
     (case run art_step (None, enough) ss of Inl e \<Rightarrow> False | Inr (t, a) \<Rightarrow> stack_safe t s)"

definition plenty :: "alloc_state \<Rightarrow> bool" where
  "plenty a \<longleftrightarrow> plan a = []"

lemma art_new_ok: "plenty a \<Longrightarrow> art_tree_new a = Inr (None, a)"
  by (simp add: plenty_def art_tree_new_def art_calloc_def calloc_ok_def)

text \<open>With enough memory the allocator does not matter.\<close>

lemma run_lasts:
  "plan a = [] \<Longrightarrow> run art_step (t, a) ss = rbind (run lasting_tree_insert t ss) (\<lambda>t. Inr (t, a))"
proof (induction ss arbitrary: t)
  case (Cons s ss)
  then show ?case by (cases "lasting_tree_insert t s") (simp_all add: art_step_def tree_insert_lasts)
qed simp

lemma run_enough: "plan a = [] \<Longrightarrow> run art_step (None, enough) ss = Inr (t, enough) \<Longrightarrow> run art_step (None, a) ss = Inr (t, a)"
  by (auto simp: run_lasts)

lemma art_insert_holds:
  assumes "art_holds t ss" "art_accepts ss s" "plenty a"
  shows "\<exists>t'. art_tree_insert t s a = Inr (t', a) \<and> art_holds t' (ss @ [s])"
proof -
  have "stack_safe t s" using assms(1,2) by (simp add: art_holds_def art_accepts_def)
  with assms(1) obtain t' where "lasting_tree_insert t s = Inr t'" "art_rep t' (bump (stack_key s) (tally (map stack_key ss)))"
    using art_rep_insert [of t "tally (map stack_key ss)" s] by (auto simp: art_holds_def)
  then show ?thesis using assms(1,3)
    by (auto simp: plenty_def art_holds_def run_append tally_snoc art_step_def tree_insert_lasts)
qed

lemma guarded_prefix:
  "step_rep r ks \<Longrightarrow> guarded art_step step_safe r (xs @ y # ys) \<Longrightarrow>
     \<exists>t. run art_step r xs = Inr t \<and> step_safe t y"
proof (induction xs arbitrary: r ks)
  case (Cons x xs)
  then obtain r' where "art_step r x = Inr r'" "step_rep r' (bump (stack_key x) ks)"
    using step_rep_insert [of r ks x] by auto
  then show ?case using Cons by auto
qed simp

lemma guarded_accepted:
  assumes "guarded art_step step_safe (None, enough) ss"
  shows "all_accepted art_accepts ss"
  unfolding all_accepted_def
proof (intro allI impI)
  fix i assume i: "i < length ss"
  have "step_rep (None, enough) []" by (simp add: step_rep_def art_rep_def)
  moreover have "guarded art_step step_safe (None, enough) (take i ss @ ss ! i # drop (Suc i) ss)"
    using assms id_take_nth_drop [OF i] by simp
  ultimately show "art_accepts (take i ss) (ss ! i)"
    using guarded_prefix by (fastforce simp: art_accepts_def step_safe_def)
qed

interpretation art_main: callstack_backend art_ops "\<lambda>g. art_holds" "\<lambda>n. plenty" art_accepts "\<lambda>ss. ()"
proof
  show "\<exists>t' g'. op_insert art_ops t g s = Some (Inr (t', g')) \<and> plenty g' \<and> art_holds t' (ss @ [s]) \<and>
      (\<forall>u us. art_holds u us \<longrightarrow> art_holds u us)"
    if "plenty g" "art_holds t ss" "art_accepts ss s" for g t ss s
    using art_insert_holds [OF that(2,3,1)] that(1) by (auto simp: art_ops_def)
  show "\<exists>t g'. op_new art_ops g = Some (Inr (t, g')) \<and> plenty g' \<and> art_holds t [] \<and>
      (\<forall>u us. art_holds u us \<longrightarrow> art_holds u us)" if "plenty g" for g
    using that by (simp add: art_ops_def art_new_ok art_holds_def art_rep_def tally_def)
qed (auto simp: art_ops_def)

subsection \<open>The hash table\<close>

text \<open>The backend's globals: the memory the streams lie in, \<open>num_unique_entries\<close> and the
  allocator. \<open>slot\<close> is where \<open>insert\<close> has its local stream.\<close>

definition hash_ops :: "sptr \<Rightarrow> (hashtable, streams \<times> u64 \<times> alloc_state, u64 \<times> u64) callstack_ops" where
  "hash_ops slot = \<lparr>op_new = (\<lambda>(st, u, a). Some (rbind (hash_new a) (\<lambda>(t, a). Inr (t, st, u, a)))),
     op_insert = (\<lambda>t (st, u, a) stack. Some (
       rbind (hash_tree_insert slot (st, \<lparr>hw_table = t, num_unique_entries = u, hw_alloc = a\<rparr>) stack) (\<lambda>(st, w).
         Inr (hw_table w, st, num_unique_entries w, hw_alloc w)))),
     op_stats = (\<lambda>t. Some (Inr (hash_stats t)))\<rparr>"

definition fresh_table :: hashtable where
  "fresh_table = \<lparr>ht_bucket = replicate NUM_INTERNAL empty_bucket, ht_map = (\<lambda>_. None),
     num_internal = 0, unique = 0, hits = 0\<rparr>"

definition hash_holds :: "sptr \<Rightarrow> hashtable \<Rightarrow> callstack_entry list list \<Rightarrow> bool" where
  "hash_holds slot t ss \<longleftrightarrow>
     (if ss = [] then t = fresh_table else one_key slot (fresh_world\<lparr>hw_table := t\<rparr>) (length ss - 1))"

definition hash_ready :: "streams \<times> u64 \<times> alloc_state \<Rightarrow> bool" where
  "hash_ready g \<longleftrightarrow> plenty (snd (snd g))"

text \<open>What \<open>hash_stats\<close> prints of a tree: one key, and a hit for every stack but the first.\<close>

definition hash_report :: "callstack_entry list list \<Rightarrow> u64 \<times> u64" where
  "hash_report ss = (if ss = [] then (0, 0) else (1, of_nat (length ss - 1)))"

lemma one_key_table: "one_key slot w n \<longleftrightarrow> one_key slot (fresh_world\<lparr>hw_table := hw_table w\<rparr>) n"
  by (simp add: one_key_def Let_def)

lemma hash_insert_holds:
  assumes "hash_holds slot t ss" "stack_end s \<noteq> None"
  shows "\<exists>st' w. hash_tree_insert slot (st, \<lparr>hw_table = t, num_unique_entries = u, hw_alloc = a\<rparr>) s = Inr (st', w) \<and>
    hw_alloc w = a \<and> hash_holds slot (hw_table w) (ss @ [s])"
proof -
  obtain m where m: "stack_end s = Some m" using assms(2) by auto
  show ?thesis
  proof (cases ss)
    case Nil
    then show ?thesis using assms(1) m
      by (simp add: hash_holds_def fresh_table_def hash_tree_insert_def hash_insert_def NUM_INTERNAL_def rd_ok
          one_key_def update_unique_def empty_bucket_def Let_def)
  next
    case (Cons x xs)
    have "16 * m \<le> length (stack_bytes s)" using stack_end_Some [OF m] by simp
    then show ?thesis using assms(1) m Cons
      by (simp add: hash_holds_def hash_tree_insert_def hash_insert_def NUM_INTERNAL_def one_key_def
          Let_def rd_ok memcmp_eq_ok del: length_stack_bytes)
  qed
qed

interpretation hash_main: callstack_backend "hash_ops slot" "\<lambda>g. hash_holds slot" "\<lambda>n. hash_ready"
  "\<lambda>ss s. stack_end s \<noteq> None" hash_report for slot
proof
  show "\<exists>t g'. op_new (hash_ops slot) g = Some (Inr (t, g')) \<and> hash_ready g' \<and> hash_holds slot t [] \<and>
      (\<forall>u us. hash_holds slot u us \<longrightarrow> hash_holds slot u us)"
    if "hash_ready g" for g
    using that by (cases g) (simp add: hash_ops_def hash_ready_def plenty_def hash_new_def alloc_table_def ht_alloc_def
        ccalloc_plenty hash_holds_def fresh_table_def)
  show "\<exists>t' g'. op_insert (hash_ops slot) t g s = Some (Inr (t', g')) \<and> hash_ready g' \<and> hash_holds slot t' (ss @ [s]) \<and>
      (\<forall>u us. hash_holds slot u us \<longrightarrow> hash_holds slot u us)"
    if "hash_ready g" "hash_holds slot t ss" "stack_end s \<noteq> None" for g t ss s
    using hash_insert_holds [OF that(2,3), of "fst g" "fst (snd g)" "snd (snd g)"] that(1)
    by (cases g) (auto simp: hash_ops_def hash_ready_def)
  show "op_stats (hash_ops slot) t = Some (Inr (hash_report ss))" if "hash_holds slot t ss" for t ss
    using that by (auto simp: hash_ops_def hash_holds_def hash_stats_def hash_report_def fresh_table_def one_key_def Let_def
        split: if_splits)
qed auto

subsection \<open>Whole runs\<close>

text \<open>C13. A run over records whose stacks all end: with enough memory the program terminates,
  reports 20 times the records and one tree per id, and prints for every id, the largest
  first, one unique entry and a hit for each of its stacks but the first.\<close>

theorem main_hash:
  assumes "good_heap h {}" "card (r_id ` set records) \<le> length h" "plan a = []"
    and "\<forall>r \<in> set records. stack_end (r_stack r) \<noteq> None"
  shows "main_loop (hash_ops slot) records (st, u, a) h = Some (Inr (of_nat (20 * length records),
    map (\<lambda>k. (1, of_nat (20 * length (stacks_of k records) - 1))) (ids_of records),
    of_nat (card (r_id ` set records))))"
proof -
  have "\<forall>k. all_accepted (\<lambda>ss s. stack_end s \<noteq> None) (concat (replicate 20 (stacks_of k records)))"
  proof
    fix k
    have "\<forall>s \<in> set (concat (replicate 20 (stacks_of k records))). stack_end s \<noteq> None"
      using assms(4) by (auto simp: stacks_of_def set_replicate_conv_if)
    then show "all_accepted (\<lambda>ss s. stack_end s \<noteq> None) (concat (replicate 20 (stacks_of k records)))"
      unfolding all_accepted_def using nth_mem by blast
  qed
  then have "main_loop (hash_ops slot) records (st, u, a) h = Some (Inr (of_nat (20 * length records),
      map (\<lambda>k. hash_report (concat (replicate 20 (stacks_of k records)))) (ids_of records),
      of_nat (card (r_id ` set records))))"
    using assms(1-3) by (intro hash_main.main_result) (simp_all add: hash_ready_def plenty_def)
  moreover have "hash_report (concat (replicate 20 (stacks_of k records))) =
      (1, of_nat (20 * length (stacks_of k records) - 1))" if "k \<in> set (ids_of records)" for k
  proof -
    have "length (concat (replicate 20 (stacks_of k records))) = 20 * length (stacks_of k records)"
      by (simp add: length_concat sum_list_replicate)
    moreover have "stacks_of k records \<noteq> []" using that by (force simp: ids_of_def stacks_of_def filter_empty_conv)
    ultimately show ?thesis by (auto simp: hash_report_def)
  qed
  ultimately show ?thesis by (simp cong: map_cong)
qed

definition two_records :: "crecord list" where
  "two_records = [\<lparr>r_id = 4369, r_stack = stack_a\<rparr>, \<lparr>r_id = 7, r_stack = stack_b\<rparr>, \<lparr>r_id = 4369, r_stack = stack_b\<rparr>]"

lemma two_records_ids: "r_id ` set two_records = {4369, 7}" "ids_of two_records = [4369, 7]"
  "length two_records = 3" "length (stacks_of 4369 two_records) = 2" "length (stacks_of 7 two_records) = 1"
  by code_simp+

lemma two_heap: "good_heap [16, 32] {}"
  by code_simp

lemma two_records_end: "\<forall>r \<in> set two_records. stack_end (r_stack r) \<noteq> None"
  by code_simp

theorem main_hash_witness:
  "main_loop (hash_ops 0) two_records ((\<lambda>_. \<lparr>s_mem = [], s_len = 0\<rparr>), 0, enough) [16, 32] =
     Some (Inr (60, [(1, 39), (1, 19)], 2))"
  using main_hash [OF two_heap _ _ two_records_end, of enough 0 "\<lambda>_. \<lparr>s_mem = [], s_len = 0\<rparr>" 0]
  by (simp add: two_records_ids enough_def)

text \<open>C10. While memory lasts and every stack that comes is, when it comes, outside the situations in
  which the radix tree of its id loses keys or counts (\<open>art_accepts\<close>: the stack ends; it does not end
  inside a prefix or extend a leaf that has a count; a leaf is split after at most 128 common
  bytes; the bytes compared past the end of an equal leaf are equal; and no full node that has a
  prefix or a count has to grow), a run of the radix tree backend leaves for every id exactly the
  tree that its own stacks would have made in a run of their own: the main loop keeps the trees
  of different ids apart, whatever the order of the records. Records with a stack in such a
  situation are excluded.\<close>

theorem main_art_trees:
  assumes "good_heap h {}" "card (r_id ` set records) \<le> length h" "plan a = []"
    and "\<forall>k. all_accepted art_accepts (concat (replicate 20 (stacks_of k records)))"
  shows "\<exists>s. rounds 20 art_ops records (init_state a h) = Some (Inr s) \<and>
    num_records s = of_nat (20 * length records) \<and>
    (\<forall>k \<in> r_id ` set records. \<exists>p t.
       get_tree art_ops k (trees s, shared s, free_mem s) = Some (Inr (p, trees s, shared s, free_mem s)) \<and>
       tree_at (trees s) p = Some \<lparr>tr_id = k, cs_tree = t\<rparr> \<and>
       run art_step (None, a) (concat (replicate 20 (stacks_of k records))) = Inr (t, a))"
proof -
  let ?rs = "concat (replicate 20 records)"
  have len: "length ?rs = 20 * length records" by (simp add: length_concat sum_list_replicate)
  obtain s where s: "rounds 20 art_ops records (init_state a h) = Some (Inr s)" "art_main.loop_inv s ?rs 0"
    using art_main.rounds_hold [OF assms(1,2) _ assms(4), of a] assms(3) by (auto simp: plenty_def)
  have "num_records s = of_nat (20 * length records)"
    using s(2) len unfolding art_main.loop_inv_def by metis
  moreover have "\<exists>p t. get_tree art_ops k (trees s, shared s, free_mem s) = Some (Inr (p, trees s, shared s, free_mem s)) \<and>
       tree_at (trees s) p = Some \<lparr>tr_id = k, cs_tree = t\<rparr> \<and>
       run art_step (None, a) (concat (replicate 20 (stacks_of k records))) = Inr (t, a)"
    if k: "k \<in> r_id ` set records" for k
  proof -
    have "k \<in> r_id ` set ?rs" using k by (simp add: set_replicate_conv_if)
    from art_main.loop_inv_tree [OF s(2) this] show ?thesis
      using run_enough [OF assms(3)] by (simp only: stacks_of_repeat art_holds_def) blast
  qed
  ultimately show ?thesis using s(1) by blast
qed

definition art_records :: "crecord list" where
  "art_records = [\<lparr>r_id = 4369, r_stack = stack_a\<rparr>, \<lparr>r_id = 7, r_stack = stack_b\<rparr>]"

lemma art_records_ids: "r_id ` set art_records = {4369, 7}" by code_simp

lemma art_records_guarded:
  "guarded art_step step_safe (None, enough) (concat (replicate 20 (stacks_of 4369 art_records)))"
  "guarded art_step step_safe (None, enough) (concat (replicate 20 (stacks_of 7 art_records)))"
  by code_simp+

lemma art_records_accepted_all: "all_accepted art_accepts (concat (replicate 20 (stacks_of k art_records)))"
proof (cases "k \<in> r_id ` set art_records")
  case False
  then have "stacks_of k art_records = []" by (rule stacks_of_Nil)
  then show ?thesis by (simp only: concat_replicate_trivial) (simp add: all_accepted_def)
qed (use art_records_guarded in \<open>auto simp: art_records_ids intro: guarded_accepted\<close>)

theorem main_art_trees_witness:
  "\<exists>s. rounds 20 art_ops art_records (init_state enough [16, 32]) = Some (Inr s) \<and>
    num_records s = of_nat (20 * length art_records) \<and>
    (\<forall>k \<in> r_id ` set art_records. \<exists>p t.
       get_tree art_ops k (trees s, shared s, free_mem s) = Some (Inr (p, trees s, shared s, free_mem s)) \<and>
       tree_at (trees s) p = Some \<lparr>tr_id = k, cs_tree = t\<rparr> \<and>
       run art_step (None, enough) (concat (replicate 20 (stacks_of k art_records))) = Inr (t, enough))"
  by (rule main_art_trees [OF two_heap]) (simp_all only: art_records_accepted_all, simp_all add: art_records_ids enough_def)

text \<open>C37. A stack without an entry of address 0 among its 256 leaves \<open>stream->end\<close> unwritten, and
  both byte-wise backends go on to read it: from every state of the main loop with memory for the
  tree of its id, the run stops there.\<close>

theorem unterminated_stack:
  assumes "state_ok s M" "M (r_id r) = None \<longrightarrow> free_mem s \<noteq> []" "stack_end (r_stack r) = None"
    and "state_ok s' M'" "M' (r_id r) = None \<longrightarrow> free_mem s' \<noteq> []"
    and "plan (shared s) = []" "plan (snd (snd (shared s'))) = []"
  shows "process art_ops r s = Some (Inl Uninit_read) \<and> process (hash_ops slot) r s' = Some (Inl Uninit_read)"
proof
  obtain x g where "(case M (r_id r) of Some x \<Rightarrow> Some (Inr (x, shared s)) | None \<Rightarrow> op_new art_ops (shared s)) = Some (Inr (x, g))"
    using art_main.new_holds [of "shared s"] assms(6) by (cases "M (r_id r)") (auto simp: plenty_def)
  moreover have "op_insert art_ops x g (r_stack r) = Some (Inl Uninit_read)"
    using assms(3) by (simp add: art_ops_def art_tree_insert_def)
  ultimately show "process art_ops r s = Some (Inl Uninit_read)" by (rule process_fails [OF assms(1,2)])
  obtain y g' where "(case M' (r_id r) of Some x \<Rightarrow> Some (Inr (x, shared s')) | None \<Rightarrow> op_new (hash_ops slot) (shared s')) = Some (Inr (y, g'))"
    using hash_main.new_holds [of "shared s'" slot] assms(7)
    by (cases "M' (r_id r)") (auto simp: hash_ready_def plenty_def)
  moreover have "op_insert (hash_ops slot) y g' (r_stack r) = Some (Inl Uninit_read)"
    using assms(3) by (cases g') (simp add: hash_ops_def hash_tree_insert_def)
  ultimately show "process (hash_ops slot) r s' = Some (Inl Uninit_read)" by (rule process_fails [OF assms(4,5)])
qed

definition endless :: crecord where
  "endless = \<lparr>r_id = 7, r_stack = replicate 256 \<lparr>ip = 1, cmap = 2\<rparr>\<rparr>"

lemma init_state_ok: "state_ok (init_state g [16]) (\<lambda>_. None)"
  using trees_hold_init by (auto simp: state_ok_def init_state_def good_heap_def aligned_def intro!: exI [of _ Lf])

theorem unterminated_stack_witness:
  "process art_ops endless (init_state enough [16]) = Some (Inl Uninit_read) \<and>
   process (hash_ops 0) endless (init_state ((\<lambda>_. \<lparr>s_mem = [], s_len = 0\<rparr>), 0, enough) [16]) = Some (Inl Uninit_read)"
proof (rule unterminated_stack [OF init_state_ok _ _ init_state_ok])
  show "stack_end (r_stack endless) = None"
    by (simp add: stack_end_def MAX_STACK_ENTRIES_def scan_stack_None endless_def)
qed (simp_all add: init_state_def enough_def)

end
