(* ===== verification/Main_Total.thy ===== *)
theory Main_Total
  imports Backends Art_Type
begin

text \<open>
  The program ends for every table of records, also one whose stacks have no end, and whenever
  memory runs out: \<open>ending_backend\<close> is what the main loop needs of a backend for this.
\<close>

subsection \<open>The contract\<close>

text \<open>\<open>inv g\<close>: what holds of every tree, with \<open>g\<close> as the shared state; \<open>ready n g\<close>: \<open>g\<close> serves \<open>n\<close>
  more calls; \<open>accepts\<close>: the stacks the backend is given; \<open>errs\<close>: how a call may fail.\<close>

locale ending_backend =
  fixes ops :: "('t, 'g, 'o) callstack_ops"
    and inv :: "'g \<Rightarrow> 't \<Rightarrow> bool"
    and ready :: "nat \<Rightarrow> 'g \<Rightarrow> bool"
    and accepts :: "callstack_entry list \<Rightarrow> bool"
    and errs :: "cerror set"
  assumes new_ends: "ready (Suc n) g \<Longrightarrow> \<exists>r. op_new ops g = Some r \<and> (case r of Inl e \<Rightarrow> e \<in> errs
      | Inr (t, g') \<Rightarrow> ready n g' \<and> inv g' t \<and> (\<forall>u. inv g u \<longrightarrow> inv g' u))"
    and insert_ends: "ready (Suc n) g \<Longrightarrow> inv g t \<Longrightarrow> accepts s \<Longrightarrow> \<exists>r. op_insert ops t g s = Some r \<and> (case r of Inl e \<Rightarrow> e \<in> errs
      | Inr (t', g') \<Rightarrow> ready n g' \<and> inv g' t' \<and> (\<forall>u. inv g u \<longrightarrow> inv g' u))"
    and stats_ends: "inv g t \<Longrightarrow> \<exists>out. op_stats ops t = Some (Inr out)"
    and ready_less: "ready (Suc n) g \<Longrightarrow> ready n g"
    and dies: "Exit_failure \<in> errs"
begin

definition run_inv :: "('t, 'g) main_state \<Rightarrow> crecord list \<Rightarrow> nat \<Rightarrow> bool" where
  "run_inv s seen n \<longleftrightarrow> (\<exists>M. state_ok s M \<and> dom M = r_id ` set seen \<and> (\<forall>k t. M k = Some t \<longrightarrow> inv (shared s) t) \<and>
     num_records s = of_nat (length seen) \<and> ready (2 * n) (shared s))"

text \<open>A run that ends: in an error of the backend, or in a result for which \<open>P\<close> holds.\<close>

definition ends :: "('r \<Rightarrow> bool) \<Rightarrow> 'r run \<Rightarrow> bool" where
  "ends P r \<longleftrightarrow> (case r of None \<Rightarrow> False | Some (Inl e) \<Rightarrow> e \<in> errs | Some (Inr x) \<Rightarrow> P x)"

lemma ends_simps [simp]: "ends P (Some (Inl e)) \<longleftrightarrow> e \<in> errs" "ends P (Some (Inr x)) \<longleftrightarrow> P x" "\<not> ends P None"
  by (simp_all add: ends_def)

lemma ends_obind: "ends Q r \<Longrightarrow> (\<And>x. Q x \<Longrightarrow> ends P (f x)) \<Longrightarrow> ends P (obind r f)"
proof -
  assume r: "ends Q r" and f: "\<And>x. Q x \<Longrightarrow> ends P (f x)"
  show "ends P (obind r f)"
  proof (cases r)
    case (Some v)
    then show ?thesis using r f by (cases v) auto
  qed (use r in simp)
qed

lemma get_tree_dies:
  assumes t: "trees_hold ts t M" and k: "M k = None" and new: "op_new ops g = Some r" "case r of Inl e \<Rightarrow> True | Inr x \<Rightarrow> h = []"
  shows "\<exists>e. get_tree ops k (ts, g, h) = Some (Inl e) \<and> (e = Exit_failure \<or> r = Inl e)"
proof -
  obtain l where "loop (locate_step (tree_cmp ts k) (tree_of (entries ts))) (Root_link, 0, True) = Some (Inr (Inl l))"
    using tree_locate [OF t, of k] k by (auto simp: domIff)
  then show ?thesis using new by (auto simp: get_tree_def calloc_or_die_def split: sum.splits)
qed

lemma process_ends:
  assumes s: "run_inv s seen (Suc n)" and acc: "accepts (r_stack r)"
  shows "ends (\<lambda>s'. run_inv s' (seen @ [r]) n) (process ops r s)"
proof -
  obtain M where M: "state_ok s M" "dom M = r_id ` set seen" "\<And>k t. M k = Some t \<Longrightarrow> inv (shared s) t"
      "num_records s = of_nat (length seen)" "ready (Suc (Suc (2 * n))) (shared s)"
    using s by (auto simp: run_inv_def)
  let ?new = "case M (r_id r) of Some x \<Rightarrow> Some (Inr (x, shared s)) | None \<Rightarrow> op_new ops (shared s)"
  obtain i where i: "?new = Some i" "case i of Inl e \<Rightarrow> e \<in> errs
      | Inr (t, g') \<Rightarrow> ready (Suc (2 * n)) g' \<and> inv g' t \<and> (\<forall>u. inv (shared s) u \<longrightarrow> inv g' u)"
    using new_ends [OF M(5)] ready_less [OF M(5)] M(3) by (cases "M (r_id r)") auto
  show ?thesis
  proof (cases "M (r_id r) = None \<and> (case i of Inl e \<Rightarrow> True | Inr x \<Rightarrow> free_mem s = [])")
    case True
    obtain t where t: "trees_hold (trees s) t M" using M(1) by (auto simp: state_ok_def)
    have "op_new ops (shared s) = Some i" using i(1) True by simp
    from get_tree_dies [OF t _ this] True obtain e where
      "get_tree ops (r_id r) (trees s, shared s, free_mem s) = Some (Inl e)" "e = Exit_failure \<or> i = Inl e" by blast
    then show ?thesis using i(2) dies by (auto simp: process_def)
  next
    case False
    then obtain x g where x: "i = Inr (x, g)" "M (r_id r) = None \<longrightarrow> free_mem s \<noteq> []" "ready (Suc (2 * n)) g" "inv g x"
        "\<And>u. inv (shared s) u \<Longrightarrow> inv g u"
      using i by (cases i; cases "M (r_id r)") auto
    obtain j where j: "op_insert ops x g (r_stack r) = Some j" "case j of Inl e \<Rightarrow> e \<in> errs
        | Inr (t', g') \<Rightarrow> ready (2 * n) g' \<and> inv g' t' \<and> (\<forall>u. inv g u \<longrightarrow> inv g' u)"
      using insert_ends [OF x(3,4) acc] by blast
    show ?thesis
    proof (cases j)
      case (Inl e)
      then show ?thesis using process_fails [OF M(1) x(2), where ops = ops and x = x and g = g and e = e] i(1) x(1) j by simp
    next
      case (Inr yg)
      obtain y g' where yg: "yg = (y, g')" by (cases yg)
      have y: "ready (2 * n) g'" "inv g' y" "\<And>u. inv g u \<Longrightarrow> inv g' u" using j(2) Inr yg by simp_all
      obtain s' where s': "process ops r s = Some (Inr s')" "state_ok s' (M(r_id r \<mapsto> y))" "shared s' = g'"
          "num_records s' = num_records s + 1"
        using process_ok [OF M(1) x(2), where ops = ops and x = x and g = g and y = y and g' = g'] i(1) x(1) j(1) Inr yg by auto
      have "inv g' t" if "(M(r_id r \<mapsto> y)) k = Some t" for k t
        using that y(2) y(3) [OF x(5) [OF M(3)]] by (auto split: if_splits)
      then have "run_inv s' (seen @ [r]) n"
        unfolding run_inv_def using s'(2-4) M(2,4) y(1) by (intro exI [of _ "M(r_id r \<mapsto> y)"]) auto
      then show ?thesis using s'(1) by simp
    qed
  qed
qed

lemma process_all_ends:
  "run_inv s seen (length rs) \<Longrightarrow> \<forall>r \<in> set rs. accepts (r_stack r) \<Longrightarrow>
     ends (\<lambda>s'. run_inv s' (seen @ rs) 0) (process_all ops rs s)"
proof (induction rs arbitrary: s seen)
  case (Cons r rs)
  have "run_inv s seen (Suc (length rs))" "accepts (r_stack r)" using Cons.prems by simp_all
  then show ?case unfolding process_all.simps
    by (rule ends_obind [OF process_ends]) (use Cons in fastforce)
qed simp

lemma walk_ends:
  assumes t: "trees_hold ts t M" "\<forall>k x. M k = Some x \<longrightarrow> inv g x"
  shows "addrs t = xs @ ys \<Longrightarrow> \<exists>out. walk ops ts (hd0 ys) acc = Some (Inr (out, snd acc + of_nat (length ys)))"
proof (induction ys arbitrary: xs acc)
  case Nil
  then show ?case by (cases acc) (simp add: walk.simps)
next
  case (Cons a ys)
  have h: "holds_tree (tree_of (entries ts)) t" using t(1) by (auto simp: trees_hold_def dest: keyed_holds)
  have a: "a \<in> set (addrs t)" "a \<noteq> 0" using Cons.prems h by (auto simp: holds_tree_def valid_addrs_def)
  obtain x where x: "tree_at ts a = Some \<lparr>tr_id = id_at ts a, cs_tree = x\<rparr>" "M (id_at ts a) = Some x"
    using held_at [OF t(1) a(1)] by blast
  have "rb_next (tree_of (entries ts)) a = Some (Inr (hd0 ys))"
    using rb_step_correct [OF h, of R xs a ys] Cons.prems by (simp add: rb_next_def daddrs_def)
  moreover obtain line where "op_stats ops x = Some (Inr line)" using stats_ends t(2) x(2) by blast
  ultimately have "walk ops ts (hd0 (a # ys)) acc = walk ops ts (hd0 ys) (fst acc @ [line], snd acc + 1)"
    using a(2) x(1) by (subst walk.simps) simp
  then show ?case using Cons.IH [of "xs @ [a]" "(fst acc @ [line], snd acc + 1)"] Cons.prems by (simp add: ac_simps)
qed

lemma run_ends:
  fixes records :: "crecord list"
  assumes h: "good_heap h {}" and g: "ready (40 * length records) g" and acc: "\<forall>r \<in> set records. accepts (r_stack r)"
  shows "ends (\<lambda>(n, out, nt). n = of_nat (20 * length records) \<and> nt = of_nat (card (r_id ` set records)))
    (main_loop ops records g h)"
  unfolding main_loop_def
proof (rule ends_obind)
  let ?rs = "concat (replicate 20 records)"
  have len: "length ?rs = 20 * length records" by (simp add: length_concat sum_list_replicate)
  have "run_inv (init_state g h) [] (length ?rs)"
    unfolding len using h g trees_hold_init by (auto simp: run_inv_def init_state_def state_ok_def intro!: exI [of _ "\<lambda>_. None"] exI [of _ Lf])
  from process_all_ends [OF this] acc show "ends (\<lambda>s. run_inv s ?rs 0) (rounds 20 ops records (init_state g h))"
    by (simp add: rounds_flat set_replicate_conv_if)
  fix s assume "run_inv s ?rs 0"
  then obtain M t where M: "trees_hold (trees s) t M" "dom M = r_id ` set ?rs" "\<forall>k t. M k = Some t \<longrightarrow> inv (shared s) t"
      "num_records s = of_nat (length ?rs)"
    by (auto simp: run_inv_def state_ok_def)
  have ht: "holds_tree (tree_of (entries (trees s))) t" using M(1) by (auto simp: trees_hold_def dest: keyed_holds)
  have "distinct (map (id_at (trees s)) (addrs t))"
  proof -
    have "sorted_wrt (<) (rev (map (id_at (trees s)) (addrs t)))"
      using M(1) by (simp add: trees_hold_def keyed_def sorted_wrt_rev)
    then show ?thesis using strict_sorted_iff distinct_rev by metis
  qed
  then have "length (addrs t) = card (id_at (trees s) ` set (addrs t))" by (metis distinct_card length_map set_map)
  also have "\<dots> = card (r_id ` set records)"
    using M(1,2) by (simp add: trees_hold_def set_replicate_conv_if)
  finally have card: "length (addrs t) = card (r_id ` set records)" .
  have first: "rb_first (tree_of (entries (trees s))) = Some (Inr (hd0 (addrs t)))"
    using rb_end_correct [OF ht, of L] by (simp add: rb_first_def daddrs_def)
  obtain out where "walk ops (trees s) (hd0 (addrs t)) ([], 0) = Some (Inr (out, 0 + of_nat (length (addrs t))))"
    using walk_ends [OF M(1,3), of "[]" "addrs t" "([], 0)"] by auto
  then show "ends (\<lambda>(n, out, nt). n = of_nat (20 * length records) \<and> nt = of_nat (card (r_id ` set records)))
     (obind (rb_first (tree_of (entries (trees s)))) (\<lambda>n. obind (walk ops (trees s) n ([], 0)) (\<lambda>(out, num_trees).
       Some (Inr (num_records s, out, num_trees)))))"
    using first M(4) card len by simp
qed

end

subsection \<open>How the radix tree fails\<close>

text \<open>While memory lasts, no operation of the radix tree dereferences NULL.\<close>

named_theorems no_null \<open>operations that do not dereference NULL\<close>

lemma basic_no_null [no_null]:
  "rassert b \<noteq> Inl Null_deref" "rd xs i \<noteq> Inl Null_deref" "wr xs i v \<noteq> Inl Null_deref"
  "memcmp_eq p q n \<noteq> Inl Null_deref" "stream_get s i \<noteq> Inl Null_deref" "stream_slice s i n \<noteq> Inl Null_deref"
  "node_size f \<noteq> Inl Null_deref" "is_full h \<noteq> Inl Null_deref"
  by (simp_all add: result_simps stream_get_def stream_slice_def node_size_def is_full_def rbind_Inl_iff)

lemma alloc_no_null [no_null]: "lasting_alloc_node f \<noteq> Inl Null_deref" "free_node h \<noteq> Inl Null_deref" "grow_type f \<noteq> Inl Null_deref"
  "lasting_make_leaf s \<noteq> Inl Null_deref"
  by (simp_all add: lasting_alloc_node_def free_node_def grow_type_def lasting_make_leaf_def rbind_Inl_iff no_null)

lemma scan_no_null [no_null]: "scan_keys ks is k \<noteq> Inl Null_deref"
  by (induction "is") (simp_all add: rbind_Inl_iff no_null)

lemma child_no_null [no_null]: "find_child h k \<noteq> Inl Null_deref" "child_at cs slot \<noteq> Inl Null_deref"
  "key_absent h cs k \<noteq> Inl Null_deref"
  by (simp_all add: find_child_def find_child_16_def child_at_def key_absent_def rbind_Inl_iff no_null split: option.split)

lemma add_child_no_null [no_null]: "add_child m k c \<noteq> Inl Null_deref"
  by (simp add: add_child_def Let_def rbind_Inl_iff no_null)

lemma match_no_null [no_null]: "count_match p s d i n \<noteq> Inl Null_deref" "leaf_match h s m \<noteq> Inl Null_deref"
proof -
  show "count_match p s d i n \<noteq> Inl Null_deref"
    by (induction n arbitrary: i) (simp_all add: rbind_Inl_iff no_null)
  show "leaf_match h s m \<noteq> Inl Null_deref"
  proof (induction h s m rule: leaf_match.induct)
    case (1 h s m)
    then show ?case by (subst leaf_match.simps) (auto simp: rbind_Inl_iff no_null)
  qed
qed

lemma check_prefix_no_null [no_null]: "check_prefix h s d \<noteq> Inl Null_deref"
  by (simp add: check_prefix_def Let_def rbind_Inl_iff no_null)

lemma grow_loops_no_null [no_null]: "grow_index old is new \<noteq> Inl Null_deref" "grow_direct old is new \<noteq> Inl Null_deref"
proof -
  show "grow_index old is new \<noteq> Inl Null_deref"
    by (induction "is" arbitrary: new) (simp_all add: rbind_Inl_iff no_null)
  show "grow_direct old is new \<noteq> Inl Null_deref"
    by (induction "is" arbitrary: new) (simp_all add: rbind_Inl_iff no_null)
qed

lemma grow_no_null [no_null]: "lasting_grow n \<noteq> Inl Null_deref"
  by (simp add: lasting_grow_def Let_def rbind_Inl_iff no_null)

lemma chain_no_null [no_null]: "lasting_chain_loop s d j rem outers new \<noteq> Inl Null_deref"
proof (induction s d j rem outers new rule: lasting_chain_loop.induct)
  case (1 s d j rem outers new)
  then show ?case by (subst lasting_chain_loop.simps) (auto simp: Let_def rbind_Inl_iff no_null)
qed

lemma split_no_null [no_null]: "lasting_split_leaf n s d m \<noteq> Inl Null_deref" "lasting_split_prefix n s d m \<noteq> Inl Null_deref"
  "lasting_add_leaf n s d \<noteq> Inl Null_deref"
  by (auto simp: lasting_split_leaf_def lasting_split_prefix_def lasting_add_leaf_def Let_def rbind_Inl_iff no_null split: prod.splits)

lemma do_leaf_no_null [no_null]: "lasting_do_leaf n s d \<noteq> Inl Null_deref"
  by (simp add: lasting_do_leaf_def Let_def rbind_Inl_iff no_null)

lemma insert_at_no_null [no_null]: "lasting_insert_at n s d \<noteq> Inl Null_deref"
proof (induction n s d rule: lasting_insert_at.induct)
  case (1 h cs s d)
  show ?case
  proof
    assume "lasting_insert_at (ANode h cs) s d = Inl Null_deref"
    then obtain k slot i c where n: "\<not> is_leaf h" "check_prefix h s d = Inr (prefix_len h)" "\<not> stream_size s \<le> d + prefix_len h"
        "stream_get s (d + prefix_len h) = Inr k" "find_child h k = Inr slot" "child_at cs slot = Inr (Some (i, c))"
        "lasting_insert_at c (stream_advance s 1) (d + prefix_len h + 1) = Inl Null_deref"
      by (subst (asm) lasting_insert_at.simps) (auto simp: Let_def rbind_Inl_iff no_null split: if_splits option.splits)
    show False using "1" [OF n(1,2) _ refl n(3-6) refl refl] n(7) by simp
  qed
qed

lemma lasting_tree_insert_no_null [no_null]: "lasting_tree_insert r stack \<noteq> Inl Null_deref"
  by (auto simp: lasting_tree_insert_def lasting_insert_def rbind_Inl_iff no_null split: option.splits prod.splits)

lemma tree_insert_no_null: "False \<notin> set (plan a) \<Longrightarrow> art_tree_insert r stack a \<noteq> Inl Null_deref"
  by (rule tree_insert_sure [OF _ lasting_tree_insert_no_null])

lemma calloc_plan: "calloc_ok a = (p, b) \<Longrightarrow> set (plan b) \<subseteq> set (plan a)"
  by (auto simp: calloc_ok_def split: list.splits)

lemma tree_new_ends:
  "case art_tree_new a of Inl e \<Rightarrow> e = Exit_failure | Inr (t, b) \<Rightarrow> t = None \<and> set (plan b) \<subseteq> set (plan a)"
  by (auto simp: art_tree_new_def art_calloc_def split: prod.split dest!: calloc_plan)

text \<open>With \<open>lasts\<close>, the runs in which no allocation fails.\<close>

interpretation art_ending: ending_backend art_ops "\<lambda>g. tree_typed" "\<lambda>n g. lasts \<longrightarrow> False \<notin> set (plan g)" "\<lambda>s. True"
  "{e. lasts \<longrightarrow> e \<noteq> Null_deref}" for lasts :: bool
proof
  show "\<exists>r. op_new art_ops g = Some r \<and> (case r of Inl e \<Rightarrow> e \<in> {e. lasts \<longrightarrow> e \<noteq> Null_deref}
      | Inr (t, g') \<Rightarrow> (lasts \<longrightarrow> False \<notin> set (plan g')) \<and> tree_typed t \<and> (\<forall>u. tree_typed u \<longrightarrow> tree_typed u))"
    if "lasts \<longrightarrow> False \<notin> set (plan g)" for g
    using tree_new_ends [of g] that by (auto simp: art_ops_def tree_typed_def split: sum.splits)
  show "\<exists>r. op_insert art_ops t g s = Some r \<and> (case r of Inl e \<Rightarrow> e \<in> {e. lasts \<longrightarrow> e \<noteq> Null_deref}
      | Inr (t', g') \<Rightarrow> (lasts \<longrightarrow> False \<notin> set (plan g')) \<and> tree_typed t' \<and> (\<forall>u. tree_typed u \<longrightarrow> tree_typed u))"
    if "tree_typed t" "lasts \<longrightarrow> False \<notin> set (plan g)" for t g s
    using that tree_insert_no_null [of g t s] tree_insert_plan [of t s g] tree_insert_typed [OF that(1) tree_insert_returns]
    by (cases "art_tree_insert t s g") (auto simp: art_ops_def)
qed (simp_all add: art_ops_def)

interpretation hash_ending: ending_backend "hash_ops slot" "\<lambda>g t. \<exists>ss. hash_holds slot t ss" "\<lambda>n g. True" "\<lambda>s. True"
  "{Exit_failure, Uninit_read}" for slot
proof
  show "\<exists>r. op_new (hash_ops slot) g = Some r \<and> (case r of Inl e \<Rightarrow> e \<in> {Exit_failure, Uninit_read}
      | Inr (t, g') \<Rightarrow> True \<and> (\<exists>ss. hash_holds slot t ss) \<and> (\<forall>u. (\<exists>ss. hash_holds slot u ss) \<longrightarrow> (\<exists>ss. hash_holds slot u ss)))" for g
    by (cases g) (auto simp: hash_ops_def hash_new_def alloc_table_def ht_alloc_def hash_holds_def fresh_table_def rbind_Inl_iff
        split: sum.splits prod.splits if_splits intro!: exI [of _ "[]"])
  show "\<exists>r. op_insert (hash_ops slot) t g s = Some r \<and> (case r of Inl e \<Rightarrow> e \<in> {Exit_failure, Uninit_read}
      | Inr (t', g') \<Rightarrow> True \<and> (\<exists>ss. hash_holds slot t' ss) \<and> (\<forall>u. (\<exists>ss. hash_holds slot u ss) \<longrightarrow> (\<exists>ss. hash_holds slot u ss)))"
    if t: "\<exists>ss. hash_holds slot t ss" for t g s
  proof -
    obtain ss where ss: "hash_holds slot t ss" using t by blast
    obtain st u a where g: "g = (st, u, a)" by (cases g)
    show ?thesis
    proof (cases "stack_end s")
      case None
      then show ?thesis by (simp add: g hash_ops_def hash_tree_insert_def)
    next
      case (Some m)
      then show ?thesis using hash_insert_holds [OF ss, of s st u a] by (auto simp: g hash_ops_def)
    qed
  qed
qed (simp_all add: hash_ops_def)

definition ends_in :: "(cerror \<Rightarrow> bool) \<Rightarrow> crecord list \<Rightarrow> (u64 \<times> 'o list \<times> u64) run \<Rightarrow> bool" where
  "ends_in E records r \<longleftrightarrow> (case r of None \<Rightarrow> False | Some (Inl e) \<Rightarrow> E e
      | Some (Inr (n, out, nt)) \<Rightarrow> n = of_nat (20 * length records) \<and> nt = of_nat (card (r_id ` set records)))"

text \<open>C11. With both byte-wise backends the program ends for every table of records, also one whose
  stacks have no end or whose keys collide, and whatever the allocators answer: it stops in a fault,
  or reports 20 times the records and one tree per id. The hash backend can fail only for want of
  memory or at a stack without an end. The radix tree backend, which does not test the result of
  \<open>calloc\<close>, can dereference NULL, but only when an allocation fails.\<close>

theorem main_ends:
  assumes "good_heap h {}"
  shows "(case main_loop art_ops records a h of None \<Rightarrow> False | Some (Inl e) \<Rightarrow> e = Null_deref \<longrightarrow> False \<in> set (plan a)
      | Some (Inr (n, out, nt)) \<Rightarrow> n = of_nat (20 * length records) \<and> nt = of_nat (card (r_id ` set records))) \<and>
    (case main_loop (hash_ops slot) records g h of None \<Rightarrow> False | Some (Inl e) \<Rightarrow> e = Exit_failure \<or> e = Uninit_read
      | Some (Inr (n, out, nt)) \<Rightarrow> n = of_nat (20 * length records) \<and> nt = of_nat (card (r_id ` set records)))"
proof
  have art: "ends_in (\<lambda>e. lasts \<longrightarrow> e \<noteq> Null_deref) records (main_loop art_ops records a h)"
    if "lasts \<longrightarrow> False \<notin> set (plan a)" for lasts
    using art_ending.run_ends [OF assms, where lasts = lasts and records = records and g = a] that
    by (auto simp: art_ending.ends_def ends_in_def simp del: not_None_eq split: option.splits sum.splits)
  show "case main_loop art_ops records a h of None \<Rightarrow> False | Some (Inl e) \<Rightarrow> e = Null_deref \<longrightarrow> False \<in> set (plan a)
      | Some (Inr (n, out, nt)) \<Rightarrow> n = of_nat (20 * length records) \<and> nt = of_nat (card (r_id ` set records))"
    using art [of False] art [of True] by (auto simp: ends_in_def split: option.splits sum.splits)
  show "case main_loop (hash_ops slot) records g h of None \<Rightarrow> False | Some (Inl e) \<Rightarrow> e = Exit_failure \<or> e = Uninit_read
      | Some (Inr (n, out, nt)) \<Rightarrow> n = of_nat (20 * length records) \<and> nt = of_nat (card (r_id ` set records))"
    using hash_ending.run_ends [OF assms, where slot = slot and records = records and g = g]
    by (auto simp: hash_ending.ends_def split: option.splits sum.splits)
qed

text \<open>No memory for a node of the second tree, and a stack without an end after it.\<close>

definition bad_records :: "crecord list" where
  "bad_records = two_records @ [\<lparr>r_id = 8, r_stack = []\<rparr>]"

theorem main_ends_witness:
  "(case main_loop art_ops bad_records (enough\<lparr>plan := [True, True, True, True, True, False]\<rparr>) [16, 32] of None \<Rightarrow> False
      | Some (Inl e) \<Rightarrow> e = Null_deref \<longrightarrow> False \<in> set (plan (enough\<lparr>plan := [True, True, True, True, True, False]\<rparr>))
      | Some (Inr (n, out, nt)) \<Rightarrow> n = of_nat (20 * length bad_records) \<and> nt = of_nat (card (r_id ` set bad_records))) \<and>
    (case main_loop (hash_ops 0) bad_records ((\<lambda>_. \<lparr>s_mem = [], s_len = 0\<rparr>), 0, enough) [16, 32] of None \<Rightarrow> False
      | Some (Inl e) \<Rightarrow> e = Exit_failure \<or> e = Uninit_read
      | Some (Inr (n, out, nt)) \<Rightarrow> n = of_nat (20 * length bad_records) \<and> nt = of_nat (card (r_id ` set bad_records)))"
  by (rule main_ends [OF two_heap])

end
