(* ===== verification/Chain_Alloc.thy ===== *)
theory Chain_Alloc
  imports Chain_Count
begin

text \<open>
  Appending while memory runs out. A run whose allocations succeed goes as with memory without
  end: \<open>ample c\<close> is \<open>c\<close> with such an allocator, \<open>alike\<close> compares the two runs. A run that fails
  makes and moves nothing but addresses it took from the free ones, except for a split.
\<close>

subsection \<open>Two allocators\<close>

definition ample :: "chains \<Rightarrow> chains" where
  "ample c = c\<lparr>ch_alloc := \<lparr>num_allocs = 0, num_frees = 0, leaf_frees = 0, plan = []\<rparr>\<rparr>"

lemma ample_simps [simp]:
  "cnodes (ample c) = cnodes c" "in_mem (ample c) = in_mem c" "out_mem (ample c) = out_mem c"
  "ch_heap (ample c) = ch_heap c" "deepest (ample c) = deepest c" "plan (ch_alloc (ample c)) = []"
  "kids_tree (ample c) n = kids_tree c n" "ld_cn (ample c) p = ld_cn c p"
  by (simp_all add: ample_def kids_tree_def ld_cn_def)

lemma ample_rep [simp]: "chain_rep (ample c) par k = chain_rep c par k"
  by (rule chain_rep_cong) simp_all

lemma alloc_rep: "chain_rep (c\<lparr>ch_alloc := a\<rparr>) par k = chain_rep c par k"
  by (rule chain_rep_cong) simp_all

lemma ample_alloc [simp]: "ample (c\<lparr>ch_alloc := a\<rparr>) = ample c"
  by (simp add: ample_def)

lemma ample_eq: "ample c = ample d \<longleftrightarrow> (\<exists>a. d = c\<lparr>ch_alloc := a\<rparr>)"
proof
  assume "ample c = ample d"
  then have "d = c\<lparr>ch_alloc := ch_alloc d\<rparr>" by (cases c; cases d) (simp add: ample_def)
  then show "\<exists>a. d = c\<lparr>ch_alloc := a\<rparr>" ..
qed auto

definition alike :: "('a \<times> cursor \<times> chains) run \<Rightarrow> ('a \<times> cursor \<times> chains) run \<Rightarrow> bool" where
  "alike r r0 \<longleftrightarrow> (\<exists>x cur c c0. r = Some (Inr (x, cur, c)) \<and> r0 = Some (Inr (x, cur, c0)) \<and> ample c = ample c0)"

lemma alikeI: "ample c = ample c0 \<Longrightarrow> r = Some (Inr (x, cur, c)) \<Longrightarrow> r0 = Some (Inr (x, cur, c0)) \<Longrightarrow> alike r r0"
  by (auto simp: alike_def)

text \<open>What does not allocate goes the same way with every allocator.\<close>

lemma upd_alloc: "upd_cn p f c = Inr d \<Longrightarrow> upd_cn p f (c\<lparr>ch_alloc := a\<rparr>) = Inr (d\<lparr>ch_alloc := a\<rparr>)"
  by (auto simp: upd_cn_def ld_cn_def)

lemma link_child_alloc:
  "link_child p par lk new c = Some (Inr d) \<Longrightarrow> link_child p par lk new (c\<lparr>ch_alloc := a\<rparr>) = Some (Inr (d\<lparr>ch_alloc := a\<rparr>))"
  by (auto simp: link_child_def ld_cn_def kids_tree_def put_kids_def upd_cn_def)

lemma inc_children_alloc:
  "inc_children_hit r p d c = Inr e \<Longrightarrow> inc_children_hit r p d (c\<lparr>ch_alloc := a\<rparr>) = Inr (e\<lparr>ch_alloc := a\<rparr>)"
  by (cases "cnodes c r") (auto simp: inc_children_hit_def upd_cn_def ld_cn_def simp del: rbind_Inr_iff)

lemma move_tail_alloc:
  "move_tail p new m i c = Inr d \<Longrightarrow> move_tail p new m i (c\<lparr>ch_alloc := a\<rparr>) = Inr (d\<lparr>ch_alloc := a\<rparr>)"
  by (auto simp: move_tail_def upd_cn_def ld_cn_def split: if_splits)

lemma adopt_alloc_all:
  "adopt new n c = Some r \<Longrightarrow> \<forall>d. r = Inr d \<longrightarrow> adopt new n (c\<lparr>ch_alloc := a\<rparr>) = Some (Inr (d\<lparr>ch_alloc := a\<rparr>))"
proof (induction new n c r rule: adopt.raw_induct [rotated, consumes 1, case_names Adopt])
  case (Adopt f new n c r)
  show ?case
  proof (intro allI impI)
    fix d assume r: "r = Inr d"
    show "adopt new n (c\<lparr>ch_alloc := a\<rparr>) = Some (Inr (d\<lparr>ch_alloc := a\<rparr>))"
    proof (cases "n = 0")
      case False
      then obtain c1 m where c1: "upd_cn n (\<lambda>child. child\<lparr>cn_parent := new\<rparr>) c = Inr c1"
          "rb_next \<lparr>mem = in_mem c1, rb_root = 0\<rparr> n = Some (Inr m)" "f new m c1 = Some (Inr d)"
        using Adopt(2) r by auto
      then have "adopt new m (c1\<lparr>ch_alloc := a\<rparr>) = Some (Inr (d\<lparr>ch_alloc := a\<rparr>))" using Adopt(1) by blast
      then show ?thesis using False c1(2) upd_alloc [OF c1(1), of a] by (subst adopt.simps) simp
    qed (use Adopt(2) r in \<open>simp add: adopt.simps\<close>)
  qed
qed

lemma adopt_alloc: "adopt new n c = Some (Inr d) \<Longrightarrow> adopt new n (c\<lparr>ch_alloc := a\<rparr>) = Some (Inr (d\<lparr>ch_alloc := a\<rparr>))"
  using adopt_alloc_all by blast

subsection \<open>New nodes\<close>

lemma new_entry_plain:
  "plain n \<Longrightarrow> new_entry n a = (case ccalloc a of (ok, a) \<Rightarrow> (if ok then Some (plain_entry n) else None, a))"
  by (simp add: new_entry_def plain_def plain_entry_def split: prod.split)

lemma fill_loop_any:
  "reading cur ns \<Longrightarrow> \<forall>n \<in> set ns. plain n \<Longrightarrow>
     \<exists>ok val' cur' a'. fill_loop val cur a = Some (Inr (ok, val', cur', a')) \<and> same_list cur cur' \<and>
       (ok \<longrightarrow> val' = val @ map plain_entry ns \<and> reading cur' [] \<and>
         (\<forall>b. plan b = [] \<longrightarrow> (\<exists>b'. fill_loop val cur b = Some (Inr (True, val', cur', b')) \<and> plan b' = [])))"
proof (induction ns arbitrary: val cur a)
  case Nil
  then have "callchain_cursor_current (Some cur) = None" using reading_current [OF Nil(1)] by simp
  then have "fill_loop val cur b = Some (Inr (True, val, cur, b))" for b by (subst fill_loop.simps) simp
  then show ?case using Nil(1) by (intro exI [of _ True] exI [of _ val] exI [of _ cur] exI [of _ a]) simp
next
  case (Cons n ns)
  have cur: "callchain_cursor_current (Some cur) = Some n" using reading_current [OF Cons.prems(1)] by simp
  obtain c1 where c1: "callchain_cursor_advance cur = Inr c1" "reading c1 ns" "same_list cur c1"
    using reading_next [OF Cons.prems(1)] by blast
  have pl: "plain n" "\<forall>n \<in> set ns. plain n" using Cons.prems(2) by simp_all
  obtain ok a1 where a1: "ccalloc a = (ok, a1)" by (cases "ccalloc a")
  have step: "fill_loop val cur b = fill_loop (val @ [plain_entry n]) c1 b1" if "ccalloc b = (True, b1)" for b b1
    using that cur c1(1) new_entry_plain [OF pl(1)] by (subst fill_loop.simps) simp
  show ?case
  proof (cases ok)
    case True
    obtain ok' val' cur' a' where r: "fill_loop (val @ [plain_entry n]) c1 a1 = Some (Inr (ok', val', cur', a'))" "same_list c1 cur'"
      "ok' \<longrightarrow> val' = (val @ [plain_entry n]) @ map plain_entry ns \<and> reading cur' [] \<and>
         (\<forall>b. plan b = [] \<longrightarrow> (\<exists>b'. fill_loop (val @ [plain_entry n]) c1 b = Some (Inr (True, val', cur', b')) \<and> plan b' = []))"
      using Cons.IH [OF c1(2) pl(2), of "val @ [plain_entry n]" a1] by blast
    have "\<exists>b'. fill_loop val cur b = Some (Inr (True, val', cur', b')) \<and> plan b' = []" if "ok'" "plan b = []" for b
    proof -
      have "fill_loop val cur b = fill_loop (val @ [plain_entry n]) c1 (b\<lparr>num_allocs := num_allocs b + 1\<rparr>)"
        by (rule step) (rule ccalloc_plenty [OF that(2)])
      moreover have "\<forall>b. plan b = [] \<longrightarrow> (\<exists>b'. fill_loop (val @ [plain_entry n]) c1 b = Some (Inr (True, val', cur', b')) \<and> plan b' = [])"
        using r(3) that(1) by blast
      from this [rule_format, of "b\<lparr>num_allocs := num_allocs b + 1\<rparr>"]
      have "\<exists>b'. fill_loop (val @ [plain_entry n]) c1 (b\<lparr>num_allocs := num_allocs b + 1\<rparr>) =
          Some (Inr (True, val', cur', b')) \<and> plan b' = []" using that(2) by simp
      ultimately show ?thesis by simp
    qed
    then show ?thesis using r step [of a a1] a1 True same_list_trans [OF c1(3)] by simp
  next
    case False
    have "fill_loop val cur a = Some (Inr (False, val, cur, a1))"
      using a1 False cur new_entry_plain [OF pl(1)] by (subst fill_loop.simps) simp
    then show ?thesis by (intro exI [of _ False] exI [of _ val] exI [of _ cur] exI [of _ a1]) simp
  qed
qed

text \<open>What a failed allocation leaves: free addresses may be gone.\<close>

definition idle :: "chains \<Rightarrow> chains \<Rightarrow> bool" where
  "idle c c' \<longleftrightarrow> (\<forall>x. x \<notin> set (ch_heap c) \<longrightarrow> cnodes c' x = cnodes c x \<and> in_mem c' x = in_mem c x) \<and>
     (\<exists>j \<le> 1. ch_heap c' = drop j (ch_heap c))"

lemma calloc_cnode_any:
  assumes "ch_heap c \<noteq> []" "hd (ch_heap c) \<noteq> 0"
  shows "(\<exists>a. calloc_cnode c = (0, c\<lparr>ch_alloc := a\<rparr>)) \<or>
    (\<exists>a. calloc_cnode c = (hd (ch_heap c), (with_new zero_cnode c)\<lparr>ch_alloc := a\<rparr>))"
proof -
  obtain p h where h: "ch_heap c = p # h" using assms(1) by (cases "ch_heap c") auto
  obtain ok a where a: "ccalloc (ch_alloc c) = (ok, a)" by (cases "ccalloc (ch_alloc c)")
  have "calloc_cnode c = (hd (ch_heap c), (with_new zero_cnode c)\<lparr>ch_alloc := a\<rparr>)" if ok
    using assms(2) h a that by (cases c) (simp add: calloc_cnode_def with_new_def)
  moreover have "calloc_cnode c = (0, c\<lparr>ch_alloc := a\<rparr>)" if "\<not> ok"
    using h a that by (simp add: calloc_cnode_def)
  ultimately show ?thesis by blast
qed

lemma with_new_upd_alloc:
  "upd_cn (hd (ch_heap c)) f ((with_new n c)\<lparr>ch_alloc := a\<rparr>) = Inr ((with_new (f n) c)\<lparr>ch_alloc := a\<rparr>)"
  by (simp add: upd_cn_def ld_cn_def with_new_def)

lemma with_new_alloc:
  "with_new n (c\<lparr>ch_alloc := a\<rparr>) = (with_new n c)\<lparr>ch_alloc := a\<lparr>num_allocs := num_allocs a + 1\<rparr>\<rparr>"
  by (simp add: with_new_def)

lemma with_new_ample [simp]: "(with_new n (ample c))\<lparr>ch_alloc := b\<rparr> = (with_new n c)\<lparr>ch_alloc := b\<rparr>"
  by (simp add: ample_def with_new_def)

lemma add_child_any:
  assumes heap: "ch_heap c \<noteq> []" "hd (ch_heap c) \<noteq> 0" and r: "reading cur ns" "\<forall>n \<in> set ns. plain n"
  shows "(\<exists>cur' c'. add_child_node parent period (cur, c) = Some (Inr (0, cur', c')) \<and> same_list cur cur' \<and> idle c c') \<or>
    (\<exists>cur' al. add_child_node parent period (cur, c) =
        Some (Inr (hd (ch_heap c), cur', (with_new (leaf_cnode parent ns period) c)\<lparr>ch_alloc := al\<rparr>)) \<and>
      (\<forall>a. plan a = [] \<longrightarrow> (\<exists>b. add_child_node parent period (cur, c\<lparr>ch_alloc := a\<rparr>) =
        Some (Inr (hd (ch_heap c), cur', (with_new (leaf_cnode parent ns period) c)\<lparr>ch_alloc := b\<rparr>)))) \<and>
      same_list cur cur' \<and> reading cur' [])"
  using calloc_cnode_any [OF heap]
proof (elim disjE exE)
  fix a assume "calloc_cnode c = (0, c\<lparr>ch_alloc := a\<rparr>)"
  then have "add_child_node parent period (cur, c) = Some (Inr (0, cur, c\<lparr>ch_alloc := a\<rparr>))"
    by (simp add: add_child_node_def create_child_def)
  then show ?thesis by (intro disjI1) (simp add: idle_def exI [of _ 0])
next
  let ?new = "hd (ch_heap c)" and ?n = "zero_cnode\<lparr>cn_parent := parent, val_nr := of_nat (length ns)\<rparr>"
  fix a assume a: "calloc_cnode c = (?new, (with_new zero_cnode c)\<lparr>ch_alloc := a\<rparr>)"
  have made: "create_child parent False c = Some (Inr (?new, (with_new (zero_cnode\<lparr>cn_parent := parent\<rparr>) c)\<lparr>ch_alloc := a\<rparr>))"
    using heap(2) by (simp add: create_child_def a with_new_upd_alloc)
  have nr: "ucast (cu_nr cur - cu_pos cur) = (of_nat (length ns) :: u32)"
    using reading_pos(2) [OF r(1)] ucast_of_nat_u32 by simp
  have ld: "ld_cn ((with_new m c)\<lparr>ch_alloc := b\<rparr>) ?new = Inr m" for m b by (simp add: ld_cn_def)
  have fill: "fill_node ?new (cur, (with_new (zero_cnode\<lparr>cn_parent := parent\<rparr>) c)\<lparr>ch_alloc := b\<rparr>) =
      Some (Inr (ok, cur', (with_new (?n\<lparr>cn_val := val\<rparr>) c)\<lparr>ch_alloc := b'\<rparr>))"
    if "fill_loop [] cur b = Some (Inr (ok, val, cur', b'))" for b ok val cur' b'
    using that nr by (simp add: fill_node_def with_new_upd_alloc ld zero_cnode_def del: with_new_simps)
  obtain ok val cur' al where f: "fill_loop [] cur a = Some (Inr (ok, val, cur', al))" "same_list cur cur'"
    and go: "ok \<longrightarrow> val = map plain_entry ns \<and> reading cur' [] \<and>
      (\<forall>b. plan b = [] \<longrightarrow> (\<exists>b'. fill_loop [] cur b = Some (Inr (True, val, cur', b')) \<and> plan b' = []))"
    using fill_loop_any [OF r, of "[]" a] by auto
  show ?thesis
  proof (cases ok)
    case False
    let ?a = "fold (\<lambda>e a. fst (zfree a (brtype_to e))) val al" and ?c = "with_new (?n\<lparr>cn_val := val\<rparr>) c"
    have "add_child_node parent period (cur, c) = Some (Inr (0, cur', ?c\<lparr>ch_alloc := ?a, cnodes := (cnodes ?c)(?new := None)\<rparr>))"
      using heap(2) False by (simp add: add_child_node_def made fill [OF f(1)] ld Let_def del: with_new_simps)
    moreover have "idle c (?c\<lparr>ch_alloc := ?a, cnodes := (cnodes ?c)(?new := None)\<rparr>)"
      using heap(1) by (auto simp: idle_def intro!: exI [of _ 1]) (simp_all add: drop_Suc)
    ultimately show ?thesis using f(2) by blast
  next
    case True
    have added: "add_child_node parent period (cur, d) = Some (Inr (?new, cur', (with_new (leaf_cnode parent ns period) c)\<lparr>ch_alloc := b'\<rparr>))"
      if "create_child parent False d = Some (Inr (?new, (with_new (zero_cnode\<lparr>cn_parent := parent\<rparr>) c)\<lparr>ch_alloc := b\<rparr>))"
        "fill_loop [] cur b = Some (Inr (True, val, cur', b'))" for d b b'
      using heap(2) True go fill [OF that(2)] that(1)
      by (simp add: add_child_node_def with_new_upd_alloc leaf_cnode_def zero_cnode_def del: with_new_simps)
    have "\<exists>b'. add_child_node parent period (cur, c\<lparr>ch_alloc := b\<rparr>) =
        Some (Inr (?new, cur', (with_new (leaf_cnode parent ns period) c)\<lparr>ch_alloc := b'\<rparr>))" if b: "plan b = []" for b
    proof -
      let ?b = "b\<lparr>num_allocs := num_allocs b + 1\<rparr>"
      have am: "can_alloc (c\<lparr>ch_alloc := b\<rparr>)" using heap b by (simp add: can_alloc_def)
      have "create_child parent False (c\<lparr>ch_alloc := b\<rparr>) =
          Some (Inr (?new, (with_new (zero_cnode\<lparr>cn_parent := parent\<rparr>) c)\<lparr>ch_alloc := ?b\<rparr>))"
        using create_child_plain [OF am, of parent] by (simp add: with_new_alloc)
      moreover have "\<forall>b. plan b = [] \<longrightarrow> (\<exists>b'. fill_loop [] cur b = Some (Inr (True, val, cur', b')) \<and> plan b' = [])"
        using go True by blast
      from this [rule_format, of ?b] obtain b' where "fill_loop [] cur ?b = Some (Inr (True, val, cur', b'))"
        using b by auto
      ultimately show ?thesis using added by blast
    qed
    moreover have "fill_loop [] cur a = Some (Inr (True, val, cur', al))" using f(1) True by simp
    ultimately show ?thesis using added [OF made] f(2) True go by blast
  qed
qed

lemma alloc_field [simp]: "kids_tree (c\<lparr>ch_alloc := a\<rparr>) n = kids_tree c n" "ld_cn (c\<lparr>ch_alloc := a\<rparr>) p = ld_cn c p"
  by (simp_all add: kids_tree_def ld_cn_def)

lemma create_inherit_any:
  assumes heap: "ch_heap c \<noteq> []" "hd (ch_heap c) \<noteq> 0"
    and am: "create_child p True (ample c) = Some (Inr (hd (ch_heap c), d))"
  shows "(\<exists>a. create_child p True c = Some (Inr (0, c\<lparr>ch_alloc := a\<rparr>))) \<or>
    (\<exists>a. create_child p True c = Some (Inr (hd (ch_heap c), d\<lparr>ch_alloc := a\<rparr>)))"
  using calloc_cnode_any [OF heap]
proof (elim disjE exE)
  fix a assume "calloc_cnode c = (0, c\<lparr>ch_alloc := a\<rparr>)"
  then have "create_child p True c = Some (Inr (0, c\<lparr>ch_alloc := a\<rparr>))" by (simp add: create_child_def)
  then show ?thesis by blast
next
  let ?new = "hd (ch_heap c)"
  fix a assume a: "calloc_cnode c = (?new, (with_new zero_cnode c)\<lparr>ch_alloc := a\<rparr>)"
  have "can_alloc (ample c)" using heap by (simp add: can_alloc_def)
  then have b: "calloc_cnode (ample c) = (?new, with_new zero_cnode (ample c))" by (simp add: calloc_cnode_ok)
  have e: "(with_new zero_cnode c)\<lparr>ch_alloc := a\<rparr> = (with_new zero_cnode (ample c))\<lparr>ch_alloc := a\<rparr>" by simp
  obtain c1 pn c2 c3 n c4 c5 where s: "upd_cn ?new (\<lambda>n. n\<lparr>cn_parent := p\<rparr>) (with_new zero_cnode (ample c)) = Inr c1"
      "ld_cn c1 p = Inr pn" "upd_cn ?new (\<lambda>n. n\<lparr>rb_root_in := rb_root_in pn\<rparr>) c1 = Inr c2"
      "upd_cn p (\<lambda>n. n\<lparr>rb_root_in := 0\<rparr>) c2 = Inr c3" "rb_first (kids_tree c3 pn) = Some (Inr n)"
      "adopt ?new n c3 = Some (Inr c4)" "link_child p 0 Root_link ?new c4 = Some (Inr c5)" "d = c5"
    using am heap(2) by (auto simp: create_child_def b simp del: with_new_simps)
  have "create_child p True c = Some (Inr (?new, d\<lparr>ch_alloc := a\<rparr>))"
    using heap(2) upd_alloc [OF s(1), of a] s(2) upd_alloc [OF s(3), of a] upd_alloc [OF s(4), of a] s(5)
      adopt_alloc [OF s(6), of a] link_child_alloc [OF s(7), of a] s(8)
    unfolding create_child_def a prod.case e by (simp del: with_new_simps with_new_ample)
  then show ?thesis by blast
qed

text \<open>Comparing does not allocate for a node without a branch.\<close>

lemma match_first_alloc:
  assumes "env_key env \<noteq> CCKEY_SRCLINE" "plain n" "match_first env n p c = Inr (m, d)"
  shows "match_first env n p (c\<lparr>ch_alloc := a\<rparr>) = Inr (m, d\<lparr>ch_alloc := a\<rparr>)"
proof -
  obtain cn where cn: "cnodes c p = Some cn" using assms(3) by (auto simp: match_first_def ld_cn_def)
  show ?thesis using assms(3) cn match_chain_plain [OF assms(2,1)]
    by (cases "cn_val cn") (auto simp: match_first_def upd_cn_def ld_cn_def)
qed

end
