(* ===== verification/Chain_Fail.thy ===== *)
theory Chain_Fail
  imports Chain_Alloc
begin

text \<open>
  \<open>callchain_append\<close> when an allocation fails: no chain changes its hits or count. At most one
  node has been split, and then its cumulative counters are too high.
\<close>

subsection \<open>What a failed append leaves\<close>

text \<open>The node \<open>b\<close> counts a chain that is not there.\<close>

definition overcount :: "u64 \<Rightarrow> u64 \<Rightarrow> chains \<Rightarrow> chains" where
  "overcount b period c = (case cnodes c b of None \<Rightarrow> c
     | Some n \<Rightarrow> c\<lparr>cnodes := (cnodes c)(b \<mapsto> n\<lparr>children_hit := children_hit n + period, children_count := children_count n + 1\<rparr>)\<rparr>)"

text \<open>A node of the tree split in two, the lower half at \<open>x\<close>.\<close>

inductive split_at :: "u64 \<Rightarrow> ctree \<Rightarrow> ctree \<Rightarrow> bool" for x where
  here: "0 < m \<Longrightarrow> m < length v \<Longrightarrow> split_at x (CT a v h n ks) (CT a (take m v) 0 0 [CT x (drop m v) h n ks])"
| kid: "split_at x k k' \<Longrightarrow> split_at x (CT a v h n (us @ k # vs)) (CT a v h n (us @ k' # vs))"

inductive_cases split_at_root: "split_at x (CT a [] h n ks) k'"

lemma split_at_keeps:
  "split_at x k k' \<Longrightarrow> ct_at k' = ct_at k \<and> cumul_hit k' = cumul_hit k \<and> cumul_count k' = cumul_count k \<and>
     mset (nodes k') = add_mset x (mset (nodes k))"
  by (induction rule: split_at.induct) auto

lemma split_at_wf: "split_at x k k' \<Longrightarrow> kid_wf k \<Longrightarrow> kid_wf k' \<and> ct_key k' = ct_key k"
proof (induction rule: split_at.induct)
  case (here m v a h n ks)
  then have "hd (take m v) = hd v" by (cases v; cases m) simp_all
  then show ?case using here by (auto simp: ct_key_def kids_wf_def)
next
  case (kid k k' a v h n us vs)
  have k: "v \<noteq> []" "length v < 2 ^ 32" "kids_wf (us @ k # vs)" using kid.prems unfolding kid_wf_CT by blast+
  then have "kid_wf k' \<and> ct_key k' = ct_key k" using kid.IH by (simp add: kids_wf_append kids_wf_Cons)
  then have "kids_wf (us @ k' # vs)" using k(3) by (simp add: kids_wf_append kids_wf_Cons)
  then show ?case using k(1,2) by (simp only: kid_wf_CT) (simp add: ct_key_def)
qed

lemma chain_tally_append: "chain_tally f (us @ vs) p = chain_tally f us p + chain_tally f vs p"
  by (simp add: chain_tally_def)

lemma split_at_tally: "split_at x k k' \<Longrightarrow> f 0 0 = 0 \<Longrightarrow> node_tally f k' p = node_tally f k p"
proof (induction arbitrary: p rule: split_at.induct)
  case (here m v a h n ks)
  then show ?case by (intro tally_cut)
next
  case (kid k k' a v h n us vs)
  then show ?case by (simp add: node_tally_CT chain_tally_append)
qed

text \<open>From the state \<open>c\<close> with the tree \<open>k\<close> the run came to \<open>c'\<close>: a tree of chains after all, when
  the counters of one node are set right.\<close>

definition spoiled :: "u64 \<Rightarrow> chains \<Rightarrow> ctree \<Rightarrow> u64 \<Rightarrow> chains \<Rightarrow> bool" where
  "spoiled period c k par c' \<longleftrightarrow> (\<exists>d k' j. chain_rep d par k' \<and> kept c d k \<and> j \<le> 2 \<and> ch_heap d = drop j (ch_heap c) \<and>
     (k' = k \<or> (\<exists>x \<in> set (take j (ch_heap c)). split_at x k k')) \<and> (c' = d \<or> (\<exists>b. c' = overcount b period d)))"

lemma kept_ample [simp]: "kept c (ample c') k = kept c c' k" "kept (ample c) c' k = kept c c' k"
  by (simp_all add: kept_def)

lemma appended_ample: "appended c cur k par k' h c1 cur' \<Longrightarrow> appended c cur k par k' h (ample c1) cur'"
  unfolding appended_def by simp

lemma idle_spoiled:
  assumes "chain_rep c par k" "idle c c'" "\<forall>x \<in> set (ch_heap c). x \<notin> set (nodes k)"
  shows "spoiled period c k par c'"
proof -
  have "x \<notin> set (ch_heap c)" if "x \<in> set (nodes k)" for x using that assms(3) by blast
  then have "chain_rep c' par k = chain_rep c par k"
    using assms(2) nodes_below by (intro chain_rep_cong) (auto simp: idle_def)
  moreover have "kept c c' k" using assms(2,3) ct_at_nodes unfolding kept_def idle_def by blast
  moreover obtain j where "j \<le> 2" "ch_heap c' = drop j (ch_heap c)" using assms(2) unfolding idle_def by (metis one_le_numeral order_trans)
  ultimately show ?thesis using assms(1) unfolding spoiled_def by blast
qed

text \<open>A failure below a child is a failure of the node.\<close>

lemma kid_spoiled:
  assumes r: "chain_rep c par (CT a v h n (us @ k # vs))" and d: "distinct (nodes (CT a v h n (us @ k # vs)))"
    and heap: "\<forall>x \<in> set (ch_heap c). x \<notin> set (nodes (CT a v h n (us @ k # vs)))" and sp: "spoiled period c k a c'"
  shows "spoiled period c (CT a v h n (us @ k # vs)) par c'"
proof -
  let ?k = "CT a v h n (us @ k # vs)"
  obtain e k' j where e: "chain_rep e a k'" "kept c e k" "j \<le> 2 \<and> ch_heap e = drop j (ch_heap c)"
      "k' = k \<or> (\<exists>x \<in> set (take j (ch_heap c)). split_at x k k')" "c' = e \<or> (\<exists>b. c' = overcount b period e)"
    using sp by (auto simp: spoiled_def)
  have k': "ct_at k' = ct_at k" "cumul_hit k' = cumul_hit k" "cumul_count k' = cumul_count k"
    using e(4) split_at_keeps by blast+
  have kept: "\<And>x. x \<notin> set (nodes k) \<Longrightarrow> x \<notin> set (ch_heap c) \<Longrightarrow> cnodes e x = cnodes c x \<and> in_mem e x = in_mem c x"
    "in_mem e (ct_at k) = in_mem c (ct_at k)" using e(2) by (simp_all add: kept_def)
  have a: "a \<notin> set (nodes k)" "a \<notin> set (ch_heap c)" using d heap by auto
  have at: "in_mem e (ct_at l) = in_mem c (ct_at l)" if l: "l \<in> set (us @ k # vs)" for l
  proof (cases "l = k")
    case False
    then have "ct_at l \<notin> set (nodes k)" using two_kids [OF d _ l, of k "ct_at l"] by auto
    moreover have "ct_at l \<notin> set (ch_heap c)" using heap kid_nodes [OF l ct_at_nodes] by blast
    ultimately show ?thesis using kept(1) by simp
  qed (simp add: kept(2))
  have "node_rep e par a v h n (us @ k # vs) = node_rep c par a v h n (us @ k # vs)"
    using kept(1) [OF a] at by (intro node_rep_cong) simp_all
  then have "node_rep e par a v h n (us @ k' # vs)" using r k' by (simp add: node_rep_def)
  moreover have "chain_rep e a l" if l: "l \<in> set us \<union> set vs" for l
  proof -
    have "x \<notin> set (nodes k) \<and> x \<notin> set (ch_heap c)" if "x \<in> set (nodes l)" for x
      using kid_other [OF d l that] kid_nodes [of l "us @ k # vs" x] that l heap by auto
    then have "chain_rep e a l = chain_rep c a l" using kept(1) nodes_below by (intro chain_rep_cong) auto
    then show ?thesis using r l by auto
  qed
  ultimately have "chain_rep e par (CT a v h n (us @ k' # vs))" using e(1) by auto
  moreover have "kept c e ?k" unfolding kept_def using kept(1) a by auto
  moreover have "CT a v h n (us @ k' # vs) = ?k \<or> (\<exists>x \<in> set (take j (ch_heap c)). split_at x ?k (CT a v h n (us @ k' # vs)))"
    using e(4) split_at.kid by blast
  ultimately show ?thesis using e(3,5) unfolding spoiled_def by blast
qed

subsection \<open>A leaf, a second child, a split\<close>

lemma leaf_any:
  assumes r: "chain_rep c par (CT a v h n (us @ vs))" and ready: "app_ready (ample c) cur ns (CT a v h n (us @ vs))"
    and cn: "cnodes c a = Some cn" and t: "holds_tree (kids_tree c cn) (plug Lf ctx)" "red_black (plug Lf ctx)"
    and xs: "ctx_before ctx = map ct_at us" "ctx_after ctx = map ct_at vs"
  shows "(\<exists>cur' c'. add_here a period (hole_link ctx) (ctx_addr ctx) d (cur, c) = Some (Inr (True, cur', c')) \<and>
      appended (ample c) cur (CT a v h n (us @ vs)) par (CT a v h n (us @ new_leaf (hd (ch_heap c)) ns period # vs))
        (tl (ch_heap c)) (ample c') cur') \<or>
    (\<exists>cur' c'. add_here a period (hole_link ctx) (ctx_addr ctx) d (cur, c) = Some (Inr (False, cur', c')) \<and>
      same_list cur cur' \<and> spoiled period c (CT a v h n (us @ vs)) par c')"
proof -
  note al = app_ready_alloc [OF ready, simplified]
  have heap: "ch_heap c \<noteq> []" "hd (ch_heap c) \<noteq> 0" using al(1) by (simp_all add: can_alloc_def)
  have ns: "reading cur ns" "\<forall>n \<in> set ns. plain n" using ready by (simp_all add: app_ready_def)
  show ?thesis using add_child_any [OF heap ns, of a period]
  proof (elim disjE exE conjE)
    fix cur' c' assume f: "add_child_node a period (cur, c) = Some (Inr (0, cur', c'))" "same_list cur cur'" "idle c c'"
    have "spoiled period c (CT a v h n (us @ vs)) par c'" by (rule idle_spoiled [OF r f(3)]) (use al(6) in simp)
    then show ?thesis using f(1,2) by (intro disjI2) (simp add: add_here_def)
  next
    let ?l = "with_new (leaf_cnode a ns period) c"
    fix cur' al assume s1: "add_child_node a period (cur, c) = Some (Inr (hd (ch_heap c), cur', ?l\<lparr>ch_alloc := al\<rparr>))"
      and all: "\<forall>al. plan al = [] \<longrightarrow> (\<exists>b. add_child_node a period (cur, c\<lparr>ch_alloc := al\<rparr>) =
        Some (Inr (hd (ch_heap c), cur', ?l\<lparr>ch_alloc := b\<rparr>)))"
    obtain b where b: "add_child_node a period (cur, ample c) = Some (Inr (hd (ch_heap c), cur', ?l\<lparr>ch_alloc := b\<rparr>))"
      using all [rule_format, of "ch_alloc (ample c)"] by (auto simp: ample_def)
    note s = s1 b
    obtain cur1 c1 where "add_here a period (hole_link ctx) (ctx_addr ctx) d (cur, ample c) = Some (Inr (True, cur1, c1))"
      and ap: "appended (ample c) cur (CT a v h n (us @ vs)) par (CT a v h n (us @ new_leaf (hd (ch_heap c)) ns period # vs))
        (tl (ch_heap c)) c1 cur1"
      using leaf_appended [OF r [folded ample_rep [of c]] ready, of cn ctx period d] cn t xs by auto
    then obtain c2 where l: "link_child a (ctx_addr ctx) (hole_link ctx) (hd (ch_heap c)) (?l\<lparr>ch_alloc := b\<rparr>) = Some (Inr c2)"
        "inc_children_hit a period d c2 = Inr c1" "cur1 = cur'"
      using heap(2) by (auto simp: add_here_def s(2) simp del: with_new_simps)
    have "add_here a period (hole_link ctx) (ctx_addr ctx) d (cur, c) = Some (Inr (True, cur', c1\<lparr>ch_alloc := al\<rparr>))"
      using heap(2) link_child_alloc [OF l(1), of al] inc_children_alloc [OF l(2), of al]
      by (simp add: add_here_def s(1) del: with_new_simps)
    moreover have "appended (ample c) cur (CT a v h n (us @ vs)) par (CT a v h n (us @ new_leaf (hd (ch_heap c)) ns period # vs))
        (tl (ch_heap c)) (ample (c1\<lparr>ch_alloc := al\<rparr>)) cur'"
      using appended_ample [OF ap] l(3) by simp
    ultimately show ?thesis by blast
  qed
qed

lemma second_any:
  assumes env: "env_key env \<noteq> CCKEY_SRCLINE"
    and r: "chain_rep c par (CT a v h n [f])" "distinct (nodes (CT a v h n [f]))"
    and heap: "ch_heap c \<noteq> []" "hd (ch_heap c) \<noteq> 0" "\<forall>x \<in> set (ch_heap c). x \<notin> set (nodes (CT a v h n [f]))"
    and rd: "reading cur (m # ns)" "\<forall>n \<in> set (m # ns). plain n"
    and am: "add_second env a period (cur, c\<lparr>ch_alloc := a0\<rparr>) = Some (Inr (True, cur0, c0))" "plan a0 = []"
  shows "(\<exists>al. add_second env a period (cur, c) = Some (Inr (True, cur0, c0\<lparr>ch_alloc := al\<rparr>))) \<or>
    (\<exists>cur' d j. add_second env a period (cur, c) = Some (Inr (False, cur', overcount a period d)) \<and> same_list cur cur' \<and>
      chain_rep d par (CT a v 0 0 [f]) \<and> j \<le> 1 \<and> ch_heap d = drop j (ch_heap c) \<and>
      (\<forall>x. x \<noteq> a \<and> x \<notin> set (ch_heap c) \<longrightarrow> cnodes d x = cnodes c x) \<and> (\<forall>x. x \<notin> set (ch_heap c) \<longrightarrow> in_mem d x = in_mem c x))"
proof -
  let ?f = "\<lambda>p. p\<lparr>cn_hit := 0, children_hit := children_hit p + period, cn_count := 0, children_count := children_count p + 1\<rparr>"
  obtain cn t where cn: "cnodes c a = Some cn" "cn_parent cn = par" "cn_val cn = v" "val_nr cn = of_nat (length v)"
    "children_hit cn = sum_list (map cumul_hit [f])" "children_count cn = sum_list (map cumul_count [f])"
    "holds_tree (kids_tree c cn) t" "red_black t" "addrs t = map ct_at [f]"
    using r(1) by (auto simp: node_rep_def)
  define c1 where "c1 = c\<lparr>cnodes := (cnodes c)(a \<mapsto> ?f cn)\<rparr>"
  have up: "upd_cn a ?f c = Inr c1" using cn(1) by (simp add: upd_cn_def ld_cn_def c1_def)
  note up0 = upd_alloc [OF up, of a0]
  have cur: "callchain_cursor_current (Some cur) = Some m" using reading_current [OF rd(1)] by simp
  have h1: "ch_heap c1 = ch_heap c" "ch_heap c1 \<noteq> []" "hd (ch_heap c1) \<noteq> 0" using heap(1,2) by (simp_all add: c1_def)
  show ?thesis using add_child_any [OF h1(2,3) rd, of a period]
  proof (elim disjE exE conjE)
    fix cur' c' assume s: "add_child_node a period (cur, c1) = Some (Inr (0, cur', c'))" "same_list cur cur'" "idle c1 c'"
    define d where "d = c'\<lparr>cnodes := (cnodes c')(a \<mapsto> cn\<lparr>cn_hit := 0, cn_count := 0\<rparr>)\<rparr>"
    have ah: "a \<notin> set (ch_heap c)" using heap(3) by auto
    have same: "x \<notin> set (ch_heap c) \<Longrightarrow> cnodes c' x = cnodes c1 x \<and> in_mem c' x = in_mem c1 x" for x
      using s(3) h1(1) by (simp add: idle_def)
    have "cnodes c' a = Some (?f cn)" using same [OF ah] by (simp add: c1_def)
    then have "(cnodes c')(a \<mapsto> ?f cn) = cnodes c'" by (rule fun_upd_idem)
    moreover have "overcount a period d = c'\<lparr>cnodes := (cnodes c')(a \<mapsto> ?f cn)\<rparr>"
      by (cases cn) (simp add: overcount_def d_def)
    ultimately have "overcount a period d = c'" by simp
    moreover have out: "cnodes d x = cnodes c x" if "x \<noteq> a" "x \<notin> set (ch_heap c)" for x
      using same [OF that(2)] that(1) by (simp add: d_def c1_def)
    moreover have mem: "in_mem d x = in_mem c x" if "x \<notin> set (ch_heap c)" for x
      using same [OF that] by (simp add: d_def c1_def)
    moreover have "chain_rep d par (CT a v 0 0 [f])"
    proof -
      have fo: "x \<noteq> a \<and> x \<notin> set (ch_heap c)" if "x \<in> set (nodes f)" for x using that r(2) heap(3) by auto
      have "chain_rep d a f = chain_rep c a f" using out mem fo nodes_below by (intro chain_rep_cong) blast+
      moreover have "holds_tree (kids_tree d (cn\<lparr>cn_hit := 0, cn_count := 0\<rparr>)) t = holds_tree (kids_tree c cn) t"
        using mem fo [OF ct_at_nodes] cn(9) by (intro holds_tree_cong) (auto simp: kids_tree_def)
      then have "node_rep d par a v 0 0 [f]" unfolding node_rep_def using cn
        by (intro exI [of _ "cn\<lparr>cn_hit := 0, cn_count := 0\<rparr>"] exI [of _ t]) (simp add: d_def)
      ultimately show ?thesis using r(1) by simp
    qed
    moreover obtain j where "j \<le> 1" "ch_heap d = drop j (ch_heap c)" using s(3) h1(1) by (auto simp: idle_def d_def)
    moreover have "add_second env a period (cur, c) = Some (Inr (False, cur', c'))"
      by (simp add: add_second_def up cur s(1))
    ultimately show ?thesis using s(2) by blast
  next
    let ?l = "with_new (leaf_cnode a (m # ns) period) c1" and ?new = "hd (ch_heap c1)"
    fix cur' al assume s1: "add_child_node a period (cur, c1) = Some (Inr (?new, cur', ?l\<lparr>ch_alloc := al\<rparr>))"
      and all: "\<forall>al. plan al = [] \<longrightarrow> (\<exists>b. add_child_node a period (cur, c1\<lparr>ch_alloc := al\<rparr>) =
        Some (Inr (?new, cur', ?l\<lparr>ch_alloc := b\<rparr>)))"
    obtain b where b: "add_child_node a period (cur, c1\<lparr>ch_alloc := a0\<rparr>) = Some (Inr (?new, cur', ?l\<lparr>ch_alloc := b\<rparr>))"
      using all am(2) by blast
    note s = s1 b
    obtain p k d where l: "ld_cn (?l\<lparr>ch_alloc := b\<rparr>) a = Inr p" "match_first env m (rb_root_in p) (?l\<lparr>ch_alloc := b\<rparr>) = Inr (k, d)"
        "link_child a (rb_root_in p) (Child_link (if k = MATCH_LT then L else R) (rb_root_in p)) ?new d = Some (Inr c0)" "cur' = cur0"
      using am(1) h1(3) by (auto simp: add_second_def up0 cur s(2) simp del: with_new_simps)
    have pl: "plain m" using rd(2) by simp
    have "add_second env a period (cur, c) = Some (Inr (True, cur0, c0\<lparr>ch_alloc := al\<rparr>))"
      using h1(3) l(1,4) match_first_alloc [OF env pl l(2), of al] link_child_alloc [OF l(3), of al]
      by (simp add: add_second_def up cur s(1) del: with_new_simps)
    then show ?thesis by blast
  qed
qed

lemma split_any:
  assumes env: "env_key env \<noteq> CCKEY_SRCLINE" and r: "chain_rep c par (CT a v h n ks)" and v: "length v < 2 ^ 32"
    and ready: "app_ready (ample c) cur0 ns (CT a v h n ks)" and m: "common v ns < length v" "0 < common v ns"
    and rd: "reading cur (drop (common v ns) ns)" "same_list cur0 cur" "start + of_nat (common v ns) = cu_pos cur"
  shows "(\<exists>cur' c'. split_add_child env a (common v ns) start (of_nat (common v ns)) period (cur, c) = Some (Inr (True, cur', c')) \<and>
      appended (ample c) cur0 (CT a v h n ks) par (fst (app_node ns period (ch_heap c) (CT a v h n ks)))
        (snd (app_node ns period (ch_heap c) (CT a v h n ks))) (ample c') cur') \<or>
    (\<exists>cur' c'. split_add_child env a (common v ns) start (of_nat (common v ns)) period (cur, c) = Some (Inr (False, cur', c')) \<and>
      same_list cur cur' \<and> spoiled period c (CT a v h n ks) par c')"
proof -
  let ?k = "CT a v h n ks" and ?m = "common v ns" and ?new = "hd (ch_heap c)"
  let ?child = "CT ?new (drop ?m v) h n ks"
  note al = app_ready_alloc [OF ready, simplified ample_simps]
  have heap: "ch_heap c \<noteq> []" "?new \<noteq> 0" using al(1) by (simp_all add: can_alloc_def)
  note ra = r [folded ample_rep [of c]]
  obtain c1 c2 where s: "create_child a True (ample c) = Some (Inr (?new, c1))" "move_tail a ?new ?m (of_nat ?m) c1 = Inr c2"
    and r2: "chain_rep c2 par (CT a (take ?m v) h n [?child])"
    and f: "\<And>x. x \<notin> set (nodes ?k) \<Longrightarrow> x \<noteq> ?new \<Longrightarrow> cnodes c2 x = cnodes c x"
      "\<And>x. x \<noteq> ?new \<Longrightarrow> in_mem c2 x = in_mem c x" "ch_heap c2 = tl (ch_heap c)" "plan (ch_alloc c2) = []"
    using split_tail_ok [OF ra ready m(1) v] by auto
  obtain cur1 c3 where ok: "split_add_child env a ?m start (of_nat ?m) period (cur, ample c) = Some (Inr (True, cur1, c3))"
    and ap: "appended (ample c) cur0 ?k par (fst (app_node ns period (ch_heap c) ?k)) (snd (app_node ns period (ch_heap c) ?k)) c3 cur1"
    using split_ok [OF env ra v ready m(1) rd, of period] by auto
  have idx: "(ucast (ucast (start + of_nat ?m) :: u32) :: u64) < cu_nr cur \<longleftrightarrow> drop ?m ns \<noteq> []"
    unfolding rd(3) by (rule more_to_read [OF rd(1)])
  have step: "split_add_child env a ?m start (of_nat ?m) period (cur, d) =
      (if drop ?m ns \<noteq> [] then add_second env a period (cur, d2)
       else obind (Some (upd_cn a (\<lambda>p. p\<lparr>cn_hit := period, cn_count := 1\<rparr>) d2)) (\<lambda>c. Some (Inr (True, cur, c))))"
    if "create_child a True d = Some (Inr (?new, d1))" "move_tail a ?new ?m (of_nat ?m) d1 = Inr d2" for d d1 d2
    using that heap(2) by (simp add: split_add_child_def Let_def idx del: drop_eq_Nil)
  note step0 = step [OF s]
  show ?thesis using create_inherit_any [OF heap s(1)]
  proof (elim disjE exE)
    fix b assume "create_child a True c = Some (Inr (0, c\<lparr>ch_alloc := b\<rparr>))"
    then have "split_add_child env a ?m start (of_nat ?m) period (cur, c) = Some (Inr (False, cur, c\<lparr>ch_alloc := b\<rparr>))"
      by (simp add: split_add_child_def Let_def)
    moreover have "idle c (c\<lparr>ch_alloc := b\<rparr>)" by (simp add: idle_def exI [of _ 0])
    then have "spoiled period c ?k par (c\<lparr>ch_alloc := b\<rparr>)" by (rule idle_spoiled [OF r]) (use al(6) in simp)
    ultimately show ?thesis by (intro disjI2) simp
  next
    fix b assume b: "create_child a True c = Some (Inr (?new, c1\<lparr>ch_alloc := b\<rparr>))"
    note step1 = step [OF b move_tail_alloc [OF s(2), of b]]
    have succ: ?thesis if "split_add_child env a ?m start (of_nat ?m) period (cur, c) = Some (Inr (True, cur1, c3\<lparr>ch_alloc := b'\<rparr>))" for b'
      using that appended_ample [OF ap] by (intro disjI1 exI [of _ cur1] exI [of _ "c3\<lparr>ch_alloc := b'\<rparr>"]) simp
    show ?thesis
    proof (cases "drop ?m ns")
      case Nil
      obtain c4 where c4: "upd_cn a (\<lambda>p. p\<lparr>cn_hit := period, cn_count := 1\<rparr>) c2 = Inr c4" "c4 = c3" "cur = cur1"
        using trans [OF step0 [symmetric] ok] Nil by auto
      have "split_add_child env a ?m start (of_nat ?m) period (cur, c) = Some (Inr (True, cur1, c3\<lparr>ch_alloc := b\<rparr>))"
        unfolding step1 using Nil upd_alloc [OF c4(1), of b] c4(2,3) by simp
      then show ?thesis by (rule succ)
    next
      case (Cons q qs)
      let ?c2 = "c2\<lparr>ch_alloc := b\<rparr>" and ?k2 = "CT a (take ?m v) h n [?child]"
      obtain x y xs where h: "ch_heap c = x # y # xs" using ready by (cases "ch_heap c"; cases "tl (ch_heap c)") (auto simp: app_ready_def)
      have good: "good_heap (ch_heap c) (set (nodes ?k))" using ready by (simp add: app_ready_def)
      have d2: "distinct (nodes ?k2)" using al(3,5) by auto
      have h2: "ch_heap ?c2 \<noteq> []" "hd (ch_heap ?c2) \<noteq> 0" "\<forall>x \<in> set (ch_heap ?c2). x \<notin> set (nodes ?k2)"
        using good f(3) h by (auto simp: good_heap_def)
      have rd2: "reading cur (q # qs)" "\<forall>n \<in> set (q # qs). plain n"
      proof -
        show "reading cur (q # qs)" using rd(1) Cons by simp
        have "set (q # qs) \<subseteq> set ns" unfolding Cons [symmetric] by (rule set_drop_subset)
        then show "\<forall>n \<in> set (q # qs). plain n" using ready by (auto simp: app_ready_def)
      qed
      have rep2: "chain_rep ?c2 par ?k2" using r2 unfolding alloc_rep .
      have am: "add_second env a period (cur, ?c2\<lparr>ch_alloc := ch_alloc c2\<rparr>) = Some (Inr (True, cur1, c3))"
        using ok step0 Cons by simp
      from second_any [OF env rep2 d2 h2 rd2 am f(4)] show ?thesis
      proof (elim disjE exE conjE)
        fix al' assume "add_second env a period (cur, ?c2) = Some (Inr (True, cur1, c3\<lparr>ch_alloc := al'\<rparr>))"
        then show ?thesis using step1 Cons by (intro succ) simp
      next
        fix cur' d j assume d: "add_second env a period (cur, ?c2) = Some (Inr (False, cur', overcount a period d))"
          "same_list cur cur'" "chain_rep d par (CT a (take ?m v) 0 0 [?child])" "j \<le> 1" "ch_heap d = drop j (ch_heap ?c2)"
          "\<forall>x. x \<noteq> a \<and> x \<notin> set (ch_heap ?c2) \<longrightarrow> cnodes d x = cnodes ?c2 x" "\<forall>x. x \<notin> set (ch_heap ?c2) \<longrightarrow> in_mem d x = in_mem ?c2 x"
        have out: "x \<noteq> ?new \<and> x \<notin> set (ch_heap c2)" if "x \<notin> set (ch_heap c)" for x using that f(3) h by auto
        have an: "a \<notin> set (ch_heap c)" using al(6) by auto
        have "cnodes d x = cnodes c x \<and> in_mem d x = in_mem c x" if "x \<notin> set (nodes ?k)" "x \<notin> set (ch_heap c)" for x
        proof -
          have "x \<noteq> a" using that(1) by auto
          then show ?thesis using d(6,7) f(1) [OF that(1)] f(2) [of x] out [OF that(2)] by simp
        qed
        moreover have "in_mem d a = in_mem c a" using d(7) f(2) [of a] out [OF an] by simp
        ultimately have "kept c d ?k" by (simp add: kept_def)
        moreover have "Suc j \<le> 2" "ch_heap d = drop (Suc j) (ch_heap c)" using d(4,5) f(3) h by simp_all
        moreover have "?new \<in> set (take (Suc j) (ch_heap c))" using h by simp
        moreover have "split_at ?new ?k (CT a (take ?m v) 0 0 [?child])" by (rule split_at.here) (use m in simp_all)
        ultimately have "spoiled period c ?k par (overcount a period d)" using d(3) unfolding spoiled_def by blast
        moreover have "split_add_child env a ?m start (of_nat ?m) period (cur, c) = Some (Inr (False, cur', overcount a period d))"
          unfolding step1 using d(1) Cons by simp
        ultimately show ?thesis using d(2) by blast
      qed
    qed
  qed
qed

subsection \<open>Appending\<close>

definition append_outcome ::
  "u64 \<Rightarrow> chains \<Rightarrow> cursor \<Rightarrow> ctree \<Rightarrow> u64 \<Rightarrow> ctree \<times> heap \<Rightarrow> bool \<Rightarrow> chains \<Rightarrow> cursor \<Rightarrow> bool" where
  "append_outcome period c cur k par r ok c' cur' \<longleftrightarrow> same_list cur cur' \<and>
     (if ok then appended (ample c) cur k par (fst r) (snd r) (ample c') cur' else spoiled period c k par c')"

lemma append_children_any:
  assumes env: "env_key env \<noteq> CCKEY_SRCLINE"
    and IH: "\<And>k cur c. k \<in> set ks \<Longrightarrow> chain_rep c a k \<Longrightarrow> ct_key k = cu_key (hd ns) \<Longrightarrow> app_ready (ample c) cur ns k \<Longrightarrow>
      \<exists>ok cur' c'. append_chain env (\<lambda>r s. append_children env r period None s) (ct_at k) period (cur, c) =
          Some (Inr (if ok then MATCH_EQ else MATCH_ERROR, cur', c')) \<and>
        append_outcome period c cur k a (app_node ns period (ch_heap c) k) ok c' cur'"
    and r: "chain_rep c par (CT a v h n ks)" and wf: "kids_wf ks" and ready: "app_ready (ample c) cur ns (CT a v h n ks)"
  shows "\<exists>ok cur' c'. append_children env a period None (cur, c) = Some (Inr (ok, cur', c')) \<and>
    append_outcome period c cur (CT a v h n ks) par (map_prod (CT a v h n) (\<lambda>h. h) (app_kids ns period (ch_heap c) ks)) ok c' cur'"
proof -
  note al = app_ready_alloc [OF ready, simplified ample_simps]
  obtain m ms where ns: "ns = m # ms" using ready by (cases ns) (auto simp: app_ready_def)
  have rd: "reading cur (m # ms)" "plain m" using ready ns by (simp_all add: app_ready_def)
  note ra = r [folded ample_rep [of c]]
  from children_search [OF env r wf al(5) rd, of period] show ?thesis
  proof (elim disjE exE conjE)
    fix us k vs d assume ks: "ks = us @ k # vs" and key: "ct_key k = cu_key m"
      and go: "kid_decides env a period (ct_at k) d (cur, c) (append_children env a period None (cur, c))"
    have k: "k \<in> set ks" using ks by simp
    let ?r = "app_node ns period (ch_heap c) k"
    have "chain_rep c a k" "ct_key k = cu_key (hd ns)" using r k key ns by simp_all
    then obtain ok cur' c1 where s: "append_chain env (\<lambda>r s. append_children env r period None s) (ct_at k) period (cur, c) =
        Some (Inr (if ok then MATCH_EQ else MATCH_ERROR, cur', c1))" "append_outcome period c cur k a ?r ok c1 cur'"
      using IH [OF k _ _ app_ready_kid [OF ready k]] by blast
    show ?thesis
    proof (cases ok)
      case False
      have "append_children env a period None (cur, c) = Some (Inr (False, cur', c1))"
        using go s(1) False unfolding kid_decides_def by simp
      moreover have "spoiled period c (CT a v h n ks) par c1"
        using kid_spoiled [OF r [unfolded ks] al(5) [unfolded ks] al(6) [unfolded ks]] s(2) False unfolding ks
        by (simp add: append_outcome_def)
      ultimately show ?thesis using s(2) by (intro exI [of _ False]) (auto simp: append_outcome_def)
    next
      case True
      have ap: "appended (ample c) cur k a (fst ?r) (snd ?r) (ample c1) cur'" using s(2) True by (simp add: append_outcome_def)
      have "2 \<le> length (ch_heap c)" using ready by (simp add: app_ready_def)
      then obtain j where j: "snd ?r = drop j (ch_heap (ample c))" "set (nodes (fst ?r)) \<subseteq> set (nodes k) \<union> set (ch_heap (ample c))"
        using app_node_fits [of "ch_heap c" ns period k] by auto
      obtain c2 where c2: "inc_children_hit a period d (ample c1) = Inr c2"
          "appended (ample c) cur (CT a v h n ks) par (CT a v h n (us @ fst ?r # vs)) (snd ?r) c2 cur'"
        using kid_appended [OF ra [unfolded ks] ready [unfolded ks] ap j(1) ct_at_app app_cumul(2) app_cumul_count(2) j(2)] ks
        by blast
      obtain b where b: "c1 = ample c1\<lparr>ch_alloc := b\<rparr>" by (metis ample_alloc ample_def ample_eq)
      have "inc_children_hit a period d c1 = Inr (c2\<lparr>ch_alloc := b\<rparr>)" using inc_children_alloc [OF c2(1), of b] b by simp
      then have "append_children env a period None (cur, c) = Some (Inr (True, cur', c2\<lparr>ch_alloc := b\<rparr>))"
        using go s(1) True unfolding kid_decides_def by simp
      moreover have "app_kids ns period (ch_heap c) ks = (us @ fst ?r # vs, snd ?r)"
        using app_kids_hit [of us ns k period "ch_heap c" vs] wf key ns unfolding ks by (simp add: kids_wf_append)
      ultimately show ?thesis using appended_ample [OF c2(2)] s(2)
        by (intro exI [of _ True] exI [of _ cur'] exI [of _ "c2\<lparr>ch_alloc := b\<rparr>"]) (simp add: append_outcome_def)
    qed
  next
    fix us vs cn ctx d assume ks: "ks = us @ vs" and hole: "cnodes c a = Some cn" "holds_tree (kids_tree c cn) (plug Lf ctx)"
        "red_black (plug Lf ctx)" "ctx_before ctx = map ct_at us" "ctx_after ctx = map ct_at vs"
      and sides: "\<forall>u \<in> set us. key_less (cu_key m) (ct_key u)" "\<forall>u \<in> set vs. key_less (ct_key u) (cu_key m)"
      and go: "append_children env a period None (cur, c) = add_here a period (hole_link ctx) (ctx_addr ctx) d (cur, c)"
    have "app_kids ns period (ch_heap c) ks = (us @ new_leaf (hd (ch_heap c)) ns period # vs, tl (ch_heap c))"
      using app_kids_miss [of us ns vs period "ch_heap c"] sides ns ks by simp
    then show ?thesis using leaf_any [OF r [unfolded ks] ready [unfolded ks] hole, of period d] unfolding go ks
      by (auto simp: append_outcome_def appended_def split: if_splits intro: exI [of _ True] exI [of _ False])
  qed
qed

lemma append_chain_any:
  assumes env: "env_key env \<noteq> CCKEY_SRCLINE"
  shows "kid_wf k \<Longrightarrow> chain_rep c par k \<Longrightarrow> ct_key k = cu_key (hd ns) \<Longrightarrow> app_ready (ample c) cur ns k \<Longrightarrow>
    \<exists>ok cur' c'. append_chain env (\<lambda>r s. append_children env r period None s) (ct_at k) period (cur, c) =
        Some (Inr (if ok then MATCH_EQ else MATCH_ERROR, cur', c')) \<and>
      append_outcome period c cur k par (app_node ns period (ch_heap c) k) ok c' cur'"
proof (induction k arbitrary: c par ns cur)
  case (CT a v h n ks)
  let ?k = "CT a v h n ks" and ?m = "common v ns"
  let ?rest = "\<lambda>r s. append_children env r period None s"
  note r = CT.prems(2) and ready = CT.prems(4)
  note al = app_ready_alloc [OF ready, simplified ample_simps]
  have wf: "v \<noteq> []" "length v < 2 ^ 32" "kids_wf ks" using CT.prems(1) unfolding kid_wf_CT by blast+
  have ns: "reading cur ns" "ns \<noteq> []" "\<forall>n \<in> set ns. plain n" using ready by (simp_all add: app_ready_def)
  have key: "cl_key (hd v) = cu_key (hd ns)" using CT.prems(3) by (simp add: ct_key_def)
  have pos: "0 < ?m" by (rule common_first [OF wf(1) ns(2) key])
  obtain cur1 where c1: "reading cur1 (drop ?m ns)" "same_list cur cur1" "cu_pos cur1 = cu_pos cur + of_nat ?m"
    and step: "append_chain env ?rest a period (cur, c) =
      (if ?m < length v then
         obind (split_add_child env a ?m (cu_pos cur) (of_nat ?m) period (cur1, c)) (\<lambda>(ok, cur, c).
           Some (Inr (if ok then MATCH_EQ else MATCH_ERROR, cur, c)))
       else if drop ?m ns = [] then
         obind (Some (upd_cn a (\<lambda>n. n\<lparr>cn_hit := cn_hit n + period, cn_count := cn_count n + 1\<rparr>) c)) (\<lambda>c.
           Some (Inr (MATCH_EQ, cur1, c)))
       else
         obind (?rest a (cur1, c)) (\<lambda>(ok, cur, c).
           Some (Inr (if ok then MATCH_EQ else MATCH_ERROR, cur, c))))"
    using append_chain_step [OF env r wf(1,2) ns key, of ?rest period] by blast
  consider "?m < length v" | "\<not> ?m < length v" "drop ?m ns = []" | "\<not> ?m < length v" "drop ?m ns \<noteq> []" by blast
  then show ?case
  proof cases
    case 1
    have "cu_pos cur + of_nat ?m = cu_pos cur1" using c1(3) by simp
    from split_any [OF env r wf(2) ready 1 pos c1(1,2) this, of period]
    obtain ok cur' c' where s: "split_add_child env a ?m (cu_pos cur) (of_nat ?m) period (cur1, c) = Some (Inr (ok, cur', c'))"
        "append_outcome period c cur ?k par (app_node ns period (ch_heap c) ?k) ok c' cur'"
    proof (elim disjE exE conjE)
      fix cur' c' assume s: "split_add_child env a ?m (cu_pos cur) (of_nat ?m) period (cur1, c) = Some (Inr (True, cur', c'))"
        and ap: "appended (ample c) cur ?k par (fst (app_node ns period (ch_heap c) ?k)) (snd (app_node ns period (ch_heap c) ?k))
          (ample c') cur'"
      have "same_list cur cur'" using ap unfolding appended_def by blast
      then have "append_outcome period c cur ?k par (app_node ns period (ch_heap c) ?k) True c' cur'"
        using ap unfolding append_outcome_def by simp
      with s show ?thesis by (rule that)
    next
      fix cur' c' assume s: "split_add_child env a ?m (cu_pos cur) (of_nat ?m) period (cur1, c) = Some (Inr (False, cur', c'))"
        "same_list cur1 cur'" "spoiled period c ?k par c'"
      have "append_outcome period c cur ?k par (app_node ns period (ch_heap c) ?k) False c' cur'"
        unfolding append_outcome_def using s(3) same_list_trans [OF c1(2) s(2)] by simp
      with s(1) show ?thesis by (rule that)
    qed
    have "append_chain env ?rest a period (cur, c) = Some (Inr (if ok then MATCH_EQ else MATCH_ERROR, cur', c'))"
      unfolding step using 1 s(1) by simp
    then show ?thesis using s(2) unfolding ctree.sel by blast
  next
    case 2
    obtain cn where cn: "cnodes c a = Some cn" "cn_hit cn = h" "cn_count cn = n"
      and s: "chain_rep (c\<lparr>cnodes := (cnodes c)(a \<mapsto> cn\<lparr>cn_hit := h + period, cn_count := n + 1\<rparr>)\<rparr>) par (CT a v (h + period) (n + 1) ks)"
      using set_hits [OF r al(5), where h' = "h + period" and n' = "n + 1"] by blast
    let ?c = "c\<lparr>cnodes := (cnodes c)(a \<mapsto> cn\<lparr>cn_hit := h + period, cn_count := n + 1\<rparr>)\<rparr>"
    have "append_chain env ?rest a period (cur, c) = Some (Inr (MATCH_EQ, cur1, ?c))"
      unfolding step using 2 cn by (simp add: upd_cn_def ld_cn_def del: drop_eq_Nil)
    moreover have "app_node ns period (ch_heap c) ?k = (CT a v (h + period) (n + 1) ks, ch_heap c)"
      using 2 by (simp add: Let_def del: drop_eq_Nil)
    moreover have "chain_rep (ample ?c) par (CT a v (h + period) (n + 1) ks)" using s by (simp only: ample_rep)
    then have "appended (ample c) cur ?k par (CT a v (h + period) (n + 1) ks) (ch_heap c) (ample ?c) cur1"
      using c1(1,2) 2(2) unfolding appended_def by (simp add: kept_def del: chain_rep.simps)
    ultimately show ?thesis using c1(2)
      by (intro exI [of _ True] exI [of _ cur1] exI [of _ ?c]) (simp add: append_outcome_def del: app_node.simps)
  next
    case 3
    have "set (drop ?m ns) \<subseteq> set ns" by (rule set_drop_subset)
    then have ready1: "app_ready (ample c) cur1 (drop ?m ns) ?k"
      using ready c1(1) 3(2) unfolding app_ready_def by blast
    have IH: "\<exists>ok cur' c'. append_chain env ?rest (ct_at k) period (cur, c) = Some (Inr (if ok then MATCH_EQ else MATCH_ERROR, cur', c')) \<and>
        append_outcome period c cur k a (app_node (drop ?m ns) period (ch_heap c) k) ok c' cur'"
      if "k \<in> set ks" "chain_rep c a k" "ct_key k = cu_key (hd (drop ?m ns))" "app_ready (ample c) cur (drop ?m ns) k" for k cur c
      using CT.IH [OF that(1) _ that(2-4)] wf(3) that(1) by (simp add: kids_wf_def)
    obtain ok cur' c' where s: "?rest a (cur1, c) = Some (Inr (ok, cur', c'))"
      "append_outcome period c cur1 ?k par (map_prod (CT a v h n) (\<lambda>h. h) (app_kids (drop ?m ns) period (ch_heap c) ks)) ok c' cur'"
      using append_children_any [OF env IH r wf(3) ready1] by blast
    have e: "app_node ns period (ch_heap c) ?k = map_prod (CT a v h n) (\<lambda>h. h) (app_kids (drop ?m ns) period (ch_heap c) ks)"
      using 3 by (simp add: Let_def split_def map_prod_def del: drop_eq_Nil)
    have run: "append_chain env ?rest a period (cur, c) = Some (Inr (if ok then MATCH_EQ else MATCH_ERROR, cur', c'))"
      unfolding step using 3 s(1) by (simp del: drop_eq_Nil)
    have lift: "append_outcome period c cur ?k par r ok c' cur'" if "append_outcome period c cur1 ?k par r ok c' cur'" for r
    proof -
      have l: "same_list cur cur'" using that c1(2) same_list_trans unfolding append_outcome_def by blast
      have "appended (ample c) cur ?k par (fst r) (snd r) (ample c') cur'" if "appended (ample c) cur1 ?k par (fst r) (snd r) (ample c') cur'"
        using that l unfolding appended_def by blast
      then show ?thesis using that l unfolding append_outcome_def by (cases ok) simp_all
    qed
    show ?thesis using run lift [OF s(2)] unfolding ctree.sel e by blast
  qed
qed

lemma spoiled_chains:
  assumes c: "holds_chains c r ks" and sp: "spoiled period c (CT r [] 0 0 ks) 0 c'"
  shows "\<exists>d ks'. holds_chains d r ks' \<and> (\<forall>p. count_at ks' p = count_at ks p \<and> hits_at ks' p = hits_at ks p) \<and>
    (\<exists>j \<le> 2. ch_heap d = drop j (ch_heap c)) \<and> (c' = d \<or> (\<exists>b. c' = overcount b period d))"
proof -
  let ?r = "CT r [] 0 0 ks"
  have rep: "chain_rep c 0 ?r" "kids_wf ks" "distinct (nodes ?r)" "good_heap (ch_heap c) (set (nodes ?r))"
    using c unfolding holds_chains_def by blast+
  obtain d k' j where j: "j \<le> 2" and d: "chain_rep d 0 k'" "ch_heap d = drop j (ch_heap c)"
      "k' = ?r \<or> (\<exists>x \<in> set (take j (ch_heap c)). split_at x ?r k')" "c' = d \<or> (\<exists>b. c' = overcount b period d)"
    using sp unfolding spoiled_def by blast
  have good: "good_heap (ch_heap d) (set (nodes ?r) \<union> set (take j (ch_heap c)))"
    unfolding d(2) by (rule good_heap_drop [OF rep(4)])
  from d(3) have "\<exists>ks'. holds_chains d r ks' \<and> (\<forall>p. count_at ks' p = count_at ks p \<and> hits_at ks' p = hits_at ks p)"
  proof (elim disjE bexE)
    assume "k' = ?r"
    moreover have "good_heap (ch_heap d) (set (nodes ?r))" using good by (simp add: good_heap_def)
    ultimately have "holds_chains d r ks" using d(1) rep(2,3) unfolding holds_chains_def by blast
    then show ?thesis by blast
  next
    fix x assume x: "x \<in> set (take j (ch_heap c))" and s: "split_at x ?r k'"
    from s obtain us k l vs where ks: "k' = CT r [] 0 0 (us @ l # vs)" "ks = us @ k # vs" "split_at x k l"
      by (rule split_at_root) auto
    have "x \<notin> set (nodes ?r)" using x rep(4) by (auto simp: good_heap_def dest: in_set_takeD)
    moreover have m: "mset (nodes k') = mset (nodes ?r) + mset [x]" using split_at_keeps [OF s] by simp
    ultimately have nd: "distinct (nodes k')" "set (nodes k') = set (nodes ?r) \<union> {x}"
      using fresh_distinct [OF m rep(3)] by simp_all
    have "good_heap (ch_heap d) (set (nodes k'))" using good x nd(2) by (auto simp: good_heap_def)
    moreover have "kids_wf (us @ l # vs)" using rep(2) split_at_wf [OF ks(3)] unfolding ks(2)
      by (simp add: kids_wf_append kids_wf_Cons)
    ultimately have "holds_chains d r (us @ l # vs)" using d(1) nd(1) unfolding holds_chains_def ks(1) by blast
    moreover have "count_at (us @ l # vs) p = count_at ks p" "hits_at (us @ l # vs) p = hits_at ks p" for p
      unfolding count_at_def hits_at_def ks(2) chain_tally_append chain_tally_simps
      using split_at_tally [OF ks(3), of "\<lambda>h n. n" p] split_at_tally [OF ks(3), of "\<lambda>h n. h" p] by simp_all
    ultimately show ?thesis by blast
  qed
  then show ?thesis using j d(2,4) by blast
qed

lemma append_root_any:
  assumes c: "holds_chains c r ks" and env: "env_key env \<noteq> CCKEY_SRCLINE"
    and cur: "cursor_ok cur" "\<forall>n \<in> set (written cur). plain n" "written cur \<noteq> []" and mem: "2 \<le> length (ch_heap c)"
  shows "\<exists>ok cur' c'. append_chain_children env r period (the (callchain_cursor_commit (Some cur)), c) = Some (Inr (ok, cur', c')) \<and>
    same_list cur cur' \<and>
    (\<exists>j \<le> 2. ch_heap c' = drop j (ch_heap c)) \<and>
    (if ok then holds_chains c' r (fst (app_kids (written cur) period (ch_heap c) ks)) else spoiled period c (CT r [] 0 0 ks) 0 c')"
proof -
  let ?ns = "written cur" and ?r = "CT r [] 0 0 ks" and ?ks' = "fst (app_kids (written cur) period (ch_heap c) ks)"
  obtain cur0 where cur0: "callchain_cursor_commit (Some cur) = Some cur0" "same_list cur cur0"
    by (simp add: callchain_cursor_commit_def same_list_def)
  have rd: "reading cur0 ?ns" using cursor_commit_ok [OF cur(1)] cur0(1) by simp
  have rep: "chain_rep c 0 ?r" "kids_wf ks" "distinct (nodes ?r)" "good_heap (ch_heap c) (set (nodes ?r))"
    using c unfolding holds_chains_def by blast+
  have ready: "app_ready (ample c) cur0 ?ns ?r" using rd cur(2,3) mem rep(3,4) unfolding app_ready_def by simp
  have wf: "kid_wf k" if "k \<in> set ks" for k using rep(2) that by (simp add: kids_wf_def)
  obtain ok cur' c' where s: "append_children env r period None (cur0, c) = Some (Inr (ok, cur', c'))"
      "append_outcome period c cur0 ?r 0 (map_prod (CT r [] 0 0) (\<lambda>h. h) (app_kids ?ns period (ch_heap c) ks)) ok c' cur'"
    using append_children_any [OF env append_chain_any [OF env wf] rep(1,2) ready, of period] by blast
  have l: "same_list cur cur'" using s(2) same_list_trans [OF cur0(2)] unfolding append_outcome_def by blast
  have "holds_chains c' r ?ks' \<and> (\<exists>j \<le> 2. ch_heap c' = drop j (ch_heap c))" if ok
  proof -
    have am: "holds_chains (ample c) r ks" using c unfolding holds_chains_def ample_rep ample_simps .
    obtain cur1 c1 where o: "append_chain_children env r period (the (callchain_cursor_commit (Some cur)), ample c) = Some (Inr (True, cur1, c1))"
        "holds_chains c1 r ?ks'" "\<exists>j \<le> 2. ch_heap c1 = drop j (ch_heap c)"
      using append_root_ok [OF am env cur, of period] mem by auto
    have ap: "appended (ample c) cur0 ?r 0 (CT r [] 0 0 ?ks') (snd (app_kids ?ns period (ch_heap c) ks)) (ample c') cur'"
      using s(2) that unfolding append_outcome_def by (simp add: map_prod_def split_def)
    obtain cur2 c2 where o2: "append_chain_children env r period (cur0, ample c) = Some (Inr (True, cur2, c2))"
        "appended (ample c) cur0 ?r 0 (CT r [] 0 0 ?ks') (snd (app_kids ?ns period (ch_heap c) ks)) c2 cur2"
      using append_chain_children_ok [OF env rep(1) [folded ample_rep [of c]] rep(2) ready, of period] by auto
    have "c2 = c1" using o(1) o2(1) cur0(1) by simp
    then have "ch_heap c' = ch_heap c1" using ap o2(2) unfolding appended_def by simp
    moreover have "chain_rep c' 0 (CT r [] 0 0 ?ks')" using ap unfolding appended_def ample_rep by blast
    ultimately show ?thesis using o(2,3) unfolding holds_chains_def by simp
  qed
  moreover have "append_chain_children env r period (the (callchain_cursor_commit (Some cur)), c) = Some (Inr (ok, cur', c'))"
    using s(1) cur0(1) by (simp add: append_chain_children_def)
  moreover have "spoiled period c ?r 0 c'" if "\<not> ok" using s(2) that unfolding append_outcome_def by simp
  moreover have "\<exists>j \<le> 2. ch_heap c' = drop j (ch_heap c)" if "spoiled period c ?r 0 c'"
    using that by (auto simp: spoiled_def overcount_def split: option.splits)
  ultimately show ?thesis using l by auto
qed

lemma callchain_append_any:
  assumes "holds_chains c (cr_node root) ks" "env_key env \<noteq> CCKEY_SRCLINE" "cursor_ok cur" "written cur \<noteq> []"
    and "\<forall>n \<in> set (written cur). plain n" "2 \<le> length (ch_heap c)"
  shows "\<exists>ok root' cur' c'. callchain_append env root (Some cur) period c = Some (Inr (ok, root', Some cur', c')) \<and>
    same_list cur cur' \<and> cr_node root' = cr_node root \<and> (\<not> ok \<longrightarrow> root' = root) \<and> (\<exists>j \<le> 2. ch_heap c' = drop j (ch_heap c)) \<and>
    (if ok then holds_chains c' (cr_node root) (fst (app_kids (written cur) period (ch_heap c) ks))
     else \<exists>d ks'. holds_chains d (cr_node root) ks' \<and>
       (\<forall>p. count_at ks' p = count_at ks p \<and> hits_at ks' p = hits_at ks p) \<and>
       (c' = d \<or> (\<exists>b. c' = overcount b period d)))"
proof -
  obtain ok cur' c' where s: "append_chain_children env (cr_node root) period (the (callchain_cursor_commit (Some cur)), c) =
        Some (Inr (ok, cur', c'))" "same_list cur cur'" "\<exists>j \<le> 2. ch_heap c' = drop j (ch_heap c)"
      "if ok then holds_chains c' (cr_node root) (fst (app_kids (written cur) period (ch_heap c) ks))
       else spoiled period c (CT (cr_node root) [] 0 0 ks) 0 c'"
    using append_root_any [OF assms(1-3,5,4,6), of period] by blast
  have nr: "cu_nr cur \<noteq> 0"
    using assms(4) length_written [OF assms(3)] of_nat_u32_inj [of "cu_last cur" 0] assms(3)
    by (auto simp: cursor_ok_def simp flip: length_0_conv)
  show ?thesis
  proof (cases ok)
    case True
    let ?root = "if max_depth root < cu_nr cur' then root\<lparr>max_depth := cu_nr cur'\<rparr> else root"
    have run: "callchain_append env root (Some cur) period c = Some (Inr (True, ?root, Some cur', c'))"
      using s(1) nr True by (simp add: callchain_append_def)
    show ?thesis using s(2-4) True
      by (intro exI [of _ True] exI [of _ ?root] exI [of _ cur'] exI [of _ c'] conjI run) simp_all
  next
    case False
    have run: "callchain_append env root (Some cur) period c = Some (Inr (False, root, Some cur', c'))"
      using s(1) nr False by (simp add: callchain_append_def)
    have "spoiled period c (CT (cr_node root) [] 0 0 ks) 0 c'" using s(4) False by simp
    from spoiled_chains [OF assms(1) this] show ?thesis
      using s(2,3) by (intro exI [of _ False] exI [of _ root] exI [of _ cur'] exI [of _ c'] conjI run) (simp_all, blast)
  qed
qed

text \<open>C3. For a cursor of plain entries that is not empty and every key but the source line,
  \<open>callchain_append\<close> ends whatever the allocations answer. It returns 0 and then has appended
  the chain, or it returns -1 and then every chain has the hits and the count it had before:
  memory holds a tree of the same chains, but for the cumulative counters of at most one
  node, which are too high by the period and by one.\<close>

theorem callchain_append_any_memory:
  assumes "holds_chains c (cr_node root) ks" "env_key env \<noteq> CCKEY_SRCLINE" "cursor_ok cur" "written cur \<noteq> []"
    and "\<forall>n \<in> set (written cur). plain n" "2 \<le> length (ch_heap c)"
  shows "\<exists>ok root' cur' c'. callchain_append env root (Some cur) period c = Some (Inr (ok, root', Some cur', c')) \<and>
    written cur' = written cur \<and>
    (if ok then \<exists>ks'. holds_chains c' (cr_node root) ks' \<and>
       (\<forall>p. count_at ks' p = count_at ks p + (if p = map cu_key (written cur) then 1 else 0) \<and>
            hits_at ks' p = hits_at ks p + (if p = map cu_key (written cur) then period else 0))
     else root' = root \<and> (\<exists>d ks'. holds_chains d (cr_node root) ks' \<and>
       (\<forall>p. count_at ks' p = count_at ks p \<and> hits_at ks' p = hits_at ks p) \<and>
       (c' = d \<or> (\<exists>b. c' = overcount b period d))))"
proof -
  have wf: "kids_wf ks" using assms(1) by (simp add: holds_chains_def)
  obtain ok root' cur' c' where s: "callchain_append env root (Some cur) period c = Some (Inr (ok, root', Some cur', c'))"
      "same_list cur cur'" "\<not> ok \<longrightarrow> root' = root"
      "if ok then holds_chains c' (cr_node root) (fst (app_kids (written cur) period (ch_heap c) ks))
       else \<exists>d ks'. holds_chains d (cr_node root) ks' \<and>
         (\<forall>p. count_at ks' p = count_at ks p \<and> hits_at ks' p = hits_at ks p) \<and>
         (c' = d \<or> (\<exists>b. c' = overcount b period d))"
    using callchain_append_any [OF assms, of period] by blast
  have w: "written cur' = written cur" using s(2) by (simp add: same_list_def written_def)
  show ?thesis
  proof (cases ok)
    case True
    then show ?thesis using s(1,4) w app_tally_kids [OF assms(4) wf, of period "ch_heap c"] 
      by (intro exI [of _ ok] exI [of _ root'] exI [of _ cur'] exI [of _ c'] conjI) auto
  next
    case False
    then show ?thesis using s(1,3,4) w by (intro exI [of _ ok] exI [of _ root'] exI [of _ cur'] exI [of _ c'] conjI) simp_all
  qed
qed

text \<open>No memory for the entry of a new node.\<close>

theorem callchain_append_any_memory_witness:
  "\<exists>ok root' cur' c'. callchain_append \<lparr>env_key = CCKEY_FUNCTION, env_syms = (\<lambda>_. None)\<rparr> \<lparr>max_depth = 0, cr_node = 16\<rparr>
      (Some two_nodes) 5 (one_root\<lparr>ch_alloc := \<lparr>num_allocs = 0, num_frees = 0, leaf_frees = 0, plan = [True, True, False]\<rparr>\<rparr>) =
      Some (Inr (ok, root', Some cur', c')) \<and> written cur' = written two_nodes \<and>
    (if ok then \<exists>ks'. holds_chains c' (cr_node \<lparr>max_depth = 0, cr_node = 16\<rparr>) ks' \<and>
       (\<forall>p. count_at ks' p = count_at [] p + (if p = map cu_key (written two_nodes) then 1 else 0) \<and>
            hits_at ks' p = hits_at [] p + (if p = map cu_key (written two_nodes) then 5 else 0))
     else root' = \<lparr>max_depth = 0, cr_node = 16\<rparr> \<and> (\<exists>d ks'. holds_chains d (cr_node \<lparr>max_depth = 0, cr_node = 16\<rparr>) ks' \<and>
       (\<forall>p. count_at ks' p = count_at [] p \<and> hits_at ks' p = hits_at [] p) \<and>
       (c' = d \<or> (\<exists>b. c' = overcount b 5 d))))"
proof (rule callchain_append_any_memory)
  have "holds_chains (one_root\<lparr>ch_alloc := a\<rparr>) 16 []" for a
    using one_root_holds unfolding holds_chains_def alloc_rep by simp
  then show "holds_chains (one_root\<lparr>ch_alloc := \<lparr>num_allocs = 0, num_frees = 0, leaf_frees = 0, plan = [True, True, False]\<rparr>\<rparr>)
      (cr_node \<lparr>max_depth = 0, cr_node = 16\<rparr>) []" by simp
qed (simp_all add: one_root_def two_nodes_def cursor_ok_def written_def cursor_node_of_def plain_def zero_cursor_node_def no_ms_def)

text \<open>The counters really are too high: two chains that share their first entry, and no memory for
  the second child. The upper half of the split node, at 32, claims 12 hits below it, the lower
  half, its only child, has 5.\<close>

definition forking :: cursor where
  "forking = two_nodes\<lparr>cu_nodes := [cursor_node_of 1 2, cursor_node_of 7 8]\<rparr>"

definition after_two :: "(bool \<times> chains) option" where
  "after_two =
     (let env = \<lparr>env_key = CCKEY_FUNCTION, env_syms = (\<lambda>_. None)\<rparr>; c = one_root\<lparr>ch_heap := [32, 48, 64]\<rparr> in
      case callchain_append env \<lparr>max_depth = 0, cr_node = 16\<rparr> (Some two_nodes) 5 c of
        Some (Inr (True, root, cur, c)) \<Rightarrow>
          (case callchain_append env root (Some forking) 7 (c\<lparr>ch_alloc := (ch_alloc c)\<lparr>plan := [True, False]\<rparr>\<rparr>) of
             Some (Inr (ok, root, cur, c)) \<Rightarrow> Some (ok, c)
           | _ \<Rightarrow> None)
      | _ \<Rightarrow> None)"

theorem failed_split_overcounts:
  "map_option (\<lambda>(ok, c). (ok, map_option (\<lambda>n. (cn_hit n, children_hit n, children_count n)) (cnodes c 32),
     map_option callchain_cumul_hits (cnodes c 48), map_option callchain_cumul_counts (cnodes c 48))) after_two =
   Some (False, Some (0, 12, 2), Some 5, Some 1)"
  by code_simp

end
