(* ===== verification/Chain_Sums.thy ===== *)
theory Chain_Sums
  imports Chain_Fail
begin

text \<open>
  Appending only adds to the cumulative counters and never looks at them: two memories that
  differ in nothing else go through the same run. So the trees whose counters a failed append
  has left too high still grow as trees of chains.
\<close>

subsection \<open>Memories that differ in their sums\<close>

definition node_alike :: "callchain_node \<Rightarrow> callchain_node \<Rightarrow> bool" where
  "node_alike n m \<longleftrightarrow> cn_parent m = cn_parent n \<and> cn_val m = cn_val n \<and> rb_root_in m = rb_root_in n \<and>
     rb_root_out m = rb_root_out n \<and> val_nr m = val_nr n \<and> cn_count m = cn_count n \<and> cn_hit m = cn_hit n"

definition sums_apart :: "chains \<Rightarrow> chains \<Rightarrow> bool" where
  "sums_apart c d \<longleftrightarrow> (\<forall>p. rel_option node_alike (cnodes c p) (cnodes d p)) \<and> in_mem d = in_mem c \<and> out_mem d = out_mem c \<and>
     ch_alloc d = ch_alloc c \<and> ch_heap d = ch_heap c \<and> deepest d = deepest c"

lemma node_alike_refl [simp]: "node_alike n n"
  by (simp add: node_alike_def)

lemma node_alike_trans: "node_alike n m \<Longrightarrow> node_alike m l \<Longrightarrow> node_alike n l"
  by (simp add: node_alike_def)

lemma sums_apartD:
  assumes "sums_apart c d"
  shows "rel_option node_alike (cnodes c p) (cnodes d p)" "in_mem d = in_mem c" "out_mem d = out_mem c"
    "ch_alloc d = ch_alloc c" "ch_heap d = ch_heap c" "deepest d = deepest c"
  using assms by (simp_all add: sums_apart_def)

lemma sums_apart_refl [simp]: "sums_apart c c"
  by (simp add: sums_apart_def option.rel_refl)

lemma sums_apart_trans:
  assumes "sums_apart c d" "sums_apart d e"
  shows "sums_apart c e"
proof -
  have "rel_option node_alike (cnodes c p) (cnodes e p)" for p
    using sums_apartD(1) [OF assms(1), of p] sums_apartD(1) [OF assms(2), of p] node_alike_trans
    unfolding option_rel_Some1 by (auto elim!: option.rel_cases)
  then show ?thesis using sums_apartD(2-6) [OF assms(1)] sums_apartD(2-6) [OF assms(2)] by (simp add: sums_apart_def)
qed

lemma sums_apart_alloc [simp]: "sums_apart c d \<Longrightarrow> sums_apart (c\<lparr>ch_alloc := a\<rparr>) (d\<lparr>ch_alloc := a\<rparr>)"
  by (simp add: sums_apart_def)

lemma overcount_apart: "sums_apart d (overcount b period d)"
  by (auto simp: overcount_def sums_apart_def option.rel_refl node_alike_def split: option.split)

subsection \<open>Runs that go the same way\<close>

text \<open>Where the first run returns, the second returns something related.\<close>

definition follows :: "('a \<Rightarrow> 'b \<Rightarrow> bool) \<Rightarrow> 'a run \<Rightarrow> 'b run \<Rightarrow> bool" where
  "follows P r r' \<longleftrightarrow> (\<forall>x. r = Some (Inr x) \<longrightarrow> (\<exists>y. r' = Some (Inr y) \<and> P x y))"

lemma follows_Some: "P x y \<Longrightarrow> follows P (Some (Inr x)) (Some (Inr y))"
  by (simp add: follows_def)

lemma follows_Inl: "follows P (Some (Inl e)) r"
  by (simp add: follows_def)

lemma follows_obind: "follows P r r' \<Longrightarrow> (\<And>x y. P x y \<Longrightarrow> follows Q (f x) (g y)) \<Longrightarrow> follows Q (obind r f) (obind r' g)"
  by (auto simp: follows_def)

lemma follows_same: "(\<And>x. follows P (f x) (g x)) \<Longrightarrow> follows P (obind r f) (obind r g)"
  by (auto simp: follows_def)

lemma follows_if: "(b \<Longrightarrow> follows P r s) \<Longrightarrow> (\<not> b \<Longrightarrow> follows P r' s') \<Longrightarrow> follows P (if b then r else r') (if b then s else s')"
  by simp

lemma Some_rbind: "Some (rbind r f) = obind (Some r) (\<lambda>x. Some (f x))"
  by (cases r) simp_all

text \<open>A cursor or another value, and the memory.\<close>

definition with_sums :: "('a \<times> chains) \<Rightarrow> ('a \<times> chains) \<Rightarrow> bool" where
  "with_sums s t \<longleftrightarrow> fst t = fst s \<and> sums_apart (snd s) (snd t)"

definition run_sums :: "('a \<times> cursor \<times> chains) \<Rightarrow> ('a \<times> cursor \<times> chains) \<Rightarrow> bool" where
  "run_sums s t \<longleftrightarrow> fst t = fst s \<and> with_sums (snd s) (snd t)"

lemma with_sums_pair [simp]: "with_sums (x, c) (y, d) \<longleftrightarrow> y = x \<and> sums_apart c d"
  by (simp add: with_sums_def)

lemma run_sums_pair [simp]: "run_sums (x, s) (y, t) \<longleftrightarrow> y = x \<and> with_sums s t"
  by (simp add: run_sums_def)

lemma ld_follows: "sums_apart c d \<Longrightarrow> follows node_alike (Some (ld_cn c p)) (Some (ld_cn d p))"
  using sums_apartD(1) [of c d p] by (cases "cnodes c p"; cases "cnodes d p") (auto simp: follows_def ld_cn_def)

lemma upd_follows:
  assumes "sums_apart c d" "\<And>n m. node_alike n m \<Longrightarrow> node_alike (f n) (g m)"
  shows "follows sums_apart (Some (upd_cn p f c)) (Some (upd_cn p g d))"
  unfolding upd_cn_def Some_rbind
  by (rule follows_obind [OF ld_follows [OF assms(1)]]) (use assms in \<open>auto simp: follows_def sums_apart_def\<close>)

lemma kids_tree_apart: "sums_apart c d \<Longrightarrow> node_alike n m \<Longrightarrow> kids_tree d m = kids_tree c n"
  by (simp add: kids_tree_def sums_apartD(2) node_alike_def)

lemma put_kids_follows: "sums_apart c d \<Longrightarrow> follows sums_apart (Some (put_kids p s c)) (Some (put_kids p s d))"
  unfolding put_kids_def
  by (rule upd_follows) (auto simp: sums_apart_def node_alike_def)

lemma link_child_follows: "sums_apart c d \<Longrightarrow> follows sums_apart (link_child p par lk new c) (link_child p par lk new d)"
  unfolding link_child_def
proof (rule follows_obind [OF ld_follows])
  fix n m assume s: "sums_apart c d" "node_alike n m"
  show "follows sums_apart
      (obind (Some (rb_link_node new par lk (kids_tree c n))) (\<lambda>s. obind (rb_insert_color new s) (\<lambda>s. Some (put_kids p s c))))
      (obind (Some (rb_link_node new par lk (kids_tree d m))) (\<lambda>s. obind (rb_insert_color new s) (\<lambda>s. Some (put_kids p s d))))"
    unfolding kids_tree_apart [OF s] by (intro follows_same put_kids_follows s(1))
qed

lemma calloc_cnode_follows: "sums_apart c d \<Longrightarrow> with_sums (calloc_cnode c) (calloc_cnode d)"
  using sums_apartD(4,5) [of c d]
  by (auto simp: calloc_cnode_def split: prod.split list.split) (auto simp: sums_apart_def)

lemma adopt_follows: "sums_apart c d \<Longrightarrow> follows sums_apart (adopt new n c) (adopt new n d)"
proof -
  have "adopt new n c = Some r \<Longrightarrow> \<forall>d. sums_apart c d \<longrightarrow> follows sums_apart (Some r) (adopt new n d)" for r
  proof (induction new n c r rule: adopt.raw_induct [rotated, consumes 1, case_names Adopt])
    case (Adopt f new n c r)
    let ?u = "\<lambda>child. child\<lparr>cn_parent := new\<rparr>"
    show ?case
    proof (intro allI impI)
      fix d assume s: "sums_apart c d"
      have "follows sums_apart (if n = 0 then Some (Inr c) else obind (Some (upd_cn n ?u c)) (\<lambda>c.
           obind (rb_next \<lparr>mem = in_mem c, rb_root = 0\<rparr> n) (\<lambda>n. f new n c))) (adopt new n d)"
      proof (subst adopt.simps, rule follows_if)
        show "follows sums_apart (obind (Some (upd_cn n ?u c)) (\<lambda>c. obind (rb_next \<lparr>mem = in_mem c, rb_root = 0\<rparr> n) (\<lambda>n. f new n c)))
           (obind (Some (upd_cn n ?u d)) (\<lambda>c. obind (rb_next \<lparr>mem = in_mem c, rb_root = 0\<rparr> n) (\<lambda>n. adopt new n c)))"
        proof (rule follows_obind [OF upd_follows [OF s]])
          show "node_alike n m \<Longrightarrow> node_alike (?u n) (?u m)" for n m by (simp add: node_alike_def)
          fix c1 d1 assume s1: "sums_apart c1 d1"
          show "follows sums_apart (obind (rb_next \<lparr>mem = in_mem c1, rb_root = 0\<rparr> n) (\<lambda>n. f new n c1))
             (obind (rb_next \<lparr>mem = in_mem d1, rb_root = 0\<rparr> n) (\<lambda>n. adopt new n d1))"
            unfolding sums_apartD(2) [OF s1]
          proof (rule follows_same)
            show "follows sums_apart (f new l c1) (adopt new l d1)" for l
              using Adopt(1) [of new l c1] s1 by (cases "f new l c1") (auto simp: follows_def)
          qed
        qed
      qed (simp add: s follows_Some)
      then show "follows sums_apart (Some r) (adopt new n d)" using Adopt(2) by simp
    qed
  qed
  then show "sums_apart c d \<Longrightarrow> follows sums_apart (adopt new n c) (adopt new n d)"
    by (cases "adopt new n c") (auto simp: follows_def)
qed

subsection \<open>The operations\<close>

text \<open>Two runs that begin with the same operation.\<close>

lemma follows_ld:
  "sums_apart c d \<Longrightarrow> (\<And>n m. node_alike n m \<Longrightarrow> follows Q (f n) (g m)) \<Longrightarrow>
     follows Q (obind (Some (ld_cn c p)) f) (obind (Some (ld_cn d p)) g)"
  by (rule follows_obind [OF ld_follows])

lemma follows_upd:
  "sums_apart c d \<Longrightarrow> (\<And>n m. node_alike n m \<Longrightarrow> node_alike (u n) (v m)) \<Longrightarrow>
     (\<And>c d. sums_apart c d \<Longrightarrow> follows Q (f c) (g d)) \<Longrightarrow> follows Q (obind (Some (upd_cn p u c)) f) (obind (Some (upd_cn p v d)) g)"
  by (rule follows_obind [OF upd_follows])

lemma follows_link:
  "sums_apart c d \<Longrightarrow> (\<And>c d. sums_apart c d \<Longrightarrow> follows Q (f c) (g d)) \<Longrightarrow>
     follows Q (obind (link_child p par lk new c) f) (obind (link_child p par lk new d) g)"
  by (rule follows_obind [OF link_child_follows])

lemma follows_with:
  "follows with_sums r r' \<Longrightarrow> (\<And>x c d. sums_apart c d \<Longrightarrow> follows Q (f x c) (g x d)) \<Longrightarrow>
     follows Q (obind r (\<lambda>(x, c). f x c)) (obind r' (\<lambda>(x, c). g x c))"
  by (erule follows_obind) (auto simp: with_sums_def)

lemma follows_run:
  "follows run_sums r r' \<Longrightarrow> (\<And>x cur c d. sums_apart c d \<Longrightarrow> follows Q (f x cur c) (g x cur d)) \<Longrightarrow>
     follows Q (obind r (\<lambda>(x, cur, c). f x cur c)) (obind r' (\<lambda>(x, cur, c). g x cur c))"
  by (erule follows_obind) (auto simp: run_sums_def with_sums_def)

lemma create_child_follows: "sums_apart c d \<Longrightarrow> follows with_sums (create_child p inherit c) (create_child p inherit d)"
proof -
  assume s: "sums_apart c d"
  obtain new c1 d1 where c: "calloc_cnode c = (new, c1)" "calloc_cnode d = (new, d1)" "sums_apart c1 d1"
    using calloc_cnode_follows [OF s] by (cases "calloc_cnode c"; cases "calloc_cnode d") auto
  have first: "follows Q (obind (rb_first (kids_tree c n)) f) (obind (rb_first (kids_tree d m)) g)"
    if "sums_apart c d" "node_alike n m" "\<And>a. follows Q (f a) (g a)" for c d n m f g and Q :: "u64 \<times> chains \<Rightarrow> _"
    using follows_same [OF that(3)] unfolding kids_tree_apart [OF that(1,2)] .
  show ?thesis unfolding create_child_def c(1,2) prod.case
    by (intro follows_if follows_upd follows_ld first follows_obind [OF adopt_follows] follows_link follows_Some)
      (use c(3) in \<open>simp_all add: node_alike_def\<close>)
qed

lemma fill_node_follows: "sums_apart c d \<Longrightarrow> follows run_sums (fill_node new (cur, c)) (fill_node new (cur, d))"
proof -
  have fill: "follows Q (obind (fill_loop (cn_val n) cur (ch_alloc c)) f) (obind (fill_loop (cn_val m) cur (ch_alloc d)) g)"
    if "sums_apart c d" "node_alike n m" "\<And>a. follows Q (f a) (g a)" for c d n m f g and Q :: "bool \<times> cursor \<times> chains \<Rightarrow> _"
    using follows_same [OF that(3)] sums_apartD(4) [OF that(1)] that(2) by (simp add: node_alike_def)
  show "sums_apart c d \<Longrightarrow> follows run_sums (fill_node new (cur, c)) (fill_node new (cur, d))"
    unfolding fill_node_def split_beta fst_conv snd_conv
    by (intro follows_upd follows_ld fill follows_Some) (simp_all add: node_alike_def)
qed

lemma add_child_node_follows:
  "sums_apart c d \<Longrightarrow> follows run_sums (add_child_node p period (cur, c)) (add_child_node p period (cur, d))"
  unfolding add_child_node_def prod.case Let_def
  by (intro follows_with follows_run create_child_follows fill_node_follows follows_if follows_upd follows_ld follows_Some)
    (auto simp: node_alike_def sums_apart_def)

lemma match_first_follows:
  assumes "sums_apart c d"
  shows "follows (\<lambda>(m, c) (m', d). m' = m \<and> sums_apart c d) (Some (match_first env n p c)) (Some (match_first env n p d))"
  unfolding match_first_def Some_rbind
proof (rule follows_ld [OF assms])
  fix x y assume xy: "node_alike x y"
  show "follows (\<lambda>(m, c) (m', d). m' = m \<and> sums_apart c d)
    (Some (case cn_val x of [] \<Rightarrow> Inl Out_of_bounds | e # es \<Rightarrow>
       rbind (match_chain (env_key env) (env_syms env) n e (ch_alloc c)) (\<lambda>(m, e, a).
       rbind (upd_cn p (\<lambda>n. n\<lparr>cn_val := e # es\<rparr>) (c\<lparr>ch_alloc := a\<rparr>)) (\<lambda>c. Inr (m, c)))))
    (Some (case cn_val y of [] \<Rightarrow> Inl Out_of_bounds | e # es \<Rightarrow>
       rbind (match_chain (env_key env) (env_syms env) n e (ch_alloc d)) (\<lambda>(m, e, a).
       rbind (upd_cn p (\<lambda>n. n\<lparr>cn_val := e # es\<rparr>) (d\<lparr>ch_alloc := a\<rparr>)) (\<lambda>c. Inr (m, c)))))"
  proof (cases "cn_val x")
    case (Cons e es)
    then show ?thesis using xy sums_apartD(4) [OF assms]
      by (simp add: node_alike_def Some_rbind split_beta)
        (intro follows_same follows_upd follows_Some, use assms in \<open>simp_all add: node_alike_def\<close>)
  qed (use xy in \<open>simp add: node_alike_def follows_Inl\<close>)
qed

lemma move_tail_follows:
  assumes "sums_apart c d"
  shows "follows sums_apart (Some (move_tail p new m i c)) (Some (move_tail p new m i d))"
  unfolding move_tail_def Some_rbind
proof (rule follows_ld [OF assms])
  fix x y assume xy: "node_alike x y"
  then have v: "cn_val y = cn_val x" by (simp add: node_alike_def)
  have split: "Some (if b then r else s) = (if b then Some r else Some s)" for b and r s :: "chains result" by simp
  show "follows sums_apart
     (Some (if \<not> m < length (cn_val x) then Inl Out_of_bounds else
        rbind (upd_cn new (\<lambda>n. n\<lparr>cn_val := drop m (cn_val x), cn_hit := cn_hit x, children_hit := children_hit x,
          val_nr := val_nr x - ucast i, cn_count := cn_count x, children_count := children_count x\<rparr>) c) (\<lambda>c.
        rbind (ld_cn c new) (\<lambda>n. upd_cn p (\<lambda>p. p\<lparr>cn_val := take m (cn_val p), children_hit := callchain_cumul_hits n,
             val_nr := ucast i, children_count := callchain_cumul_counts n\<rparr>) c))))
     (Some (if \<not> m < length (cn_val y) then Inl Out_of_bounds else
        rbind (upd_cn new (\<lambda>n. n\<lparr>cn_val := drop m (cn_val y), cn_hit := cn_hit y, children_hit := children_hit y,
          val_nr := val_nr y - ucast i, cn_count := cn_count y, children_count := children_count y\<rparr>) d) (\<lambda>c.
        rbind (ld_cn c new) (\<lambda>n. upd_cn p (\<lambda>p. p\<lparr>cn_val := take m (cn_val p), children_hit := callchain_cumul_hits n,
             val_nr := ucast i, children_count := callchain_cumul_counts n\<rparr>) c))))"
    unfolding v split Some_rbind
    by (intro follows_if follows_Inl follows_upd [OF assms] follows_ld upd_follows)
      (use xy in \<open>simp_all add: node_alike_def\<close>)
qed

lemma inc_children_follows:
  "sums_apart c d \<Longrightarrow> follows sums_apart (Some (inc_children_hit p period n c)) (Some (inc_children_hit p period n d))"
  unfolding inc_children_hit_def Some_rbind
  by (intro follows_upd follows_Some) (auto simp: node_alike_def sums_apart_def)

lemma follows_match_first:
  "sums_apart c d \<Longrightarrow> (\<And>m c d. sums_apart c d \<Longrightarrow> follows Q (f m c) (g m d)) \<Longrightarrow>
     follows Q (obind (Some (match_first env n p c)) (\<lambda>(m, c). f m c)) (obind (Some (match_first env n p d)) (\<lambda>(m, c). g m c))"
  by (rule follows_obind [OF match_first_follows]) auto

lemma add_second_follows:
  assumes "sums_apart c d"
  shows "follows run_sums (add_second env p period (cur, c)) (add_second env p period (cur, d))"
  unfolding add_second_def prod.case
proof (intro follows_upd [OF assms] follows_same follows_run [OF add_child_node_follows] follows_if follows_Some follows_ld)
  fix new cur1 c1 d1 x y node
  assume s: "sums_apart c1 d1" and xy: "node_alike x y"
  have r: "rb_root_in y = rb_root_in x" using xy by (simp add: node_alike_def)
  show "follows run_sums
     (obind (Some (match_first env node (rb_root_in x) c1)) (\<lambda>(m, c).
        obind (link_child p (rb_root_in x) (Child_link (if m = MATCH_LT then L else R) (rb_root_in x)) new c) (\<lambda>c.
          Some (Inr (True, cur1, c)))))
     (obind (Some (match_first env node (rb_root_in y) d1)) (\<lambda>(m, c).
        obind (link_child p (rb_root_in y) (Child_link (if m = MATCH_LT then L else R) (rb_root_in y)) new c) (\<lambda>c.
          Some (Inr (True, cur1, c)))))"
    unfolding r by (intro follows_match_first [OF s] follows_link follows_Some) simp_all
qed (auto simp: node_alike_def)

lemma split_add_child_follows:
  "sums_apart c d \<Longrightarrow>
     follows run_sums (split_add_child env p m i k period (cur, c)) (split_add_child env p m i k period (cur, d))"
  unfolding split_add_child_def prod.case Let_def
  by (intro follows_with [OF create_child_follows] follows_if follows_Some follows_obind [OF move_tail_follows]
      add_second_follows follows_upd) (simp_all add: node_alike_def)

lemma append_chain_follows:
  assumes rest: "\<And>r cur c d. sums_apart c d \<Longrightarrow> follows run_sums (rest r (cur, c)) (rest' r (cur, d))" and s: "sums_apart c d"
  shows "follows run_sums (append_chain env rest p period (cur, c)) (append_chain env rest' p period (cur, d))"
  unfolding append_chain_def prod.case Let_def
proof (rule follows_ld [OF s])
  fix n m assume nm: "node_alike n m"
  then have m: "cn_val m = cn_val n" "val_nr m = val_nr n" "ch_alloc d = ch_alloc c"
    using sums_apartD(4) [OF s] by (simp_all add: node_alike_def)
  let ?rest = "\<lambda>rest c (val, cmp, found, cur1, a). obind (Some (upd_cn p (\<lambda>n. n\<lparr>cn_val := val\<rparr>) (c\<lparr>ch_alloc := a\<rparr>))) (\<lambda>c.
       if found = 0 then Some (Inr (cmp, cur1, c))
       else if cu_pos cur1 - cu_pos cur < ucast (val_nr n) then
         obind (split_add_child env p found (cu_pos cur) (cu_pos cur1 - cu_pos cur) period (cur1, c)) (\<lambda>(ok, cur, c).
           Some (Inr (if ok then MATCH_EQ else MATCH_ERROR, cur, c)))
       else if cu_pos cur1 - cu_pos cur = ucast (val_nr n) \<and> cu_pos cur1 = cu_nr cur1 then
         obind (Some (upd_cn p (\<lambda>n. n\<lparr>cn_hit := cn_hit n + period, cn_count := cn_count n + 1\<rparr>) c)) (\<lambda>c.
           Some (Inr (MATCH_EQ, cur1, c)))
       else
         obind (rest p (cur1, c)) (\<lambda>(ok, cur, c). Some (Inr (if ok then MATCH_EQ else MATCH_ERROR, cur, c))))"
  have go: "follows run_sums (?rest rest c v) (?rest rest' d v)" for v
  proof -
    obtain val cmp found cur1 a where v: "v = (val, cmp, found, cur1, a)" by (cases v) auto
    show ?thesis unfolding v prod.case
      by (intro follows_upd follows_if follows_Some follows_run [OF split_add_child_follows] follows_run [OF rest])
        (use s in \<open>simp_all add: node_alike_def\<close>)
  qed
  show "follows run_sums (obind (Some (match_entries env (cn_val n) MATCH_ERROR (cur, ch_alloc c))) (?rest rest c))
     (obind (Some (match_entries env (cn_val m) MATCH_ERROR (cur, ch_alloc d)))
       (\<lambda>(val, cmp, found, cur1, a). obind (Some (upd_cn p (\<lambda>n. n\<lparr>cn_val := val\<rparr>) (d\<lparr>ch_alloc := a\<rparr>))) (\<lambda>c.
       if found = 0 then Some (Inr (cmp, cur1, c))
       else if cu_pos cur1 - cu_pos cur < ucast (val_nr m) then
         obind (split_add_child env p found (cu_pos cur) (cu_pos cur1 - cu_pos cur) period (cur1, c)) (\<lambda>(ok, cur, c).
           Some (Inr (if ok then MATCH_EQ else MATCH_ERROR, cur, c)))
       else if cu_pos cur1 - cu_pos cur = ucast (val_nr m) \<and> cu_pos cur1 = cu_nr cur1 then
         obind (Some (upd_cn p (\<lambda>n. n\<lparr>cn_hit := cn_hit n + period, cn_count := cn_count n + 1\<rparr>) c)) (\<lambda>c.
           Some (Inr (MATCH_EQ, cur1, c)))
       else
         obind (rest' p (cur1, c)) (\<lambda>(ok, cur, c). Some (Inr (if ok then MATCH_EQ else MATCH_ERROR, cur, c))))))"
    unfolding m by (rule follows_same) (rule go)
qed

subsection \<open>Appending\<close>

text \<open>The body of \<open>append_children\<close>, with the two calls of itself as arguments.\<close>

definition append_body ::
  "match_env \<Rightarrow> u64 \<Rightarrow> u64 \<Rightarrow> (u64 \<Rightarrow> (rb_link \<times> u64 \<times> u64) option \<Rightarrow> cursor \<times> chains \<Rightarrow> (bool \<times> cursor \<times> chains) run) \<Rightarrow>
     rb_link \<times> u64 \<times> u64 \<Rightarrow> cursor \<times> chains \<Rightarrow> (bool \<times> cursor \<times> chains) run" where
  "append_body env root period self = (\<lambda>(lk, par, depth) (cur, c).
     obind (Some (ld_cn c root)) (\<lambda>n.
     obind (Some (get_link lk (kids_tree c n))) (\<lambda>p.
       if p \<noteq> 0 then
         obind (append_chain env (\<lambda>r s. self r None s) p period (cur, c)) (\<lambda>(m, cur, c).
           if m = MATCH_EQ then obind (Some (inc_children_hit root period depth c)) (\<lambda>c. Some (Inr (True, cur, c)))
           else if m = MATCH_ERROR then Some (Inr (False, cur, c))
           else self root (Some (Child_link (if m = MATCH_LT then L else R) p, p, depth + 1)) (cur, c))
       else
         obind (add_child_node root period (cur, c)) (\<lambda>(new, cur, c).
           if new = 0 then Some (Inr (False, cur, c))
           else
             obind (link_child root par lk new c) (\<lambda>c.
             obind (Some (inc_children_hit root period depth c)) (\<lambda>c. Some (Inr (True, cur, c))))))))"

lemma append_children_body:
  "append_children env root period (Some pos) s = append_body env root period (\<lambda>r at s. append_children env r period at s) pos s"
  unfolding append_body_def split_def prod.collapse by (subst append_children.simps) simp

lemma append_body_follows:
  assumes self: "\<And>r at cur c d. sums_apart c d \<Longrightarrow> follows run_sums (self r at (cur, c)) (self' r at (cur, d))" and s: "sums_apart c d"
  shows "follows run_sums (append_body env root period self pos (cur, c)) (append_body env root period self' pos (cur, d))"
proof -
  obtain lk par depth where pos: "pos = (lk, par, depth)" by (cases pos) auto
  have chain: "follows run_sums (append_chain env (\<lambda>r s. self r None s) p period (cur, c)) (append_chain env (\<lambda>r s. self' r None s) p period (cur, d))" for p
    by (rule append_chain_follows [of "\<lambda>r s. self r None s" "\<lambda>r s. self' r None s", OF self s])
  have link: "follows Q (obind (Some (get_link lk (kids_tree c n))) f) (obind (Some (get_link lk (kids_tree d m))) g)"
    if "node_alike n m" "\<And>a. follows Q (f a) (g a)" for n m f g and Q :: "bool \<times> cursor \<times> chains \<Rightarrow> _"
    using follows_same [OF that(2)] unfolding kids_tree_apart [OF s that(1)] .
  show ?thesis unfolding append_body_def pos prod.case
    by (intro follows_ld [OF s] link follows_if follows_run [OF chain] follows_run [OF add_child_node_follows [OF s]] follows_link
        follows_obind [OF inc_children_follows] follows_Some self) simp_all
qed

lemma append_children_follows:
  assumes "sums_apart c d"
  shows "follows run_sums (append_children env root period at (cur, c)) (append_children env root period at (cur, d))"
proof -
  have "append_children env root period at s = Some r \<Longrightarrow>
      \<forall>d. sums_apart (snd s) d \<longrightarrow> follows run_sums (Some r) (append_children env root period at (fst s, d))" for s r
  proof (induction env root period at s r rule: append_children.raw_induct [rotated, consumes 1, case_names Append])
    case (Append f env root period at s r)
    obtain cur c where s: "s = (cur, c)" by (cases s)
    have f: "follows run_sums (f env x period at (cur, c)) (append_children env x period at (cur, d))" if "sums_apart c d" for x at cur c d
      using Append(1) [of env x period at "(cur, c)"] that by (cases "f env x period at (cur, c)") (auto simp: follows_def)
    show ?case
    proof (intro allI impI)
      fix d assume d: "sums_apart (snd s) d"
      show "follows run_sums (Some r) (append_children env root period at (fst s, d))"
      proof (cases at)
        case None
        show ?thesis
        proof (cases "callchain_cursor_current (Some cur)")
          case None
          then have "Some r = Some (Inr (False, s))" using Append(2) \<open>at = None\<close> s by simp
          moreover have "append_children env root period at (fst s, d) = Some (Inr (False, cur, d))"
            using None \<open>at = None\<close> s by (subst append_children.simps) simp
          ultimately show ?thesis using d s by (simp add: follows_Some)
        next
          case (Some n)
          then have "Some r = f env root period (Some (Root_link, 0, 0)) (cur, c)" using Append(2) \<open>at = None\<close> s by simp
          moreover have "append_children env root period at (fst s, d) = append_children env root period (Some (Root_link, 0, 0)) (cur, d)"
            using Some \<open>at = None\<close> s by (subst append_children.simps) simp
          ultimately show ?thesis using f d s by simp
        qed
      next
        case (Some pos)
        have "Some r = append_body env root period (\<lambda>x at s. f env x period at s) pos s"
          unfolding append_body_def split_def prod.collapse using Append(2) Some by simp
        then show ?thesis using append_body_follows [of "\<lambda>x at s. f env x period at s", OF f] d s
          unfolding Some append_children_body by simp
      qed
    qed
  qed
  then show ?thesis using assms by (cases "append_children env root period at (cur, c)") (auto simp: follows_def)
qed

lemma callchain_append_follows:
  assumes "sums_apart c d" "callchain_append env root (Some cur) period c = Some (Inr (ok, root', cur', c'))"
  shows "\<exists>d'. callchain_append env root (Some cur) period d = Some (Inr (ok, root', cur', d')) \<and> sums_apart c' d'"
proof (cases "cu_nr cur = 0")
  case True
  then show ?thesis using assms by (auto simp: callchain_append_def)
next
  case False
  obtain ok1 cur1 c1 where r: "append_children env (cr_node root) period None (the (callchain_cursor_commit (Some cur)), c) = Some (Inr (ok1, cur1, c1))"
    using assms(2) False by (auto simp: callchain_append_def append_chain_children_def)
  then obtain d1 where "append_children env (cr_node root) period None (the (callchain_cursor_commit (Some cur)), d) = Some (Inr (ok1, cur1, d1))"
      "sums_apart c1 d1"
    using append_children_follows [OF assms(1), of env "cr_node root" period None "the (callchain_cursor_commit (Some cur))"]
    by (auto simp: follows_def)
  then show ?thesis using r assms(2) False by (auto simp: callchain_append_def append_chain_children_def split: if_splits)
qed

end
