(* ===== verification/Linux_Any.thy ===== *)
theory Linux_Any
  imports Linux_Backend Main_Total Chain_Sums
begin

text \<open>
  The Linux backend when memory runs out: the trees keep their shape, whatever their cumulative
  counters say, so the program still ends.
\<close>

subsection \<open>The contract\<close>

text \<open>Memory holds a tree of chains but for the cumulative counters.\<close>

definition linux_shape :: "linux_globals \<Rightarrow> linux_tree \<Rightarrow> bool" where
  "linux_shape g t \<longleftrightarrow> (\<exists>d ks. holds_chains d (cr_node (lt_root t)) ks \<and> sums_apart d (chains_of g t))"

text \<open>The backend's nodes have addresses to come; whether an allocation of the backend succeeds is up to
  the plan, and whether \<open>get_map\<close> finds memory to the addresses that are left for it.\<close>

definition linux_spare :: "u64 set \<Rightarrow> nat \<Rightarrow> linux_globals \<Rightarrow> bool" where
  "linux_spare K n g \<longleftrightarrow> near K \<and> (\<exists>T. maps_known K (2 * n) g T) \<and> (\<forall>c. tls_cursor g = Some c \<longrightarrow> cursor_ok c)"

lemma holds_shape: "holds_chains (chains_of g t) (cr_node (lt_root t)) ks \<Longrightarrow> linux_shape g t"
  unfolding linux_shape_def using sums_apart_refl by blast

lemma shape_keeps:
  assumes "linux_shape g u" "lg_heap g' = drop j (lg_heap g)"
  shows "linux_shape g' u"
proof -
  obtain d ks where d: "holds_chains d (cr_node (lt_root u)) ks" "sums_apart d (chains_of g u)"
    using assms(1) by (auto simp: linux_shape_def)
  let ?d = "d\<lparr>ch_alloc := lg_alloc g', ch_heap := lg_heap g', deepest := lg_deepest g'\<rparr>"
  have "ch_heap ?d = drop j (ch_heap d)" using sums_apartD(5) [OF d(2)] assms(2) by (simp add: chains_of_def)
  then have "holds_chains ?d (cr_node (lt_root u)) ks" by (intro holds_chains_cong [OF _ _ _ d(1)]) simp_all
  moreover have "sums_apart ?d (chains_of g' u)" using d(2) by (simp add: sums_apart_def chains_of_def)
  ultimately show ?thesis unfolding linux_shape_def by blast
qed

lemma maps_known_globals:
  "maps_known K n g T \<Longrightarrow> lg_maps g' = lg_maps g \<Longrightarrow> lg_map_heap g' = lg_map_heap g \<Longrightarrow> lg_heap g' = lg_heap g \<Longrightarrow>
    maps_known K n g' T"
  by (simp add: maps_known_def)

subsection \<open>Maps\<close>

lemma calloc_short: "length h < 2 \<Longrightarrow> calloc_or_die h = Inl Exit_failure \<or> (\<exists>a. calloc_or_die h = Inr (a, []))"
  by (cases h) (auto simp: calloc_or_die_def)

lemma get_map_dies:
  assumes ok: "maps_ok (m, h) T" and n: "near (insert k (dom T))" and k: "T k = None" and mem: "length h < 2"
  shows "get_map k (m, h) = Some (Inl Exit_failure)"
proof -
  obtain t where t: "maps_hold m t T" using ok by (auto simp: maps_ok_def)
  obtain l where "loop (locate_step (map_cmp m k) (tree_of (map_trees m))) (Root_link, 0, True) = Some (Inr (Inl l))"
    using map_locate [OF t n] k by (auto simp: domIff)
  moreover have "last_hit m k = Inr False" using last_hit_ok [OF t, of k] k by simp
  moreover have "calloc_or_die [] = Inl Exit_failure" by (simp add: calloc_or_die_def)
  ultimately show ?thesis using calloc_short [OF mem] by (auto simp: get_map_def)
qed

lemma get_map_any:
  assumes g: "maps_known K n g T" and K: "near K" "k \<in> K"
  shows "get_map k (lg_maps g, lg_map_heap g) = Some (Inl Exit_failure) \<or>
    (\<exists>p m h. get_map k (lg_maps g, lg_map_heap g) = Some (Inr (p, m, h)) \<and>
       ms_at m p = Some \<lparr>ms_maps = 0, ms_map = k, ms_sym = 0\<rparr> \<and>
       maps_known K n (g\<lparr>lg_maps := m, lg_map_heap := h\<rparr>) (T(k \<mapsto> p)))"
proof (cases "T k = None \<longrightarrow> 2 \<le> length (lg_map_heap g)")
  case True
  show ?thesis using get_map_known [OF g K True] by (elim exE conjE) (intro disjI2 exI conjI)
next
  case False
  have "near (insert k (dom T))" using g K by (auto simp: near_def maps_known_def)
  then show ?thesis using False g get_map_dies by (auto simp: maps_known_def)
qed

subsection \<open>The cursor\<close>

lemma cursor_append_any:
  assumes c: "cursor_ok c" "cu_last c < 2 ^ 32 - 1"
  shows "\<exists>ok c' a'. callchain_cursor_append pc ms False None 0 0 0 None (c, a) = (ok, c', a') \<and> cursor_ok c' \<and>
    cu_last c' \<le> Suc (cu_last c) \<and> (written c' = written c \<or>
      (\<exists>n. written c' = written c @ [n] \<and>
        entry_of n = \<lparr>e_ip = pc, e_ms = ms, e_branch = False, e_loop_iter = 0, e_cycles = 0, e_from = 0, e_srcline = None\<rparr>))"
proof -
  obtain ok a' where a: "ccalloc a = (ok, a')" by (cases "ccalloc a")
  show ?thesis
  proof (cases "cu_last c < length (cu_nodes c) \<or> ok")
    case True
    then show ?thesis using c a
      by (auto simp: callchain_cursor_append_def cursor_ok_def written_def entry_of_def take_Suc_conv_app_nth Let_def)
  next
    case False
    then show ?thesis using c a by (auto simp: callchain_cursor_append_def cursor_ok_def written_def Let_def)
  qed
qed

lemma build_cursor_any:
  assumes K: "near K"
  shows "cursor_ok cur \<Longrightarrow> \<forall>n \<in> set (written cur). plain n \<Longrightarrow> cu_last cur + length es < 2 ^ 32 \<Longrightarrow>
    maps_known K l g T \<Longrightarrow> cmap ` set (takeWhile (\<lambda>e. ip e \<noteq> 0) es) \<subseteq> K \<Longrightarrow>
    build_cursor es (cur, g) = Some (Inl Exit_failure) \<or>
    (\<exists>cur' g' T'. build_cursor es (cur, g) = Some (Inr (cur', g')) \<and> cursor_ok cur' \<and> (\<forall>n \<in> set (written cur'). plain n) \<and>
      maps_known K l g' T' \<and> lg_heap g' = lg_heap g)"
proof (induction es arbitrary: cur g T)
  case Nil
  then show ?case by auto
next
  case (Cons e es)
  show ?case
  proof (cases "ip e = 0 \<or> get_map (cmap e) (lg_maps g, lg_map_heap g) = Some (Inl Exit_failure)")
    case True
    then show ?thesis using Cons.prems by auto
  next
    case False
    then have k: "cmap e \<in> K" and rest: "cmap ` set (takeWhile (\<lambda>e. ip e \<noteq> 0) es) \<subseteq> K" using Cons.prems(5) by auto
    obtain p m h where s: "get_map (cmap e) (lg_maps g, lg_map_heap g) = Some (Inr (p, m, h))"
      "ms_at m p = Some \<lparr>ms_maps = 0, ms_map = cmap e, ms_sym = 0\<rparr>"
      "maps_known K l (g\<lparr>lg_maps := m, lg_map_heap := h\<rparr>) (T(cmap e \<mapsto> p))"
      using get_map_any [OF Cons.prems(4) K k] False by blast
    let ?ms = "\<lparr>ms_maps = 0, ms_map = cmap e, ms_sym = 0\<rparr>"
    have lt: "cu_last cur < 2 ^ 32 - 1" using Cons.prems(3) by simp
    obtain ok c1 a1 where c: "callchain_cursor_append (ip e) ?ms False None 0 0 0 None (cur, lg_alloc g) = (ok, c1, a1)"
      "cursor_ok c1" "cu_last c1 \<le> Suc (cu_last cur)" "written c1 = written cur \<or> (\<exists>n. written c1 = written cur @ [n] \<and>
        entry_of n = \<lparr>e_ip = ip e, e_ms = ?ms, e_branch = False, e_loop_iter = 0, e_cycles = 0, e_from = 0, e_srcline = None\<rparr>)"
      using cursor_append_any [OF Cons.prems(1) lt] by blast
    let ?g = "g\<lparr>lg_maps := m, lg_map_heap := h, lg_alloc := a1\<rparr>"
    have pl: "\<forall>n \<in> set (written c1). plain n" using c(4) Cons.prems(2) by (auto simp: entry_of_def plain_def)
    have known: "maps_known K l ?g (T(cmap e \<mapsto> p))" by (rule maps_known_globals [OF s(3)]) simp_all
    have len: "cu_last c1 + length es < 2 ^ 32" using c(3) Cons.prems(3) by simp
    have "build_cursor (e # es) (cur, g) = build_cursor es (c1, ?g)" using False s(1,2) c(1) by simp
    then show ?thesis using Cons.IH [OF c(2) pl len known rest] by simp
  qed
qed

subsection \<open>The operations\<close>

text \<open>An append to a tree whose counters may be too high.\<close>

lemma append_shape:
  assumes h: "holds_chains d (cr_node root) ks" "sums_apart d c" and cur: "cursor_ok cur" "cu_nr cur \<noteq> 0"
    and ns: "\<forall>n \<in> set (written cur). plain n" and mem: "2 \<le> length (ch_heap c)"
  shows "\<exists>ok root' cur' c' d' ks'. callchain_append default_env root (Some cur) period c = Some (Inr (ok, root', Some cur', c')) \<and>
    cr_node root' = cr_node root \<and> cursor_ok cur' \<and> (\<exists>j \<le> 2. ch_heap c' = drop j (ch_heap c)) \<and>
    holds_chains d' (cr_node root) ks' \<and> sums_apart d' c'"
proof -
  have heap: "ch_heap c = ch_heap d" by (rule sums_apartD(5) [OF h(2)])
  have env: "env_key default_env \<noteq> CCKEY_SRCLINE" by (simp add: default_env_def)
  have ne: "written cur \<noteq> []"
  proof
    assume "written cur = []"
    then have "cu_last cur = 0" using length_written [OF cur(1)] by simp
    then show False using cur by (simp add: cursor_ok_def)
  qed
  obtain ok root' cur' d1 where s: "callchain_append default_env root (Some cur) period d = Some (Inr (ok, root', Some cur', d1))"
      "same_list cur cur'" "cr_node root' = cr_node root" "\<exists>j \<le> 2. ch_heap d1 = drop j (ch_heap d)"
      "if ok then holds_chains d1 (cr_node root) (fst (app_kids (written cur) period (ch_heap d) ks))
       else \<exists>d2 ks'. holds_chains d2 (cr_node root) ks' \<and> (\<forall>p. count_at ks' p = count_at ks p \<and> hits_at ks' p = hits_at ks p) \<and>
         (d1 = d2 \<or> (\<exists>b. d1 = overcount b period d2))"
    using callchain_append_any [OF h(1) env cur(1) ne ns mem [unfolded heap], of period] by blast
  obtain c' where c': "callchain_append default_env root (Some cur) period c = Some (Inr (ok, root', Some cur', c'))" "sums_apart d1 c'"
    using callchain_append_follows [OF h(2) s(1)] by blast
  obtain d2 ks' where d2: "holds_chains d2 (cr_node root) ks'" "sums_apart d2 d1"
  proof (cases ok)
    case False
    then show ?thesis using s(5) overcount_apart sums_apart_refl that by auto
  qed (use s(5) sums_apart_refl that in auto)
  have "cursor_ok cur'" using s(2) cur(1) by (simp add: same_list_def cursor_ok_def)
  moreover have "\<exists>j \<le> 2. ch_heap c' = drop j (ch_heap c)" using s(4) sums_apartD(5) [OF c'(2)] heap by simp
  ultimately show ?thesis using c'(1) s(3) d2(1) sums_apart_trans [OF d2(2) c'(2)] by blast
qed

lemma linux_insert_any:
  assumes g: "linux_spare K (Suc n) g" and t: "linux_shape g t" and s: "linux_accepts K s"
  shows "\<exists>r. linux_insert t g s = Some r \<and> (case r of Inl e \<Rightarrow> e \<in> {Exit_failure, Null_deref}
    | Inr (t', g') \<Rightarrow> linux_spare K n g' \<and> linux_shape g' t' \<and> (\<exists>j. lg_heap g' = drop j (lg_heap g)))"
proof -
  obtain T where K: "near K" and known: "maps_known K (2 * Suc n) g T" and tls: "\<And>c. tls_cursor g = Some c \<Longrightarrow> cursor_ok c"
    using g by (auto simp: linux_spare_def)
  obtain c0 g1 where c: "get_tls_callchain_cursor g = (c0, g1)" by (cases "get_tls_callchain_cursor g")
  have g1: "lg_maps g1 = lg_maps g" "lg_map_heap g1 = lg_map_heap g" "lg_heap g1 = lg_heap g"
    "c0 = None \<or> (\<exists>cur. c0 = Some cur \<and> cursor_ok cur)"
    using c tls zero_cursor_ok(1) by (auto simp: get_tls_callchain_cursor_def Let_def split: option.splits prod.splits if_splits)
  show ?thesis
  proof (cases c0)
    case None
    then show ?thesis using c by (simp add: linux_insert_def)
  next
    case (Some cur)
    let ?cur = "cur\<lparr>cu_nr := 0, cu_last := 0\<rparr>"
    have fresh: "cursor_ok ?cur" "\<forall>n \<in> set (written ?cur). plain n" by (simp_all add: cursor_ok_def written_def)
    have len: "cu_last ?cur + length (take MAX_STACK_ENTRIES s) < 2 ^ 32" by (simp add: MAX_STACK_ENTRIES_def min_def)
    have used_take: "takeWhile (\<lambda>e. ip e \<noteq> 0) (take MAX_STACK_ENTRIES s) = used s" by (simp add: used_def)
    have known1: "maps_known K (2 * Suc n) g1 T" by (rule maps_known_globals [OF known g1(1-3)])
    consider (dies) "build_cursor (take MAX_STACK_ENTRIES s) (?cur, g1) = Some (Inl Exit_failure)"
      | (built) cur1 g2 T' where "build_cursor (take MAX_STACK_ENTRIES s) (?cur, g1) = Some (Inr (cur1, g2))"
        "cursor_ok cur1" "\<forall>n \<in> set (written cur1). plain n" "maps_known K (2 * Suc n) g2 T'" "lg_heap g2 = lg_heap g"
      using build_cursor_any [OF K fresh len known1] s unfolding used_take linux_accepts_def g1(3) by blast
    then show ?thesis
    proof cases
      case dies
      then show ?thesis using c Some by (simp add: linux_insert_def)
    next
      case built
      have t2: "linux_shape g2 t" using shape_keeps [OF t, of g2 0] built(5) by simp
      have spare: "linux_spare K n g'" if "tls_cursor g' = Some cur'" "cursor_ok cur'" "lg_maps g' = lg_maps g2"
          "lg_map_heap g' = lg_map_heap g2" "lg_heap g' = drop i (lg_heap g2)" "i \<le> 2" for g' cur' i
        using K that(1,2) maps_known_drop [OF built(4) that(3-5), of "2 * n"] that(6) by (auto simp: linux_spare_def)
      show ?thesis
      proof (cases "cu_nr cur1 = 0")
        case True
        have "linux_insert t g s = Some (Inr (t, g2\<lparr>tls_cursor := Some cur1\<rparr>))"
          using c Some built(1) True by (simp add: linux_insert_def)
        moreover have "linux_spare K n (g2\<lparr>tls_cursor := Some cur1\<rparr>)" by (rule spare [of _ cur1 0]) (simp_all add: built(2))
        moreover have "linux_shape (g2\<lparr>tls_cursor := Some cur1\<rparr>) t" by (rule shape_keeps [OF t2, of _ 0]) simp
        ultimately show ?thesis using built(5) by (auto intro: exI [of _ 0])
      next
        case False
        obtain d ks where d: "holds_chains d (cr_node (lt_root t)) ks" "sums_apart d (chains_of g2 t)"
          using t2 by (auto simp: linux_shape_def)
        have "2 \<le> length (ch_heap (chains_of g2 t))" using built(4) by (auto simp: maps_known_def chains_of_def)
        then obtain ok root' cur' c' d' ks' i where a: "callchain_append default_env (lt_root t) (Some cur1) 0 (chains_of g2 t) =
            Some (Inr (ok, root', Some cur', c'))" "cr_node root' = cr_node (lt_root t)" "cursor_ok cur'" "i \<le> 2"
            "ch_heap c' = drop i (ch_heap (chains_of g2 t))" "holds_chains d' (cr_node (lt_root t)) ks'" "sums_apart d' c'"
          using append_shape [OF d built(2) False built(3), of 0] by blast
        let ?t = "\<lparr>lt_root = root', lt_nodes = cnodes c', lt_in = in_mem c', lt_out = out_mem c'\<rparr>"
        let ?g = "(put_chains c' g2)\<lparr>tls_cursor := Some cur'\<rparr>"
        have heap: "lg_heap ?g = drop i (lg_heap g2)" using a(5) by (simp add: put_chains_def chains_of_def)
        have "linux_insert t g s = Some (Inr (?t, ?g))"
          using c Some built(1) False a(1) by (simp add: linux_insert_def)
        moreover have "linux_spare K n ?g" by (rule spare [OF _ a(3) _ _ heap a(4)]) (simp_all add: put_chains_def)
        moreover have "chains_of ?g ?t = c'" by (simp add: chains_of_def put_chains_def)
        then have "linux_shape ?g ?t" using a(2,6,7) unfolding linux_shape_def by fastforce
        moreover have "lg_heap ?g = drop i (lg_heap g)" using heap built(5) by simp
        ultimately show ?thesis by (intro exI [of _ "Inr (?t, ?g)"] conjI) (simp_all, blast)
      qed
    qed
  qed
qed

text \<open>\<open>linux_tree_new\<close> does not look at the maps: it does what it does before there are any.\<close>

lemma linux_new_any:
  assumes g: "linux_spare K (Suc n) g"
  shows "case linux_tree_new g of Inl e \<Rightarrow> e = Exit_failure
    | Inr (t, g') \<Rightarrow> linux_spare K n g' \<and> linux_shape g' t \<and> (\<exists>j. lg_heap g' = drop j (lg_heap g))"
proof -
  let ?g = "g\<lparr>lg_alloc := some_alloc, lg_maps := init_maps, lg_map_heap := []\<rparr>"
  obtain T where T: "maps_known K (2 * Suc n) g T" using g by (auto simp: linux_spare_def)
  have "maps_ok (init_maps, []) (\<lambda>_. None)" by (rule maps_ok_init) (simp add: good_heap_def)
  then have "linux_ready {} (Suc n) ?g" using g T
    by (auto simp: linux_ready_def linux_spare_def maps_ready_def maps_known_def some_alloc_def near_def
        intro!: exI [of _ "\<lambda>_. None"])
  from linux_new_ok [OF this] obtain t g1 j where s: "linux_tree_new ?g = Inr (t, g1)" "linux_ready {} n g1"
      "linux_holds g1 t []" "lg_heap g1 = drop j (lg_heap g)" by auto
  obtain ok a where a1: "ccalloc (lg_alloc g) = (ok, a)" by (cases "ccalloc (lg_alloc g)")
  obtain ok' a' where a2: "ccalloc a = (ok', a')" by (cases "ccalloc a")
  note a = a1 a2
  show ?thesis
  proof (cases "ok \<and> ok'")
    case True
    let ?g1 = "g\<lparr>lg_alloc := a', lg_heap := lg_heap g1\<rparr>"
    have new: "linux_tree_new g = Inr (t, ?g1)" "lg_heap g1 = tl (lg_heap g)" "lg_heap g \<noteq> []"
      using s(1) a True ccalloc_plenty [of some_alloc] ccalloc_plenty [of "some_alloc\<lparr>num_allocs := num_allocs some_alloc + 1\<rparr>"]
      by (cases g; auto simp: linux_tree_new_def some_alloc_def Let_def callchain_init_def upd_cn_def ld_cn_def chains_of_def
          calloc_or_die_def split: list.splits if_splits)+
    have "linux_shape ?g1 t"
      using s(3) shape_keeps [of g1 t ?g1 0] holds_shape by (auto simp: linux_holds_def)
    moreover have "maps_known K (2 * n) ?g1 T"
      using new(2) maps_known_drop [OF T, of ?g1 1 "2 * n"] by (simp add: drop_Suc)
    then have "linux_spare K n ?g1" using g by (auto simp: linux_spare_def)
    ultimately show ?thesis using new(1) s(4) by auto
  qed (use a in \<open>auto simp: linux_tree_new_def\<close>)
qed

definition trees_apart :: "linux_tree \<Rightarrow> linux_tree \<Rightarrow> bool" where
  "trees_apart u t \<longleftrightarrow> lt_in t = lt_in u \<and> (\<forall>p. rel_option node_alike (lt_nodes u p) (lt_nodes t p))"

lemma stats_loop_apart:
  "stats_loop u n sums = Some r \<Longrightarrow> \<forall>x acc. r = Inr x \<longrightarrow> trees_apart u t \<longrightarrow> (\<exists>y. stats_loop t n acc = Some (Inr y))"
proof (induction u n sums r rule: stats_loop.raw_induct [rotated, consumes 1, case_names Stats])
  case (Stats f u n sums r)
  show ?case
  proof (intro allI impI)
    fix x acc assume r: "r = Inr x" and t: "trees_apart u t"
    show "\<exists>y. stats_loop t n acc = Some (Inr y)"
    proof (cases "n = 0")
      case False
      obtain cn nx where u: "lt_nodes u n = Some cn" "rb_next \<lparr>mem = lt_in u, rb_root = 0\<rparr> n = Some (Inr nx)"
          "f u nx (fst sums + ucast (cn_count cn), snd sums + ucast (callchain_cumul_counts cn)) = Some r"
        using Stats(2) r False by auto
      have "rel_option node_alike (lt_nodes u n) (lt_nodes t n)" "lt_in t = lt_in u" using t by (simp_all add: trees_apart_def)
      then obtain m where m: "lt_nodes t n = Some m" "lt_in t = lt_in u" using u(1) by (auto simp: option_rel_Some1)
      have "\<exists>y. stats_loop t nx acc' = Some (Inr y)" for acc' using Stats(1) [OF u(3)] r t by blast
      then show ?thesis using False m u(2) by (subst stats_loop.simps) simp
    qed (simp add: stats_loop.simps)
  qed
qed

lemma linux_stats_any:
  assumes "linux_shape g t"
  shows "\<exists>sums. linux_stats t = Some (Inr sums)"
proof -
  obtain d ks where d: "holds_chains d (cr_node (lt_root t)) ks" "sums_apart d (chains_of g t)"
    using assms by (auto simp: linux_shape_def)
  let ?u = "t\<lparr>lt_nodes := cnodes d\<rparr>"
  have "chains_of (put_chains d g) ?u = d"
    using sums_apartD(2,3) [OF d(2)] by (simp add: chains_of_def put_chains_def)
  then have "holds_chains (chains_of (put_chains d g) ?u) (cr_node (lt_root ?u)) ks" using d(1) by simp
  from linux_stats_ok [OF this] obtain r n where r: "cnodes d (cr_node (lt_root t)) = Some r"
      "rb_first \<lparr>mem = lt_in t, rb_root = rb_root_in r\<rparr> = Some (Inr n)" "\<exists>x. stats_loop ?u n (0, 0) = Some (Inr x)"
    by (auto simp: linux_stats_def)
  have n: "rel_option node_alike (lt_nodes ?u p) (lt_nodes t p)" for p
    using sums_apartD(1) [OF d(2), of p] by (simp add: chains_of_def)
  obtain m where m: "lt_nodes t (cr_node (lt_root t)) = Some m" "rb_root_in m = rb_root_in r"
    using n [of "cr_node (lt_root t)"] r(1) by (auto simp: option_rel_Some1 node_alike_def)
  have "\<exists>y. stats_loop t n (0, 0) = Some (Inr y)" using r(3) stats_loop_apart [of ?u n "(0, 0)" _ t] n by (auto simp: trees_apart_def)
  then show ?thesis using m r(2) by (auto simp: linux_stats_def)
qed

interpretation linux_ending: ending_backend linux_ops linux_shape "linux_spare K" "linux_accepts K" "{Exit_failure, Null_deref}" for K
proof
  show "\<exists>r. op_new linux_ops g = Some r \<and> (case r of Inl e \<Rightarrow> e \<in> {Exit_failure, Null_deref}
      | Inr (t, g') \<Rightarrow> linux_spare K n g' \<and> linux_shape g' t \<and> (\<forall>u. linux_shape g u \<longrightarrow> linux_shape g' u))"
    if "linux_spare K (Suc n) g" for n g
    using linux_new_any [OF that] shape_keeps by (fastforce simp: linux_ops_def split: sum.splits)
  show "\<exists>r. op_insert linux_ops t g s = Some r \<and> (case r of Inl e \<Rightarrow> e \<in> {Exit_failure, Null_deref}
      | Inr (t', g') \<Rightarrow> linux_spare K n g' \<and> linux_shape g' t' \<and> (\<forall>u. linux_shape g u \<longrightarrow> linux_shape g' u))"
    if "linux_spare K (Suc n) g" "linux_shape g t" "linux_accepts K s" for n g t s
    using linux_insert_any [OF that] shape_keeps by (fastforce simp: linux_ops_def split: sum.splits)
  show "\<exists>out. op_stats linux_ops t = Some (Inr out)" if "linux_shape g t" for g t
    using linux_stats_any [OF that] by (auto simp: linux_ops_def)
  show "linux_spare K n g" if "linux_spare K (Suc n) g" for n g
    using that maps_known_drop [of K "2 * Suc n" g _ g 0 "2 * n"] by (fastforce simp: linux_spare_def)
qed simp

subsection \<open>Whole runs\<close>

text \<open>C12. The program with the Linux backend ends whatever the allocations answer, those of the
  backend by any plan, those of \<open>get_map\<close> and \<open>get_tree\<close> by addresses that may run out at any time, on records whose
  maps lie less than \<open>2 ^ 31\<close> apart: it stops for want of memory, in \<open>die()\<close> or by dereferencing the
  cursor that was not allocated, or reports 20 times the records and one tree per id. (The
  addresses \<open>h'\<close> are those the backend's successful calls return, so there have to be as many as
  a run can ask for; which calls fail is said by the plan.)\<close>

theorem main_linux_ends:
  assumes "good_heap h {}" "near (maps_of records)" "good_heap hm {}" "good_heap h' {}" "80 * length records \<le> length h'"
  shows "case main_loop linux_ops records (first_globals a hm h') h of None \<Rightarrow> False
    | Some (Inl e) \<Rightarrow> e = Exit_failure \<or> e = Null_deref
    | Some (Inr (n, out, nt)) \<Rightarrow> n = of_nat (20 * length records) \<and> nt = of_nat (card (r_id ` set records))"
proof -
  have spare: "linux_spare (maps_of records) (40 * length records) (first_globals a hm h')"
    using assms(2) first_known [OF assms(3,4)] assms(5) by (auto simp: linux_spare_def first_globals_def)
  have acc: "\<forall>r \<in> set records. linux_accepts (maps_of records) (r_stack r)"
    by (auto simp: linux_accepts_def maps_of_def)
  show ?thesis using linux_ending.run_ends [OF assms(1) spare acc]
    by (auto simp: linux_ending.ends_def split: option.splits sum.splits)
qed

text \<open>No memory for a node of a tree, and none for the second map.\<close>

theorem main_linux_ends_witness:
  "case main_loop linux_ops linux_records
      (first_globals (some_alloc\<lparr>plan := [True, True, True, True, False, True, False]\<rparr>) [16, 32, 48] (addresses 200)) [16, 32] of
      None \<Rightarrow> False
    | Some (Inl e) \<Rightarrow> e = Exit_failure \<or> e = Null_deref
    | Some (Inr (n, out, nt)) \<Rightarrow> n = of_nat (20 * length linux_records) \<and> nt = of_nat (card (r_id ` set linux_records))"
proof -
  have "good_heap [16, 32, 48] {}" by code_simp
  then show ?thesis by (rule main_linux_ends [OF linux_memory(1,3) _ linux_memory(7,8)])
qed

end
