(* ===== verification/Backends_Agree.thy ===== *)
theory Backends_Agree
  imports Backends Linux_Backend
begin

text \<open>
  The Linux backend and the radix tree agree: both are counters of stacks, so on records that
  suit both, a search in the one finds the count of the other. They cut a stack by different
  loops (\<open>used\<close> and \<open>stack_end\<close>) and compare different things (pairs of map and address, and
  bytes); on stacks that end these are the same.
\<close>

lemma scan_takeWhile: "scan_stack k es = Some n \<Longrightarrow> takeWhile (\<lambda>e. ip e \<noteq> 0) (take k es) = take n es"
  by (induction k es arbitrary: n rule: scan_stack.induct) (auto split: if_splits)

lemma used_stack_key: "stack_end s = Some n \<Longrightarrow> used s = stack_key s"
  using scan_takeWhile [of MAX_STACK_ENTRIES s n] by (simp add: used_def stack_key_def stack_end_def)

lemma entry_key_inj: "inj (\<lambda>e :: callstack_entry. (cmap e, ip e))"
  by (rule injI) (simp add: callstack_entry.equality)

lemma chain_path_eq:
  assumes "stack_end s \<noteq> None" "stack_end s' \<noteq> None"
  shows "chain_path s = chain_path s' \<longleftrightarrow> stack_key s = stack_key s'"
  using assms by (auto simp: chain_path_def used_stack_key inj_map_eq_map [OF entry_key_inj])

lemma count_chain_path:
  assumes "\<forall>s \<in> set ss. stack_end s \<noteq> None" "stack_end s \<noteq> None"
  shows "count_list (map chain_path ss) (chain_path s) = count_list (map stack_key ss) (stack_key s)"
  using assms by (induction ss) (simp_all add: chain_path_eq del: not_None_eq)

text \<open>A stack the radix tree accepts ends.\<close>

lemma art_accepts_ends: "art_accepts ss s \<Longrightarrow> stack_end s \<noteq> None"
  by (auto simp: art_accepts_def stack_safe_def split: sum.splits option.splits)

lemma all_accepted_ends: "all_accepted art_accepts ss \<Longrightarrow> \<forall>s \<in> set ss. stack_end s \<noteq> None"
  using art_accepts_ends by (fastforce simp: all_accepted_def in_set_conv_nth)

text \<open>What a search finds in a tree that holds the stacks \<open>ss\<close>, \<open>a\<close> of them the one looked for.\<close>

definition near_count :: "nat \<Rightarrow> art_node option \<Rightarrow> bool" where
  "near_count a r \<longleftrightarrow> (case r of None \<Rightarrow> a = 0
     | Some n \<Rightarrow> art_hdr.count (hdr n) = of_nat a \<or> 0 < a \<and> art_hdr.count (hdr n) = of_nat (a - 1))"

lemma art_holds_search:
  assumes "art_holds t ss" "stack_end s = Some n"
  shows "\<exists>r. art_search t (stack_stream s n) = Inr r \<and> near_count (count_list (map stack_key ss) (stack_key s)) r"
proof -
  have t: "art_rep t (tally (map stack_key ss))" using assms(1) by (simp add: art_holds_def)
  have k: "stream_ok (stack_stream s n)" "skey (stack_stream s n) = stack_bytes (stack_key s)"
    using stack_stream_ok [OF assms(2)] by blast+
  obtain r where r: "art_search t (stack_stream s n) = Inr r" "map_option (\<lambda>n. art_hdr.count (hdr n)) r = root_sem t (stack_bytes (stack_key s))"
    using root_search [OF _ k(1)] t unfolding k(2) art_rep_def by blast
  let ?a = "count_list (map stack_key ss) (stack_key s)"
  have "(case map_of (tally (map stack_key ss)) (stack_key s) of None \<Rightarrow> 0 | Some n \<Rightarrow> n) = ?a"
    by (simp add: map_of_tally count_list_0_iff)
  then have "case root_sem t (stack_bytes (stack_key s)) of None \<Rightarrow> ?a = 0
      | Some c \<Rightarrow> c = of_nat ?a \<or> 0 < ?a \<and> c = of_nat (?a - 1)"
    using t [unfolded art_rep_def Let_def, THEN conjunct2, THEN spec [of _ "stack_key s"]] by (simp only:)
  then have "near_count ?a r"
    unfolding r(2) [symmetric] near_count_def by (cases r) simp_all
  then show ?thesis using r(1) by blast
qed

lemma linux_holds_search:
  assumes "linux_holds g t ss" "\<forall>s \<in> set ss. stack_end s \<noteq> None"
  shows "\<exists>ks. holds_chains (chains_of g t) (cr_node (lt_root t)) ks \<and>
    (\<forall>s n. stack_end s = Some n \<and> 0 < n \<longrightarrow> count_at ks (chain_path s) = of_nat (count_list (map stack_key ss) (stack_key s)))"
proof -
  obtain ks where ks: "holds_chains (chains_of g t) (cr_node (lt_root t)) ks"
    "\<And>p. p \<noteq> [] \<Longrightarrow> count_at ks p = of_nat (count_list (map chain_path ss) p)"
    using assms(1) unfolding linux_holds_def by blast
  have "count_at ks (chain_path s) = of_nat (count_list (map stack_key ss) (stack_key s))"
    if s: "stack_end s = Some n" "0 < n" for s n
  proof -
    have "length (stack_key s) = n" using stack_end_Some [OF s(1)] s(1) by (simp add: stack_key_def)
    then have "chain_path s \<noteq> []" using s used_stack_key [OF s(1)] by (auto simp: chain_path_def)
    then show ?thesis using ks(2) count_chain_path [OF assms(2)] s(1) by simp
  qed
  then show ?thesis using ks(1) by blast
qed

text \<open>C4. The Linux backend and the radix tree run over the same records, with enough memory. The
  maps of the records lie less than \<open>2 ^ 31\<close> apart, and every stack that comes to an id is, when it
  comes, outside the situations in which the id's radix tree loses keys or counts
  (\<open>all_accepted art_accepts\<close>); records with such a stack are excluded. Then for every id both leave
  a tree, and for every stack that ends and is not empty the tree of chains
  has 20 times the number of its arrivals, and a search of the radix tree finds this number or
  one less, or nothing when the number is 0.\<close>

theorem backends_agree:
  assumes "good_heap h {}" "card (r_id ` set records) \<le> length h" "near (maps_of records)" "plan a = []"
    and "good_heap hm {}" "2 * card (maps_of records) \<le> length hm" "good_heap h' {}" "80 * length records \<le> length h'"
    and "plan b = []"
    and "\<forall>k. all_accepted art_accepts (concat (replicate 20 (stacks_of k records)))"
  shows "\<exists>s s'. rounds 20 linux_ops records (init_state (first_globals a hm h') h) = Some (Inr s) \<and>
    rounds 20 art_ops records (init_state b h) = Some (Inr s') \<and> num_records s = num_records s' \<and>
    (\<forall>k \<in> r_id ` set records. \<exists>q t ks q' t'.
       get_tree linux_ops k (trees s, shared s, free_mem s) = Some (Inr (q, trees s, shared s, free_mem s)) \<and>
       tree_at (trees s) q = Some \<lparr>tr_id = k, cs_tree = t\<rparr> \<and>
       holds_chains (chains_of (shared s) t) (cr_node (lt_root t)) ks \<and>
       get_tree art_ops k (trees s', shared s', free_mem s') = Some (Inr (q', trees s', shared s', free_mem s')) \<and>
       tree_at (trees s') q' = Some \<lparr>tr_id = k, cs_tree = t'\<rparr> \<and>
       (\<forall>x n. stack_end x = Some n \<and> 0 < n \<longrightarrow>
          (let arrivals = 20 * count_list (map stack_key (stacks_of k records)) (stack_key x) in
            count_at ks (chain_path x) = of_nat arrivals \<and>
            (\<exists>r. art_search t' (stack_stream x n) = Inr r \<and> near_count arrivals r))))"
proof -
  let ?K = "maps_of records" and ?rs = "concat (replicate 20 records)"
  have ready: "linux_ready ?K (2 * (20 * length records)) (first_globals a hm h')"
    using assms(3-8) finite_maps_of by (intro first_ready) auto
  obtain s where s: "rounds 20 linux_ops records (init_state (first_globals a hm h') h) = Some (Inr s)"
    "linux_main.loop_inv ?K s ?rs 0"
    using linux_main.rounds_hold [OF assms(1,2) ready] linux_accepts_all by blast
  obtain s' where s': "rounds 20 art_ops records (init_state b h) = Some (Inr s')" "art_main.loop_inv s' ?rs 0"
    using art_main.rounds_hold [OF assms(1,2) _ assms(10), of b] assms(9) by (auto simp: plenty_def)
  have nums: "num_records s = num_records s'"
    using s(2) s'(2) unfolding linux_main.loop_inv_def art_main.loop_inv_def by metis
  have times: "count_list (map stack_key (stacks_of k ?rs)) p = 20 * count_list (map stack_key (stacks_of k records)) p" for k p
  proof -
    have "count_list (map stack_key (concat (replicate n (stacks_of k records)))) p = n * count_list (map stack_key (stacks_of k records)) p" for n
      by (induction n) simp_all
    then show ?thesis by (simp only: stacks_of_repeat)
  qed
  have each: "\<exists>q t ks q' t'.
       get_tree linux_ops k (trees s, shared s, free_mem s) = Some (Inr (q, trees s, shared s, free_mem s)) \<and>
       tree_at (trees s) q = Some \<lparr>tr_id = k, cs_tree = t\<rparr> \<and>
       holds_chains (chains_of (shared s) t) (cr_node (lt_root t)) ks \<and>
       get_tree art_ops k (trees s', shared s', free_mem s') = Some (Inr (q', trees s', shared s', free_mem s')) \<and>
       tree_at (trees s') q' = Some \<lparr>tr_id = k, cs_tree = t'\<rparr> \<and>
       (\<forall>x n. stack_end x = Some n \<and> 0 < n \<longrightarrow>
          (let arrivals = 20 * count_list (map stack_key (stacks_of k records)) (stack_key x) in
            count_at ks (chain_path x) = of_nat arrivals \<and>
            (\<exists>r. art_search t' (stack_stream x n) = Inr r \<and> near_count arrivals r)))"
    if k: "k \<in> r_id ` set records" for k
  proof -
    have kr: "k \<in> r_id ` set ?rs" using k by (simp add: set_replicate_conv_if)
    have ends: "\<forall>x \<in> set (stacks_of k ?rs). stack_end x \<noteq> None"
      using all_accepted_ends [OF assms(10) [THEN spec [of _ k]]] unfolding stacks_of_repeat .
    obtain q t where q: "get_tree linux_ops k (trees s, shared s, free_mem s) = Some (Inr (q, trees s, shared s, free_mem s))"
      "tree_at (trees s) q = Some \<lparr>tr_id = k, cs_tree = t\<rparr>" "linux_holds (shared s) t (stacks_of k ?rs)"
      using linux_main.loop_inv_tree [OF s(2) kr] by blast
    obtain q' t' where q': "get_tree art_ops k (trees s', shared s', free_mem s') = Some (Inr (q', trees s', shared s', free_mem s'))"
      "tree_at (trees s') q' = Some \<lparr>tr_id = k, cs_tree = t'\<rparr>" "art_holds t' (stacks_of k ?rs)"
      using art_main.loop_inv_tree [OF s'(2) kr] by blast
    show ?thesis
      using q(1,2) q'(1,2) linux_holds_search [OF q(3) ends] art_holds_search [OF q'(3)]
      unfolding times Let_def by blast
  qed
  show ?thesis using s(1) s'(1) nums each by blast
qed

text \<open>The records of \<open>main_art_trees\<close> suit both backends.\<close>

lemma art_records_maps: "maps_of art_records = {2, 3}" "length art_records = 2"
  by code_simp+

lemma memory_for_both: "near (maps_of art_records)" "good_heap [16, 32, 48, 64] {}"
  "2 * card (maps_of art_records) \<le> length [16, 32, 48, 64 :: u64]" "good_heap (addresses 200) {}"
  "80 * length art_records \<le> length (addresses 200)"
  by (simp_all add: art_records_maps good_addresses near_def) (simp_all add: good_heap_def aligned_def addresses_def)

theorem backends_agree_witness:
  "\<exists>s s'. rounds 20 linux_ops art_records (init_state (first_globals some_alloc [16, 32, 48, 64] (addresses 200)) [16, 32]) = Some (Inr s) \<and>
    rounds 20 art_ops art_records (init_state enough [16, 32]) = Some (Inr s') \<and> num_records s = num_records s' \<and>
    (\<forall>k \<in> r_id ` set art_records. \<exists>q t ks q' t'.
       get_tree linux_ops k (trees s, shared s, free_mem s) = Some (Inr (q, trees s, shared s, free_mem s)) \<and>
       tree_at (trees s) q = Some \<lparr>tr_id = k, cs_tree = t\<rparr> \<and>
       holds_chains (chains_of (shared s) t) (cr_node (lt_root t)) ks \<and>
       get_tree art_ops k (trees s', shared s', free_mem s') = Some (Inr (q', trees s', shared s', free_mem s')) \<and>
       tree_at (trees s') q' = Some \<lparr>tr_id = k, cs_tree = t'\<rparr> \<and>
       (\<forall>x n. stack_end x = Some n \<and> 0 < n \<longrightarrow>
          (let arrivals = 20 * count_list (map stack_key (stacks_of k art_records)) (stack_key x) in
            count_at ks (chain_path x) = of_nat arrivals \<and>
            (\<exists>r. art_search t' (stack_stream x n) = Inr r \<and> near_count arrivals r))))"
  by (rule backends_agree [OF two_heap])
    (simp_all only: art_records_accepted_all memory_for_both, simp_all add: art_records_ids enough_def some_alloc_def)

end
