(* ===== verification/Spec2Isabelle.thy ===== *)
theory Spec2Isabelle
  imports Hashtable_Props Art_Faults Art_Test Hash_Test Rbtree_Props Rbtree_Remove List_Ref Hot Maps
    Merge_Correct Chain_Graph Linux_Any Backends_Agree
begin

text \<open>
  A verification development for \<open>callstack-count\<close>, a C program that counts how often each
  callstack of a profile occurs, with exchangeable data structures. All paths are relative to
  \<open>src/src\<close> of the repository.

  \<^bold>\<open>The program.\<close> \<open>main.c\<close> reads a table of records, each an id and a stack of entries
  (instruction pointer and map), twenty times over. For the id of a record it looks up a tree
  of the chosen backend in a red-black tree of trees (\<open>get_tree\<close>), makes a new one with the
  backend's \<open>new\<close> where there is none, and gives it the stack with the backend's \<open>insert\<close>; at the
  end it walks over the trees and lets the backend print what it holds. Backends are
  \<open>struct callstack_ops\<close>: \<open>lib/linux\<close> keeps radix trees of callchains as \<open>perf\<close> does, on
  red-black trees and linked lists; \<open>lib/art\<close> is an adaptive radix tree over the bytes of a stack;
  \<open>lib/hashtable\<close> is a hash table with three inline buckets and an array; \<open>lib/hot\<close> is a stub.

  \<^bold>\<open>Theories, from the bottom up.\<close>
  \<^item> \<open>Prelude\<close>: machine words (x86-64), the errors a run can end in, checked array reads, the
    fact collections; \<open>Loops\<close>: loops as step functions run by a partial function, in which
    \<open>None\<close> is a loop that never ends, so every theorem that gives a result proves termination too;
    \<open>Counting\<close>: the abstract counter a backend should be, as a locale.
  \<^item> \<open>Callstack\<close>: entries, records, the end of a stack (\<open>include/callstack.h\<close>, \<open>include/data/data.h\<close>)
    and the counting allocator (\<open>ccalloc.c\<close>, \<open>lib/linux/zalloc.c\<close>). The allocator takes from a plan
    which calls fail; \<open>plan a = []\<close> is a run in which memory does not end.
  \<^item> \<open>Jenkins\<close>, \<open>Hashtable\<close>, \<open>Hashtable_Count\<close>, \<open>Hashtable_Props\<close>, \<open>Hash_Test\<close>:
    \<open>lib/hashtable\<close>. \<open>hashtable\<close>, \<open>bucket\<close> and
    \<open>hstream\<close> are the structs, \<open>hash_insert\<close> and \<open>hash_lookup\<close> the operations; proved are exact
    counts while the inline buckets last, what the move to the array forgets, and the errors;
    \<open>Hash_Test\<close> runs its test program. \<open>Test_Support\<close> has what both test programs use.
  \<^item> \<open>Art\<close>, \<open>Art_Lasting\<close>, \<open>Art_Layout\<close>, \<open>Art_Grow\<close>, \<open>Art_Correct\<close>, \<open>Art_Insert\<close>, \<open>Art_Count\<close>, \<open>Art_Props\<close>, \<open>Art_Faults\<close>,
    \<open>Art_Type\<close>, \<open>Art_Test\<close>:
    \<open>lib/art\<close>. A node is its header and its array of children; a key ends at its terminator.
    Every operation takes the allocator: \<open>art.c\<close> writes through what \<open>calloc\<close> returns without a test,
    so a failed call ends in \<open>Null_deref\<close>. \<open>Art_Lasting\<close> relates each operation to a counterpart
    without the allocator (\<open>grants\<close>: the same result with successes used up, or the failed call),
    and the lemmas after it are about the counterparts. Layouts and growth come first, then search as a function of the stored keys, then insertion
    where no key is lost (\<open>stack_safe\<close> names those situations) and then the situations that
    lose keys, each as a theorem. \<open>Art_Type\<close> shows that also those leave a well-formed tree, and
    \<open>Art_Test\<close> runs the test program of the repository on the model.
  \<^item> \<open>Rbtree\<close>, \<open>Rbtree_Zipper\<close>, \<open>Rbtree_Insert\<close>, \<open>Rbtree_Inv\<close>, \<open>Rbtree_Add\<close>, \<open>Rbtree_Walk\<close>,
    \<open>Rbtree_Erase\<close>, \<open>Rbtree_Remove\<close>, \<open>Rbtree_Props\<close>: \<open>lib/linux/rbtree.c\<close> and its headers
    on a memory of nodes whose parent word holds the
    colour. \<open>holds_tree\<close> relates a memory to a tree; insertion and erasure refine fixups on trees with a
    hole, which keep the red-black properties and the order.
  \<^item> \<open>List_Head\<close>, \<open>List_Ref\<close>: \<open>include/linux/list.h\<close> on a memory of linked heads; \<open>list_rep\<close> relates it
    to lists of addresses, and every operation refines one on lists.
  \<^item> \<open>Locate\<close>, \<open>Main_Loop\<close>, \<open>Main_Correct\<close>, \<open>Main_Run\<close>, \<open>Maps\<close>: \<open>main.c\<close>. \<open>callstack_backend\<close> in \<open>Main_Run\<close> is
    the contract between the main loop and a backend, as a locale: what \<open>new\<close>, \<open>insert\<close> and
    \<open>stats\<close> keep; the whole run is proved once from it.
  \<^item> \<open>Backends\<close>: the contract for the radix tree and the hash table, with the runs of the program;
    \<open>Main_Total\<close>: a weaker contract, \<open>ending_backend\<close>, under which the program ends for every table
    and every outcome of the allocations.
  \<^item> \<open>Chain_Data\<close>, \<open>Cursor\<close>, \<open>Chain_Tree\<close>, \<open>Chain_Rep\<close>, \<open>Chain_Ops\<close>, \<open>Chain_Descend\<close>, \<open>Chain_Kids\<close>, \<open>Chain_Append\<close>,
    \<open>Chain_Count\<close>, \<open>Chain_Alloc\<close>, \<open>Chain_Fail\<close>, \<open>Chain_Sums\<close>, \<open>Chain_Merge\<close>, \<open>Merge_Correct\<close>,
    \<open>Chain_Sort\<close>, \<open>Chain_Graph\<close>: \<open>lib/linux/callchain.c\<close> and \<open>include/callchain.h\<close>. Nodes
    lie in memory with their children in red-black trees; \<open>holds_chains\<close> relates the memory to
    a tree of chains, \<open>callchain_append\<close> refines an insertion into it, which counts exactly the
    chain of the cursor, and \<open>callchain_merge\<close> adds the hits of one tree to another.
    \<open>Chain_Alloc\<close> and \<open>Chain_Fail\<close> follow
    an append through every failure of an allocation; \<open>Chain_Sums\<close> shows that the counters such a
    failure leaves wrong do not change where later chains go.
  \<^item> \<open>Linux_Backend\<close>: \<open>lib/linux/callstack.c\<close>, the contract for it and the run of the program with it;
    \<open>Linux_Any\<close>: the weaker contract for it, whichever allocations fail; \<open>Backends_Agree\<close>: the Linux
    backend and the radix tree count the same stacks alike.
  \<^item> \<open>Hot\<close>: \<open>lib/hot\<close>.

  \<^bold>\<open>Conventions.\<close> A pointer is a 64-bit address or a place in a list, NULL is 0 or \<open>None\<close>. A failed
  assertion, a NULL or dangling pointer, an access out of bounds, a read of an unwritten
  variable and \<open>exit(1)\<close> are values of \<open>cerror\<close>. The addresses coming allocations return are
  an argument (\<open>heap\<close>); \<open>good_heap\<close> says that they are new, distinct, aligned and not NULL. \<open>get_tree\<close>,
  \<open>get_map\<close> and the nodes of the Linux backend have a list of addresses each; for the first two an
  empty list is a failed call, the failures of the third are those of the plan. Fixed
  numbers: 16 bytes an entry, at most \<open>MAX_STACK_ENTRIES\<close> entries a stack, 20 rounds. No definition
  uses fuel: recursion is structural, has a measure, or is a partial function whose results are
  proved to be there.

  \<^bold>\<open>Modelled as arguments.\<close> The symbols that \<open>match_chain\<close> asks for (\<open>symtab\<close>), the product of
  doubles in the relative sort, the table of records, the outcomes of \<open>calloc\<close>.

  \<^bold>\<open>Not modelled.\<close> The reference counts of maps behind \<open>maps__get\<close>, \<open>map__get\<close> and
  \<open>map_symbol__exit\<close>, which are not code of the program; output; the release of a cursor when a
  thread ends and the creation of its key, which the C library calls; \<open>struct hlist_head\<close> and the
  templates of augmented callbacks, which nothing uses; the unused demo callbacks of \<open>main.c\<close>;
  the vendored headers of the kernel, of \<open>perf\<close> and of \<open>drm\<close>, most lines of the
  repository, which only declare.
\<close>

end
